(* ===== verification/Prelude.thy ===== *)
theory Prelude
  imports Main
begin

text \<open>
  Shared vocabulary of the development.

  \<^item> Failures of the C++ code that end the process or are undefined behaviour are values of
    \<open>fault\<close>; an operation that can fail returns \<open>fault + 'a\<close>, and \<open>rbind\<close> chains two of them.
  \<^item> \<open>std::map\<close> is an association list kept in increasing order of its keys: \<open>om_find\<close>,
    \<open>om_put\<close>, \<open>om_erase\<close> and \<open>om_at\<close> (the inserting \<open>operator[]\<close>). The locale
    \<open>ordered_map\<close> states the interface its clients use.
  \<^item> \<open>vec_at\<close> is \<open>std::vector::operator[]\<close> with the out-of-range read made explicit.
\<close>

named_theorems fault_simps "unfolding of the failure monad"
named_theorems om_simps "laws of the ordered maps"

section \<open>Failures\<close>

datatype fault =
    Out_Of_Range          \<comment> \<open>indexing a vector outside its elements\<close>
  | Bad_Variant_Access    \<comment> \<open>\<open>std::get\<close> on the wrong alternative\<close>
  | Dangling_Handle       \<comment> \<open>use of a list iterator whose element was erased\<close>
  | Null_Pointer          \<comment> \<open>call through an empty \<open>unique_ptr\<close>\<close>
  | Buffer_Overflow       \<comment> \<open>\<open>strcpy\<close> past the end of a \<open>char\<close> array\<close>
  | Signed_Overflow       \<comment> \<open>\<open>int\<close> arithmetic outside its range\<close>
  | Invalid_Argument      \<comment> \<open>\<open>std::invalid_argument\<close> thrown by \<open>std::stoi\<close>\<close>
  | Stoi_Out_Of_Range     \<comment> \<open>\<open>std::out_of_range\<close> thrown by \<open>std::stoi\<close>\<close>
  | Bad_Descriptor        \<comment> \<open>system call on an uninitialised file descriptor\<close>
  | Division_By_Zero      \<comment> \<open>integer division by zero\<close>
  | Bad_Shift             \<comment> \<open>shift by a negative amount or by at least the width\<close>
  | Unreachable           \<comment> \<open>\<open>__builtin_unreachable()\<close> was reached\<close>

type_synonym 'a res = "fault + 'a"

definition rbind :: "'a res \<Rightarrow> ('a \<Rightarrow> 'b res) \<Rightarrow> 'b res" where
  "rbind m f = (case m of Inl e \<Rightarrow> Inl e | Inr x \<Rightarrow> f x)"

lemma rbind_Inl [simp, fault_simps]: "rbind (Inl e) f = Inl e"
  by (simp add: rbind_def)

lemma rbind_Inr [simp, fault_simps]: "rbind (Inr x) f = f x"
  by (simp add: rbind_def)

lemma rbind_assoc: "rbind (rbind m f) g = rbind m (\<lambda>x. rbind (f x) g)"
  by (cases m) simp_all

lemma rbind_eq_Inr_iff: "rbind m f = Inr y \<longleftrightarrow> (\<exists>x. m = Inr x \<and> f x = Inr y)"
  by (cases m) auto

lemma rbind_Inr_E:
  assumes "rbind m f = Inr y"
  obtains x where "m = Inr x" and "f x = Inr y"
  using assms by (auto simp: rbind_eq_Inr_iff)

section \<open>Vectors\<close>

definition vec_at :: "'a list \<Rightarrow> int \<Rightarrow> 'a res" where
  "vec_at xs i = (if 0 \<le> i \<and> i < int (length xs) then Inr (xs ! nat i) else Inl Out_Of_Range)"

lemma vec_at_in_range [simp]: "0 \<le> i \<Longrightarrow> i < int (length xs) \<Longrightarrow> vec_at xs i = Inr (xs ! nat i)"
  by (simp add: vec_at_def)

lemma vec_at_Inr_iff: "vec_at xs i = Inr x \<longleftrightarrow> 0 \<le> i \<and> i < int (length xs) \<and> x = xs ! nat i"
  by (auto simp: vec_at_def)

lemma vec_at_fault_iff: "vec_at xs i = Inl e \<longleftrightarrow> e = Out_Of_Range \<and> \<not> (0 \<le> i \<and> i < int (length xs))"
  by (auto simp: vec_at_def)

lemma drop_at: "0 \<le> i \<Longrightarrow> i < int (length xs) \<Longrightarrow> drop (nat i) xs = xs ! nat i # drop (nat (i + 1)) xs"
  by (simp add: nat_add_distrib Cons_nth_drop_Suc nat_less_iff)

lemma list_all_take: "list_all P xs \<Longrightarrow> list_all P (take n xs)"
  by (metis append_take_drop_id list_all_append)

lemma list_all_drop: "list_all P xs \<Longrightarrow> list_all P (drop n xs)"
  by (metis append_take_drop_id list_all_append)

text \<open>The elements \<open>xs[i], \<dots>, xs[j]\<close> of a vector, both ends included.\<close>

definition segment :: "int \<Rightarrow> int \<Rightarrow> 'a list \<Rightarrow> 'a list" where
  "segment i j xs = take (nat (j + 1) - nat i) (drop (nat i) xs)"

lemma segment_empty [simp]: "j < i \<Longrightarrow> segment i j xs = []"
  by (simp add: segment_def)

lemma length_segment: "0 \<le> i \<Longrightarrow> i \<le> j + 1 \<Longrightarrow> j < int (length xs) \<Longrightarrow> length (segment i j xs) = nat (j + 1 - i)"
  by (simp add: segment_def nat_diff_distrib)

lemma take_segment_append:
  assumes "0 \<le> i" "i \<le> j + 1"
  shows "take (nat i) xs @ segment i j xs = take (nat (j + 1)) xs"
proof -
  have "nat (j + 1) = nat i + (nat (j + 1) - nat i)"
    using assms by simp
  then show ?thesis
    unfolding segment_def by (metis take_add)
qed

lemma map_segment: "map f (segment i j xs) = segment i j (map f xs)"
  by (simp add: segment_def take_map drop_map)

section \<open>Ordered maps\<close>

type_synonym ('k, 'v) omap = "('k \<times> 'v) list"

definition om_ok :: "('k::linorder, 'v) omap \<Rightarrow> bool" where
  "om_ok m \<longleftrightarrow> sorted_wrt (<) (map fst m)"

definition om_find :: "('k, 'v) omap \<Rightarrow> 'k \<Rightarrow> 'v option" where
  "om_find m k = map_of m k"

fun om_put :: "'k::linorder \<Rightarrow> 'v \<Rightarrow> ('k, 'v) omap \<Rightarrow> ('k, 'v) omap" where
  "om_put k v [] = [(k, v)]"
| "om_put k v ((k', v') # m) =
     (if k < k' then (k, v) # (k', v') # m
      else if k = k' then (k, v) # m
      else (k', v') # om_put k v m)"

definition om_erase :: "'k \<Rightarrow> ('k, 'v) omap \<Rightarrow> ('k, 'v) omap" where
  "om_erase k m = filter (\<lambda>p. fst p \<noteq> k) m"

definition om_keys :: "('k, 'v) omap \<Rightarrow> 'k list" where
  "om_keys m = map fst m"

text \<open>
  \<open>m[k]\<close>: the value at \<open>k\<close>, and the map afterwards; a missing key is inserted with the
  value-initialised mapped type \<open>d\<close>.
\<close>

definition om_at :: "'v \<Rightarrow> ('k::linorder, 'v) omap \<Rightarrow> 'k \<Rightarrow> 'v \<times> ('k, 'v) omap" where
  "om_at d m k = (case om_find m k of Some v \<Rightarrow> (v, m) | None \<Rightarrow> (d, om_put k d m))"

lemma om_ok_Nil [simp]: "om_ok []"
  by (simp add: om_ok_def)

lemma om_ok_Cons [simp]: "om_ok ((k, v) # m) \<longleftrightarrow> om_ok m \<and> (\<forall>k' \<in> fst ` set m. k < k')"
  by (auto simp: om_ok_def)

lemma om_find_Nil [simp]: "om_find [] k = None"
  by (simp add: om_find_def)

lemma om_find_Cons [simp]: "om_find ((k', v) # m) k = (if k' = k then Some v else om_find m k)"
  by (simp add: om_find_def)

lemma om_keys_put: "fst ` set (om_put k v m) = insert k (fst ` set m)"
  by (induction k v m rule: om_put.induct) auto

lemma om_find_put [simp, om_simps]: "om_find (om_put k v m) k' = (if k' = k then Some v else om_find m k')"
  by (induction k v m rule: om_put.induct) auto

lemma om_ok_put [simp, intro]: "om_ok m \<Longrightarrow> om_ok (om_put k v m)"
  by (induction k v m rule: om_put.induct) (auto simp: om_keys_put)

lemma om_find_erase [simp, om_simps]: "om_find (om_erase k m) k' = (if k' = k then None else om_find m k')"
  by (induction m) (auto simp: om_erase_def)

lemma om_ok_erase [simp, intro]: "om_ok m \<Longrightarrow> om_ok (om_erase k m)"
  by (induction m) (auto simp: om_erase_def)

lemma om_find_None_iff: "om_find m k = None \<longleftrightarrow> k \<notin> fst ` set m"
  by (simp add: om_find_def map_of_eq_None_iff)

lemma om_find_mem_keys: "om_find m k \<noteq> None \<longleftrightarrow> k \<in> set (om_keys m)"
  by (simp add: om_find_None_iff om_keys_def)

lemma om_find_SomeD: "om_find m k = Some v \<Longrightarrow> (k, v) \<in> set m"
  by (simp add: om_find_def map_of_SomeD)

lemma om_ok_distinct: "om_ok m \<Longrightarrow> distinct (om_keys m)"
  by (simp add: om_ok_def om_keys_def strict_sorted_iff)

lemma om_find_mem: "om_ok m \<Longrightarrow> (k, v) \<in> set m \<Longrightarrow> om_find m k = Some v"
  using om_ok_distinct [of m] by (simp add: om_find_def om_keys_def)

lemma length_om_put_new: "k \<notin> fst ` set m \<Longrightarrow> length (om_put k v m) = Suc (length m)"
  by (induction k v m rule: om_put.induct) auto

lemma om_put_put [simp, om_simps]: "om_put k v (om_put k v' m) = om_put k v m"
  by (induction k v' m rule: om_put.induct) auto

lemma om_find_foldl_put [om_simps]: "om_find (foldl (\<lambda>m p. om_put p v m) m ps) p = (if p \<in> set ps then Some v else om_find m p)"
  by (induction ps arbitrary: m) auto

lemma om_at_find [simp, om_simps]: "om_find m k = Some v \<Longrightarrow> om_at d m k = (v, m)"
  by (simp add: om_at_def)

lemma om_at_missing [om_simps]: "om_find m k = None \<Longrightarrow> om_at d m k = (d, om_put k d m)"
  by (simp add: om_at_def)

lemma om_at_find_after: "om_find (snd (om_at d m k)) k = Some (fst (om_at d m k))"
  by (simp add: om_at_def split: option.splits)

lemma om_at_other: "k' \<noteq> k \<Longrightarrow> om_find (snd (om_at d m k)) k' = om_find m k'"
  by (simp add: om_at_def split: option.splits)

lemma om_ok_at [simp, intro]: "om_ok m \<Longrightarrow> om_ok (snd (om_at d m k))"
  by (simp add: om_at_def split: option.splits)

text \<open>The interface of an ordered map, and what its clients derive from it.\<close>

locale ordered_map =
  fixes find :: "'m \<Rightarrow> 'k \<Rightarrow> 'v option"
    and put :: "'k \<Rightarrow> 'v \<Rightarrow> 'm \<Rightarrow> 'm"
    and erase :: "'k \<Rightarrow> 'm \<Rightarrow> 'm"
    and size :: "'m \<Rightarrow> nat"
    and invar :: "'m \<Rightarrow> bool"
  assumes find_put: "find (put k v m) k' = (if k' = k then Some v else find m k')"
    and find_erase: "find (erase k m) k' = (if k' = k then None else find m k')"
    and invar_put: "invar m \<Longrightarrow> invar (put k v m)"
    and invar_erase: "invar m \<Longrightarrow> invar (erase k m)"
    and finite_dom: "finite (dom (find m))"
    and size_card: "invar m \<Longrightarrow> size m = card (dom (find m))"
begin

lemma dom_put: "dom (find (put k v m)) = insert k (dom (find m))"
  by (auto simp: find_put split: if_splits)

lemma dom_erase: "dom (find (erase k m)) = dom (find m) - {k}"
  by (auto simp: find_erase split: if_splits)

lemma size_put_new: "invar m \<Longrightarrow> find m k = None \<Longrightarrow> size (put k v m) = Suc (size m)"
  by (simp add: size_card invar_put dom_put finite_dom domIff)

lemma size_put_old: "invar m \<Longrightarrow> find m k = Some v' \<Longrightarrow> size (put k v m) = size m"
  by (simp add: size_card invar_put dom_put insert_absorb domI)

lemma size_erase_old: "invar m \<Longrightarrow> find m k = Some v \<Longrightarrow> Suc (size (erase k m)) = size m"
  using card.remove [OF finite_dom, of k m]
  by (simp add: size_card invar_erase dom_erase domI)

lemma size_erase_new: "invar m \<Longrightarrow> find m k = None \<Longrightarrow> size (erase k m) = size m"
  by (simp add: size_card invar_erase dom_erase domIff)

end

lemma dom_om_find: "dom (om_find m) = fst ` set m"
proof (rule set_eqI)
  fix k
  have "k \<in> dom (om_find m) \<longleftrightarrow> om_find m k \<noteq> None"
    by (rule domIff)
  then show "k \<in> dom (om_find m) \<longleftrightarrow> k \<in> fst ` set m"
    by (simp add: om_find_None_iff)
qed

interpretation om: ordered_map om_find om_put om_erase length "om_ok :: ('k::linorder, 'v) omap \<Rightarrow> bool"
proof
  fix m :: "('k, 'v) omap"
  assume "om_ok m"
  then have "distinct (map fst m)"
    using om_ok_distinct by (simp add: om_keys_def)
  then show "length m = card (dom (om_find m))"
    by (metis dom_om_find distinct_card length_map list.set_map)
qed (auto simp: dom_om_find)

lemmas om_size_simps = om.size_put_new om.size_put_old om.size_erase_new

end
