(* ===== verification/Layout.thy ===== *)
theory Layout
  imports Prelude "HOL-Library.Word"
begin

text \<open>
  What the sources use of the machine and of the C++ library below the program's own types:
  bytes, the little-endian object representation of \<open>int32_t\<close>, \<open>bool\<close> and \<open>char\<close> arrays,
  C strings and \<open>strcpy\<close>, decimal printing (\<open>std::to_string\<close>) and parsing (\<open>std::stoi\<close>).

  The locale \<open>object_layout\<close> is the interface by which the persistent vector and the RPC layer
  see a trivially copyable type: its size, its object representation and the value read back by
  a \<open>reinterpret_cast\<close>. Arrays of such objects are written by concatenation and read either by
  the guarded loop of \<open>PersistentVector::bootstrap\<close> (\<open>read_records\<close>) or by the unguarded loop
  of the RPC service (\<open>unpack_records\<close>).
\<close>

named_theorems layout_simps "sizes and fields of object representations"

type_synonym byte = "8 word"

section \<open>32-bit integers\<close>

definition i32_ok :: "int \<Rightarrow> bool" where
  "i32_ok i \<longleftrightarrow> - 2147483648 \<le> i \<and> i < 2147483648"

definition i32_wrap :: "int \<Rightarrow> int" where
  "i32_wrap i = signed_take_bit 31 i"

definition i32_bytes :: "int \<Rightarrow> byte list" where
  "i32_bytes i = [word_of_int i, word_of_int (i div 256), word_of_int (i div 65536), word_of_int (i div 16777216)]"

definition i32_of_bytes :: "byte list \<Rightarrow> int" where
  "i32_of_bytes bs =
     i32_wrap (uint (bs ! 0) + 256 * uint (bs ! 1) + 65536 * uint (bs ! 2) + 16777216 * uint (bs ! 3))"

text \<open>Signed addition, undefined outside the range of \<open>int\<close>.\<close>

definition i32_add :: "int \<Rightarrow> int \<Rightarrow> int res" where
  "i32_add a b = (if i32_ok (a + b) then Inr (a + b) else Inl Signed_Overflow)"

lemma i32_wrap_id [simp]: "i32_ok i \<Longrightarrow> i32_wrap i = i"
  by (simp add: i32_ok_def i32_wrap_def signed_take_bit_int_eq_self)

lemma i32_wrap_ok: "i32_ok (i32_wrap i)"
  using signed_take_bit_int_greater_eq_minus_exp [of 31 i] signed_take_bit_int_less_exp [of 31 i]
  by (simp add: i32_ok_def i32_wrap_def)

lemma length_i32_bytes [simp, layout_simps]: "length (i32_bytes i) = 4"
  by (simp add: i32_bytes_def)

lemma uint_byte_of_int: "uint (word_of_int i :: byte) = i mod 256"
  by (simp add: uint_word_of_int)

lemma split_bytes_mod:
  fixes i :: int
  shows "i mod 256 + 256 * (i div 256 mod 256) + 65536 * (i div 65536 mod 256)
           + 16777216 * (i div 16777216 mod 256) = i mod 4294967296"
proof -
  have "i mod 4294967296 = 256 * (i div 256 mod 16777216) + i mod 256"
    using zmod_zmult2_eq [of 16777216 i 256] by simp
  moreover have "i div 256 mod 16777216 = 256 * (i div 65536 mod 65536) + i div 256 mod 256"
    using zmod_zmult2_eq [of 65536 "i div 256" 256] zdiv_zmult2_eq [of 256 i 256] by simp
  moreover have "i div 65536 mod 65536 = 256 * (i div 16777216 mod 256) + i div 65536 mod 256"
    using zmod_zmult2_eq [of 256 "i div 65536" 256] zdiv_zmult2_eq [of 256 i 65536] by simp
  moreover have "m = 256 * p + a \<Longrightarrow> p = 256 * q + b \<Longrightarrow> q = 256 * d + c \<Longrightarrow>
      a + 256 * b + 65536 * c + 16777216 * d = m" for m p q a b c d :: int
    by simp
  ultimately show ?thesis
    by metis
qed

lemma i32_roundtrip_wrap: "i32_of_bytes (i32_bytes i) = i32_wrap i"
proof -
  have "i32_of_bytes (i32_bytes i) = i32_wrap (i mod 4294967296)"
    by (simp add: i32_of_bytes_def i32_bytes_def uint_byte_of_int split_bytes_mod)
  also have "i mod 4294967296 = take_bit 32 i"
    by (simp add: take_bit_eq_mod)
  also have "i32_wrap (take_bit 32 i) = i32_wrap i"
    by (simp add: i32_wrap_def signed_take_bit_take_bit)
  finally show ?thesis .
qed

lemma i32_roundtrip [simp]: "i32_ok i \<Longrightarrow> i32_of_bytes (i32_bytes i) = i"
  by (simp add: i32_roundtrip_wrap)

lemma i32_of_bytes_ok: "i32_ok (i32_of_bytes bs)"
  by (simp add: i32_of_bytes_def i32_wrap_ok)

section \<open>Booleans and characters\<close>

definition bool_byte :: "bool \<Rightarrow> byte" where
  "bool_byte b = (if b then 1 else 0)"

definition bool_of_byte :: "byte \<Rightarrow> bool" where
  "bool_of_byte b \<longleftrightarrow> b \<noteq> 0"

definition char_byte :: "char \<Rightarrow> byte" where
  "char_byte c = of_char c"

definition char_of_byte :: "byte \<Rightarrow> char" where
  "char_of_byte b = char_of (unat b)"

lemma bool_roundtrip [simp]: "bool_of_byte (bool_byte b) = b"
  by (simp add: bool_byte_def bool_of_byte_def)

lemma char_roundtrip [simp]: "char_of_byte (char_byte c) = c"
proof -
  have "(of_char c :: byte) = of_nat (of_char c)"
    by (rule of_nat_of_char [symmetric])
  moreover have "(of_char c :: nat) < 2 ^ LENGTH(8)"
    using nat_of_char_less_256 [of c] by simp
  ultimately have "unat (of_char c :: byte) = of_char c"
    by (simp add: unat_of_nat)
  then show ?thesis
    by (simp add: char_of_byte_def char_byte_def)
qed

definition chars_bytes :: "string \<Rightarrow> byte list" where
  "chars_bytes s = map char_byte s"

definition chars_of_bytes :: "byte list \<Rightarrow> string" where
  "chars_of_bytes bs = map char_of_byte bs"

lemma length_chars_bytes [simp, layout_simps]: "length (chars_bytes s) = length s"
  by (simp add: chars_bytes_def)

lemma chars_roundtrip [simp]: "chars_of_bytes (chars_bytes s) = s"
  by (simp add: chars_of_bytes_def chars_bytes_def comp_def)

text \<open>A \<open>char\<close> array is the list of its elements; its C string ends at the first null.\<close>

definition NUL :: char where
  "NUL = CHR 0x00"

definition c_str :: "string \<Rightarrow> string" where
  "c_str arr = takeWhile (\<lambda>c. c \<noteq> NUL) arr"

definition strcpy :: "string \<Rightarrow> string \<Rightarrow> string res" where
  "strcpy dst src =
     (let s = c_str src in
      if length s < length dst then Inr (s @ NUL # drop (Suc (length s)) dst)
      else Inl Buffer_Overflow)"

lemma c_str_id: "NUL \<notin> set s \<Longrightarrow> c_str s = s"
  by (auto simp: c_str_def takeWhile_eq_all_conv)

lemma NUL_notin_c_str [simp]: "NUL \<notin> set (c_str s)"
  by (auto simp: c_str_def dest: set_takeWhileD)

lemma c_str_append_NUL: "NUL \<notin> set s \<Longrightarrow> c_str (s @ NUL # t) = s"
  by (induction s) (auto simp: c_str_def)

lemma length_c_str: "length (c_str s) \<le> length s"
  by (simp add: c_str_def length_takeWhile_le)

lemma strcpy_length: "strcpy dst src = Inr d \<Longrightarrow> length d = length dst"
  by (auto simp: strcpy_def Let_def split: if_splits)

lemma strcpy_c_str: "strcpy dst src = Inr d \<Longrightarrow> c_str d = c_str src"
  by (auto simp: strcpy_def Let_def c_str_append_NUL split: if_splits)

lemma strcpy_defined_iff: "(\<exists>d. strcpy dst src = Inr d) \<longleftrightarrow> length (c_str src) < length dst"
  by (auto simp: strcpy_def Let_def)

section \<open>Decimal numbers\<close>

definition digit_char :: "nat \<Rightarrow> char" where
  "digit_char d = char_of (48 + d)"

definition is_digit :: "char \<Rightarrow> bool" where
  "is_digit c \<longleftrightarrow> 48 \<le> (of_char c :: nat) \<and> (of_char c :: nat) \<le> 57"

definition digit_val :: "char \<Rightarrow> nat" where
  "digit_val c = of_char c - 48"

fun nat_str :: "nat \<Rightarrow> string" where
  "nat_str n = (if n < 10 then [digit_char n] else nat_str (n div 10) @ [digit_char (n mod 10)])"

declare nat_str.simps [simp del]

definition to_string :: "int \<Rightarrow> string" where
  "to_string i = (if i < 0 then CHR ''-'' # nat_str (nat (- i)) else nat_str (nat i))"

definition is_space :: "char \<Rightarrow> bool" where
  "is_space c \<longleftrightarrow> (of_char c :: nat) = 32 \<or> (9 \<le> (of_char c :: nat) \<and> (of_char c :: nat) \<le> 13)"

definition digits_val :: "string \<Rightarrow> nat" where
  "digits_val s = foldl (\<lambda>a c. 10 * a + digit_val c) 0 s"

definition stoi :: "string \<Rightarrow> int res" where
  "stoi s =
     (let t = dropWhile is_space s;
          neg = (t \<noteq> [] \<and> hd t = CHR ''-'');
          u = (if t \<noteq> [] \<and> (hd t = CHR ''-'' \<or> hd t = CHR ''+'') then tl t else t);
          ds = takeWhile is_digit u;
          v = (if neg then - int (digits_val ds) else int (digits_val ds))
      in if ds = [] then Inl Invalid_Argument
         else if i32_ok v then Inr v else Inl Stoi_Out_Of_Range)"

lemma of_char_digit_char: "d < 10 \<Longrightarrow> (of_char (digit_char d) :: nat) = 48 + d"
  by (simp add: digit_char_def)

lemma is_digit_digit_char [simp]: "d < 10 \<Longrightarrow> is_digit (digit_char d)"
  by (simp add: is_digit_def of_char_digit_char)

lemma digit_val_digit_char [simp]: "d < 10 \<Longrightarrow> digit_val (digit_char d) = d"
  by (simp add: digit_val_def of_char_digit_char)

lemma nat_str_digits: "list_all is_digit (nat_str n)"
  by (induction n rule: nat_str.induct) (subst nat_str.simps, simp)

lemma nat_str_nonempty [simp]: "nat_str n \<noteq> []"
  by (subst nat_str.simps) simp

lemma digits_val_nat_str [simp]: "digits_val (nat_str n) = n"
proof (induction n rule: nat_str.induct)
  case (1 n)
  then show ?case
    by (subst nat_str.simps) (auto simp: digits_val_def)
qed

lemma digit_not_special:
  assumes "is_digit c"
  shows "\<not> is_space c" "c \<noteq> CHR ''-''" "c \<noteq> CHR ''+''" "c \<noteq> CHR '',''" "c \<noteq> CHR ''\<newline>''" "c \<noteq> NUL"
  using assms by (auto simp: is_digit_def is_space_def NUL_def)

lemma nat_str_hd: "is_digit (hd (nat_str n))"
  using nat_str_digits [of n] by (cases "nat_str n") simp_all

lemma takeWhile_digits_nat_str: "takeWhile is_digit (nat_str n) = nat_str n"
  using nat_str_digits [of n] by (simp add: list_all_iff)

lemma stoi_to_string: "i32_ok i \<Longrightarrow> stoi (to_string i) = Inr i"
proof -
  assume ok: "i32_ok i"
  obtain c cs where n: "nat_str (nat \<bar>i\<bar>) = c # cs"
    by (cases "nat_str (nat \<bar>i\<bar>)") simp_all
  then have c: "is_digit c"
    using nat_str_hd [of "nat \<bar>i\<bar>"] by simp
  have dv: "digits_val (c # cs) = nat \<bar>i\<bar>" and tw: "takeWhile is_digit (c # cs) = c # cs"
    using digits_val_nat_str [of "nat \<bar>i\<bar>"] takeWhile_digits_nat_str [of "nat \<bar>i\<bar>"] by (simp_all only: n)
  have tl_digits: "takeWhile is_digit cs = cs"
    using tw c by simp
  have sp: "\<not> is_space CHR ''-''"
    by (simp add: is_space_def)
  show ?thesis
  proof (cases "i < 0")
    case True
    then have "to_string i = CHR ''-'' # c # cs"
      using n by (simp add: to_string_def)
    then show ?thesis
      using True ok dv tw sp by (simp add: stoi_def Let_def)
  next
    case False
    then have "to_string i = c # cs"
      using n by (simp add: to_string_def)
    then show ?thesis
      using False ok dv digit_not_special [OF c] c
      by (simp add: stoi_def Let_def tl_digits)
  qed
qed

section \<open>Trivially copyable objects\<close>

function read_records :: "nat \<Rightarrow> (byte list \<Rightarrow> 'a) \<Rightarrow> byte list \<Rightarrow> 'a list" where
  "read_records sz dec bs =
     (if sz = 0 \<or> length bs < sz then [] else dec (take sz bs) # read_records sz dec (drop sz bs))"
  by pat_completeness auto
termination
  by (relation "measure (\<lambda>(sz, dec, bs). length bs)") auto

declare read_records.simps [simp del]

function unpack_records :: "nat \<Rightarrow> (byte list \<Rightarrow> 'a) \<Rightarrow> byte list \<Rightarrow> 'a list res" where
  "unpack_records sz dec bs =
     (if bs = [] then Inr []
      else if sz = 0 \<or> length bs < sz then Inl Out_Of_Range
      else rbind (unpack_records sz dec (drop sz bs)) (\<lambda>xs. Inr (dec (take sz bs) # xs)))"
  by pat_completeness auto
termination
  by (relation "measure (\<lambda>(sz, dec, bs). length bs)") auto

declare unpack_records.simps [simp del]

lemma read_records_short [simp]: "length bs < sz \<Longrightarrow> read_records sz dec bs = []"
  by (simp add: read_records.simps)

lemma read_records_step:
  "0 < sz \<Longrightarrow> length xs = sz \<Longrightarrow> read_records sz dec (xs @ ys) = dec xs # read_records sz dec ys"
  by (subst read_records.simps) simp

lemma unpack_records_Nil [simp]: "unpack_records sz dec [] = Inr []"
  by (simp add: unpack_records.simps)

lemma unpack_records_step:
  "0 < sz \<Longrightarrow> length xs = sz \<Longrightarrow>
     unpack_records sz dec (xs @ ys) = rbind (unpack_records sz dec ys) (\<lambda>zs. Inr (dec xs # zs))"
  by (subst unpack_records.simps) auto

locale object_layout =
  fixes sz :: nat
    and valid :: "'a \<Rightarrow> bool"
    and enc :: "'a \<Rightarrow> byte list"
    and dec :: "byte list \<Rightarrow> 'a"
  assumes sz_pos: "0 < sz"
    and length_enc: "valid x \<Longrightarrow> length (enc x) = sz"
    and dec_enc: "valid x \<Longrightarrow> dec (enc x) = x"
begin

lemma length_enc_all: "list_all valid xs \<Longrightarrow> length (concat (map enc xs)) = length xs * sz"
  by (induction xs) (simp_all add: length_enc)

lemma read_enc_append:
  "list_all valid xs \<Longrightarrow> read_records sz dec (concat (map enc xs) @ tail) = xs @ read_records sz dec tail"
  by (induction xs) (simp_all add: read_records_step sz_pos length_enc dec_enc)

lemma read_enc: "list_all valid xs \<Longrightarrow> read_records sz dec (concat (map enc xs)) = xs"
  using read_enc_append [of xs "[]"] sz_pos by simp

lemma read_enc_torn:
  "list_all valid xs \<Longrightarrow> length tail < sz \<Longrightarrow> read_records sz dec (concat (map enc xs) @ tail) = xs"
  by (simp add: read_enc_append)

lemma unpack_enc: "list_all valid xs \<Longrightarrow> unpack_records sz dec (concat (map enc xs)) = Inr xs"
  by (induction xs) (simp_all add: unpack_records_step sz_pos length_enc dec_enc)

lemma take_enc:
  assumes "list_all valid xs" "n \<le> length xs"
  shows "take (n * sz) (concat (map enc xs)) = concat (map enc (take n xs))"
  using assms
proof (induction xs arbitrary: n)
  case (Cons x xs)
  then show ?case
    by (cases n) (simp_all add: length_enc)
qed simp

end

interpretation i32: object_layout 4 i32_ok i32_bytes i32_of_bytes
  by unfold_locales simp_all

end
