(* ===== verification/OhMyConfig.thy ===== *)
theory OhMyConfig
  imports Layout "HOL-Library.AList"
begin

text \<open>
  \<open>wowUtils/OhMyConfig.H\<close>: the \<open>ServerInfo\<close> structure with its packed layout, and the two CSV
  readers \<open>TokenizeCSV\<close> and \<open>ParseConfig\<close>. A file is its contents; a file that cannot be opened
  reads as the empty one. The uninitialised \<open>ServerInfo\<close> local of \<open>ParseConfig\<close> is the argument
  \<open>junk\<close>, one value per row.
\<close>

section \<open>ServerInfo\<close>

record ServerInfo =
  si_id :: int
  si_ip :: string       \<comment> \<open>\<open>char ip[20]\<close>\<close>
  raft_port :: int
  db_port :: int
  si_name :: string     \<comment> \<open>\<open>char name[25]\<close>\<close>

text \<open>The value-initialised structure, as \<open>std::map::operator[]\<close> inserts it.\<close>

definition ServerInfo_zero :: ServerInfo where
  "ServerInfo_zero = \<lparr>si_id = 0, si_ip = replicate 20 NUL, raft_port = 0, db_port = 0, si_name = replicate 25 NUL\<rparr>"

definition ServerInfo_ok :: "ServerInfo \<Rightarrow> bool" where
  "ServerInfo_ok s \<longleftrightarrow>
     i32_ok (si_id s) \<and> length (si_ip s) = 20 \<and> i32_ok (raft_port s) \<and> i32_ok (db_port s) \<and> length (si_name s) = 25"

definition ServerInfo_bytes :: "ServerInfo \<Rightarrow> byte list" where
  "ServerInfo_bytes s =
     i32_bytes (si_id s) @ chars_bytes (si_ip s) @ i32_bytes (raft_port s) @ i32_bytes (db_port s)
       @ chars_bytes (si_name s)"

definition ServerInfo_of_bytes :: "byte list \<Rightarrow> ServerInfo" where
  "ServerInfo_of_bytes bs =
     \<lparr>si_id = i32_of_bytes (take 4 bs),
      si_ip = chars_of_bytes (take 20 (drop 4 bs)),
      raft_port = i32_of_bytes (take 4 (drop 24 bs)),
      db_port = i32_of_bytes (take 4 (drop 28 bs)),
      si_name = chars_of_bytes (take 25 (drop 32 bs))\<rparr>"

lemma ServerInfo_zero_ok [simp]: "ServerInfo_ok ServerInfo_zero"
  by (simp add: ServerInfo_ok_def ServerInfo_zero_def i32_ok_def)

lemma length_ServerInfo_bytes [simp, layout_simps]: "ServerInfo_ok s \<Longrightarrow> length (ServerInfo_bytes s) = 57"
  by (simp add: ServerInfo_bytes_def ServerInfo_ok_def)

lemma ServerInfo_roundtrip [simp]: "ServerInfo_ok s \<Longrightarrow> ServerInfo_of_bytes (ServerInfo_bytes s) = s"
  by (simp add: ServerInfo_bytes_def ServerInfo_of_bytes_def ServerInfo_ok_def)

interpretation server_info: object_layout 57 ServerInfo_ok ServerInfo_bytes ServerInfo_of_bytes
  by unfold_locales simp_all

section \<open>Splitting a stream with std::getline\<close>

function getline_split :: "char \<Rightarrow> string \<Rightarrow> string list" where
  "getline_split d s =
     (if s = [] then []
      else takeWhile (\<lambda>c. c \<noteq> d) s # getline_split d (drop (Suc (length (takeWhile (\<lambda>c. c \<noteq> d) s))) s))"
  by pat_completeness auto
termination
  by (relation "measure (\<lambda>(d, s). length s)") auto

declare getline_split.simps [simp del]

lemma getline_split_Nil [simp]: "getline_split d [] = []"
  by (simp add: getline_split.simps)

lemma takeWhile_until: "d \<notin> set s \<Longrightarrow> takeWhile (\<lambda>c. c \<noteq> d) (s @ d # t) = s"
  by (induction s) auto

lemma getline_split_delim: "d \<notin> set s \<Longrightarrow> getline_split d (s @ d # t) = s # getline_split d t"
  by (subst getline_split.simps) (simp add: takeWhile_until)

lemma getline_split_last: "d \<notin> set s \<Longrightarrow> s \<noteq> [] \<Longrightarrow> getline_split d s = [s]"
proof -
  assume d: "d \<notin> set s" "s \<noteq> []"
  then have "takeWhile (\<lambda>c. c \<noteq> d) s = s"
    by (auto simp: takeWhile_eq_all_conv)
  note tw = this
  show ?thesis
    using d by (subst getline_split.simps) (simp add: tw)
qed

lemma getline_split_lines:
  "list_all (\<lambda>l. d \<notin> set l) ls \<Longrightarrow> getline_split d (concat (map (\<lambda>l. l @ [d]) ls)) = ls"
  by (induction ls) (simp_all add: getline_split_delim)

section \<open>The CSV readers\<close>

record TokenizedOut =
  header :: "(string \<times> int) list"
  tokensByRow :: "string list list"

text \<open>\<open>header[token] = header.size()\<close>: in C++17 the right operand is evaluated first.\<close>

definition read_header :: "string list \<Rightarrow> (string \<times> int) list" where
  "read_header toks = foldl (\<lambda>h t. AList.update t (int (length h)) h) [] toks"

definition csv_lines :: "string \<Rightarrow> string \<times> string list" where
  "csv_lines contents =
     (case getline_split CHR ''\<newline>'' contents of
        [] \<Rightarrow> ([], [])
      | l # ls \<Rightarrow> (l, takeWhile (\<lambda>l. l \<noteq> []) ls))"

definition TokenizeCSV :: "string \<Rightarrow> TokenizedOut" where
  "TokenizeCSV contents =
     (case csv_lines contents of (h, rows) \<Rightarrow>
        \<lparr>header = read_header (getline_split CHR '','' h),
         tokensByRow = map (getline_split CHR '','') rows\<rparr>)"

text \<open>
  \<open>tokens[header[key]]\<close>: a missing key is inserted with index 0, which a later lookup of the same
  key reads back, so the lookup alone is modelled.
\<close>

definition header_index :: "(string \<times> int) list \<Rightarrow> string \<Rightarrow> int" where
  "header_index h key = (case map_of h key of None \<Rightarrow> 0 | Some i \<Rightarrow> i)"

definition token_of :: "(string \<times> int) list \<Rightarrow> string list \<Rightarrow> string \<Rightarrow> string res" where
  "token_of h tokens key = vec_at tokens (header_index h key)"

definition parse_server :: "(string \<times> int) list \<Rightarrow> nat \<Rightarrow> ServerInfo \<Rightarrow> string list \<Rightarrow> ServerInfo res" where
  "parse_server h cntr junk tokens =
     rbind (if map_of h ''id'' = None then Inr (int cntr)
            else rbind (token_of h tokens ''id'') stoi) (\<lambda>sid.
     rbind (rbind (token_of h tokens ''intf_ip'') (strcpy (si_ip junk))) (\<lambda>ip.
     rbind (rbind (token_of h tokens ''name'') (\<lambda>t. strcpy (si_name junk) (take 20 t))) (\<lambda>nm.
     rbind (rbind (token_of h tokens ''raft_port'') stoi) (\<lambda>rp.
     rbind (rbind (token_of h tokens ''db_port'') stoi) (\<lambda>dp.
     Inr \<lparr>si_id = sid, si_ip = ip, raft_port = rp, db_port = dp, si_name = nm\<rparr>)))))"

fun parse_rows :: "(string \<times> int) list \<Rightarrow> nat \<Rightarrow> (nat \<Rightarrow> ServerInfo) \<Rightarrow> string list list
    \<Rightarrow> (int, ServerInfo) omap \<Rightarrow> (int, ServerInfo) omap res" where
  "parse_rows h cntr junk [] servers = Inr servers"
| "parse_rows h cntr junk (row # rows) servers =
     rbind (parse_server h cntr (junk cntr) row) (\<lambda>s.
       parse_rows h (Suc cntr) junk rows (om_put (si_id s) s servers))"

definition ParseConfig :: "(nat \<Rightarrow> ServerInfo) \<Rightarrow> string \<Rightarrow> (int, ServerInfo) omap res" where
  "ParseConfig junk contents =
     (let t = TokenizeCSV contents in parse_rows (header t) 0 junk (tokensByRow t) [])"

section \<open>Properties of the readers\<close>

definition config_header :: string where
  "config_header = ''id,name,intf_ip,raft_port,db_port''"

lemma config_header_tokens:
  "getline_split CHR '','' config_header = [''id'', ''name'', ''intf_ip'', ''raft_port'', ''db_port'']"
  by (simp add: config_header_def getline_split.simps)

lemma config_header_read:
  "read_header (getline_split CHR '','' config_header) =
     [(''id'', 0), (''name'', 1), (''intf_ip'', 2), (''raft_port'', 3), (''db_port'', 4)]"
  by (simp add: config_header_tokens read_header_def)

text \<open>Two server records that differ at most behind the terminator of their strings.\<close>

definition same_server :: "ServerInfo \<Rightarrow> ServerInfo \<Rightarrow> bool" where
  "same_server a b \<longleftrightarrow>
     si_id a = si_id b \<and> c_str (si_ip a) = c_str (si_ip b) \<and> raft_port a = raft_port b
       \<and> db_port a = db_port b \<and> c_str (si_name a) = c_str (si_name b)"

text \<open>What a server record must satisfy so that a CSV row represents it.\<close>

definition csv_field :: "string \<Rightarrow> bool" where
  "csv_field s \<longleftrightarrow> CHR '','' \<notin> set s \<and> CHR ''\<newline>'' \<notin> set s"

definition csv_server :: "ServerInfo \<Rightarrow> bool" where
  "csv_server s \<longleftrightarrow>
     i32_ok (si_id s) \<and> i32_ok (raft_port s) \<and> i32_ok (db_port s)
       \<and> csv_field (c_str (si_ip s)) \<and> length (c_str (si_ip s)) < 20
       \<and> csv_field (c_str (si_name s)) \<and> length (c_str (si_name s)) \<le> 20"

lemma csv_field_to_string: "csv_field (to_string i)"
  using nat_str_digits [of "nat i"] nat_str_digits [of "nat (- i)"]
  by (auto simp: csv_field_def to_string_def list_all_iff dest: digit_not_special)

lemma parse_server_row:
  assumes "csv_server s" and "length (si_ip junk) = 20" and "length (si_name junk) = 25"
  shows "\<exists>s'. parse_server (read_header (getline_split CHR '','' config_header)) n junk
           [to_string (si_id s), c_str (si_name s), c_str (si_ip s), to_string (raft_port s), to_string (db_port s)]
         = Inr s' \<and> same_server s s'"
proof -
  obtain ip where ip: "strcpy (si_ip junk) (c_str (si_ip s)) = Inr ip"
    using assms strcpy_defined_iff [of "si_ip junk" "c_str (si_ip s)"]
    by (auto simp: csv_server_def c_str_id)
  obtain nm where nm: "strcpy (si_name junk) (c_str (si_name s)) = Inr nm"
    using assms strcpy_defined_iff [of "si_name junk" "c_str (si_name s)"]
    by (auto simp: csv_server_def c_str_id)
  have tk: "take 20 (c_str (si_name s)) = c_str (si_name s)"
    using assms by (simp add: csv_server_def)
  show ?thesis
    using assms ip nm tk strcpy_c_str [OF ip] strcpy_c_str [OF nm]
    by (simp add: parse_server_def config_header_read token_of_def header_index_def vec_at_def
        stoi_to_string csv_server_def same_server_def c_str_id)
qed

end
