(* ===== verification/PromiseStore.thy ===== *)
theory PromiseStore
  imports Prelude
begin

text \<open>
  \<open>ohmyraft/PromiseStore.H\<close>: a process-wide list of promises, addressed by the iterators that
  \<open>insert\<close> returns. An iterator is the number of the list node it points to; nodes are numbered in
  the order of their allocation and never reused, so that an erased node is recognised and its use
  is the fault \<open>Dangling_Handle\<close>. The mutex makes both operations atomic.

  The locale \<open>handle_store\<close> is what the clients of the store rely on: fresh handles, the stored
  value back exactly once.
\<close>

type_synonym handle = nat

record 'p promise_store =
  ps_list :: "(handle \<times> 'p) list"
  next_node :: handle

definition promise_store_init :: "'p promise_store" where
  "promise_store_init = \<lparr>ps_list = [], next_node = 0\<rparr>"

definition ps_insert :: "'p \<Rightarrow> 'p promise_store \<Rightarrow> handle \<times> 'p promise_store" where
  "ps_insert inp ps =
     (next_node ps, ps\<lparr>ps_list := ps_list ps @ [(next_node ps, inp)], next_node := Suc (next_node ps)\<rparr>)"

definition getAndRemove :: "handle \<Rightarrow> 'p promise_store \<Rightarrow> ('p \<times> 'p promise_store) res" where
  "getAndRemove it ps =
     (case map_of (ps_list ps) it of
        None \<Rightarrow> Inl Dangling_Handle
      | Some p \<Rightarrow> Inr (p, ps\<lparr>ps_list := filter (\<lambda>q. fst q \<noteq> it) (ps_list ps)\<rparr>))"

definition ps_size :: "'p promise_store \<Rightarrow> nat" where
  "ps_size ps = length (ps_list ps)"

definition ps_live :: "'p promise_store \<Rightarrow> handle \<Rightarrow> 'p option" where
  "ps_live ps = map_of (ps_list ps)"

definition ps_ok :: "'p promise_store \<Rightarrow> bool" where
  "ps_ok ps \<longleftrightarrow> distinct (map fst (ps_list ps)) \<and> (\<forall>h \<in> fst ` set (ps_list ps). h < next_node ps)"

section \<open>The contract of the store\<close>

locale handle_store =
  fixes insert :: "'p \<Rightarrow> 's \<Rightarrow> handle \<times> 's"
    and remove :: "handle \<Rightarrow> 's \<Rightarrow> ('p \<times> 's) res"
    and live :: "'s \<Rightarrow> handle \<Rightarrow> 'p option"
    and invar :: "'s \<Rightarrow> bool"
  assumes insert_fresh: "invar s \<Longrightarrow> insert p s = (h, s') \<Longrightarrow> live s h = None"
    and live_insert: "invar s \<Longrightarrow> insert p s = (h, s') \<Longrightarrow> live s' = (live s)(h \<mapsto> p)"
    and remove_live: "invar s \<Longrightarrow> live s h = Some p \<Longrightarrow> \<exists>s'. remove h s = Inr (p, s') \<and> live s' = (live s)(h := None)"
    and remove_dead: "live s h = None \<Longrightarrow> remove h s = Inl Dangling_Handle"
    and invar_insert: "invar s \<Longrightarrow> insert p s = (h, s') \<Longrightarrow> invar s'"
    and invar_remove: "invar s \<Longrightarrow> remove h s = Inr (p, s') \<Longrightarrow> invar s'"
begin

lemma insert_then_remove:
  assumes "invar s" and "insert p s = (h, s')"
  shows "\<exists>s''. remove h s' = Inr (p, s'') \<and> live s'' = live s \<and> invar s''"
proof -
  have "live s' = (live s)(h \<mapsto> p)" and "invar s'" and "live s h = None"
    using assms by (rule live_insert, rule invar_insert, rule insert_fresh)
  then obtain s'' where "remove h s' = Inr (p, s'')" and "live s'' = (live s')(h := None)"
    using remove_live [of s' h p] by auto
  moreover from this have "live s'' = live s"
    using \<open>live s' = (live s)(h \<mapsto> p)\<close> \<open>live s h = None\<close> by (auto simp: fun_eq_iff)
  ultimately show ?thesis
    using invar_remove [OF \<open>invar s'\<close>] by blast
qed

lemma remove_twice:
  assumes "invar s" and "remove h s = Inr (p, s')"
  shows "remove h s' = Inl Dangling_Handle"
proof -
  have "live s h = Some p"
    using assms remove_dead [of s h] remove_live [of s h] by (cases "live s h") auto
  from remove_live [OF assms(1) this] have "live s' = (live s)(h := None)"
    using assms(2) by auto
  then show ?thesis
    by (simp add: remove_dead)
qed

lemma insert_distinct:
  assumes "invar s" and "insert p s = (h, s')" and "insert q s' = (h', s'')"
  shows "h' \<noteq> h"
proof -
  have "live s' h = Some p"
    using live_insert [OF assms(1,2)] by simp
  moreover have "live s' h' = None"
    using insert_fresh [OF invar_insert [OF assms(1,2)] assms(3)] .
  ultimately show ?thesis
    by auto
qed

end

lemma map_of_filter_key: "map_of (filter (\<lambda>q. fst q \<noteq> k) xs) = (map_of xs)(k := None)"
  by (induction xs) (auto simp: fun_eq_iff)

interpretation ps: handle_store ps_insert getAndRemove ps_live ps_ok
proof
  fix s s' :: "'p promise_store" and p h
  assume ok: "ps_ok s" and ins: "ps_insert p s = (h, s')"
  have fresh: "next_node s \<notin> fst ` set (ps_list s)"
    using ok by (auto simp: ps_ok_def)
  show "ps_live s h = None"
    using ins fresh by (auto simp: ps_live_def ps_insert_def map_of_eq_None_iff)
  show "ps_live s' = (ps_live s)(h \<mapsto> p)"
    using ins fresh by (auto simp: ps_live_def ps_insert_def map_add_def map_of_eq_None_iff [symmetric]
        fun_eq_iff split: option.splits)
  show "ps_ok s'"
    using ok ins fresh by (fastforce simp: ps_ok_def ps_insert_def less_Suc_eq)
next
  fix s :: "'p promise_store" and h p
  assume "ps_live s h = Some p"
  then show "\<exists>s'. getAndRemove h s = Inr (p, s') \<and> ps_live s' = (ps_live s)(h := None)"
    by (simp add: getAndRemove_def ps_live_def map_of_filter_key)
next
  fix s :: "'p promise_store" and h
  assume "ps_live s h = None"
  then show "getAndRemove h s = Inl Dangling_Handle"
    by (simp add: getAndRemove_def ps_live_def)
next
  fix s s' :: "'p promise_store" and h p
  assume "ps_ok s" and "getAndRemove h s = Inr (p, s')"
  then show "ps_ok s'"
    by (fastforce simp: ps_ok_def getAndRemove_def distinct_map_filter split: option.splits)
qed

lemma promise_store_init_ok [simp]: "ps_ok promise_store_init"
  by (simp add: ps_ok_def promise_store_init_def)

section \<open>Properties\<close>

text \<open>A promise put into the store comes out under its handle exactly once: the first
  \<open>getAndRemove\<close> gives it back and leaves the store with the promises it had before the insertion,
  a second one with the same handle is a use of a dangling iterator.\<close>

lemma promise_taken_once:
  assumes "ps_ok ps" and "ps_insert p ps = (h, ps')"
  shows "\<exists>ps''. getAndRemove h ps' = Inr (p, ps'') \<and> ps_live ps'' = ps_live ps \<and> ps_ok ps''
    \<and> getAndRemove h ps'' = Inl Dangling_Handle"
  using ps.insert_then_remove [OF assms] ps.insert_fresh [OF assms] ps.remove_dead by metis

end
