(* ===== verification/LevelDBProxy.thy ===== *)
theory LevelDBProxy
  imports Layout
begin

text \<open>
  \<open>ohmydb/LevelDBProxy.H\<close>: the key-value store behind the replicated log. \<open>LevelDBReal\<close> talks to
  LevelDB, which is not part of the sources: its \<open>Get\<close> (the stored value when the status is ok) and
  its \<open>Put\<close> (whether the status is ok, and the database afterwards) are the parameters \<open>dbGet\<close> and
  \<open>dbPut\<close>. \<open>LevelDBProxy\<close> is the in-memory stand-in of the same file.

  The locale \<open>kv_backend\<close> is what the executer expects of either class.
\<close>

section \<open>The two stores\<close>

definition LevelDBReal_get :: "('d \<Rightarrow> string \<Rightarrow> string option) \<Rightarrow> 'd \<Rightarrow> int \<Rightarrow> int option res" where
  "LevelDBReal_get dbGet db key =
     (case dbGet db (to_string key) of
        Some valueStr \<Rightarrow> if valueStr \<noteq> [] then rbind (stoi valueStr) (\<lambda>v. Inr (Some v)) else Inr None
      | None \<Rightarrow> Inr None)"

definition LevelDBReal_put :: "('d \<Rightarrow> string \<Rightarrow> string \<Rightarrow> bool \<times> 'd) \<Rightarrow> 'd \<Rightarrow> int \<times> int \<Rightarrow> bool \<times> 'd" where
  "LevelDBReal_put dbPut db kvp =
     (case dbPut db (to_string (fst kvp)) (to_string (snd kvp)) of
        (ok, db') \<Rightarrow> if ok then (True, db') else (False, db'))"

definition LevelDBProxy_get :: "(int, int) omap \<Rightarrow> int \<Rightarrow> int option res" where
  "LevelDBProxy_get mpp key =
     (if om_find mpp key \<noteq> None then Inr (Some (fst (om_at 0 mpp key))) else Inr None)"

definition LevelDBProxy_put :: "(int, int) omap \<Rightarrow> int \<times> int \<Rightarrow> bool \<times> (int, int) omap" where
  "LevelDBProxy_put mpp kvp = (True, om_put (fst kvp) (snd kvp) mpp)"

text \<open>
  \<open>initialize\<close>: \<open>dbOpen\<close> is \<open>leveldb::DB::Open\<close>, which gives a database or, when it fails, leaves a
  null pointer. The result is the pointer and the line that is logged; nothing else tells the caller
  that the database is missing, and \<open>get\<close> and \<open>put\<close> go through the pointer unchecked.
\<close>

definition LevelDBReal_initialize :: "(string \<Rightarrow> 'd option) \<Rightarrow> string \<Rightarrow> 'd option \<times> string" where
  "LevelDBReal_initialize dbOpen db_path =
     (case dbOpen db_path of
        None \<Rightarrow> (None, ''Unable to open/create database.'')
      | Some d \<Rightarrow> (Some d, ''Started leveldb.''))"

definition LevelDBReal_get_ptr :: "('d \<Rightarrow> string \<Rightarrow> string option) \<Rightarrow> 'd option \<Rightarrow> int \<Rightarrow> int option res" where
  "LevelDBReal_get_ptr dbGet db key =
     (case db of None \<Rightarrow> Inl Null_Pointer | Some d \<Rightarrow> LevelDBReal_get dbGet d key)"

definition LevelDBReal_put_ptr :: "('d \<Rightarrow> string \<Rightarrow> string \<Rightarrow> bool \<times> 'd) \<Rightarrow> 'd option \<Rightarrow> int \<times> int \<Rightarrow> (bool \<times> 'd option) res" where
  "LevelDBReal_put_ptr dbPut db kvp =
     (case db of
        None \<Rightarrow> Inl Null_Pointer
      | Some d \<Rightarrow> (case LevelDBReal_put dbPut d kvp of (ok, d') \<Rightarrow> Inr (ok, Some d')))"

definition LevelDBProxy_initialize :: "string \<Rightarrow> (int, int) omap \<Rightarrow> (int, int) omap" where
  "LevelDBProxy_initialize db_path mpp = mpp"

lemma unopened_database:
  "dbOpen path = None \<Longrightarrow> LevelDBReal_get_ptr dbGet (fst (LevelDBReal_initialize dbOpen path)) k = Inl Null_Pointer
     \<and> LevelDBReal_put_ptr dbPut (fst (LevelDBReal_initialize dbOpen path)) kv = Inl Null_Pointer"
  by (simp add: LevelDBReal_initialize_def LevelDBReal_get_ptr_def LevelDBReal_put_ptr_def)

section \<open>The contract of a store\<close>

locale kv_backend =
  fixes get :: "'d \<Rightarrow> int \<Rightarrow> int option res"
    and put :: "'d \<Rightarrow> int \<times> int \<Rightarrow> bool \<times> 'd"
  assumes get_put_same: "i32_ok k \<Longrightarrow> i32_ok v \<Longrightarrow> put d (k, v) = (True, d') \<Longrightarrow> get d' k = Inr (Some v)"
    and get_put_other: "i32_ok k \<Longrightarrow> i32_ok k' \<Longrightarrow> put d (k, v) = (True, d') \<Longrightarrow> k' \<noteq> k \<Longrightarrow> get d' k' = get d k'"
begin

fun puts :: "'d \<Rightarrow> (int \<times> int) list \<Rightarrow> 'd option" where
  "puts d [] = Some d"
| "puts d (kv # kvs) = (case put d kv of (ok, d') \<Rightarrow> if ok then puts d' kvs else None)"

text \<open>After a run of successful writes a key reads as the last value written to it.\<close>

lemma get_puts:
  assumes "puts d kvs = Some d'" and "i32_ok k"
    and "\<forall>(k', v') \<in> set kvs. i32_ok k' \<and> i32_ok v'"
  shows "get d' k = (case map_of (rev kvs) k of None \<Rightarrow> get d k | Some v \<Rightarrow> Inr (Some v))"
  using assms
proof (induction kvs arbitrary: d)
  case (Cons kv kvs)
  obtain k' v' where kv: "kv = (k', v')" by (cases kv)
  from Cons.prems(1) obtain d1 where p: "put d (k', v') = (True, d1)" and r: "puts d1 kvs = Some d'"
    by (auto simp: kv split: prod.splits if_splits)
  have k': "i32_ok k'" "i32_ok v'"
    using Cons.prems(3) by (auto simp: kv)
  have "get d' k = (case map_of (rev kvs) k of None \<Rightarrow> get d1 k | Some v \<Rightarrow> Inr (Some v))"
    using Cons.IH [OF r Cons.prems(2)] Cons.prems(3) by simp
  moreover have "get d1 k = (if k = k' then Inr (Some v') else get d k)"
    using get_put_same [OF k' p] get_put_other [OF k'(1) Cons.prems(2) p] by simp
  ultimately show ?case
    by (simp add: kv map_add_def split: option.splits)
qed simp

end

interpretation proxy: kv_backend LevelDBProxy_get LevelDBProxy_put
  by unfold_locales (auto simp: LevelDBProxy_get_def LevelDBProxy_put_def om_at_def)

lemma to_string_nonempty [simp]: "to_string i \<noteq> []"
  by (simp add: to_string_def)

lemma to_string_inj: "i32_ok i \<Longrightarrow> i32_ok j \<Longrightarrow> to_string i = to_string j \<Longrightarrow> i = j"
  by (metis stoi_to_string sum.inject(2))

lemma real_backend:
  assumes same: "\<And>d k v d'. dbPut d k v = (True, d') \<Longrightarrow> dbGet d' k = Some v"
    and other: "\<And>d k v d' k'. dbPut d k v = (True, d') \<Longrightarrow> k' \<noteq> k \<Longrightarrow> dbGet d' k' = dbGet d k'"
  shows "kv_backend (LevelDBReal_get dbGet) (LevelDBReal_put dbPut)"
proof
  fix k v d d'
  assume ok: "i32_ok k" "i32_ok v" and "LevelDBReal_put dbPut d (k, v) = (True, d')"
  then have "dbPut d (to_string k) (to_string v) = (True, d')"
    by (auto simp: LevelDBReal_put_def split: prod.splits if_splits)
  then show "LevelDBReal_get dbGet d' k = Inr (Some v)"
    using ok by (simp add: LevelDBReal_get_def same stoi_to_string)
next
  fix k k' v d d'
  assume ok: "i32_ok k" "i32_ok k'" "k' \<noteq> k" and "LevelDBReal_put dbPut d (k, v) = (True, d')"
  then have "dbPut d (to_string k) (to_string v) = (True, d')"
    by (auto simp: LevelDBReal_put_def split: prod.splits if_splits)
  moreover have "to_string k' \<noteq> to_string k"
    using ok to_string_inj by blast
  ultimately show "LevelDBReal_get dbGet d' k' = LevelDBReal_get dbGet d k'"
    by (simp add: LevelDBReal_get_def other)
qed

section \<open>Properties\<close>

text \<open>The class over LevelDB stores integers faithfully: if LevelDB returns what was last put
  under a key and a put leaves other keys alone, then after a successful \<open>put\<close> of an \<open>int\<close> pair
  \<open>get\<close> of that key gives the value, and \<open>get\<close> of every other key is as before. Printing with
  \<open>std::to_string\<close> and reading with \<open>std::stoi\<close> lose nothing over the whole range.\<close>

lemma real_get_after_put:
  assumes same: "\<And>d k v d'. dbPut d k v = (True, d') \<Longrightarrow> dbGet d' k = Some v"
    and other: "\<And>d k v d' k'. dbPut d k v = (True, d') \<Longrightarrow> k' \<noteq> k \<Longrightarrow> dbGet d' k' = dbGet d k'"
    and put: "LevelDBReal_put dbPut d (k, v) = (True, d')" and ok: "i32_ok k" "i32_ok v" "i32_ok k'"
  shows "LevelDBReal_get dbGet d' k' = (if k' = k then Inr (Some v) else LevelDBReal_get dbGet d k')"
  using kv_backend.get_put_same [OF real_backend [OF same other] ok(1,2) put]
    kv_backend.get_put_other [OF real_backend [OF same other] ok(1,3) put] by auto

end
