(* ===== verification/ConsensusUtils.thy ===== *)
theory ConsensusUtils
  imports OhMyConfig PromiseStore LevelDBProxy
begin

text \<open>
  \<open>ohmyraft/ConsensusUtils.H\<close>: the operations of the replicated log with \<open>execute\<close> and \<open>abort\<close>,
  the log entry, the packed structures shipped over RPC and the parameter and reply structures of
  the Raft calls. The kind of an operation and its argument variant are separate members, as in the
  source: \<open>std::get\<close> on the wrong alternative is the fault \<open>Bad_Variant_Access\<close>, and \<open>op_wf\<close> says
  when the two agree. An enumeration read from the network may hold a value without a name
  (\<open>Unknown_Op\<close>, \<open>Unknown_Code\<close>).
\<close>

section \<open>Enumerations\<close>

datatype ErrorCode =
    OK | NOT_LEADER | PREV_NOT_COMMITTED_TIMEOUT | CUR_NOT_COMMITTED_TIMEOUT
  | SERVER_EXISTS | SERVER_NOT_FOUND | OTHER | Unknown_Code int

fun ErrorCode_int :: "ErrorCode \<Rightarrow> int" where
  "ErrorCode_int OK = 0"
| "ErrorCode_int NOT_LEADER = 1"
| "ErrorCode_int PREV_NOT_COMMITTED_TIMEOUT = 2"
| "ErrorCode_int CUR_NOT_COMMITTED_TIMEOUT = 3"
| "ErrorCode_int SERVER_EXISTS = 4"
| "ErrorCode_int SERVER_NOT_FOUND = 5"
| "ErrorCode_int OTHER = 6"
| "ErrorCode_int (Unknown_Code i) = i"

definition ErrorCode_of_int :: "int \<Rightarrow> ErrorCode" where
  "ErrorCode_of_int i =
     (if i = 0 then OK else if i = 1 then NOT_LEADER else if i = 2 then PREV_NOT_COMMITTED_TIMEOUT
      else if i = 3 then CUR_NOT_COMMITTED_TIMEOUT else if i = 4 then SERVER_EXISTS
      else if i = 5 then SERVER_NOT_FOUND else if i = 6 then OTHER else Unknown_Code i)"

datatype OpType = GET | PUT | ADD_SERVER | REMOVE_SERVER | Unknown_Op int

fun OpType_int :: "OpType \<Rightarrow> int" where
  "OpType_int GET = 0"
| "OpType_int PUT = 1"
| "OpType_int ADD_SERVER = 2"
| "OpType_int REMOVE_SERVER = 3"
| "OpType_int (Unknown_Op i) = i"

definition OpType_of_int :: "int \<Rightarrow> OpType" where
  "OpType_of_int i =
     (if i = 0 then GET else if i = 1 then PUT else if i = 2 then ADD_SERVER
      else if i = 3 then REMOVE_SERVER else Unknown_Op i)"

fun OpType_ok :: "OpType \<Rightarrow> bool" where
  "OpType_ok (Unknown_Op i) \<longleftrightarrow> i32_ok i \<and> (i < 0 \<or> 3 < i)"
| "OpType_ok _ \<longleftrightarrow> True"

lemma OpType_roundtrip [simp]: "OpType_ok k \<Longrightarrow> OpType_of_int (OpType_int k) = k"
  by (cases k) (auto simp: OpType_of_int_def)

lemma OpType_int_ok [simp]: "OpType_ok k \<Longrightarrow> i32_ok (OpType_int k)"
  by (cases k) (simp_all add: i32_ok_def)

fun ErrorCode_ok :: "ErrorCode \<Rightarrow> bool" where
  "ErrorCode_ok (Unknown_Code i) \<longleftrightarrow> i < 0 \<or> 6 < i"
| "ErrorCode_ok _ \<longleftrightarrow> True"

lemma ErrorCode_roundtrip [simp]: "ErrorCode_ok c \<Longrightarrow> ErrorCode_of_int (ErrorCode_int c) = c"
  by (cases c) (auto simp: ErrorCode_of_int_def)

section \<open>Operations\<close>

datatype op_args = ArgKey int | ArgPair int int | ArgServer ServerInfo

datatype op_res = ResGet "int option" | ResBool bool

record RaftOp =
  kind :: OpType
  args :: op_args
  promiseHandle :: "handle option"

fun get_key :: "op_args \<Rightarrow> int res" where
  "get_key (ArgKey k) = Inr k"
| "get_key _ = Inl Bad_Variant_Access"

fun get_pair :: "op_args \<Rightarrow> (int \<times> int) res" where
  "get_pair (ArgPair k v) = Inr (k, v)"
| "get_pair _ = Inl Bad_Variant_Access"

fun get_server :: "op_args \<Rightarrow> ServerInfo res" where
  "get_server (ArgServer s) = Inr s"
| "get_server _ = Inl Bad_Variant_Access"

definition withoutPromise :: "RaftOp \<Rightarrow> RaftOp" where
  "withoutPromise op = op\<lparr>promiseHandle := None\<rparr>"

text \<open>
  What \<open>execute\<close> and \<open>abort\<close> reach beside the operation: the promise store, whose promises are
  named by the future they answer, and the values set so far, newest first.
\<close>

record service =
  promises :: "nat promise_store"
  futures :: "(nat \<times> op_res) list"

definition set_value :: "nat \<Rightarrow> op_res \<Rightarrow> service \<Rightarrow> service" where
  "set_value p v sv = sv\<lparr>futures := (p, v) # futures sv\<rparr>"

definition take_promise :: "handle \<Rightarrow> service \<Rightarrow> (nat \<times> service) res" where
  "take_promise h sv =
     rbind (getAndRemove h (promises sv)) (\<lambda>(p, ps). Inr (p, sv\<lparr>promises := ps\<rparr>))"

text \<open>
  \<open>abort\<close>. The default branch of its switch calls \<open>abort\<close> again with the handle still set, and the
  first thing that call does is to take the promise it has just erased.
\<close>

definition op_abort :: "RaftOp \<Rightarrow> service \<Rightarrow> (RaftOp \<times> service) res" where
  "op_abort op sv =
     (case promiseHandle op of
        None \<Rightarrow> Inr (op, sv)
      | Some h \<Rightarrow>
          rbind (take_promise h sv) (\<lambda>(p, sv1).
            case kind op of
              GET \<Rightarrow> Inr (withoutPromise op, set_value p (ResGet None) sv1)
            | PUT \<Rightarrow> Inr (withoutPromise op, set_value p (ResBool False) sv1)
            | ADD_SERVER \<Rightarrow> Inr (withoutPromise op, set_value p (ResBool False) sv1)
            | REMOVE_SERVER \<Rightarrow> Inr (withoutPromise op, set_value p (ResBool False) sv1)
            | Unknown_Op _ \<Rightarrow> rbind (take_promise h sv1) (\<lambda>_. Inl Dangling_Handle)))"

definition op_fulfil :: "RaftOp \<Rightarrow> op_res \<Rightarrow> service \<Rightarrow> (RaftOp \<times> service) res" where
  "op_fulfil op r sv =
     (case promiseHandle op of
        None \<Rightarrow> Inr (op, sv)
      | Some h \<Rightarrow> rbind (take_promise h sv) (\<lambda>(p, sv1). Inr (withoutPromise op, set_value p r sv1)))"

definition bool_str :: "bool \<Rightarrow> string" where
  "bool_str b = (if b then ''1'' else ''0'')"

definition op_str :: "RaftOp \<Rightarrow> string res" where
  "op_str op =
     rbind
       (case kind op of
          GET \<Rightarrow> rbind (get_key (args op)) (\<lambda>k. Inr (''GET('' @ to_string k @ '') ''))
        | PUT \<Rightarrow> rbind (get_pair (args op))
            (\<lambda>(k, v). Inr (''PUT('' @ to_string k @ '', '' @ to_string v @ '') ''))
        | ADD_SERVER \<Rightarrow> rbind (get_server (args op)) (\<lambda>s. Inr (''ADD_SERVER('' @ c_str (si_ip s) @ '') ''))
        | REMOVE_SERVER \<Rightarrow> rbind (get_key (args op)) (\<lambda>k. Inr (''REMOVE_SERVER('' @ to_string k @ '') ''))
        | Unknown_Op _ \<Rightarrow> Inr ''UNKNOWN_OP '')
       (\<lambda>s. Inr (''Operation[ '' @ s @ ''HasPromise='' @ bool_str (promiseHandle op \<noteq> None) @ '' ]''))"

text \<open>\<open>execute\<close> logs the operation first, so a kind and an argument that disagree fault at once.\<close>

definition op_execute :: "('d \<Rightarrow> int \<Rightarrow> int option res) \<Rightarrow> ('d \<Rightarrow> int \<times> int \<Rightarrow> bool \<times> 'd)
    \<Rightarrow> RaftOp \<Rightarrow> 'd \<Rightarrow> service \<Rightarrow> (RaftOp \<times> 'd \<times> service) res" where
  "op_execute dbget dbput op db sv =
     rbind (op_str op) (\<lambda>_.
      let finish = (\<lambda>r db'. rbind (op_fulfil op r sv) (\<lambda>(op', sv'). Inr (op', db', sv'))) in
      case kind op of
        GET \<Rightarrow> rbind (get_key (args op)) (\<lambda>k. rbind (dbget db k) (\<lambda>v. finish (ResGet v) db))
      | PUT \<Rightarrow> rbind (get_pair (args op)) (\<lambda>kv. case dbput db kv of (ok, db') \<Rightarrow> finish (ResBool ok) db')
      | ADD_SERVER \<Rightarrow> finish (ResBool True) db
      | REMOVE_SERVER \<Rightarrow> finish (ResBool True) db
      | Unknown_Op _ \<Rightarrow> rbind (op_abort op sv) (\<lambda>(op', sv'). Inr (op', db, sv')))"

fun op_wf :: "OpType \<Rightarrow> op_args \<Rightarrow> bool" where
  "op_wf GET (ArgKey _) \<longleftrightarrow> True"
| "op_wf PUT (ArgPair _ _) \<longleftrightarrow> True"
| "op_wf ADD_SERVER (ArgServer _) \<longleftrightarrow> True"
| "op_wf REMOVE_SERVER (ArgKey _) \<longleftrightarrow> True"
| "op_wf _ _ \<longleftrightarrow> False"

abbreviation op_typed :: "RaftOp \<Rightarrow> bool" where
  "op_typed op \<equiv> op_wf (kind op) (args op)"

lemma op_typed_str: "op_typed op \<Longrightarrow> \<exists>s. op_str op = Inr s"
  by (cases "kind op"; cases "args op") (simp_all add: op_str_def)

section \<open>Log entries and messages\<close>

record LogEntry =
  log_term :: int
  log_op :: RaftOp

definition LogEntry_str :: "LogEntry \<Rightarrow> string res" where
  "LogEntry_str e =
     rbind (op_str (log_op e)) (\<lambda>s. Inr (''LogEntry=[Term='' @ to_string (log_term e) @ '' Op='' @ s @ '']''))"

record TransportEntry =
  te_term :: int
  te_index :: int
  te_kind :: OpType
  te_arg1 :: int
  te_arg2 :: int
  te_serverInfo :: ServerInfo

record AppendLogEntry =
  ale_term :: int
  ale_index :: int
  ale_op :: RaftOp

record AppendEntriesParams =
  ae_term :: int
  ae_leaderId :: int
  ae_prevLogIndex :: int
  ae_prevLogTerm :: int
  ae_entries :: "AppendLogEntry list"
  ae_leaderCommit :: int

record AppendEntriesRet =
  aer_term :: int
  aer_success :: bool

record RequestVoteParams =
  rv_candidateId :: int
  rv_term :: int
  rv_lastLogIndex :: int
  rv_lastLogTerm :: int

record RequestVoteRet =
  rvr_term :: int
  rvr_voteGranted :: bool

record AddServerParams =
  as_serverId :: int
  as_ip :: string        \<comment> \<open>\<open>char ip[20]\<close>\<close>
  as_raftPort :: int
  as_dbPort :: int
  as_name :: string      \<comment> \<open>\<open>char name[20]\<close>\<close>

record RemoveServerParams =
  rs_serverId :: int

text \<open>\<open>AddServerRet\<close> and \<open>RemoveServerRet\<close> have the same members.\<close>

record MembershipRet =
  errorCode :: ErrorCode
  leaderAddr :: string

record PeerNetworkConfig =
  pn_peerId :: int
  pn_isEnabled :: bool
  pn_isDelayed :: bool
  pn_delayMs :: int

section \<open>Printing of messages\<close>

text \<open>
  The \<open>str\<close> members of the message structures, used by the log output of both ends of a call. Only
  the printing of an operation can fault, so printing a request faults exactly on an operation whose
  kind and argument disagree. A \<open>char\<close> array prints up to its first NUL, an enumeration as its number.
\<close>

definition AppendLogEntry_str :: "AppendLogEntry \<Rightarrow> string res" where
  "AppendLogEntry_str e =
     rbind (op_str (ale_op e)) (\<lambda>s.
       Inr (''AppendLogEntry={'' @ ''Term='' @ to_string (ale_term e) @ '' '' @ ''Index='' @ to_string (ale_index e) @ '' ''
            @ ''Op='' @ s @ ''}''))"

fun entries_str :: "AppendLogEntry list \<Rightarrow> string res" where
  "entries_str [] = Inr []"
| "entries_str (e # es) =
     rbind (AppendLogEntry_str e) (\<lambda>s. rbind (entries_str es) (\<lambda>t. Inr (s @ '' '' @ t)))"

definition AppendEntriesParams_str :: "AppendEntriesParams \<Rightarrow> string res" where
  "AppendEntriesParams_str a =
     rbind (entries_str (ae_entries a)) (\<lambda>es.
       Inr (''AppendEntriesParam={'' @ ''Term='' @ to_string (ae_term a) @ '' '' @ ''LeaderId='' @ to_string (ae_leaderId a) @ '' ''
            @ ''PrevLogIndex='' @ to_string (ae_prevLogIndex a) @ '' '' @ ''PrevLogTerm='' @ to_string (ae_prevLogTerm a) @ '' ''
            @ ''LeaderCommit='' @ to_string (ae_leaderCommit a) @ '' '' @ ''Entries=[ '' @ es @ '']}''))"

definition AppendEntriesRet_str :: "AppendEntriesRet \<Rightarrow> string" where
  "AppendEntriesRet_str r =
     ''AppendEntriesRet=['' @ ''Term='' @ to_string (aer_term r) @ '' '' @ ''Success='' @ bool_str (aer_success r) @ '']''"

definition RequestVoteParams_str :: "RequestVoteParams \<Rightarrow> string" where
  "RequestVoteParams_str a =
     ''RequestVoteParams=['' @ ''CandidateId='' @ to_string (rv_candidateId a) @ '' '' @ ''Term='' @ to_string (rv_term a) @ '' ''
       @ ''LastLogIndex='' @ to_string (rv_lastLogIndex a) @ '' '' @ ''LastLogTerm='' @ to_string (rv_lastLogTerm a) @ '']''"

definition RequestVoteRet_str :: "RequestVoteRet \<Rightarrow> string" where
  "RequestVoteRet_str r =
     ''RequestVoteRet=['' @ ''Term='' @ to_string (rvr_term r) @ '' '' @ ''VoteGranted='' @ bool_str (rvr_voteGranted r) @ '']''"

definition AddServerParams_str :: "AddServerParams \<Rightarrow> string" where
  "AddServerParams_str a =
     ''AddServerParams=['' @ ''ServerId='' @ to_string (as_serverId a) @ '' '' @ ''IP='' @ c_str (as_ip a) @ '' ''
       @ ''RaftPort='' @ to_string (as_raftPort a) @ '' '' @ ''DBPort='' @ to_string (as_dbPort a) @ '' ''
       @ ''Name='' @ c_str (as_name a) @ '']''"

definition AddServerRet_str :: "MembershipRet \<Rightarrow> string" where
  "AddServerRet_str r =
     ''AddServerRet=['' @ ''ErrorCode='' @ to_string (ErrorCode_int (errorCode r)) @ '' '' @ ''LeaderAddr='' @ leaderAddr r @ '']''"

definition RemoveServerParams_str :: "RemoveServerParams \<Rightarrow> string" where
  "RemoveServerParams_str a = ''RemoveServerParams=['' @ ''ServerId='' @ to_string (rs_serverId a) @ '']''"

definition RemoveServerRet_str :: "MembershipRet \<Rightarrow> string" where
  "RemoveServerRet_str r =
     ''RemoveServerRet=['' @ ''ErrorCode='' @ to_string (ErrorCode_int (errorCode r)) @ '' '' @ ''LeaderAddr='' @ leaderAddr r @ '']''"

definition PeerNetworkConfig_str :: "PeerNetworkConfig \<Rightarrow> string" where
  "PeerNetworkConfig_str p =
     ''PeerNetworkConfig=['' @ ''PeerId='' @ to_string (pn_peerId p) @ '' '' @ ''IsEnabled='' @ bool_str (pn_isEnabled p) @ '' ''
       @ ''IsDelayed='' @ bool_str (pn_isDelayed p) @ '' '' @ ''DelayMS='' @ to_string (pn_delayMs p) @ '']''"

text \<open>An operation prints unless its kind names an argument the variant does not hold.\<close>

definition op_prints :: "RaftOp \<Rightarrow> bool" where
  "op_prints op \<longleftrightarrow> op_typed op \<or> (\<exists>i. kind op = Unknown_Op i)"

lemma op_str_Inr_iff: "(\<exists>s. op_str op = Inr s) \<longleftrightarrow> op_prints op"
  by (cases "kind op"; cases "args op") (simp_all add: op_str_def op_prints_def)

lemma entries_str_Inr_iff: "(\<exists>s. entries_str es = Inr s) \<longleftrightarrow> (\<forall>e \<in> set es. op_prints (ale_op e))"
proof (induction es)
  case (Cons e es)
  then show ?case
    by (auto simp: AppendLogEntry_str_def rbind_eq_Inr_iff simp flip: op_str_Inr_iff)
qed simp

lemma AppendEntriesParams_str_Inr_iff:
  "(\<exists>s. AppendEntriesParams_str a = Inr s) \<longleftrightarrow> (\<forall>e \<in> set (ae_entries a). op_prints (ale_op e))"
  using entries_str_Inr_iff [of "ae_entries a"] by (simp add: AppendEntriesParams_str_def rbind_eq_Inr_iff)

section \<open>Layout of the packed structures\<close>

definition TransportEntry_ok :: "TransportEntry \<Rightarrow> bool" where
  "TransportEntry_ok e \<longleftrightarrow>
     i32_ok (te_term e) \<and> i32_ok (te_index e) \<and> OpType_ok (te_kind e) \<and> i32_ok (te_arg1 e)
       \<and> i32_ok (te_arg2 e) \<and> ServerInfo_ok (te_serverInfo e)"

definition TransportEntry_bytes :: "TransportEntry \<Rightarrow> byte list" where
  "TransportEntry_bytes e =
     i32_bytes (te_term e) @ i32_bytes (te_index e) @ i32_bytes (OpType_int (te_kind e))
       @ i32_bytes (te_arg1 e) @ i32_bytes (te_arg2 e) @ ServerInfo_bytes (te_serverInfo e)"

definition TransportEntry_of_bytes :: "byte list \<Rightarrow> TransportEntry" where
  "TransportEntry_of_bytes bs =
     \<lparr>te_term = i32_of_bytes (take 4 bs),
      te_index = i32_of_bytes (take 4 (drop 4 bs)),
      te_kind = OpType_of_int (i32_of_bytes (take 4 (drop 8 bs))),
      te_arg1 = i32_of_bytes (take 4 (drop 12 bs)),
      te_arg2 = i32_of_bytes (take 4 (drop 16 bs)),
      te_serverInfo = ServerInfo_of_bytes (take 57 (drop 20 bs))\<rparr>"

interpretation transport_entry: object_layout 77 TransportEntry_ok TransportEntry_bytes TransportEntry_of_bytes
  by unfold_locales (simp_all add: TransportEntry_ok_def TransportEntry_bytes_def TransportEntry_of_bytes_def)

definition PeerNetworkConfig_ok :: "PeerNetworkConfig \<Rightarrow> bool" where
  "PeerNetworkConfig_ok p \<longleftrightarrow> i32_ok (pn_peerId p) \<and> i32_ok (pn_delayMs p)"

definition PeerNetworkConfig_bytes :: "PeerNetworkConfig \<Rightarrow> byte list" where
  "PeerNetworkConfig_bytes p =
     i32_bytes (pn_peerId p) @ [bool_byte (pn_isEnabled p), bool_byte (pn_isDelayed p)] @ i32_bytes (pn_delayMs p)"

definition PeerNetworkConfig_of_bytes :: "byte list \<Rightarrow> PeerNetworkConfig" where
  "PeerNetworkConfig_of_bytes bs =
     \<lparr>pn_peerId = i32_of_bytes (take 4 bs), pn_isEnabled = bool_of_byte (bs ! 4),
      pn_isDelayed = bool_of_byte (bs ! 5), pn_delayMs = i32_of_bytes (take 4 (drop 6 bs))\<rparr>"

interpretation peer_config: object_layout 10 PeerNetworkConfig_ok PeerNetworkConfig_bytes PeerNetworkConfig_of_bytes
  by unfold_locales
     (simp_all add: PeerNetworkConfig_ok_def PeerNetworkConfig_bytes_def PeerNetworkConfig_of_bytes_def
        nth_append)

section \<open>Promises are answered once\<close>

lemma take_promise_live:
  assumes "ps_ok (promises sv)" and "ps_live (promises sv) h = Some p"
  shows "\<exists>ps'. take_promise h sv = Inr (p, sv\<lparr>promises := ps'\<rparr>) \<and> ps_ok ps'
           \<and> ps_live ps' = (ps_live (promises sv))(h := None)"
  using ps.remove_live [OF assms] ps.invar_remove [OF assms(1)] by (fastforce simp: take_promise_def)

lemma take_promise_dead: "ps_live (promises sv) h = None \<Longrightarrow> take_promise h sv = Inl Dangling_Handle"
  by (simp add: take_promise_def ps.remove_dead)

lemma withoutPromise_simps [simp]:
  "kind (withoutPromise op) = kind op" "args (withoutPromise op) = args op"
  "promiseHandle (withoutPromise op) = None" "withoutPromise (withoutPromise op) = withoutPromise op"
  by (simp_all add: withoutPromise_def)

lemma withoutPromise_id: "promiseHandle op = None \<Longrightarrow> withoutPromise op = op"
  by (simp add: withoutPromise_def)

end
