(* ===== verification/RaftRPCRouter.thy ===== *)
theory RaftRPCRouter
  imports ConsensusUtils
begin

text \<open>
  \<open>ohmyraft/RaftRPCRouter.H\<close>: the RPC client of one peer with the switches the \<open>NetworkUpdate\<close>
  call sets for fault injection. The call itself (\<open>RaftClient\<close>, gRPC) is the argument \<open>call\<close>; a
  routed call gives the milliseconds slept before it and its reply, if any.
\<close>

record router =
  channel :: string
  isEnabled :: bool
  isDelayed :: bool
  delayMs :: int

definition router_new :: "string \<Rightarrow> router" where
  "router_new addr = \<lparr>channel = addr, isEnabled = True, isDelayed = False, delayMs = 0\<rparr>"

definition setEnable :: "bool \<Rightarrow> router \<Rightarrow> router" where
  "setEnable en r = r\<lparr>isEnabled := en\<rparr>"

definition setIsDelayed :: "bool \<Rightarrow> router \<Rightarrow> router" where
  "setIsDelayed dl r = r\<lparr>isDelayed := dl\<rparr>"

definition setDelayMs :: "int \<Rightarrow> router \<Rightarrow> router" where
  "setDelayMs dlms r = r\<lparr>delayMs := dlms\<rparr>"

definition router_AppendEntries ::
    "(AppendEntriesParams \<Rightarrow> AppendEntriesRet option) \<Rightarrow> router \<Rightarrow> AppendEntriesParams \<Rightarrow> int \<times> AppendEntriesRet option" where
  "router_AppendEntries call r prm =
     (if \<not> isEnabled r then (0, None)
      else if isDelayed r then (delayMs r, call prm)
      else (0, call prm))"

definition router_RequestVote ::
    "(RequestVoteParams \<Rightarrow> RequestVoteRet option) \<Rightarrow> router \<Rightarrow> RequestVoteParams \<Rightarrow> int \<times> RequestVoteRet option" where
  "router_RequestVote call r prm =
     (if \<not> isEnabled r then (0, None)
      else if isDelayed r then (delayMs r, call prm)
      else (0, call prm))"

end
