(* ===== verification/Persistence.thy ===== *)
theory Persistence
  imports Layout "HOL-Library.Sublist"
begin

text \<open>
  \<open>ohmyraft/PersistentStore.H\<close> and \<open>ohmyraft/PersistentVector.H\<close> over a small file system: a map
  from names to contents, with the system calls the two classes use. Calls do not fail, except that
  opening a missing file for reading does.

  A descriptor is the number 0 that the zero-initialised member holds before the first \<open>open\<close>, or
  an open file, in append mode (\<open>None\<close>) or with a write offset. Calls on descriptor 0 concern the
  standard input of the process and change none of the modelled files.

  The template parameter of the vector is a value of \<open>cxx_type\<close>: the size, object representation
  and default value of the element type. What the proofs need of it is \<open>object_layout\<close>.
\<close>

section \<open>Files\<close>

type_synonym fs = "string \<Rightarrow> byte list option"

datatype descr = Fd_zero | Fd string "nat option"

definition contents :: "fs \<Rightarrow> string \<Rightarrow> byte list" where
  "contents fs p = (case fs p of None \<Rightarrow> [] | Some bs \<Rightarrow> bs)"

definition open_append :: "string \<Rightarrow> fs \<Rightarrow> descr \<times> fs" where
  "open_append p fs = (Fd p None, fs(p \<mapsto> contents fs p))"

definition open_trunc :: "string \<Rightarrow> fs \<Rightarrow> descr \<times> fs" where
  "open_trunc p fs = (Fd p (Some 0), fs(p \<mapsto> []))"

definition open_write :: "string \<Rightarrow> fs \<Rightarrow> descr \<times> fs" where
  "open_write p fs = (Fd p (Some 0), fs(p \<mapsto> contents fs p))"

definition write_at :: "nat \<Rightarrow> byte list \<Rightarrow> byte list \<Rightarrow> byte list" where
  "write_at off bs old = take off old @ replicate (off - length old) 0 @ bs @ drop (off + length bs) old"

fun sys_write :: "descr \<Rightarrow> byte list \<Rightarrow> fs \<Rightarrow> descr \<times> fs" where
  "sys_write Fd_zero bs fs = (Fd_zero, fs)"
| "sys_write (Fd p None) bs fs = (Fd p None, fs(p \<mapsto> contents fs p @ bs))"
| "sys_write (Fd p (Some off)) bs fs = (Fd p (Some (off + length bs)), fs(p \<mapsto> write_at off bs (contents fs p)))"

fun sys_ftruncate :: "descr \<Rightarrow> nat \<Rightarrow> fs \<Rightarrow> fs" where
  "sys_ftruncate Fd_zero n fs = fs"
| "sys_ftruncate (Fd p _) n fs = fs(p \<mapsto> take n (contents fs p) @ replicate (n - length (contents fs p)) 0)"

definition sys_rename :: "string \<Rightarrow> string \<Rightarrow> fs \<Rightarrow> fs" where
  "sys_rename p q fs = (if fs p = None then fs else fs(q := fs p, p := None))"

section \<open>PersistentStore\<close>

record pstore =
  fileBaseName :: string
  pst_initialised :: bool

definition pstore_init :: pstore where
  "pstore_init = \<lparr>fileBaseName = [], pst_initialised = False\<rparr>"

definition pstore_setup :: "string \<Rightarrow> pstore \<Rightarrow> pstore" where
  "pstore_setup base st = (if pst_initialised st then st else st\<lparr>pst_initialised := True, fileBaseName := base\<rparr>)"

definition getFilename :: "pstore \<Rightarrow> string \<Rightarrow> string" where
  "getFilename st key = fileBaseName st @ key @ ''.persist''"

definition pstore_store :: "pstore \<Rightarrow> string \<Rightarrow> int \<Rightarrow> fs \<Rightarrow> fs" where
  "pstore_store st key val fs =
     (let tmpFile = getFilename st key @ ''.tmp'';
          (fd, fs1) = open_write tmpFile fs;
          (fd', fs2) = sys_write fd (i32_bytes val) fs1
      in sys_rename tmpFile (getFilename st key) fs2)"

definition loadInt :: "string \<Rightarrow> fs \<Rightarrow> int option" where
  "loadInt filename fs =
     (case fs filename of
        None \<Rightarrow> None
      | Some bs \<Rightarrow> if length (take 4 bs) \<noteq> 4 then None else Some (i32_of_bytes (take 4 bs)))"

definition pstore_load :: "pstore \<Rightarrow> string \<Rightarrow> int \<Rightarrow> fs \<Rightarrow> int" where
  "pstore_load st key defaultVal fs =
     (case loadInt (getFilename st key) fs of None \<Rightarrow> defaultVal | Some v \<Rightarrow> v)"

text \<open>The files as a crash can leave them while \<open>store\<close> runs: its temporary file is created, holds a
  prefix of the value, then all of it, and then replaces the file of the key.\<close>

definition pstore_crash_states :: "pstore \<Rightarrow> string \<Rightarrow> int \<Rightarrow> fs \<Rightarrow> fs list" where
  "pstore_crash_states st key val fs =
     (let tmpFile = getFilename st key @ ''.tmp'' in
      fs # snd (open_write tmpFile fs)
        # map (\<lambda>n. snd (sys_write (Fd tmpFile (Some 0)) (take n (i32_bytes val)) (snd (open_write tmpFile fs)))) [0, 1, 2, 3, 4]
        @ [pstore_store st key val fs])"

section \<open>PersistentVector\<close>

record 'a cxx_type =
  t_size :: nat
  t_enc :: "'a \<Rightarrow> byte list"
  t_dec :: "byte list \<Rightarrow> 'a"
  t_default :: 'a

record 'a pvec =
  items :: "'a list"
  persistedItems :: nat
  pv_fd :: descr
  pv_filename :: string
  pv_initialised :: bool
  preproc :: "'a \<Rightarrow> 'a"
  pv_type :: "'a cxx_type"

definition pvec_init :: "'a cxx_type \<Rightarrow> 'a pvec" where
  "pvec_init T =
     \<lparr>items = [], persistedItems = 0, pv_fd = Fd_zero, pv_filename = [], pv_initialised = False,
      preproc = (\<lambda>val. val), pv_type = T\<rparr>"

definition pvec_push_back :: "'a \<Rightarrow> 'a pvec \<Rightarrow> 'a pvec" where
  "pvec_push_back x pv = pv\<lparr>items := items pv @ [x]\<rparr>"

definition pvec_resize :: "nat \<Rightarrow> 'a pvec \<Rightarrow> fs \<Rightarrow> 'a pvec \<times> fs" where
  "pvec_resize newSize pv fs =
     (let (pv1, fs1) =
        (if newSize \<le> persistedItems pv then
           let fs' = sys_ftruncate (pv_fd pv) (newSize * t_size (pv_type pv)) fs;
               (fd', fs'') = open_append (pv_filename pv) fs'
           in (pv\<lparr>persistedItems := newSize, pv_fd := fd'\<rparr>, fs'')
         else (pv, fs))
      in (pv1\<lparr>items := take newSize (items pv1) @ replicate (newSize - length (items pv1)) (t_default (pv_type pv1))\<rparr>, fs1))"

fun write_all :: "descr \<Rightarrow> byte list list \<Rightarrow> fs \<Rightarrow> descr \<times> fs" where
  "write_all fd [] fs = (fd, fs)"
| "write_all fd (b # bs) fs = (case sys_write fd b fs of (fd', fs') \<Rightarrow> write_all fd' bs fs')"

definition pvec_persist :: "'a pvec \<Rightarrow> fs \<Rightarrow> 'a pvec \<times> fs" where
  "pvec_persist pv fs =
     (let curSize = length (items pv) in
      if curSize = persistedItems pv then (pv, fs)
      else
        let (pv1, fs1) = pvec_resize curSize pv fs;
            (fd', fs2) = write_all (pv_fd pv1)
               (map (\<lambda>x. t_enc (pv_type pv1) (preproc pv1 x)) (drop (persistedItems pv1) (items pv1))) fs1
        in (pv1\<lparr>pv_fd := fd', persistedItems := curSize\<rparr>, fs2))"

definition pvec_bootstrap :: "string \<Rightarrow> 'a pvec \<Rightarrow> fs \<Rightarrow> bool \<times> 'a pvec \<times> fs" where
  "pvec_bootstrap filename pv fs =
     (case fs filename of
        None \<Rightarrow> (False, pv, fs)
      | Some buf \<Rightarrow>
          let pv1 = pv\<lparr>items := items pv @ read_records (t_size (pv_type pv)) (t_dec (pv_type pv)) buf\<rparr>
          in (True, pvec_resize (length (items pv1)) pv1 fs))"

definition pvec_setup :: "string \<Rightarrow> bool \<Rightarrow> ('a \<Rightarrow> 'a) \<Rightarrow> 'a pvec \<Rightarrow> fs \<Rightarrow> 'a pvec \<times> fs" where
  "pvec_setup filename withBootstrap pre pv fs =
     (if pv_initialised pv then (pv, fs)
      else
        let pv1 = pv\<lparr>preproc := pre, pv_filename := filename\<rparr>;
            (pv3, fs3) =
              (if withBootstrap then
                 let (ok, pv2, fs2) = pvec_bootstrap filename pv1 fs;
                     (fd', fs') = open_append filename fs2
                 in (pv2\<lparr>persistedItems := (if ok then length (items pv2) else 0), pv_fd := fd'\<rparr>, fs')
               else
                 let (fd', fs') = open_trunc filename fs in (pv1\<lparr>pv_fd := fd'\<rparr>, fs'))
        in (pv3\<lparr>pv_initialised := True\<rparr>, fs3))"

section \<open>The store returns what was stored\<close>

lemma getFilename_inj [simp]: "getFilename st k = getFilename st k' \<longleftrightarrow> k = k'"
  by (simp add: getFilename_def)

lemma tmp_not_persist [simp]: "getFilename st k @ ''.tmp'' \<noteq> getFilename st' k'" "getFilename st' k' \<noteq> getFilename st k @ ''.tmp''"
proof -
  have "last (getFilename st k @ ''.tmp'') \<noteq> last (getFilename st' k')"
    by (simp add: getFilename_def)
  then show "getFilename st k @ ''.tmp'' \<noteq> getFilename st' k'"
    by metis
  then show "getFilename st' k' \<noteq> getFilename st k @ ''.tmp''"
    by metis
qed

lemma contents_upd [simp]: "contents (fs(p \<mapsto> bs)) q = (if q = p then bs else contents fs q)"
  by (simp add: contents_def)

lemma pstore_store_files:
  "pstore_store st key val fs =
     fs(getFilename st key \<mapsto> i32_bytes val @ drop 4 (contents fs (getFilename st key @ ''.tmp'')),
        getFilename st key @ ''.tmp'' := None)"
  by (simp add: pstore_store_def open_write_def sys_rename_def write_at_def Let_def)

lemma load_store_same: "i32_ok v \<Longrightarrow> pstore_load st k d (pstore_store st k v fs) = v"
  by (simp add: pstore_store_files pstore_load_def loadInt_def)

lemma load_store_other: "k' \<noteq> k \<Longrightarrow> pstore_load st k' d (pstore_store st k v fs) = pstore_load st k' d fs"
  by (simp add: pstore_store_files pstore_load_def loadInt_def)

lemma pstore_store_frame:
  "p \<noteq> getFilename st k \<Longrightarrow> p \<noteq> getFilename st k @ ''.tmp'' \<Longrightarrow> pstore_store st k v fs p = fs p"
  by (simp add: pstore_store_files)

lemma load_frame: "fs' (getFilename st k) = fs (getFilename st k) \<Longrightarrow> pstore_load st k d fs' = pstore_load st k d fs"
  by (simp add: pstore_load_def loadInt_def)

lemma crash_states_file:
  "fs' \<in> set (pstore_crash_states st k v fs) \<Longrightarrow> fs' = pstore_store st k v fs \<or>
     (\<forall>p. p \<noteq> getFilename st k @ ''.tmp'' \<longrightarrow> fs' p = fs p)"
  by (auto simp: pstore_crash_states_def open_write_def Let_def)

section \<open>The vector and its file\<close>

definition pvec_bytes :: "'a pvec \<Rightarrow> byte list" where
  "pvec_bytes pv =
     concat (map (\<lambda>x. t_enc (pv_type pv) (preproc pv x)) (take (persistedItems pv) (items pv)))"

definition pvec_ok :: "'a pvec \<Rightarrow> fs \<Rightarrow> bool" where
  "pvec_ok pv fs \<longleftrightarrow>
     pv_initialised pv \<and> persistedItems pv \<le> length (items pv) \<and> fs (pv_filename pv) = Some (pvec_bytes pv)
       \<and> (pv_fd pv = Fd (pv_filename pv) None \<or> pv_fd pv = Fd (pv_filename pv) (Some (length (pvec_bytes pv))))"

definition pvec_synced :: "'a pvec \<Rightarrow> fs \<Rightarrow> bool" where
  "pvec_synced pv fs \<longleftrightarrow> pvec_ok pv fs \<and> persistedItems pv = length (items pv)"

lemma pvec_resize_items: "n \<le> length (items pv) \<Longrightarrow> items (fst (pvec_resize n pv fs)) = take n (items pv)"
  by (simp add: pvec_resize_def Let_def open_append_def)

lemma pvec_resize_same [simp]:
  "pv_filename (fst (pvec_resize n pv fs)) = pv_filename pv"
  "preproc (fst (pvec_resize n pv fs)) = preproc pv"
  "pv_type (fst (pvec_resize n pv fs)) = pv_type pv"
  "pv_initialised (fst (pvec_resize n pv fs)) = pv_initialised pv"
  by (simp_all add: pvec_resize_def Let_def open_append_def)

lemma pvec_persist_same [simp]:
  "items (fst (pvec_persist pv fs)) = items pv"
  "pv_filename (fst (pvec_persist pv fs)) = pv_filename pv"
  "preproc (fst (pvec_persist pv fs)) = preproc pv"
  "pv_type (fst (pvec_persist pv fs)) = pv_type pv"
  "pv_initialised (fst (pvec_persist pv fs)) = pv_initialised pv"
  by (simp_all add: pvec_persist_def Let_def case_prod_beta pvec_resize_items)

lemma pvec_push_back_same [simp]:
  "items (pvec_push_back x pv) = items pv @ [x]"
  "pv_filename (pvec_push_back x pv) = pv_filename pv"
  "preproc (pvec_push_back x pv) = preproc pv"
  "pv_type (pvec_push_back x pv) = pv_type pv"
  "persistedItems (pvec_push_back x pv) = persistedItems pv"
  by (simp_all add: pvec_push_back_def)

lemma pvec_push_back_ok: "pvec_ok pv fs \<Longrightarrow> pvec_ok (pvec_push_back x pv) fs"
  by (simp add: pvec_ok_def pvec_push_back_def pvec_bytes_def)

lemma write_at_end: "off = length old \<Longrightarrow> write_at off bs old = old @ bs"
  by (simp add: write_at_def)

lemma write_all_at_end:
  assumes "fd = Fd p None \<or> fd = Fd p (Some (length old))" and "fs p = Some old"
  shows "\<exists>fd'. write_all fd bss fs = (fd', fs(p \<mapsto> old @ concat bss))
           \<and> (fd' = Fd p None \<or> fd' = Fd p (Some (length (old @ concat bss))))"
  using assms
proof (induction bss arbitrary: fd old fs)
  case Nil
  then show ?case by auto
next
  case (Cons b bss)
  have c: "contents fs p = old"
    using Cons.prems(2) by (simp add: contents_def)
  obtain fd' where fd': "sys_write fd b fs = (fd', fs(p \<mapsto> old @ b))"
      "fd' = Fd p None \<or> fd' = Fd p (Some (length (old @ b)))"
    using Cons.prems(1) c by (auto simp: write_at_end)
  let ?fs = "fs(p \<mapsto> old @ b)"
  have "?fs p = Some (old @ b)"
    by simp
  from Cons.IH [where fs = ?fs, OF fd'(2) this, unfolded fun_upd_upd] obtain fd'' where
      "write_all fd' bss (fs(p \<mapsto> old @ b)) = (fd'', fs(p \<mapsto> (old @ b) @ concat bss))"
      "fd'' = Fd p None \<or> fd'' = Fd p (Some (length ((old @ b) @ concat bss)))"
    by blast
  then show ?case
    by (intro exI [of _ fd'']) (simp add: fd'(1) add.assoc fun_eq_iff)
qed

lemma pvec_ok_frame: "pvec_ok pv fs \<Longrightarrow> fs' (pv_filename pv) = fs (pv_filename pv) \<Longrightarrow> pvec_ok pv fs'"
  by (simp add: pvec_ok_def)

lemma pvec_persist_sync:
  assumes "pvec_ok pv fs" and "pvec_persist pv fs = (pv', fs')"
  shows "pvec_synced pv' fs' \<and> (\<forall>q. q \<noteq> pv_filename pv \<longrightarrow> fs' q = fs q)"
proof (cases "length (items pv) = persistedItems pv")
  case True
  then show ?thesis
    using assms by (auto simp: pvec_persist_def pvec_synced_def)
next
  case False
  then have less: "persistedItems pv < length (items pv)"
    using assms(1) by (simp add: pvec_ok_def)
  let ?new = "map (\<lambda>x. t_enc (pv_type pv) (preproc pv x)) (drop (persistedItems pv) (items pv))"
  have resize: "pvec_resize (length (items pv)) pv fs = (pv, fs)"
    using less by (simp add: pvec_resize_def Let_def)
  obtain fd' where fd': "write_all (pv_fd pv) ?new fs = (fd', fs(pv_filename pv \<mapsto> pvec_bytes pv @ concat ?new))"
      "fd' = Fd (pv_filename pv) None \<or> fd' = Fd (pv_filename pv) (Some (length (pvec_bytes pv @ concat ?new)))"
    using write_all_at_end [of "pv_fd pv" "pv_filename pv" "pvec_bytes pv" fs ?new] assms(1)
    by (auto simp: pvec_ok_def)
  have pv': "pv' = pv\<lparr>pv_fd := fd', persistedItems := length (items pv)\<rparr>"
      "fs' = fs(pv_filename pv \<mapsto> pvec_bytes pv @ concat ?new)"
    using assms(2) False by (simp_all add: pvec_persist_def Let_def resize fd'(1))
  have "pvec_bytes pv' = pvec_bytes pv @ concat ?new"
    unfolding pvec_bytes_def pv'(1) by (simp flip: concat_append map_append)
  then show ?thesis
    using fd'(2) assms(1) by (auto simp: pvec_synced_def pvec_ok_def pv')
qed

text \<open>The vectors whose elements can be written and read back: their element type has a layout.\<close>

definition pvec_storable :: "('a \<Rightarrow> bool) \<Rightarrow> 'a pvec \<Rightarrow> bool" where
  "pvec_storable valid pv \<longleftrightarrow>
     object_layout (t_size (pv_type pv)) valid (t_enc (pv_type pv)) (t_dec (pv_type pv))
       \<and> list_all (\<lambda>x. valid (preproc pv x)) (items pv)"

lemma pvec_storable_push [simp]:
  "pvec_storable valid (pvec_push_back x pv) \<longleftrightarrow> pvec_storable valid pv \<and> valid (preproc pv x)"
  by (auto simp: pvec_storable_def)

lemma pvec_storable_persist [simp]: "pvec_storable valid (fst (pvec_persist pv fs)) \<longleftrightarrow> pvec_storable valid pv"
  by (simp add: pvec_storable_def)

lemma pvec_bytes_cut:
  assumes st: "pvec_storable valid pv" and "n \<le> persistedItems pv" and "persistedItems pv \<le> length (items pv)"
  shows "take (n * t_size (pv_type pv)) (pvec_bytes pv)
           = concat (map (\<lambda>x. t_enc (pv_type pv) (preproc pv x)) (take n (items pv)))"
    and "n * t_size (pv_type pv) \<le> length (pvec_bytes pv)"
proof -
  let ?xs = "map (preproc pv) (take (persistedItems pv) (items pv))"
  have lay: "object_layout (t_size (pv_type pv)) valid (t_enc (pv_type pv)) (t_dec (pv_type pv))"
    using st by (simp add: pvec_storable_def)
  have all: "list_all valid ?xs"
    using st list_all_take [of "\<lambda>x. valid (preproc pv x)" "items pv"] by (simp add: pvec_storable_def list_all_iff)
  show "take (n * t_size (pv_type pv)) (pvec_bytes pv)
      = concat (map (\<lambda>x. t_enc (pv_type pv) (preproc pv x)) (take n (items pv)))"
    using object_layout.take_enc [OF lay all, of n] assms
    by (simp add: pvec_bytes_def comp_def take_map min_def)
  show "n * t_size (pv_type pv) \<le> length (pvec_bytes pv)"
    using object_layout.length_enc_all [OF lay all] assms by (simp add: pvec_bytes_def comp_def)
qed

lemma pvec_resize_ok:
  assumes ok: "pvec_ok pv fs" and st: "pvec_storable valid pv" and n: "n \<le> length (items pv)"
    and r: "pvec_resize n pv fs = (pv', fs')"
  shows "pvec_ok pv' fs' \<and> pvec_storable valid pv' \<and> (\<forall>q. q \<noteq> pv_filename pv \<longrightarrow> fs' q = fs q)"
proof -
  have st': "pvec_storable valid pv'"
    using r n st list_all_take [of "\<lambda>x. valid (preproc pv x)" "items pv" n]
      pvec_resize_items [OF n, of fs] pvec_resize_same [of n pv fs]
    by (simp add: pvec_storable_def)
  show ?thesis
  proof (cases "n \<le> persistedItems pv")
    case True
    have "pv' = pv\<lparr>persistedItems := n, pv_fd := Fd (pv_filename pv) None, items := take n (items pv)\<rparr>"
        "fs' = fs(pv_filename pv \<mapsto> take (n * t_size (pv_type pv)) (pvec_bytes pv))"
      using r True n ok pvec_bytes_cut(2) [OF st True]
      by (auto simp: pvec_resize_def Let_def open_append_def pvec_ok_def contents_def)
    then show ?thesis
      using n ok st' pvec_bytes_cut(1) [OF st True] by (simp add: pvec_ok_def pvec_bytes_def)
  next
    case False
    then have "pv' = pv\<lparr>items := take n (items pv)\<rparr>" "fs' = fs"
      using r n by (auto simp: pvec_resize_def Let_def)
    then show ?thesis
      using False ok st' n by (simp add: pvec_ok_def pvec_bytes_def min_def)
  qed
qed

text \<open>A fresh vector set up on the file of a synchronised one has its elements, as stored.\<close>

lemma pvec_recover:
  assumes sync: "pvec_synced pv fs" and st: "pvec_storable valid pv" and T: "T = pv_type pv"
    and idem: "\<And>x. preproc pv (preproc pv x) = preproc pv x"
    and s: "pvec_setup (pv_filename pv) True (preproc pv) (pvec_init T) fs = (pv', fs')"
  shows "items pv' = map (preproc pv) (items pv) \<and> fs' = fs \<and> pvec_synced pv' fs' \<and> pvec_storable valid pv'
    \<and> pv_filename pv' = pv_filename pv \<and> preproc pv' = preproc pv \<and> pv_type pv' = T"
proof -
  let ?enc = "t_enc (pv_type pv)"
  have lay: "object_layout (t_size (pv_type pv)) valid ?enc (t_dec (pv_type pv))"
    using st by (simp add: pvec_storable_def)
  have f: "fs (pv_filename pv) = Some (concat (map (?enc \<circ> preproc pv) (items pv)))"
    using sync by (simp add: pvec_synced_def pvec_ok_def pvec_bytes_def comp_def)
  then have c: "fs(pv_filename pv \<mapsto> contents fs (pv_filename pv)) = fs"
    by (simp add: contents_def fun_upd_idem)
  have all: "list_all valid (map (preproc pv) (items pv))"
    using st by (simp add: pvec_storable_def list_all_iff)
  have rd: "read_records (t_size T) (t_dec T) (concat (map (?enc \<circ> preproc pv) (items pv))) = map (preproc pv) (items pv)"
    using object_layout.read_enc [OF lay all] T by simp
  have "items pv' = map (preproc pv) (items pv) \<and> fs' = fs \<and> persistedItems pv' = length (items pv)
      \<and> pv_fd pv' = Fd (pv_filename pv) None \<and> pv_filename pv' = pv_filename pv \<and> preproc pv' = preproc pv
      \<and> pv_type pv' = T \<and> pv_initialised pv'"
    using s by (auto simp: pvec_setup_def pvec_bootstrap_def pvec_init_def f rd pvec_resize_def Let_def
        open_append_def c split: if_splits)
  then show ?thesis
    using f lay T idem all
    by (simp add: pvec_synced_def pvec_ok_def pvec_bytes_def pvec_storable_def comp_def list_all_iff)
qed

lemma pvec_setup_new:
  assumes "pvec_setup p False pre (pvec_init T) fs = (pv, fs')"
    and "object_layout (t_size T) valid (t_enc T) (t_dec T)"
  shows "pvec_synced pv fs' \<and> pvec_storable valid pv \<and> items pv = [] \<and> pv_filename pv = p \<and> preproc pv = pre
    \<and> (\<forall>q. q \<noteq> p \<longrightarrow> fs' q = fs q)"
  using assms
  by (auto simp: pvec_setup_def pvec_init_def open_trunc_def Let_def pvec_synced_def pvec_ok_def pvec_bytes_def
      pvec_storable_def)

section \<open>Properties\<close>

text \<open>C27. \<open>store\<close> is atomic: wherever a crash interrupts the writing of a value under a key, a later
  \<open>load\<close> of that key gives the old value or the new one, and the values of other keys are untouched.\<close>

theorem store_atomic:
  assumes "fs' \<in> set (pstore_crash_states st key val fs)" and "i32_ok val"
  shows "pstore_load st key d fs' \<in> {pstore_load st key d fs, val}
    \<and> (\<forall>key'. key' \<noteq> key \<longrightarrow> pstore_load st key' d' fs' = pstore_load st key' d' fs)"
  using crash_states_file [OF assms(1)]
proof
  assume "fs' = pstore_store st key val fs"
  then show ?thesis
    using assms(2) by (auto simp: load_store_same load_store_other)
next
  assume "\<forall>p. p \<noteq> getFilename st key @ ''.tmp'' \<longrightarrow> fs' p = fs p"
  then have "pstore_load st k e fs' = pstore_load st k e fs" for k e
    by (intro load_frame) simp
  then show ?thesis
    by simp
qed

theorem store_atomic_witness:
  "pstore_load \<lparr>fileBaseName = ''r.'', pst_initialised = True\<rparr> ''VotedFor'' (-1)
     (pstore_store \<lparr>fileBaseName = ''r.'', pst_initialised = True\<rparr> ''VotedFor'' 3 (\<lambda>_. None)) \<in> {-1, 3}"
proof -
  let ?st = "\<lparr>fileBaseName = ''r.'', pst_initialised = True\<rparr>"
  have "pstore_store ?st ''VotedFor'' 3 (\<lambda>_. None) \<in> set (pstore_crash_states ?st ''VotedFor'' 3 (\<lambda>_. None))"
    by (simp add: pstore_crash_states_def Let_def)
  from store_atomic [OF this, of "-1"] show ?thesis
    by (simp add: i32_ok_def pstore_load_def loadInt_def)
qed

text \<open>C26. A vector that was persisted is read back by a restart: whatever was pushed, truncated and
  persisted before, setting up a fresh vector on the file gives the elements as stored, leaves the file
  alone and ends in a state that agrees with the file again.\<close>

theorem vector_recovers:
  assumes "pvec_ok pv fs" and "pvec_storable valid pv" and "pvec_persist pv fs = (pv1, fs1)"
    and "\<And>x. preproc pv (preproc pv x) = preproc pv x"
    and "pvec_setup (pv_filename pv) True (preproc pv) (pvec_init (pv_type pv)) fs1 = (pv2, fs2)"
  shows "items pv2 = map (preproc pv) (items pv) \<and> fs2 = fs1 \<and> pvec_synced pv2 fs2"
proof -
  have "pvec_synced pv1 fs1" "pvec_storable valid pv1" "preproc pv1 = preproc pv" "items pv1 = items pv"
      "pv_filename pv1 = pv_filename pv" "pv_type pv1 = pv_type pv"
    using pvec_persist_sync [OF assms(1,3)] pvec_storable_persist [of valid pv fs] pvec_persist_same [of pv fs] assms(2,3) by simp_all
  then show ?thesis
    using pvec_recover [of pv1 fs1 valid "pv_type pv" pv2 fs2] assms(4,5) by auto
qed

definition int_type :: "int cxx_type" where
  "int_type = \<lparr>t_size = 4, t_enc = i32_bytes, t_dec = i32_of_bytes, t_default = 0\<rparr>"

theorem vector_recovers_witness:
  "\<exists>pv fs pv1 fs1 pv2 fs2. items pv = [4, -9 :: int] \<and> pvec_persist pv fs = (pv1, fs1)
     \<and> pvec_setup (pv_filename pv) True (\<lambda>v. v) (pvec_init int_type) fs1 = (pv2, fs2) \<and> items pv2 = [4, -9]"
proof -
  obtain pv0 fs where s: "pvec_setup ''f'' False (\<lambda>v. v) (pvec_init int_type) (\<lambda>_. None) = (pv0, fs)"
    by (cases "pvec_setup ''f'' False (\<lambda>v. v) (pvec_init int_type) (\<lambda>_. None)")
  have lay: "object_layout (t_size int_type) i32_ok (t_enc int_type) (t_dec int_type)"
    by (simp add: int_type_def i32.object_layout_axioms)
  have n: "pvec_ok pv0 fs" "pvec_storable i32_ok pv0" "items pv0 = []" "pv_filename pv0 = ''f''" "preproc pv0 = (\<lambda>v. v)"
    using pvec_setup_new [OF s lay] by (auto simp: pvec_synced_def)
  have ty: "pv_type pv0 = int_type"
    using s by (auto simp: pvec_setup_def pvec_init_def open_trunc_def Let_def)
  let ?pv = "pvec_push_back (-9) (pvec_push_back 4 pv0)"
  obtain pv1 fs1 pv2 fs2 where p: "pvec_persist ?pv fs = (pv1, fs1)"
      and b: "pvec_setup (pv_filename ?pv) True (preproc ?pv) (pvec_init (pv_type ?pv)) fs1 = (pv2, fs2)"
    by (metis surj_pair)
  have ok: "pvec_ok ?pv fs" "pvec_storable i32_ok ?pv" "\<And>x. preproc ?pv (preproc ?pv x) = preproc ?pv x"
    using n by (simp_all add: pvec_push_back_ok i32_ok_def)
  from vector_recovers [OF ok(1,2) p ok(3) b] show ?thesis
    using p b n ty by (intro exI [of _ ?pv] exI [of _ fs] exI [of _ pv1] exI [of _ fs1] exI [of _ pv2] exI [of _ fs2]) simp
qed

text \<open>C38. After a crash in the middle of a write the file ends in part of an element. \<open>bootstrap\<close> reads
  the complete elements before it, but the file keeps the torn bytes although the comment at its end
  announces their truncation, and the element that is pushed and persisted next lands behind them.\<close>

theorem torn_tail_kept:
  assumes lay: "object_layout (t_size T) valid (t_enc T) (t_dec T)" and xs: "list_all valid xs" "xs \<noteq> []"
    and torn: "length torn < t_size T" and f: "fs p = Some (concat (map (t_enc T) xs) @ torn)"
    and s: "pvec_setup p True pre (pvec_init T) fs = (pv, fs')"
  shows "items pv = xs \<and> fs' p = Some (concat (map (t_enc T) xs) @ torn)
    \<and> snd (pvec_persist (pvec_push_back x pv) fs') p = Some (concat (map (t_enc T) xs) @ torn @ t_enc T (pre x))"
proof -
  have "read_records (t_size T) (t_dec T) (concat (map (t_enc T) xs) @ torn) = xs"
    using object_layout.read_enc_torn [OF lay xs(1) torn] .
  then have "items pv = xs \<and> persistedItems pv = length xs \<and> pv_fd pv = Fd p None \<and> preproc pv = pre \<and> pv_type pv = T
      \<and> fs' p = Some (concat (map (t_enc T) xs) @ torn)"
    using s xs(2) f
    by (auto simp: pvec_setup_def pvec_bootstrap_def pvec_init_def pvec_resize_def Let_def open_append_def contents_def
        split: if_splits)
  then show ?thesis
    by (simp add: pvec_persist_def pvec_push_back_def pvec_resize_def contents_def)
qed

theorem torn_tail_kept_witness:
  "items (fst (pvec_setup ''f'' True (\<lambda>v. v) (pvec_init int_type) [''f'' \<mapsto> i32_bytes 6 @ [1, 2]])) = [6]
   \<and> snd (pvec_setup ''f'' True (\<lambda>v. v) (pvec_init int_type) [''f'' \<mapsto> i32_bytes 6 @ [1, 2]]) ''f'' = Some (i32_bytes 6 @ [1, 2])"
proof -
  have lay: "object_layout (t_size int_type) i32_ok (t_enc int_type) (t_dec int_type)"
    by (simp add: int_type_def i32.object_layout_axioms)
  show ?thesis
    using torn_tail_kept [OF lay, of "[6]" "[1, 2]" "[''f'' \<mapsto> i32_bytes 6 @ [1, 2]]" "''f''" "\<lambda>v. v"
        "fst (pvec_setup ''f'' True (\<lambda>v. v) (pvec_init int_type) [''f'' \<mapsto> i32_bytes 6 @ [1, 2]])"
        "snd (pvec_setup ''f'' True (\<lambda>v. v) (pvec_init int_type) [''f'' \<mapsto> i32_bytes 6 @ [1, 2]])"]
    by (simp add: i32_ok_def int_type_def)
qed

end
