(* ===== verification/TimeTravelSignal.thy ===== *)
theory TimeTravelSignal
  imports Main
begin

text \<open>
  \<open>ohmyraft/TimeTravelSignal.H\<close>: the signal with which the Raft threads wake the executer. The
  state is the two flags of the class and the set of threads blocked on its condition variable.
  \<open>tts_wait\<close> says whether the calling thread goes on or blocks; \<open>notify_all\<close> empties the set.
  The condition variable is waited on without a predicate, so the step relation also has the
  spurious wake-up the C++ standard allows.
\<close>

type_synonym thread = nat

record tts =
  noBlock :: bool
  waiting :: bool
  blocked :: "thread set"

datatype wait_result = Returned | Blocked

definition tts_init :: tts where
  "tts_init = \<lparr>noBlock = False, waiting = False, blocked = {}\<rparr>"

definition notify_all :: "tts \<Rightarrow> tts" where
  "notify_all s = s\<lparr>blocked := {}\<rparr>"

definition tts_reset :: "tts \<Rightarrow> tts" where
  "tts_reset s = (notify_all s)\<lparr>noBlock := False, waiting := False\<rparr>"

definition tts_signal :: "tts \<Rightarrow> tts" where
  "tts_signal s =
     (if noBlock s then s
      else if waiting s then notify_all (s\<lparr>waiting := False\<rparr>)
      else s\<lparr>noBlock := True\<rparr>)"

definition tts_wait :: "thread \<Rightarrow> tts \<Rightarrow> wait_result \<times> tts" where
  "tts_wait t s =
     (if waiting s then (Returned, s)
      else if noBlock s then (Returned, s\<lparr>noBlock := False\<rparr>)
      else (Blocked, s\<lparr>waiting := True, blocked := insert t (blocked s)\<rparr>))"

section \<open>Reachable states of the signal\<close>

text \<open>
  The second component is history: a signal was sent that no \<open>tts_wait\<close> has consumed yet, either
  by returning or by being woken.
\<close>

inductive tts_reach :: "tts \<Rightarrow> bool \<Rightarrow> bool" where
  init: "tts_reach tts_init False"
| signal: "tts_reach s u \<Longrightarrow> tts_reach (tts_signal s) (\<not> waiting s \<or> u)"
| wait: "tts_reach s u \<Longrightarrow> t \<notin> blocked s \<Longrightarrow> tts_wait t s = (r, s') \<Longrightarrow>
     tts_reach s' (u \<and> waiting s)"
| spurious: "tts_reach s u \<Longrightarrow> t \<in> blocked s \<Longrightarrow> tts_reach (s\<lparr>blocked := blocked s - {t}\<rparr>) u"
| reset: "tts_reach s u \<Longrightarrow> tts_reach (tts_reset s) False"

lemma tts_invariant:
  "tts_reach s u \<Longrightarrow> (blocked s \<noteq> {} \<longrightarrow> waiting s) \<and> (waiting s \<longrightarrow> \<not> noBlock s) \<and> (u \<longleftrightarrow> noBlock s)"
  by (induction rule: tts_reach.induct)
     (auto simp: tts_init_def tts_signal_def tts_wait_def tts_reset_def notify_all_def split: if_splits)

text \<open>Without spurious wake-ups a thread is blocked exactly while the flag \<open>waiting\<close> is up.\<close>

inductive tts_run :: "tts \<Rightarrow> bool" where
  run_init: "tts_run tts_init"
| run_signal: "tts_run s \<Longrightarrow> tts_run (tts_signal s)"
| run_wait: "tts_run s \<Longrightarrow> tts_wait t s = (r, s') \<Longrightarrow> tts_run s'"
| run_reset: "tts_run s \<Longrightarrow> tts_run (tts_reset s)"

lemma tts_run_invariant: "tts_run s \<Longrightarrow> (waiting s \<longleftrightarrow> blocked s \<noteq> {}) \<and> (waiting s \<longrightarrow> \<not> noBlock s)"
  by (induction rule: tts_run.induct)
     (auto simp: tts_init_def tts_signal_def tts_wait_def tts_reset_def notify_all_def split: if_splits)

section \<open>Properties\<close>

text \<open>C36. No signal is lost as long as the condition variable wakes threads only when notified: in
  every state that signals, waits and resets can reach, a signal wakes every blocked thread, and when
  none is blocked the next wait returns at once.\<close>

theorem signal_not_lost:
  assumes "tts_run s"
  shows "blocked (tts_signal s) = {} \<and> (blocked s = {} \<longrightarrow> fst (tts_wait t (tts_signal s)) = Returned)"
  using tts_run_invariant [OF assms] by (auto simp: tts_signal_def tts_wait_def notify_all_def)

theorem signal_not_lost_witness:
  "blocked (tts_signal (snd (tts_wait 1 tts_init))) = {} \<and> 1 \<in> blocked (snd (tts_wait 1 tts_init))"
proof -
  have w: "tts_wait 1 tts_init = (Blocked, snd (tts_wait 1 tts_init))"
    by (simp add: tts_wait_def tts_init_def)
  show ?thesis
    using signal_not_lost [OF run_wait [OF run_init w]] by (simp add: tts_wait_def tts_init_def)
qed

text \<open>A spurious wake-up of the condition variable, which \<open>wait\<close> does not guard against, can lose
  a signal: there is a reachable state without a blocked thread in which a signal is sent and the next
  wait still blocks.\<close>

lemma spurious_wakeup_loses_signal:
  "\<exists>s u. tts_reach s u \<and> blocked s = {} \<and> fst (tts_wait t (tts_signal s)) = Blocked"
proof -
  have w: "tts_wait t tts_init = (Blocked, snd (tts_wait t tts_init))"
    by (simp add: tts_wait_def tts_init_def)
  have "tts_reach (snd (tts_wait t tts_init)) False"
    using tts_reach.wait [OF tts_reach.init _ w] by (simp add: tts_init_def)
  from tts_reach.spurious [OF this, of t]
  show ?thesis
    by (intro exI conjI) (auto simp: tts_wait_def tts_init_def tts_signal_def notify_all_def)
qed

end
