(* ===== verification/RaftState.thy ===== *)
theory RaftState
  imports RaftRPCRouter Persistence TimeTravelSignal
begin

text \<open>
  \<open>ohmyraft/OhMyRaft.H\<close>, first part: the state of a replica, its construction and start from disk,
  the peer and membership tables, and the role transitions.

  \<open>raft_state\<close> is \<open>struct RaftState\<close> and \<open>raft_manager\<close> extends it with the members of
  \<open>RaftManager\<close>, so a manager has the fields of its \<open>state_\<close> directly. \<open>node\<close> adds what lives outside
  the class but is changed by it: the files of the replica and the process-wide promise store.
  Mutexes have no field: every definition below is one critical section of \<open>state_.Mut\<close> (or of
  \<open>raftInMutex_\<close>/\<open>raftOutMutex_\<close>) and so one atomic step. \<open>ApplyAddServer\<close> and \<open>ApplyRemoveServer\<close>
  release the mutex around \<open>addPeer\<close>/\<open>removePeer\<close>; they are modelled without a step of another
  thread in that gap. Time is the argument \<open>now\<close>, in milliseconds.

  \<open>int32_t\<close> values are integers; the one sum that can leave the range on values received from the
  network, the next term, is computed with \<open>i32_add\<close>. Sizes of logs and of configurations are
  taken to be below 2 to the 31, so that the casts from \<open>size_t\<close> keep the value.
\<close>

datatype RaftRole = Follower | Candidate | Leader | Dead

record raft_state =
  CurrentTerm :: int
  VotedFor :: int
  Logs :: "LogEntry pvec"
  Role :: RaftRole
  ElectionResetEvent :: int
  CommitIndex :: int
  LastApplied :: int
  LastKnownLeaderId :: int
  ClusterConfig :: "(int, ServerInfo) omap"
  LastConfigChangeIndex :: int
  NextIndex :: "(int, int) omap"
  MatchIndex :: "(int, int) omap"
  VotesReceived :: int
  pStore :: pstore

record raft_manager = raft_state +
  keepRunning :: bool
  peers :: "(int, router) omap"
  dispatchOut :: "RaftOp list"
  raftIn :: "RaftOp list"
  raftOut :: "RaftOp list"
  execIn :: "RaftOp list"
  moreInputsReady :: tts
  moreExecJobsReady :: tts
  my_id :: int

record node = raft_manager +
  disk :: fs
  services :: service

abbreviation log_of :: "node \<Rightarrow> LogEntry list" where
  "log_of n \<equiv> items (Logs n)"

section \<open>Construction\<close>

definition RaftManager_init :: "LogEntry cxx_type \<Rightarrow> fs \<Rightarrow> service \<Rightarrow> node" where
  "RaftManager_init T fs sv =
     \<lparr>CurrentTerm = 0, VotedFor = -1, Logs = pvec_init T, Role = Follower, ElectionResetEvent = 0,
      CommitIndex = -1, LastApplied = -1, LastKnownLeaderId = 0, ClusterConfig = [],
      LastConfigChangeIndex = -1, NextIndex = [], MatchIndex = [], VotesReceived = 0, pStore = pstore_init,
      keepRunning = False, peers = [], dispatchOut = [], raftIn = [], raftOut = [], execIn = [],
      moreInputsReady = tts_init, moreExecJobsReady = tts_init, my_id = 0,
      disk = fs, services = sv\<rparr>"

definition raft_persist :: "node \<Rightarrow> node" where
  "raft_persist n =
     n\<lparr>disk := pstore_store (pStore n) ''CurrentTerm'' (CurrentTerm n)
               (pstore_store (pStore n) ''VotedFor'' (VotedFor n) (disk n))\<rparr>"

definition strip_entry :: "LogEntry \<Rightarrow> LogEntry" where
  "strip_entry val = val\<lparr>log_op := withoutPromise (log_op val)\<rparr>"

definition store_prefix :: "string \<Rightarrow> int \<Rightarrow> string" where
  "store_prefix storeDir i = storeDir @ ''/raft.'' @ to_string i @ ''.''"

definition bootstrap :: "int \<Rightarrow> bool \<Rightarrow> string \<Rightarrow> node \<Rightarrow> node" where
  "bootstrap myId withBootstrap storeDir n =
     (let storeFilePrefix = store_prefix storeDir myId;
          (logs, fs) = pvec_setup (storeFilePrefix @ ''log.persist'') withBootstrap strip_entry (Logs n) (disk n);
          n1 = n\<lparr>my_id := myId, Logs := logs, disk := fs, pStore := pstore_setup storeFilePrefix (pStore n)\<rparr>
      in if withBootstrap
         then n1\<lparr>VotedFor := pstore_load (pStore n1) ''VotedFor'' (-1) (disk n1),
                 CurrentTerm := pstore_load (pStore n1) ''CurrentTerm'' 0 (disk n1)\<rparr>
         else raft_persist n1)"

definition start :: "node \<Rightarrow> node" where
  "start n = n\<lparr>keepRunning := True\<rparr>"

definition stop :: "node \<Rightarrow> node" where
  "stop n = (if \<not> keepRunning n then n else n\<lparr>keepRunning := False\<rparr>)"

section \<open>Peers and membership\<close>

fun NetworkUpdate :: "PeerNetworkConfig list \<Rightarrow> node \<Rightarrow> node" where
  "NetworkUpdate [] n = n"
| "NetworkUpdate (e # es) n =
     NetworkUpdate es
       (case om_find (peers n) (pn_peerId e) of
          None \<Rightarrow> n
        | Some r \<Rightarrow> n\<lparr>peers := om_put (pn_peerId e)
              (setDelayMs (pn_delayMs e) (setIsDelayed (pn_isDelayed e) (setEnable (pn_isEnabled e) r))) (peers n)\<rparr>)"

definition addPeer :: "int \<Rightarrow> router \<Rightarrow> node \<Rightarrow> node" where
  "addPeer peerId rpcClient n =
     raft_persist (n\<lparr>NextIndex := om_put peerId 0 (NextIndex n), MatchIndex := om_put peerId (-1) (MatchIndex n),
                     peers := om_put peerId rpcClient (peers n)\<rparr>)"

definition removePeer :: "int \<Rightarrow> node \<Rightarrow> node" where
  "removePeer peerId n =
     n\<lparr>NextIndex := om_erase peerId (NextIndex n), MatchIndex := om_erase peerId (MatchIndex n),
       peers := om_erase peerId (peers n)\<rparr>"

definition setClusterConfig :: "(int, ServerInfo) omap \<Rightarrow> node \<Rightarrow> node" where
  "setClusterConfig config n = raft_persist (n\<lparr>ClusterConfig := config\<rparr>)"

definition getClusterConfig :: "node \<Rightarrow> (int, ServerInfo) omap" where
  "getClusterConfig n = ClusterConfig n"

text \<open>Both address getters look the leader up with the inserting \<open>operator[]\<close>.\<close>

definition getLastKnownLeaderDBAddr :: "node \<Rightarrow> string \<times> node" where
  "getLastKnownLeaderDBAddr n =
     (case om_at ServerInfo_zero (ClusterConfig n) (LastKnownLeaderId n) of
        (info, cfg) \<Rightarrow> (c_str (si_ip info) @ '':'' @ to_string (db_port info), n\<lparr>ClusterConfig := cfg\<rparr>))"

definition getLastKnownLeaderRaftAddr :: "node \<Rightarrow> string \<times> node" where
  "getLastKnownLeaderRaftAddr n =
     (case om_at ServerInfo_zero (ClusterConfig n) (LastKnownLeaderId n) of
        (info, cfg) \<Rightarrow> (c_str (si_ip info) @ '':'' @ to_string (raft_port info), n\<lparr>ClusterConfig := cfg\<rparr>))"

definition ApplyAddServer :: "ServerInfo \<Rightarrow> node \<Rightarrow> node" where
  "ApplyAddServer info n =
     (let n1 = raft_persist (n\<lparr>LastConfigChangeIndex := int (length (log_of n)) - 1,
                               ClusterConfig := om_put (si_id info) info (ClusterConfig n)\<rparr>)
      in if my_id n \<noteq> si_id info
         then addPeer (si_id info) (router_new (c_str (si_ip info) @ '':'' @ to_string (raft_port info))) n1
         else n1)"

definition ApplyRemoveServer :: "int \<Rightarrow> node \<Rightarrow> node" where
  "ApplyRemoveServer serverId n =
     (let n1 = raft_persist (n\<lparr>LastConfigChangeIndex := int (length (log_of n)) - 1,
                               ClusterConfig := om_erase serverId (ClusterConfig n)\<rparr>)
      in if my_id n \<noteq> serverId then removePeer serverId n1 else n1)"

section \<open>Role transitions\<close>

definition becomeFollower :: "int \<Rightarrow> int \<Rightarrow> node \<Rightarrow> node" where
  "becomeFollower newTerm now n =
     raft_persist (n\<lparr>CurrentTerm := newTerm, Role := Follower, VotedFor := -1, ElectionResetEvent := now\<rparr>)"

definition becomeCandidate :: "int \<Rightarrow> int \<Rightarrow> node \<Rightarrow> node" where
  "becomeCandidate newTerm now n =
     raft_persist (n\<lparr>CurrentTerm := newTerm, Role := Candidate, ElectionResetEvent := now, VotedFor := my_id n\<rparr>)"

definition becomeLeader :: "int \<Rightarrow> node \<Rightarrow> node" where
  "becomeLeader now n =
     raft_persist
       (n\<lparr>Role := Leader, ElectionResetEvent := now, VotedFor := -1, LastKnownLeaderId := my_id n,
          NextIndex := foldl (\<lambda>m p. om_put p (int (length (log_of n))) m) [] (om_keys (peers n)),
          MatchIndex := foldl (\<lambda>m p. om_put p (-1) m) [] (om_keys (peers n))\<rparr>)"

definition becomeDead :: "node \<Rightarrow> node" where
  "becomeDead n = (raft_persist (n\<lparr>Role := Dead\<rparr>))\<lparr>keepRunning := False\<rparr>"

section \<open>Handing committed operations to the executer\<close>

fun res_map :: "('a \<Rightarrow> 'b res) \<Rightarrow> 'a list \<Rightarrow> 'b list res" where
  "res_map f [] = Inr []"
| "res_map f (x # xs) = rbind (f x) (\<lambda>y. rbind (res_map f xs) (\<lambda>ys. Inr (y # ys)))"

text \<open>
  The tail both \<open>AppendEntries\<close> and the leader run when the commit index has moved: the operations
  from \<open>LastApplied + 1\<close> to \<open>CommitIndex\<close> go to \<open>raftOut_\<close> and the executer is signalled.
\<close>

definition queue_committed :: "node \<Rightarrow> node res" where
  "queue_committed n =
     rbind (res_map (\<lambda>i. rbind (vec_at (log_of n) i) (\<lambda>e. Inr (log_op e))) [LastApplied n + 1..CommitIndex n]) (\<lambda>ops.
       Inr (n\<lparr>raftOut := raftOut n @ ops, LastApplied := CommitIndex n,
              moreExecJobsReady := tts_signal (moreExecJobsReady n)\<rparr>))"

section \<open>What the transitions change\<close>

lemma raft_persist_simps [simp]:
  "CurrentTerm (raft_persist n) = CurrentTerm n"
  "VotedFor (raft_persist n) = VotedFor n"
  "Logs (raft_persist n) = Logs n"
  "Role (raft_persist n) = Role n"
  "ElectionResetEvent (raft_persist n) = ElectionResetEvent n"
  "CommitIndex (raft_persist n) = CommitIndex n"
  "LastApplied (raft_persist n) = LastApplied n"
  "LastKnownLeaderId (raft_persist n) = LastKnownLeaderId n"
  "ClusterConfig (raft_persist n) = ClusterConfig n"
  "LastConfigChangeIndex (raft_persist n) = LastConfigChangeIndex n"
  "NextIndex (raft_persist n) = NextIndex n"
  "MatchIndex (raft_persist n) = MatchIndex n"
  "VotesReceived (raft_persist n) = VotesReceived n"
  "pStore (raft_persist n) = pStore n"
  "keepRunning (raft_persist n) = keepRunning n"
  "peers (raft_persist n) = peers n"
  "dispatchOut (raft_persist n) = dispatchOut n"
  "raftIn (raft_persist n) = raftIn n"
  "raftOut (raft_persist n) = raftOut n"
  "execIn (raft_persist n) = execIn n"
  "moreInputsReady (raft_persist n) = moreInputsReady n"
  "moreExecJobsReady (raft_persist n) = moreExecJobsReady n"
  "my_id (raft_persist n) = my_id n"
  "services (raft_persist n) = services n"
  by (simp_all add: raft_persist_def)

lemma becomeFollower_simps [simp]:
  "CurrentTerm (becomeFollower t now n) = t"
  "VotedFor (becomeFollower t now n) = -1"
  "Logs (becomeFollower t now n) = Logs n"
  "Role (becomeFollower t now n) = Follower"
  "ElectionResetEvent (becomeFollower t now n) = now"
  "CommitIndex (becomeFollower t now n) = CommitIndex n"
  "LastApplied (becomeFollower t now n) = LastApplied n"
  "LastKnownLeaderId (becomeFollower t now n) = LastKnownLeaderId n"
  "ClusterConfig (becomeFollower t now n) = ClusterConfig n"
  "LastConfigChangeIndex (becomeFollower t now n) = LastConfigChangeIndex n"
  "NextIndex (becomeFollower t now n) = NextIndex n"
  "MatchIndex (becomeFollower t now n) = MatchIndex n"
  "VotesReceived (becomeFollower t now n) = VotesReceived n"
  "pStore (becomeFollower t now n) = pStore n"
  "keepRunning (becomeFollower t now n) = keepRunning n"
  "peers (becomeFollower t now n) = peers n"
  "dispatchOut (becomeFollower t now n) = dispatchOut n"
  "raftIn (becomeFollower t now n) = raftIn n"
  "raftOut (becomeFollower t now n) = raftOut n"
  "execIn (becomeFollower t now n) = execIn n"
  "moreInputsReady (becomeFollower t now n) = moreInputsReady n"
  "moreExecJobsReady (becomeFollower t now n) = moreExecJobsReady n"
  "my_id (becomeFollower t now n) = my_id n"
  "services (becomeFollower t now n) = services n"
  by (simp_all add: becomeFollower_def)

lemma becomeCandidate_simps [simp]:
  "CurrentTerm (becomeCandidate t now n) = t"
  "VotedFor (becomeCandidate t now n) = my_id n"
  "Logs (becomeCandidate t now n) = Logs n"
  "Role (becomeCandidate t now n) = Candidate"
  "ElectionResetEvent (becomeCandidate t now n) = now"
  "CommitIndex (becomeCandidate t now n) = CommitIndex n"
  "LastApplied (becomeCandidate t now n) = LastApplied n"
  "LastKnownLeaderId (becomeCandidate t now n) = LastKnownLeaderId n"
  "ClusterConfig (becomeCandidate t now n) = ClusterConfig n"
  "LastConfigChangeIndex (becomeCandidate t now n) = LastConfigChangeIndex n"
  "NextIndex (becomeCandidate t now n) = NextIndex n"
  "MatchIndex (becomeCandidate t now n) = MatchIndex n"
  "VotesReceived (becomeCandidate t now n) = VotesReceived n"
  "pStore (becomeCandidate t now n) = pStore n"
  "keepRunning (becomeCandidate t now n) = keepRunning n"
  "peers (becomeCandidate t now n) = peers n"
  "dispatchOut (becomeCandidate t now n) = dispatchOut n"
  "raftIn (becomeCandidate t now n) = raftIn n"
  "raftOut (becomeCandidate t now n) = raftOut n"
  "execIn (becomeCandidate t now n) = execIn n"
  "moreInputsReady (becomeCandidate t now n) = moreInputsReady n"
  "moreExecJobsReady (becomeCandidate t now n) = moreExecJobsReady n"
  "my_id (becomeCandidate t now n) = my_id n"
  "services (becomeCandidate t now n) = services n"
  by (simp_all add: becomeCandidate_def)

lemma becomeLeader_simps [simp]:
  "CurrentTerm (becomeLeader now n) = CurrentTerm n"
  "VotedFor (becomeLeader now n) = -1"
  "Logs (becomeLeader now n) = Logs n"
  "Role (becomeLeader now n) = Leader"
  "ElectionResetEvent (becomeLeader now n) = now"
  "CommitIndex (becomeLeader now n) = CommitIndex n"
  "LastApplied (becomeLeader now n) = LastApplied n"
  "LastKnownLeaderId (becomeLeader now n) = my_id n"
  "ClusterConfig (becomeLeader now n) = ClusterConfig n"
  "LastConfigChangeIndex (becomeLeader now n) = LastConfigChangeIndex n"
  "VotesReceived (becomeLeader now n) = VotesReceived n"
  "pStore (becomeLeader now n) = pStore n"
  "keepRunning (becomeLeader now n) = keepRunning n"
  "peers (becomeLeader now n) = peers n"
  "dispatchOut (becomeLeader now n) = dispatchOut n"
  "raftIn (becomeLeader now n) = raftIn n"
  "raftOut (becomeLeader now n) = raftOut n"
  "execIn (becomeLeader now n) = execIn n"
  "moreInputsReady (becomeLeader now n) = moreInputsReady n"
  "moreExecJobsReady (becomeLeader now n) = moreExecJobsReady n"
  "my_id (becomeLeader now n) = my_id n"
  "services (becomeLeader now n) = services n"
  by (simp_all add: becomeLeader_def)

lemma addPeer_simps [simp]:
  "CurrentTerm (addPeer p r n) = CurrentTerm n"
  "VotedFor (addPeer p r n) = VotedFor n"
  "Logs (addPeer p r n) = Logs n"
  "Role (addPeer p r n) = Role n"
  "ElectionResetEvent (addPeer p r n) = ElectionResetEvent n"
  "CommitIndex (addPeer p r n) = CommitIndex n"
  "LastApplied (addPeer p r n) = LastApplied n"
  "LastKnownLeaderId (addPeer p r n) = LastKnownLeaderId n"
  "ClusterConfig (addPeer p r n) = ClusterConfig n"
  "LastConfigChangeIndex (addPeer p r n) = LastConfigChangeIndex n"
  "NextIndex (addPeer p r n) = om_put p 0 (NextIndex n)"
  "MatchIndex (addPeer p r n) = om_put p (-1) (MatchIndex n)"
  "VotesReceived (addPeer p r n) = VotesReceived n"
  "pStore (addPeer p r n) = pStore n"
  "keepRunning (addPeer p r n) = keepRunning n"
  "peers (addPeer p r n) = om_put p r (peers n)"
  "dispatchOut (addPeer p r n) = dispatchOut n"
  "raftIn (addPeer p r n) = raftIn n"
  "raftOut (addPeer p r n) = raftOut n"
  "execIn (addPeer p r n) = execIn n"
  "moreInputsReady (addPeer p r n) = moreInputsReady n"
  "moreExecJobsReady (addPeer p r n) = moreExecJobsReady n"
  "my_id (addPeer p r n) = my_id n"
  "services (addPeer p r n) = services n"
  by (simp_all add: addPeer_def)

lemma removePeer_simps [simp]:
  "CurrentTerm (removePeer p n) = CurrentTerm n"
  "VotedFor (removePeer p n) = VotedFor n"
  "Logs (removePeer p n) = Logs n"
  "Role (removePeer p n) = Role n"
  "ElectionResetEvent (removePeer p n) = ElectionResetEvent n"
  "CommitIndex (removePeer p n) = CommitIndex n"
  "LastApplied (removePeer p n) = LastApplied n"
  "LastKnownLeaderId (removePeer p n) = LastKnownLeaderId n"
  "ClusterConfig (removePeer p n) = ClusterConfig n"
  "LastConfigChangeIndex (removePeer p n) = LastConfigChangeIndex n"
  "NextIndex (removePeer p n) = om_erase p (NextIndex n)"
  "MatchIndex (removePeer p n) = om_erase p (MatchIndex n)"
  "VotesReceived (removePeer p n) = VotesReceived n"
  "pStore (removePeer p n) = pStore n"
  "keepRunning (removePeer p n) = keepRunning n"
  "peers (removePeer p n) = om_erase p (peers n)"
  "dispatchOut (removePeer p n) = dispatchOut n"
  "raftIn (removePeer p n) = raftIn n"
  "raftOut (removePeer p n) = raftOut n"
  "execIn (removePeer p n) = execIn n"
  "moreInputsReady (removePeer p n) = moreInputsReady n"
  "moreExecJobsReady (removePeer p n) = moreExecJobsReady n"
  "my_id (removePeer p n) = my_id n"
  "services (removePeer p n) = services n"
  by (simp_all add: removePeer_def)

lemma ApplyAddServer_simps [simp]:
  "CurrentTerm (ApplyAddServer info n) = CurrentTerm n"
  "VotedFor (ApplyAddServer info n) = VotedFor n"
  "Logs (ApplyAddServer info n) = Logs n"
  "Role (ApplyAddServer info n) = Role n"
  "ElectionResetEvent (ApplyAddServer info n) = ElectionResetEvent n"
  "CommitIndex (ApplyAddServer info n) = CommitIndex n"
  "LastApplied (ApplyAddServer info n) = LastApplied n"
  "LastKnownLeaderId (ApplyAddServer info n) = LastKnownLeaderId n"
  "ClusterConfig (ApplyAddServer info n) = om_put (si_id info) info (ClusterConfig n)"
  "LastConfigChangeIndex (ApplyAddServer info n) = int (length (log_of n)) - 1"
  "VotesReceived (ApplyAddServer info n) = VotesReceived n"
  "pStore (ApplyAddServer info n) = pStore n"
  "keepRunning (ApplyAddServer info n) = keepRunning n"
  "dispatchOut (ApplyAddServer info n) = dispatchOut n"
  "raftIn (ApplyAddServer info n) = raftIn n"
  "raftOut (ApplyAddServer info n) = raftOut n"
  "execIn (ApplyAddServer info n) = execIn n"
  "moreInputsReady (ApplyAddServer info n) = moreInputsReady n"
  "moreExecJobsReady (ApplyAddServer info n) = moreExecJobsReady n"
  "my_id (ApplyAddServer info n) = my_id n"
  "services (ApplyAddServer info n) = services n"
  by (simp_all add: ApplyAddServer_def Let_def)

lemma ApplyRemoveServer_simps [simp]:
  "CurrentTerm (ApplyRemoveServer i n) = CurrentTerm n"
  "VotedFor (ApplyRemoveServer i n) = VotedFor n"
  "Logs (ApplyRemoveServer i n) = Logs n"
  "Role (ApplyRemoveServer i n) = Role n"
  "ElectionResetEvent (ApplyRemoveServer i n) = ElectionResetEvent n"
  "CommitIndex (ApplyRemoveServer i n) = CommitIndex n"
  "LastApplied (ApplyRemoveServer i n) = LastApplied n"
  "LastKnownLeaderId (ApplyRemoveServer i n) = LastKnownLeaderId n"
  "ClusterConfig (ApplyRemoveServer i n) = om_erase i (ClusterConfig n)"
  "LastConfigChangeIndex (ApplyRemoveServer i n) = int (length (log_of n)) - 1"
  "VotesReceived (ApplyRemoveServer i n) = VotesReceived n"
  "pStore (ApplyRemoveServer i n) = pStore n"
  "keepRunning (ApplyRemoveServer i n) = keepRunning n"
  "dispatchOut (ApplyRemoveServer i n) = dispatchOut n"
  "raftIn (ApplyRemoveServer i n) = raftIn n"
  "raftOut (ApplyRemoveServer i n) = raftOut n"
  "execIn (ApplyRemoveServer i n) = execIn n"
  "moreInputsReady (ApplyRemoveServer i n) = moreInputsReady n"
  "moreExecJobsReady (ApplyRemoveServer i n) = moreExecJobsReady n"
  "my_id (ApplyRemoveServer i n) = my_id n"
  "services (ApplyRemoveServer i n) = services n"
  by (simp_all add: ApplyRemoveServer_def Let_def)

section \<open>What is on disk\<close>

fun args_ok :: "op_args \<Rightarrow> bool" where
  "args_ok (ArgKey k) \<longleftrightarrow> i32_ok k"
| "args_ok (ArgPair k v) \<longleftrightarrow> i32_ok k \<and> i32_ok v"
| "args_ok (ArgServer s) \<longleftrightarrow> ServerInfo_ok s"

definition op_ok :: "RaftOp \<Rightarrow> bool" where
  "op_ok op \<longleftrightarrow> OpType_ok (kind op) \<and> args_ok (args op)"

definition entry_ok :: "LogEntry \<Rightarrow> bool" where
  "entry_ok e \<longleftrightarrow> i32_ok (log_term e) \<and> op_ok (log_op e) \<and> promiseHandle (log_op e) = None"

lemma op_ok_withoutPromise [simp]: "op_ok (withoutPromise op) = op_ok op"
  by (simp add: op_ok_def)

lemma strip_entry_simps [simp]:
  "log_term (strip_entry e) = log_term e" "log_op (strip_entry e) = withoutPromise (log_op e)"
  "strip_entry (strip_entry e) = strip_entry e"
  by (simp_all add: strip_entry_def)

lemma entry_ok_strip [simp]: "entry_ok (strip_entry e) \<longleftrightarrow> i32_ok (log_term e) \<and> op_ok (log_op e)"
  by (simp add: entry_ok_def)

text \<open>The log file agrees with the vector as far as it was persisted.\<close>

definition log_inv :: "node \<Rightarrow> bool" where
  "log_inv n \<longleftrightarrow>
     pvec_ok (Logs n) (disk n) \<and> pv_filename (Logs n) = getFilename (pStore n) ''log''
       \<and> preproc (Logs n) = strip_entry \<and> pvec_storable entry_ok (Logs n)"

text \<open>The term and the vote in memory are the ones a restart would load.\<close>

definition meta_inv :: "node \<Rightarrow> bool" where
  "meta_inv n \<longleftrightarrow>
     pstore_load (pStore n) ''VotedFor'' (-1) (disk n) = VotedFor n
       \<and> pstore_load (pStore n) ''CurrentTerm'' 0 (disk n) = CurrentTerm n
       \<and> i32_ok (CurrentTerm n) \<and> i32_ok (VotedFor n) \<and> i32_ok (my_id n)"

definition disk_inv :: "node \<Rightarrow> bool" where
  "disk_inv n \<longleftrightarrow> log_inv n \<and> persistedItems (Logs n) = length (log_of n) \<and> meta_inv n"

lemma log_inv_cong:
  "Logs n' = Logs n \<Longrightarrow> disk n' = disk n \<Longrightarrow> pStore n' = pStore n \<Longrightarrow> log_inv n' = log_inv n"
  by (simp add: log_inv_def)

lemma log_inv_persist: "log_inv n \<Longrightarrow> log_inv (raft_persist n)"
proof -
  assume l: "log_inv n"
  then have "disk (raft_persist n) (pv_filename (Logs n)) = disk n (pv_filename (Logs n))"
    by (simp add: log_inv_def raft_persist_def pstore_store_frame)
  then show ?thesis
    using l by (auto simp: log_inv_def raft_persist_def intro: pvec_ok_frame)
qed

lemma meta_inv_persist:
  "i32_ok (CurrentTerm n) \<Longrightarrow> i32_ok (VotedFor n) \<Longrightarrow> i32_ok (my_id n) \<Longrightarrow> meta_inv (raft_persist n)"
  by (simp add: meta_inv_def raft_persist_def load_store_same load_store_other)

text \<open>
  A step that writes no file but those of the store, leaves the log alone and persists at its end
  keeps the disk in agreement.
\<close>

lemma disk_inv_persist:
  assumes "disk_inv n" and "Logs n' = Logs n" and "disk n' = disk n" and "pStore n' = pStore n"
    and "i32_ok (CurrentTerm n')" and "i32_ok (VotedFor n')" and "i32_ok (my_id n')"
  shows "disk_inv (raft_persist n')"
  using assms log_inv_cong [of n' n] log_inv_persist [of n'] meta_inv_persist [of n']
  by (simp add: disk_inv_def raft_persist_def)

lemma disk_inv_frame:
  assumes "disk_inv n" and "Logs n' = Logs n" and "disk n' = disk n" and "pStore n' = pStore n"
    and "CurrentTerm n' = CurrentTerm n" and "VotedFor n' = VotedFor n" and "my_id n' = my_id n"
  shows "disk_inv n'"
  using assms by (simp add: disk_inv_def log_inv_def meta_inv_def)

lemma disk_inv_becomeFollower: "disk_inv n \<Longrightarrow> i32_ok t \<Longrightarrow> disk_inv (becomeFollower t now n)"
  unfolding becomeFollower_def
  by (rule disk_inv_persist) (auto simp: disk_inv_def meta_inv_def i32_ok_def)

lemma disk_inv_becomeCandidate: "disk_inv n \<Longrightarrow> i32_ok t \<Longrightarrow> disk_inv (becomeCandidate t now n)"
  unfolding becomeCandidate_def
  by (rule disk_inv_persist) (auto simp: disk_inv_def meta_inv_def)

lemma disk_inv_becomeLeader: "disk_inv n \<Longrightarrow> disk_inv (becomeLeader now n)"
  unfolding becomeLeader_def
  by (rule disk_inv_persist) (auto simp: disk_inv_def meta_inv_def i32_ok_def)

lemma disk_inv_becomeDead: "disk_inv n \<Longrightarrow> disk_inv (becomeDead n)"
proof -
  assume "disk_inv n"
  then have "disk_inv (raft_persist (n\<lparr>Role := Dead\<rparr>))"
    by (rule disk_inv_persist) (use \<open>disk_inv n\<close> in \<open>auto simp: disk_inv_def meta_inv_def\<close>)
  then show ?thesis
    unfolding becomeDead_def by (rule disk_inv_frame) simp_all
qed

text \<open>
  The same for the configuration steps, which also run in the middle of \<open>AppendEntries\<close>, while the
  log has entries that are not written yet.
\<close>

definition open_inv :: "node \<Rightarrow> bool" where
  "open_inv n \<longleftrightarrow> log_inv n \<and> meta_inv n"

lemma open_inv_persist:
  assumes "open_inv n" and "Logs n' = Logs n" and "disk n' = disk n" and "pStore n' = pStore n"
    and "CurrentTerm n' = CurrentTerm n" and "VotedFor n' = VotedFor n" and "my_id n' = my_id n"
  shows "open_inv (raft_persist n')"
  using assms log_inv_cong [of n' n] log_inv_persist [of n'] meta_inv_persist [of n']
  by (simp add: open_inv_def meta_inv_def)

lemma open_inv_frame:
  assumes "open_inv n" and "Logs n' = Logs n" and "disk n' = disk n" and "pStore n' = pStore n"
    and "CurrentTerm n' = CurrentTerm n" and "VotedFor n' = VotedFor n" and "my_id n' = my_id n"
  shows "open_inv n'"
  using assms by (simp add: open_inv_def log_inv_def meta_inv_def)

lemma open_inv_addPeer: "open_inv n \<Longrightarrow> open_inv (addPeer p r n)"
  unfolding addPeer_def by (rule open_inv_persist) simp_all

lemma open_inv_removePeer: "open_inv n \<Longrightarrow> open_inv (removePeer p n)"
  by (rule open_inv_frame) (simp_all add: removePeer_def)

lemma open_inv_ApplyAddServer: "open_inv n \<Longrightarrow> open_inv (ApplyAddServer info n)"
  by (auto simp: ApplyAddServer_def Let_def intro!: open_inv_addPeer intro: open_inv_persist)

lemma open_inv_ApplyRemoveServer: "open_inv n \<Longrightarrow> open_inv (ApplyRemoveServer i n)"
  by (auto simp: ApplyRemoveServer_def Let_def intro!: open_inv_removePeer intro: open_inv_persist)

lemma disk_inv_alt: "disk_inv n \<longleftrightarrow> open_inv n \<and> persistedItems (Logs n) = length (log_of n)"
  by (auto simp: disk_inv_def open_inv_def)

section \<open>Restart\<close>

lemma log_filename: "pre @ ''log.persist'' = getFilename \<lparr>fileBaseName = pre, pst_initialised = b\<rparr> ''log''"
  by (simp add: getFilename_def)

lemma bootstrap_new:
  assumes lay: "object_layout (t_size T) entry_ok (t_enc T) (t_dec T)" and "i32_ok i"
  shows "disk_inv (bootstrap i False dir (RaftManager_init T fs sv))
    \<and> fileBaseName (pStore (bootstrap i False dir (RaftManager_init T fs sv))) = store_prefix dir i
    \<and> my_id (bootstrap i False dir (RaftManager_init T fs sv)) = i"
proof -
  obtain logs fs1 where s: "pvec_setup (store_prefix dir i @ ''log.persist'') False strip_entry (pvec_init T) fs = (logs, fs1)"
    by (cases "pvec_setup (store_prefix dir i @ ''log.persist'') False strip_entry (pvec_init T) fs")
  let ?n = "(RaftManager_init T fs sv)\<lparr>my_id := i, Logs := logs, disk := fs1,
               pStore := \<lparr>fileBaseName = store_prefix dir i, pst_initialised = True\<rparr>\<rparr>"
  have b: "bootstrap i False dir (RaftManager_init T fs sv) = raft_persist ?n"
    using s by (simp add: bootstrap_def RaftManager_init_def pstore_setup_def pstore_init_def Let_def)
  have "log_inv ?n \<and> persistedItems logs = length (items logs)"
    using pvec_setup_new [OF s lay] by (auto simp: log_inv_def pvec_synced_def log_filename [of _ True])
  then have "disk_inv (raft_persist ?n)"
    using log_inv_persist [of ?n] meta_inv_persist [of ?n] assms(2)
    by (simp add: disk_inv_def RaftManager_init_def i32_ok_def)
  then show ?thesis
    by (simp add: b raft_persist_def)
qed

lemma bootstrap_recovers:
  assumes inv: "disk_inv n" and base: "fileBaseName (pStore n) = store_prefix dir (my_id n)"
    and n': "n' = bootstrap (my_id n) True dir (RaftManager_init (pv_type (Logs n)) (disk n) sv)"
  shows "log_of n' = map strip_entry (log_of n) \<and> CurrentTerm n' = CurrentTerm n \<and> VotedFor n' = VotedFor n
    \<and> disk n' = disk n \<and> disk_inv n' \<and> fileBaseName (pStore n') = store_prefix dir (my_id n) \<and> my_id n' = my_id n"
proof -
  have fn: "pv_filename (Logs n) = store_prefix dir (my_id n) @ ''log.persist''" and pre: "preproc (Logs n) = strip_entry"
    using inv base by (simp_all add: disk_inv_def log_inv_def getFilename_def)
  obtain logs fs1 where s: "pvec_setup (store_prefix dir (my_id n) @ ''log.persist'') True strip_entry
      (pvec_init (pv_type (Logs n))) (disk n) = (logs, fs1)"
    by (cases "pvec_setup (store_prefix dir (my_id n) @ ''log.persist'') True strip_entry
        (pvec_init (pv_type (Logs n))) (disk n)")
  have rec: "items logs = map strip_entry (log_of n)" "fs1 = disk n" "pvec_synced logs (disk n)"
      "pvec_storable entry_ok logs" "pv_filename logs = pv_filename (Logs n)" "preproc logs = strip_entry"
    using pvec_recover [of "Logs n" "disk n" entry_ok "pv_type (Logs n)" logs fs1] inv s fn pre
    by (auto simp: disk_inv_def log_inv_def pvec_synced_def)
  have load: "pstore_load \<lparr>fileBaseName = store_prefix dir (my_id n), pst_initialised = b\<rparr> k d (disk n)
      = pstore_load (pStore n) k d (disk n)" for b k d
    using base by (simp add: pstore_load_def getFilename_def)
  have "n' = (RaftManager_init (pv_type (Logs n)) (disk n) sv)\<lparr>my_id := my_id n, Logs := logs, disk := disk n,
      pStore := \<lparr>fileBaseName = store_prefix dir (my_id n), pst_initialised = True\<rparr>,
      VotedFor := VotedFor n, CurrentTerm := CurrentTerm n\<rparr>"
    using n' s rec(2) inv base
    by (simp add: bootstrap_def RaftManager_init_def pstore_setup_def pstore_init_def Let_def
        load disk_inv_def meta_inv_def)
  then show ?thesis
    using rec inv base fn
    by (simp add: disk_inv_def log_inv_def meta_inv_def pvec_synced_def load getFilename_def)
qed

end
