(* ===== verification/EntryLayout.thy ===== *)
theory EntryLayout
  imports RaftState
begin

text \<open>
  One layout of \<open>LogEntry\<close>. How the compiler lays out \<open>std::variant\<close> and \<open>std::optional\<close> inside the
  structure is not fixed by the sources, so the development takes the layout as a parameter with the
  contract \<open>object_layout\<close>; this theory shows that the contract can be met, with the members one
  after the other and the alternative of the variant in front of its storage.
\<close>

fun args_bytes :: "op_args \<Rightarrow> byte list" where
  "args_bytes (ArgKey k) = i32_bytes 0 @ i32_bytes k @ replicate 53 0"
| "args_bytes (ArgPair k v) = i32_bytes 1 @ i32_bytes k @ i32_bytes v @ replicate 49 0"
| "args_bytes (ArgServer s) = i32_bytes 2 @ ServerInfo_bytes s"

definition args_of_bytes :: "byte list \<Rightarrow> op_args" where
  "args_of_bytes bs =
     (let tag = i32_of_bytes (take 4 bs) in
      if tag = 0 then ArgKey (i32_of_bytes (take 4 (drop 4 bs)))
      else if tag = 1 then ArgPair (i32_of_bytes (take 4 (drop 4 bs))) (i32_of_bytes (take 4 (drop 8 bs)))
      else ArgServer (ServerInfo_of_bytes (take 57 (drop 4 bs))))"

definition flat_bytes :: "LogEntry \<Rightarrow> byte list" where
  "flat_bytes e = i32_bytes (log_term e) @ i32_bytes (OpType_int (kind (log_op e))) @ args_bytes (args (log_op e))"

definition flat_of_bytes :: "byte list \<Rightarrow> LogEntry" where
  "flat_of_bytes bs =
     \<lparr>log_term = i32_of_bytes (take 4 bs),
      log_op = \<lparr>kind = OpType_of_int (i32_of_bytes (take 4 (drop 4 bs))), args = args_of_bytes (drop 8 bs), promiseHandle = None\<rparr>\<rparr>"

definition flat_entry :: "LogEntry cxx_type" where
  "flat_entry =
     \<lparr>t_size = 69, t_enc = flat_bytes, t_dec = flat_of_bytes,
      t_default = \<lparr>log_term = 0, log_op = \<lparr>kind = GET, args = ArgKey 0, promiseHandle = None\<rparr>\<rparr>\<rparr>"

lemma args_bytes_length: "args_ok a \<Longrightarrow> length (args_bytes a) = 61"
  by (cases a) simp_all

lemma args_bytes_roundtrip: "args_ok a \<Longrightarrow> args_of_bytes (args_bytes a) = a"
proof -
  have tags: "i32_of_bytes (i32_bytes 0) = 0" "i32_of_bytes (i32_bytes 1) = 1" "i32_of_bytes (i32_bytes 2) = 2"
    by (simp_all add: i32_ok_def)
  assume "args_ok a"
  then show ?thesis
    by (cases a) (simp_all add: args_of_bytes_def tags)
qed

interpretation flat: object_layout 69 entry_ok flat_bytes flat_of_bytes
  by unfold_locales
     (auto simp: entry_ok_def op_ok_def flat_bytes_def flat_of_bytes_def args_bytes_length args_bytes_roundtrip)

lemma flat_layout: "object_layout (t_size flat_entry) entry_ok (t_enc flat_entry) (t_dec flat_entry)"
  by (simp add: flat_entry_def flat.object_layout_axioms)

text \<open>A replica before its start, with no files and no clients, from which examples are built.\<close>

definition no_clients :: service where
  "no_clients = \<lparr>promises = promise_store_init, futures = []\<rparr>"

definition blank_node :: node where
  "blank_node = RaftManager_init flat_entry (\<lambda>_. None) no_clients"

lemma blank_node_simps [simp]:
  "log_of blank_node = []" "Role blank_node = Follower" "CurrentTerm blank_node = 0" "VotedFor blank_node = -1"
  "CommitIndex blank_node = -1" "LastApplied blank_node = -1" "peers blank_node = []" "ClusterConfig blank_node = []"
  "services blank_node = no_clients" "raftOut blank_node = []" "my_id blank_node = 0" "NextIndex blank_node = []"
  "MatchIndex blank_node = []" "dispatchOut blank_node = []" "raftIn blank_node = []" "execIn blank_node = []"
  "LastKnownLeaderId blank_node = 0" "VotesReceived blank_node = 0" "LastConfigChangeIndex blank_node = -1"
  by (simp_all add: blank_node_def RaftManager_init_def pvec_init_def)

lemma no_clients_simps [simp]: "ps_ok (promises no_clients)" "ps_live (promises no_clients) = Map.empty" "futures no_clients = []"
  by (simp_all add: no_clients_def) (simp add: ps_live_def promise_store_init_def)

definition get_op :: "int \<Rightarrow> RaftOp" where
  "get_op k = \<lparr>kind = GET, args = ArgKey k, promiseHandle = None\<rparr>"

end
