(* ===== verification/RaftFollower.thy ===== *)
theory RaftFollower
  imports EntryLayout
begin

text \<open>
  \<open>ohmyraft/OhMyRaft.H\<close>, second part: the two RPC handlers every replica serves, \<open>AppendEntries\<close>
  and \<open>RequestVote\<close>. \<open>AppendEntries\<close> is cut along its blocks: the check of the previous entry, the
  loop that skips entries already present, the truncation with its aborts, the appended suffix with
  the configuration changes it carries, and the commit.
\<close>

section \<open>AppendEntries\<close>

definition prev_matches :: "LogEntry list \<Rightarrow> int \<Rightarrow> int \<Rightarrow> bool res" where
  "prev_matches logs prevLogIndex prevLogTerm =
     (if prevLogIndex = -1 then Inr True
      else if prevLogIndex < int (length logs)
      then rbind (vec_at logs prevLogIndex) (\<lambda>e. Inr (prevLogTerm = log_term e))
      else Inr False)"

lemma rbind_cong [fundef_cong]: "m = m' \<Longrightarrow> (\<And>x. m' = Inr x \<Longrightarrow> f x = g x) \<Longrightarrow> rbind m f = rbind m' g"
  by (cases m') simp_all

function match_loop :: "LogEntry list \<Rightarrow> AppendLogEntry list \<Rightarrow> int \<Rightarrow> int \<Rightarrow> (int \<times> int) res" where
  "match_loop logs entries logInsertIndex newEntriesIndex =
     (if logInsertIndex \<ge> int (length logs) \<or> newEntriesIndex \<ge> int (length entries)
      then Inr (logInsertIndex, newEntriesIndex)
      else
        rbind (vec_at logs logInsertIndex) (\<lambda>l.
        rbind (vec_at entries newEntriesIndex) (\<lambda>e.
          if log_term l \<noteq> ale_term e then Inr (logInsertIndex, newEntriesIndex)
          else match_loop logs entries (logInsertIndex + 1) (newEntriesIndex + 1))))"
  by pat_completeness auto
termination
  by (relation "measure (\<lambda>(logs, entries, i, j). nat (int (length logs) - i))") auto

declare match_loop.simps [simp del]

fun abort_all :: "LogEntry list \<Rightarrow> service \<Rightarrow> service res" where
  "abort_all [] sv = Inr sv"
| "abort_all (e # es) sv = rbind (op_abort (log_op e) sv) (\<lambda>(_, sv'). abort_all es sv')"

definition apply_config :: "RaftOp \<Rightarrow> node \<Rightarrow> node res" where
  "apply_config op n =
     (if kind op = ADD_SERVER then rbind (get_server (args op)) (\<lambda>info. Inr (ApplyAddServer info n))
      else if kind op = REMOVE_SERVER then rbind (get_key (args op)) (\<lambda>serverId. Inr (ApplyRemoveServer serverId n))
      else Inr n)"

fun append_new :: "AppendLogEntry list \<Rightarrow> node \<Rightarrow> node res" where
  "append_new [] n = Inr n"
| "append_new (e # es) n =
     rbind (apply_config (ale_op e)
              (n\<lparr>Logs := pvec_push_back \<lparr>log_term = ale_term e, log_op = ale_op e\<rparr> (Logs n)\<rparr>))
       (append_new es)"

definition persist_logs :: "node \<Rightarrow> node" where
  "persist_logs n = (case pvec_persist (Logs n) (disk n) of (logs, fs) \<Rightarrow> n\<lparr>Logs := logs, disk := fs\<rparr>)"

definition truncate_logs :: "int \<Rightarrow> node \<Rightarrow> node" where
  "truncate_logs newSize n =
     (case pvec_resize (nat newSize) (Logs n) (disk n) of (logs, fs) \<Rightarrow> n\<lparr>Logs := logs, disk := fs\<rparr>)"

definition store_entries :: "AppendEntriesParams \<Rightarrow> node \<Rightarrow> node res" where
  "store_entries a n =
     rbind (match_loop (log_of n) (ae_entries a) (ae_prevLogIndex a + 1) 0) (\<lambda>(logInsertIndex, newEntriesIndex).
       if newEntriesIndex < int (length (ae_entries a)) then
         rbind (abort_all (drop (nat logInsertIndex) (log_of n)) (services n)) (\<lambda>sv.
         rbind (append_new (drop (nat newEntriesIndex) (ae_entries a)) (truncate_logs logInsertIndex (n\<lparr>services := sv\<rparr>))) (\<lambda>n'.
         Inr (persist_logs n')))
       else Inr n)"

definition follower_commit :: "int \<Rightarrow> node \<Rightarrow> node res" where
  "follower_commit leaderCommit n =
     (if leaderCommit > CommitIndex n
      then queue_committed (n\<lparr>CommitIndex := min leaderCommit (int (length (log_of n)) - 1)\<rparr>)
      else Inr n)"

definition AppendEntries :: "AppendEntriesParams \<Rightarrow> int \<Rightarrow> node \<Rightarrow> (AppendEntriesRet \<times> node) res" where
  "AppendEntries a now n =
     (let n0 = (if ae_term a \<ge> CurrentTerm n then n\<lparr>ElectionResetEvent := now\<rparr> else n) in
      if Role n0 = Dead then Inr (\<lparr>aer_term = 0, aer_success = False\<rparr>, n0)
      else
        let n1 = n0\<lparr>LastKnownLeaderId := ae_leaderId a\<rparr>;
            n2 = (if ae_term a > CurrentTerm n1 then becomeFollower (ae_term a) now n1 else n1)
        in if ae_term a = CurrentTerm n2 then
             let n3 = (if Role n2 \<noteq> Follower then becomeFollower (ae_term a) now n2 else n2) in
             rbind (prev_matches (log_of n3) (ae_prevLogIndex a) (ae_prevLogTerm a)) (\<lambda>ok.
               if ok then
                 rbind (store_entries a n3) (\<lambda>n4.
                 rbind (follower_commit (ae_leaderCommit a) n4) (\<lambda>n5.
                 Inr (\<lparr>aer_term = CurrentTerm n5, aer_success = True\<rparr>, n5)))
               else Inr (\<lparr>aer_term = CurrentTerm n3, aer_success = False\<rparr>, n3))
           else Inr (\<lparr>aer_term = CurrentTerm n2, aer_success = False\<rparr>, n2))"

section \<open>RequestVote\<close>

definition last_log_term :: "LogEntry list \<Rightarrow> int" where
  "last_log_term logs = (if logs = [] then -1 else log_term (logs ! (length logs - 1)))"

definition RequestVote :: "RequestVoteParams \<Rightarrow> int \<Rightarrow> node \<Rightarrow> RequestVoteRet \<times> node" where
  "RequestVote a now n =
     (if om_find (peers n) (rv_candidateId a) = None
      then (\<lparr>rvr_term = CurrentTerm n, rvr_voteGranted = False\<rparr>, n)
      else
        let lastLogIndex = int (length (log_of n)) - 1;
            lastLogTerm = last_log_term (log_of n);
            n1 = (if rv_term a > CurrentTerm n then becomeFollower (rv_term a) now n else n);
            granted = (rv_term a = CurrentTerm n1 \<and> (VotedFor n1 = -1 \<or> VotedFor n1 = rv_candidateId a)
                       \<and> (rv_lastLogTerm a > lastLogTerm
                          \<or> (rv_lastLogTerm a = lastLogTerm \<and> rv_lastLogIndex a \<ge> lastLogIndex)));
            n2 = (if granted then n1\<lparr>VotedFor := rv_candidateId a, ElectionResetEvent := now\<rparr> else n1);
            n3 = raft_persist n2
        in (\<lparr>rvr_term = CurrentTerm n3, rvr_voteGranted = granted\<rparr>, n3))"

section \<open>The log after AppendEntries\<close>

text \<open>
  The reference: skip the entries whose terms agree with the log behind the previous index; if all
  do, the log stays, otherwise it is cut at the first difference and takes over the rest.
\<close>

definition entry_of :: "AppendLogEntry \<Rightarrow> LogEntry" where
  "entry_of e = \<lparr>log_term = ale_term e, log_op = ale_op e\<rparr>"

fun agree_len :: "LogEntry list \<Rightarrow> AppendLogEntry list \<Rightarrow> nat" where
  "agree_len (l # ls) (e # es) = (if log_term l = ale_term e then Suc (agree_len ls es) else 0)"
| "agree_len _ _ = 0"

definition ae_merge :: "LogEntry list \<Rightarrow> nat \<Rightarrow> AppendLogEntry list \<Rightarrow> LogEntry list" where
  "ae_merge logs k es =
     (let m = agree_len (drop k logs) es in
      if m < length es then take (k + m) logs @ map entry_of (drop m es) else logs)"

lemma agree_len_le: "agree_len ls es \<le> length ls" "agree_len ls es \<le> length es"
  by (induction ls es rule: agree_len.induct) auto

lemma agree_len_nth: "i < agree_len ls es \<Longrightarrow> log_term (ls ! i) = ale_term (es ! i)"
proof (induction ls es arbitrary: i rule: agree_len.induct)
  case (1 l ls e es)
  then show ?case
    by (cases i) (auto split: if_splits)
qed auto

lemma match_loop_agree:
  assumes "0 \<le> i" and "0 \<le> j"
  shows "match_loop logs es i j =
    (let m = int (agree_len (drop (nat i) logs) (drop (nat j) es)) in Inr (i + m, j + m))"
  using assms
proof (induction logs es i j rule: match_loop.induct)
  case (1 logs es i j)
  show ?case
  proof (cases "i \<ge> int (length logs) \<or> j \<ge> int (length es)")
    case True
    then have "agree_len (drop (nat i) logs) (drop (nat j) es) = 0"
      using agree_len_le [of "drop (nat i) logs" "drop (nat j) es"] by (auto simp: nat_le_iff)
    then show ?thesis
      using True by (subst match_loop.simps) auto
  next
    case False
    then have in_range: "vec_at logs i = Inr (logs ! nat i)" "vec_at es j = Inr (es ! nat j)"
      using "1.prems" by auto
    have dr: "drop (nat i) logs = logs ! nat i # drop (nat (i + 1)) logs"
        "drop (nat j) es = es ! nat j # drop (nat (j + 1)) es"
      using False "1.prems" drop_at [of i logs] drop_at [of j es] by auto
    show ?thesis
    proof (cases "log_term (logs ! nat i) = ale_term (es ! nat j)")
      case True
      then have "match_loop logs es i j = match_loop logs es (i + 1) (j + 1)"
        using False in_range by (subst match_loop.simps) simp
      also have "\<dots> = (let m = int (agree_len (drop (nat (i + 1)) logs) (drop (nat (j + 1)) es)) in Inr (i + 1 + m, j + 1 + m))"
        using "1.IH" [OF False in_range] True "1.prems" by simp
      finally show ?thesis
        using True dr by (simp add: Let_def)
    next
      case neq: False
      then show ?thesis
        using False in_range dr by (subst match_loop.simps) simp
    qed
  qed
qed

lemma apply_config_logs: "apply_config op n = Inr n' \<Longrightarrow> Logs n' = Logs n"
  by (auto simp: apply_config_def rbind_eq_Inr_iff split: if_splits)

lemma append_new_log: "append_new es n = Inr n' \<Longrightarrow> log_of n' = log_of n @ map entry_of es"
proof (induction es arbitrary: n)
  case (Cons e es)
  then obtain n1 where
    a: "apply_config (ale_op e) (n\<lparr>Logs := pvec_push_back \<lparr>log_term = ale_term e, log_op = ale_op e\<rparr> (Logs n)\<rparr>) = Inr n1"
    and b: "append_new es n1 = Inr n'"
    by (auto elim: rbind_Inr_E)
  show ?case
    using Cons.IH [OF b] apply_config_logs [OF a] by (simp add: entry_of_def)
qed simp

lemma persist_logs_log [simp]: "log_of (persist_logs n) = log_of n"
  by (simp add: persist_logs_def case_prod_beta)

lemma truncate_logs_log: "nat k \<le> length (log_of n) \<Longrightarrow> log_of (truncate_logs k n) = take (nat k) (log_of n)"
  by (simp add: truncate_logs_def case_prod_beta pvec_resize_items)

lemma store_entries_log:
  assumes "store_entries a n = Inr n'" and "-1 \<le> ae_prevLogIndex a" and "ae_prevLogIndex a < int (length (log_of n))"
  shows "log_of n' = ae_merge (log_of n) (nat (ae_prevLogIndex a + 1)) (ae_entries a)"
proof -
  let ?k = "nat (ae_prevLogIndex a + 1)"
  define m where "m = agree_len (drop ?k (log_of n)) (ae_entries a)"
  have loop: "match_loop (log_of n) (ae_entries a) (ae_prevLogIndex a + 1) 0 = Inr (ae_prevLogIndex a + 1 + int m, int m)"
    using match_loop_agree [of "ae_prevLogIndex a + 1" 0] assms(2) by (simp add: Let_def m_def)
  have k: "nat (ae_prevLogIndex a + 1 + int m) = ?k + m"
    using assms(2) by (simp add: nat_add_distrib)
  have len: "?k + m \<le> length (log_of n)"
    using agree_len_le(1) [of "drop ?k (log_of n)" "ae_entries a"] assms(2,3) by (simp add: m_def)
  show ?thesis
  proof (cases "m < length (ae_entries a)")
    case True
    then obtain sv n1 where
      "append_new (drop m (ae_entries a)) (truncate_logs (ae_prevLogIndex a + 1 + int m) (n\<lparr>services := sv\<rparr>)) = Inr n1"
      and "n' = persist_logs n1"
      using assms(1) by (auto simp: store_entries_def loop elim!: rbind_Inr_E)
    then have "log_of n' = take (?k + m) (log_of n) @ map entry_of (drop m (ae_entries a))"
      using len by (simp add: append_new_log truncate_logs_log k)
    then show ?thesis
      using True by (simp add: ae_merge_def m_def Let_def)
  next
    case False
    then show ?thesis
      using assms(1) by (simp add: store_entries_def loop ae_merge_def m_def Let_def)
  qed
qed

section \<open>The commit\<close>

lemma res_map_vec_at:
  assumes "0 \<le> i" and "j < int (length logs)"
  shows "res_map (\<lambda>k. rbind (vec_at logs k) (\<lambda>e. Inr (log_op e))) [i..j] = Inr (map log_op (segment i j logs))"
  using assms
proof (induction "nat (j + 1 - i)" arbitrary: i)
  case 0
  then show ?case by simp
next
  case (Suc m)
  then have ij: "i \<le> j" and IH: "res_map (\<lambda>k. rbind (vec_at logs k) (\<lambda>e. Inr (log_op e))) [i + 1..j] = Inr (map log_op (segment (i + 1) j logs))"
    by simp_all
  have "segment i j logs = logs ! nat i # segment (i + 1) j logs"
    using ij Suc.prems
    by (simp add: segment_def drop_at take_Cons' Suc_diff_le nat_add_distrib)
  then show ?case
    using ij IH Suc.prems by (simp add: upto.simps [of i j])
qed

lemma queue_committed_ok:
  assumes "-1 \<le> LastApplied n" and "CommitIndex n < int (length (log_of n))"
  shows "queue_committed n = Inr (n\<lparr>raftOut := raftOut n @ map log_op (segment (LastApplied n + 1) (CommitIndex n) (log_of n)),
           LastApplied := CommitIndex n, moreExecJobsReady := tts_signal (moreExecJobsReady n)\<rparr>)"
  using assms by (simp add: queue_committed_def res_map_vec_at)

lemma follower_commit_ok:
  assumes "-1 \<le> LastApplied n"
  shows "follower_commit c n = Inr
    (if c > CommitIndex n
     then let ci = min c (int (length (log_of n)) - 1) in
       n\<lparr>CommitIndex := ci, raftOut := raftOut n @ map log_op (segment (LastApplied n + 1) ci (log_of n)),
         LastApplied := ci, moreExecJobsReady := tts_signal (moreExecJobsReady n)\<rparr>
     else n)"
  using assms by (simp add: follower_commit_def queue_committed_ok Let_def)

section \<open>AppendEntries case by case\<close>

text \<open>The state with which a current call goes on: follower in the caller's term, timer reset.\<close>

definition ae_stepdown :: "AppendEntriesParams \<Rightarrow> int \<Rightarrow> node \<Rightarrow> node" where
  "ae_stepdown a now n =
     (let n1 = n\<lparr>ElectionResetEvent := now, LastKnownLeaderId := ae_leaderId a\<rparr> in
      if ae_term a > CurrentTerm n \<or> Role n \<noteq> Follower then becomeFollower (ae_term a) now n1 else n1)"

lemma ae_stepdown_simps [simp]:
  "Logs (ae_stepdown a now n) = Logs n" "CommitIndex (ae_stepdown a now n) = CommitIndex n"
  "LastApplied (ae_stepdown a now n) = LastApplied n" "raftOut (ae_stepdown a now n) = raftOut n"
  "services (ae_stepdown a now n) = services n" "peers (ae_stepdown a now n) = peers n"
  "ClusterConfig (ae_stepdown a now n) = ClusterConfig n" "my_id (ae_stepdown a now n) = my_id n"
  "pStore (ae_stepdown a now n) = pStore n" "Role (ae_stepdown a now n) = Follower"
  "NextIndex (ae_stepdown a now n) = NextIndex n" "MatchIndex (ae_stepdown a now n) = MatchIndex n"
  by (simp_all add: ae_stepdown_def Let_def)

lemma ae_stepdown_term: "ae_term a \<ge> CurrentTerm n \<Longrightarrow> CurrentTerm (ae_stepdown a now n) = ae_term a"
  by (simp add: ae_stepdown_def Let_def)

lemma AppendEntries_dead:
  "Role n = Dead \<Longrightarrow> AppendEntries a now n = Inr (\<lparr>aer_term = 0, aer_success = False\<rparr>,
     if ae_term a \<ge> CurrentTerm n then n\<lparr>ElectionResetEvent := now\<rparr> else n)"
  by (simp add: AppendEntries_def)

lemma AppendEntries_stale:
  "Role n \<noteq> Dead \<Longrightarrow> ae_term a < CurrentTerm n \<Longrightarrow>
     AppendEntries a now n = Inr (\<lparr>aer_term = CurrentTerm n, aer_success = False\<rparr>, n\<lparr>LastKnownLeaderId := ae_leaderId a\<rparr>)"
  by (simp add: AppendEntries_def)

lemma AppendEntries_current:
  assumes "Role n \<noteq> Dead" and "CurrentTerm n \<le> ae_term a"
  shows "AppendEntries a now n =
    rbind (prev_matches (log_of n) (ae_prevLogIndex a) (ae_prevLogTerm a)) (\<lambda>ok.
      if ok then
        rbind (store_entries a (ae_stepdown a now n)) (\<lambda>n4.
        rbind (follower_commit (ae_leaderCommit a) n4) (\<lambda>n5.
        Inr (\<lparr>aer_term = CurrentTerm n5, aer_success = True\<rparr>, n5)))
      else Inr (\<lparr>aer_term = ae_term a, aer_success = False\<rparr>, ae_stepdown a now n))"
  using assms
  by (simp add: AppendEntries_def ae_stepdown_def Let_def cong: if_cong)

lemma prev_matches_ok:
  "-1 \<le> p \<Longrightarrow> prev_matches logs p t = Inr (p = -1 \<or> (p < int (length logs) \<and> t = log_term (logs ! nat p)))"
  by (auto simp: prev_matches_def)

section \<open>The disk after AppendEntries\<close>

definition ae_ok :: "AppendEntriesParams \<Rightarrow> bool" where
  "ae_ok a \<longleftrightarrow> i32_ok (ae_term a) \<and> list_all (\<lambda>e. i32_ok (ale_term e) \<and> op_ok (ale_op e)) (ae_entries a)"

lemma disk_inv_stepdown:
  assumes "disk_inv n" and "i32_ok (ae_term a)"
  shows "disk_inv (ae_stepdown a now n)"
proof -
  have "disk_inv (n\<lparr>ElectionResetEvent := now, LastKnownLeaderId := ae_leaderId a\<rparr>)"
    using assms(1) by (rule disk_inv_frame) simp_all
  then show ?thesis
    using assms(2) by (simp add: ae_stepdown_def Let_def disk_inv_becomeFollower)
qed

lemma open_inv_push:
  "open_inv n \<Longrightarrow> i32_ok (log_term e) \<Longrightarrow> op_ok (log_op e) \<Longrightarrow> open_inv (n\<lparr>Logs := pvec_push_back e (Logs n)\<rparr>)"
  by (auto simp: open_inv_def log_inv_def meta_inv_def pvec_push_back_ok)

lemma open_inv_apply_config: "open_inv n \<Longrightarrow> apply_config op n = Inr n' \<Longrightarrow> open_inv n'"
  by (auto simp: apply_config_def rbind_eq_Inr_iff split: if_splits
      intro: open_inv_ApplyAddServer open_inv_ApplyRemoveServer)

lemma open_inv_append_new:
  "open_inv n \<Longrightarrow> list_all (\<lambda>e. i32_ok (ale_term e) \<and> op_ok (ale_op e)) es \<Longrightarrow> append_new es n = Inr n' \<Longrightarrow> open_inv n'"
proof (induction es arbitrary: n)
  case (Cons e es)
  have "open_inv (n\<lparr>Logs := pvec_push_back \<lparr>log_term = ale_term e, log_op = ale_op e\<rparr> (Logs n)\<rparr>)"
    using Cons.prems by (intro open_inv_push) simp_all
  then show ?case
    using Cons.prems Cons.IH open_inv_apply_config by (auto elim!: rbind_Inr_E)
qed simp

text \<open>Rewriting the log file alone keeps the term and the vote.\<close>

lemma meta_inv_log_file:
  assumes "meta_inv n" and "\<And>q. q \<noteq> getFilename (pStore n) ''log'' \<Longrightarrow> fs q = disk n q"
  shows "meta_inv (n\<lparr>Logs := logs, disk := fs\<rparr>)"
  using assms load_frame [of fs "pStore n" "''VotedFor''" "disk n" "-1"]
    load_frame [of fs "pStore n" "''CurrentTerm''" "disk n" 0]
  by (simp add: meta_inv_def)

lemma open_inv_truncate:
  assumes "open_inv n" and "nat k \<le> length (log_of n)"
  shows "open_inv (truncate_logs k n)"
proof -
  obtain logs fs where r: "pvec_resize (nat k) (Logs n) (disk n) = (logs, fs)"
    by (cases "pvec_resize (nat k) (Logs n) (disk n)")
  have "pvec_ok logs fs \<and> pvec_storable entry_ok logs \<and> (\<forall>q. q \<noteq> pv_filename (Logs n) \<longrightarrow> fs q = disk n q)"
    using assms r by (intro pvec_resize_ok) (auto simp: open_inv_def log_inv_def)
  then show ?thesis
    using assms(1) r pvec_resize_same [of "nat k" "Logs n" "disk n"] meta_inv_log_file [of n fs logs]
    by (simp add: open_inv_def log_inv_def truncate_logs_def)
qed

lemma disk_inv_persist_logs:
  assumes "open_inv n"
  shows "disk_inv (persist_logs n)"
proof -
  obtain logs fs where p: "pvec_persist (Logs n) (disk n) = (logs, fs)"
    by (cases "pvec_persist (Logs n) (disk n)")
  have "pvec_synced logs fs \<and> (\<forall>q. q \<noteq> pv_filename (Logs n) \<longrightarrow> fs q = disk n q)"
    using assms p by (intro pvec_persist_sync) (auto simp: open_inv_def log_inv_def)
  then show ?thesis
    using assms p pvec_persist_same [of "Logs n" "disk n"] pvec_storable_persist [of entry_ok "Logs n" "disk n"]
      meta_inv_log_file [of n fs logs]
    by (simp add: open_inv_def log_inv_def persist_logs_def disk_inv_def pvec_synced_def)
qed

lemma disk_inv_store_entries:
  assumes inv: "disk_inv n" and a: "ae_ok a" and s: "store_entries a n = Inr n'"
    and p: "-1 \<le> ae_prevLogIndex a" "ae_prevLogIndex a < int (length (log_of n))"
  shows "disk_inv n'"
proof -
  let ?k = "nat (ae_prevLogIndex a + 1)"
  define m where "m = agree_len (drop ?k (log_of n)) (ae_entries a)"
  have loop: "match_loop (log_of n) (ae_entries a) (ae_prevLogIndex a + 1) 0 = Inr (ae_prevLogIndex a + 1 + int m, int m)"
    using match_loop_agree [of "ae_prevLogIndex a + 1" 0] p(1) by (simp add: Let_def m_def)
  have len: "nat (ae_prevLogIndex a + 1 + int m) \<le> length (log_of n)"
    using agree_len_le(1) [of "drop ?k (log_of n)" "ae_entries a"] p by (simp add: m_def)
  show ?thesis
  proof (cases "m < length (ae_entries a)")
    case True
    then obtain sv n1 where
      n1: "append_new (drop m (ae_entries a)) (truncate_logs (ae_prevLogIndex a + 1 + int m) (n\<lparr>services := sv\<rparr>)) = Inr n1"
      and n': "n' = persist_logs n1"
      using s by (auto simp: store_entries_def loop elim!: rbind_Inr_E)
    have "open_inv (n\<lparr>services := sv\<rparr>)"
      using inv by (simp add: disk_inv_alt open_inv_def log_inv_def meta_inv_def)
    then have "open_inv (truncate_logs (ae_prevLogIndex a + 1 + int m) (n\<lparr>services := sv\<rparr>))"
      using len by (intro open_inv_truncate) simp_all
    then have "open_inv n1"
      using a n1 by (auto simp: ae_ok_def intro: open_inv_append_new list_all_drop)
    then show ?thesis
      by (simp add: n' disk_inv_persist_logs)
  next
    case False
    then show ?thesis
      using s inv by (simp add: store_entries_def loop)
  qed
qed

lemma disk_inv_follower_commit: "disk_inv n \<Longrightarrow> follower_commit c n = Inr n' \<Longrightarrow> disk_inv n'"
  by (erule disk_inv_frame) (auto simp: follower_commit_def queue_committed_def rbind_eq_Inr_iff split: if_splits)

lemma disk_inv_AppendEntries:
  assumes inv: "disk_inv n" and a: "ae_ok a" and p: "-1 \<le> ae_prevLogIndex a"
    and r: "AppendEntries a now n = Inr (reply, n')"
  shows "disk_inv n'"
proof -
  consider (dead) "Role n = Dead" | (stale) "Role n \<noteq> Dead" "ae_term a < CurrentTerm n"
    | (current) "Role n \<noteq> Dead" "CurrentTerm n \<le> ae_term a"
    by linarith
  then show ?thesis
  proof cases
    case dead
    then show ?thesis
      using r inv by (auto simp: AppendEntries_dead disk_inv_def log_inv_def meta_inv_def)
  next
    case stale
    then show ?thesis
      using r inv by (auto simp: AppendEntries_stale disk_inv_def log_inv_def meta_inv_def)
  next
    case current
    have sd: "disk_inv (ae_stepdown a now n)"
      using inv a by (simp add: disk_inv_stepdown ae_ok_def)
    show ?thesis
    proof (cases "prev_matches (log_of n) (ae_prevLogIndex a) (ae_prevLogTerm a) = Inr True")
      case True
      then have lt: "ae_prevLogIndex a < int (length (log_of (ae_stepdown a now n)))"
        using p by (auto simp: prev_matches_ok)
      obtain n4 where "store_entries a (ae_stepdown a now n) = Inr n4" "follower_commit (ae_leaderCommit a) n4 = Inr n'"
        using r True by (auto simp: AppendEntries_current [OF current] elim!: rbind_Inr_E)
      then show ?thesis
        using disk_inv_store_entries [OF sd a _ p lt] disk_inv_follower_commit by blast
    next
      case False
      then show ?thesis
        using r p sd by (auto simp: AppendEntries_current [OF current] prev_matches_ok split: if_splits)
    qed
  qed
qed

section \<open>When AppendEntries returns\<close>

text \<open>The handles of a stretch of the log, and what aborting the operations does to them.\<close>

definition handles :: "LogEntry list \<Rightarrow> handle list" where
  "handles es = List.map_filter (\<lambda>e. promiseHandle (log_op e)) es"

lemma handles_simps [simp]:
  "handles [] = []"
  "handles (e # es) = (case promiseHandle (log_op e) of None \<Rightarrow> handles es | Some h \<Rightarrow> h # handles es)"
  by (simp_all add: handles_def map_filter_simps split: option.split)

lemma handles_append: "handles (xs @ ys) = handles xs @ handles ys"
  by (induction xs) (auto split: option.split)

definition known_op :: "RaftOp \<Rightarrow> bool" where
  "known_op op \<longleftrightarrow> kind op \<in> {GET, PUT, ADD_SERVER, REMOVE_SERVER}"

definition failure :: "RaftOp \<Rightarrow> op_res" where
  "failure op = (if kind op = GET then ResGet None else ResBool False)"

lemma op_abort_live:
  assumes "ps_ok (promises sv)" and "promiseHandle op = Some h" and "ps_live (promises sv) h = Some p" and "known_op op"
  shows "\<exists>sv'. op_abort op sv = Inr (withoutPromise op, sv') \<and> futures sv' = (p, failure op) # futures sv
    \<and> ps_ok (promises sv') \<and> ps_live (promises sv') = (ps_live (promises sv))(h := None)"
proof -
  obtain ps' where "take_promise h sv = Inr (p, sv\<lparr>promises := ps'\<rparr>)" and "ps_ok ps'"
      and "ps_live ps' = (ps_live (promises sv))(h := None)"
    using take_promise_live [OF assms(1,3)] by blast
  then show ?thesis
    using assms(2,4) by (auto simp: op_abort_def known_op_def failure_def set_value_def)
qed

lemma abort_all_ok:
  assumes "ps_ok (promises sv)" and "distinct (handles es)" and "set (handles es) \<subseteq> dom (ps_live (promises sv))"
    and "list_all (\<lambda>e. known_op (log_op e)) es"
  shows "\<exists>sv'. abort_all es sv = Inr sv' \<and> ps_ok (promises sv')
    \<and> ps_live (promises sv') = (ps_live (promises sv)) |` (- set (handles es))
    \<and> (\<forall>e h p. e \<in> set es \<longrightarrow> promiseHandle (log_op e) = Some h \<longrightarrow> ps_live (promises sv) h = Some p
         \<longrightarrow> (p, failure (log_op e)) \<in> set (futures sv'))
    \<and> set (futures sv) \<subseteq> set (futures sv')"
  using assms
proof (induction es arbitrary: sv)
  case Nil
  then show ?case by simp
next
  case (Cons e es)
  show ?case
  proof (cases "promiseHandle (log_op e)")
    case None
    then show ?thesis
      using Cons.prems Cons.IH [of sv] by (auto simp: op_abort_def)
  next
    case (Some h)
    then obtain p where p: "ps_live (promises sv) h = Some p"
      using Cons.prems(3) by auto
    obtain sv1 where sv1: "op_abort (log_op e) sv = Inr (withoutPromise (log_op e), sv1)"
        "futures sv1 = (p, failure (log_op e)) # futures sv" "ps_ok (promises sv1)"
        "ps_live (promises sv1) = (ps_live (promises sv))(h := None)"
      using op_abort_live [OF Cons.prems(1) Some p] Cons.prems(4) by auto
    have "set (handles es) \<subseteq> dom (ps_live (promises sv1))"
      using Cons.prems(2,3) Some by (auto simp: sv1(4))
    then obtain sv' where sv': "abort_all es sv1 = Inr sv'" "ps_ok (promises sv')"
        "ps_live (promises sv') = (ps_live (promises sv1)) |` (- set (handles es))"
        "\<forall>e h p. e \<in> set es \<longrightarrow> promiseHandle (log_op e) = Some h \<longrightarrow> ps_live (promises sv1) h = Some p
           \<longrightarrow> (p, failure (log_op e)) \<in> set (futures sv')" "set (futures sv1) \<subseteq> set (futures sv')"
      using Cons.IH [of sv1] Cons.prems Some sv1(3) by auto
    have other: "promiseHandle (log_op e') = Some h' \<Longrightarrow> e' \<in> set es \<Longrightarrow> h' \<noteq> h" for e' h'
      using Cons.prems(2) Some by (auto simp: handles_def map_filter_def image_iff)
    have live: "ps_live (promises sv') = (ps_live (promises sv)) |` (- set (handles (e # es)))"
      by (auto simp: sv'(3) sv1(4) Some restrict_map_def fun_eq_iff)
    show ?thesis
      using sv' sv1 live other Some p by (intro exI [of _ sv']) (auto simp: sv1(4))
  qed
qed

text \<open>Configuration operations that carry the argument their kind calls for.\<close>

definition config_typed :: "RaftOp \<Rightarrow> bool" where
  "config_typed op \<longleftrightarrow>
     (kind op = ADD_SERVER \<longrightarrow> (\<exists>s. args op = ArgServer s)) \<and> (kind op = REMOVE_SERVER \<longrightarrow> (\<exists>i. args op = ArgKey i))"

lemma apply_config_defined: "config_typed op \<Longrightarrow> \<exists>n'. apply_config op n = Inr n'"
  by (cases "kind op = ADD_SERVER"; cases "kind op = REMOVE_SERVER") (auto simp: apply_config_def config_typed_def)

lemma append_new_defined: "list_all (\<lambda>e. config_typed (ale_op e)) es \<Longrightarrow> \<exists>n'. append_new es n = Inr n'"
proof (induction es arbitrary: n)
  case (Cons e es)
  then obtain n1 where
    "apply_config (ale_op e) (n\<lparr>Logs := pvec_push_back \<lparr>log_term = ale_term e, log_op = ale_op e\<rparr> (Logs n)\<rparr>) = Inr n1"
    using apply_config_defined by fastforce
  then show ?case
    using Cons by simp
qed simp

lemma apply_config_keeps:
  "apply_config op n = Inr n' \<Longrightarrow> LastApplied n' = LastApplied n"
  "apply_config op n = Inr n' \<Longrightarrow> CommitIndex n' = CommitIndex n"
  "apply_config op n = Inr n' \<Longrightarrow> raftOut n' = raftOut n"
  "apply_config op n = Inr n' \<Longrightarrow> CurrentTerm n' = CurrentTerm n"
  "apply_config op n = Inr n' \<Longrightarrow> VotedFor n' = VotedFor n"
  "apply_config op n = Inr n' \<Longrightarrow> Role n' = Role n"
  "apply_config op n = Inr n' \<Longrightarrow> dispatchOut n' = dispatchOut n"
  "apply_config op n = Inr n' \<Longrightarrow> raftIn n' = raftIn n"
  "apply_config op n = Inr n' \<Longrightarrow> my_id n' = my_id n"
  "apply_config op n = Inr n' \<Longrightarrow> pStore n' = pStore n"
  by (auto simp: apply_config_def rbind_eq_Inr_iff split: if_splits)

lemma append_new_keeps:
  assumes "append_new es n = Inr n'"
  shows "LastApplied n' = LastApplied n \<and> CommitIndex n' = CommitIndex n \<and> raftOut n' = raftOut n
    \<and> CurrentTerm n' = CurrentTerm n \<and> VotedFor n' = VotedFor n \<and> Role n' = Role n
    \<and> dispatchOut n' = dispatchOut n \<and> raftIn n' = raftIn n \<and> my_id n' = my_id n \<and> pStore n' = pStore n"
  using assms
proof (induction es arbitrary: n)
  case (Cons e es)
  then obtain n1 where
    a: "apply_config (ale_op e) (n\<lparr>Logs := pvec_push_back \<lparr>log_term = ale_term e, log_op = ale_op e\<rparr> (Logs n)\<rparr>) = Inr n1"
    and b: "append_new es n1 = Inr n'"
    by (auto elim: rbind_Inr_E)
  show ?case
    using Cons.IH [OF b] apply_config_keeps [OF a] by simp
qed simp

lemma store_entries_keeps:
  assumes "store_entries a n = Inr n'"
  shows "LastApplied n' = LastApplied n \<and> CommitIndex n' = CommitIndex n \<and> raftOut n' = raftOut n
    \<and> CurrentTerm n' = CurrentTerm n \<and> VotedFor n' = VotedFor n \<and> Role n' = Role n
    \<and> dispatchOut n' = dispatchOut n \<and> raftIn n' = raftIn n \<and> my_id n' = my_id n \<and> pStore n' = pStore n"
  using assms
  by (auto simp: store_entries_def persist_logs_def truncate_logs_def case_prod_beta
      elim!: rbind_Inr_E split: if_splits dest!: append_new_keeps)

lemma store_entries_defined:
  assumes "-1 \<le> ae_prevLogIndex a" and "list_all (\<lambda>e. config_typed (ale_op e)) (ae_entries a)"
    and "ps_ok (promises (services n))" and "distinct (handles (log_of n))"
    and "set (handles (drop (nat (ae_prevLogIndex a + 1)) (log_of n))) \<subseteq> dom (ps_live (promises (services n)))"
    and "list_all (\<lambda>e. known_op (log_op e)) (log_of n)"
  shows "\<exists>n'. store_entries a n = Inr n'"
proof -
  let ?k = "nat (ae_prevLogIndex a + 1)"
  define m where "m = agree_len (drop ?k (log_of n)) (ae_entries a)"
  have loop: "match_loop (log_of n) (ae_entries a) (ae_prevLogIndex a + 1) 0 = Inr (ae_prevLogIndex a + 1 + int m, int m)"
    using match_loop_agree [of "ae_prevLogIndex a + 1" 0] assms(1) by (simp add: Let_def m_def)
  have k: "nat (ae_prevLogIndex a + 1 + int m) = ?k + m"
    using assms(1) by (simp add: nat_add_distrib)
  have h1: "distinct (handles (drop (?k + m) (log_of n)))"
    using assms(4) handles_append [of "take (?k + m) (log_of n)" "drop (?k + m) (log_of n)"] by simp
  have "handles (drop ?k (log_of n)) = handles (take m (drop ?k (log_of n))) @ handles (drop m (drop ?k (log_of n)))"
    by (metis append_take_drop_id handles_append)
  then have h2: "set (handles (drop (?k + m) (log_of n))) \<subseteq> dom (ps_live (promises (services n)))"
    using assms(5) by (simp add: add.commute)
  obtain sv where "abort_all (drop (?k + m) (log_of n)) (services n) = Inr sv"
    using abort_all_ok [OF assms(3) h1 h2] assms(6) by (blast intro: list_all_drop)
  moreover obtain n1 where
    "append_new (drop m (ae_entries a)) (truncate_logs (ae_prevLogIndex a + 1 + int m) (n\<lparr>services := sv\<rparr>)) = Inr n1"
    using append_new_defined [OF list_all_drop [OF assms(2)]] by blast
  ultimately show ?thesis
    by (simp add: store_entries_def loop k)
qed

lemma follower_commit_defined: "-1 \<le> LastApplied n \<Longrightarrow> \<exists>n'. follower_commit c n = Inr n'"
  by (simp add: follower_commit_ok)

text \<open>
  What a replica and a caller have to satisfy for \<open>AppendEntries\<close> to run to its end: indices of
  the right sign, operations whose argument fits their kind, and handles in the log that all name
  different live promises behind the previous index.
\<close>

definition ae_safe :: "AppendEntriesParams \<Rightarrow> node \<Rightarrow> bool" where
  "ae_safe a n \<longleftrightarrow> -1 \<le> ae_prevLogIndex a \<and> list_all (\<lambda>e. config_typed (ale_op e)) (ae_entries a)
     \<and> ps_ok (promises (services n)) \<and> distinct (handles (log_of n))
     \<and> set (handles (drop (nat (ae_prevLogIndex a + 1)) (log_of n))) \<subseteq> dom (ps_live (promises (services n)))
     \<and> list_all (\<lambda>e. known_op (log_op e)) (log_of n) \<and> -1 \<le> LastApplied n"

lemma AppendEntries_defined:
  assumes "ae_safe a n"
  shows "\<exists>reply n'. AppendEntries a now n = Inr (reply, n')"
proof -
  consider "Role n = Dead" | "Role n \<noteq> Dead" "ae_term a < CurrentTerm n"
    | (current) "Role n \<noteq> Dead" "CurrentTerm n \<le> ae_term a"
    by linarith
  then show ?thesis
  proof cases
    case current
    obtain n4 where n4: "store_entries a (ae_stepdown a now n) = Inr n4"
      using assms store_entries_defined [of a "ae_stepdown a now n"] by (auto simp: ae_safe_def)
    then obtain n5 where "follower_commit (ae_leaderCommit a) n4 = Inr n5"
      using assms follower_commit_defined [of n4] store_entries_keeps [OF n4] by (auto simp: ae_safe_def)
    then show ?thesis
      using assms n4 by (simp add: AppendEntries_current [OF current] prev_matches_ok ae_safe_def)
  qed (simp_all add: AppendEntries_dead AppendEntries_stale)
qed

section \<open>The reply of AppendEntries\<close>

lemma AppendEntries_success:
  assumes r: "AppendEntries a now n = Inr (reply, n')" and s: "aer_success reply" and p: "-1 \<le> ae_prevLogIndex a"
  obtains n4 where "Role n \<noteq> Dead" and "CurrentTerm n \<le> ae_term a"
    and "ae_prevLogIndex a = -1 \<or> (ae_prevLogIndex a < int (length (log_of n))
           \<and> ae_prevLogTerm a = log_term (log_of n ! nat (ae_prevLogIndex a)))"
    and "store_entries a (ae_stepdown a now n) = Inr n4" and "follower_commit (ae_leaderCommit a) n4 = Inr n'"
proof -
  consider "Role n = Dead" | "Role n \<noteq> Dead" "ae_term a < CurrentTerm n"
    | (current) "Role n \<noteq> Dead" "CurrentTerm n \<le> ae_term a"
    by linarith
  then show ?thesis
  proof cases
    case current
    then show ?thesis
      using r s p that
      by (auto simp: AppendEntries_current [OF current] prev_matches_ok elim!: rbind_Inr_E split: if_splits)
  qed (use r s in \<open>auto simp: AppendEntries_dead AppendEntries_stale\<close>)
qed

lemma follower_commit_keeps:
  assumes "follower_commit c n = Inr n'"
  shows "Logs n' = Logs n \<and> CurrentTerm n' = CurrentTerm n \<and> VotedFor n' = VotedFor n \<and> Role n' = Role n
    \<and> ClusterConfig n' = ClusterConfig n \<and> peers n' = peers n
    \<and> dispatchOut n' = dispatchOut n \<and> raftIn n' = raftIn n \<and> my_id n' = my_id n \<and> pStore n' = pStore n"
  using assms by (auto simp: follower_commit_def queue_committed_def rbind_eq_Inr_iff split: if_splits)

lemma AppendEntries_term:
  assumes "AppendEntries a now n = Inr (reply, n')" and "-1 \<le> ae_prevLogIndex a"
  shows "CurrentTerm n' = (if Role n = Dead then CurrentTerm n else max (CurrentTerm n) (ae_term a))"
    and "VotedFor n' = VotedFor n \<or> (VotedFor n' = -1 \<and> (CurrentTerm n < ae_term a \<or> Role n \<noteq> Follower))"
proof -
  have "CurrentTerm n' = (if Role n = Dead then CurrentTerm n else max (CurrentTerm n) (ae_term a))
    \<and> (VotedFor n' = VotedFor n \<or> (VotedFor n' = -1 \<and> (CurrentTerm n < ae_term a \<or> Role n \<noteq> Follower)))"
  proof (cases "aer_success reply")
    case True
    from assms(1) True assms(2) show ?thesis
    proof (rule AppendEntries_success)
      fix n4
      assume 1: "Role n \<noteq> Dead" "CurrentTerm n \<le> ae_term a" and 2: "store_entries a (ae_stepdown a now n) = Inr n4"
        and 3: "follower_commit (ae_leaderCommit a) n4 = Inr n'"
      show ?thesis
        using store_entries_keeps [OF 2] follower_commit_keeps [OF 3] 1
        by (simp add: ae_stepdown_term max_def) (auto simp: ae_stepdown_def Let_def)
    qed
  next
    case False
    consider (dead) "Role n = Dead" | (stale) "Role n \<noteq> Dead" "ae_term a < CurrentTerm n"
      | (current) "Role n \<noteq> Dead" "CurrentTerm n \<le> ae_term a"
      by linarith
    then show ?thesis
    proof cases
      case current
      then have "n' = ae_stepdown a now n"
        using assms False
        by (auto simp: AppendEntries_current [OF current] prev_matches_ok elim!: rbind_Inr_E split: if_splits)
      then show ?thesis
        using current by (simp add: ae_stepdown_term max_def) (auto simp: ae_stepdown_def Let_def)
    qed (use assms in \<open>auto simp: AppendEntries_dead AppendEntries_stale max_def\<close>)
  qed
  then show "CurrentTerm n' = (if Role n = Dead then CurrentTerm n else max (CurrentTerm n) (ae_term a))"
    and "VotedFor n' = VotedFor n \<or> (VotedFor n' = -1 \<and> (CurrentTerm n < ae_term a \<or> Role n \<noteq> Follower))"
    by blast+
qed

lemma prev_matches_sign: "prev_matches logs p t = Inr ok \<Longrightarrow> -1 \<le> p"
  by (auto simp: prev_matches_def vec_at_def split: if_splits)

text \<open>The three ways \<open>AppendEntries\<close> returns; only the last one changes log or commit index.\<close>

lemma AppendEntries_cases:
  assumes "AppendEntries a now n = Inr (reply, n')"
  obtains (kept) "Logs n' = Logs n" "CommitIndex n' = CommitIndex n" "LastApplied n' = LastApplied n" "raftOut n' = raftOut n"
      "dispatchOut n' = dispatchOut n" "raftIn n' = raftIn n" "my_id n' = my_id n" "pStore n' = pStore n" "CurrentTerm n' = (if Role n = Dead then CurrentTerm n else max (CurrentTerm n) (ae_term a))"
      "Role n = Follower \<Longrightarrow> Role n' = Follower" "Role n = Follower \<Longrightarrow> ae_term a \<le> CurrentTerm n \<Longrightarrow> VotedFor n' = VotedFor n"
  | (stored) n4 where "Role n \<noteq> Dead" "CurrentTerm n \<le> ae_term a" "-1 \<le> ae_prevLogIndex a"
      "ae_prevLogIndex a < int (length (log_of n))"
      "store_entries a (ae_stepdown a now n) = Inr n4" "follower_commit (ae_leaderCommit a) n4 = Inr n'"
proof -
  consider (dead) "Role n = Dead" | (stale) "Role n \<noteq> Dead" "ae_term a < CurrentTerm n"
    | (current) "Role n \<noteq> Dead" "CurrentTerm n \<le> ae_term a"
    by linarith
  then show ?thesis
  proof cases
    case dead
    then show ?thesis
      using assms by (intro kept) (auto simp: AppendEntries_dead)
  next
    case stale
    then show ?thesis
      using assms by (intro kept) (auto simp: AppendEntries_stale)
  next
    case current
    then obtain ok where ok: "prev_matches (log_of n) (ae_prevLogIndex a) (ae_prevLogTerm a) = Inr ok"
      using assms by (auto simp: AppendEntries_current [OF current] elim: rbind_Inr_E)
    have p: "-1 \<le> ae_prevLogIndex a"
      using ok by (rule prev_matches_sign)
    show ?thesis
    proof (cases ok)
      case True
      then have "ae_prevLogIndex a < int (length (log_of n))"
        using ok p by (auto simp: prev_matches_ok)
      then show ?thesis
        using assms current ok p True stored by (auto simp: AppendEntries_current [OF current] elim!: rbind_Inr_E)
    next
      case False
      then have "n' = ae_stepdown a now n"
        using assms ok by (simp add: AppendEntries_current [OF current])
      then show ?thesis
        using current ae_stepdown_term [of n a now] by (intro kept) (auto simp: ae_stepdown_def Let_def)
    qed
  qed
qed

section \<open>RequestVote\<close>

lemma disk_inv_RequestVote:
  assumes inv: "disk_inv n" and t: "i32_ok (rv_term a)" "i32_ok (rv_candidateId a)"
    and r: "RequestVote a now n = (reply, n')"
  shows "disk_inv n'"
proof -
  have p: "disk_inv m \<Longrightarrow> i32_ok v \<Longrightarrow> disk_inv (raft_persist (m\<lparr>VotedFor := v, ElectionResetEvent := e\<rparr>))" for m v e
    by (rule disk_inv_persist) (auto simp: disk_inv_def meta_inv_def)
  have q: "disk_inv m \<Longrightarrow> disk_inv (raft_persist m)" for m
    using disk_inv_persist [of m m] by (simp add: disk_inv_def meta_inv_def)
  show ?thesis
    using r t inv disk_inv_becomeFollower [OF inv t(1)] p q
    by (auto simp: RequestVote_def Let_def split: if_splits)
qed

lemma RequestVote_granted_iff:
  "rvr_voteGranted (fst (RequestVote a now n)) \<longleftrightarrow>
     om_find (peers n) (rv_candidateId a) \<noteq> None \<and> CurrentTerm n \<le> rv_term a
       \<and> (CurrentTerm n < rv_term a \<or> VotedFor n = -1 \<or> VotedFor n = rv_candidateId a)
       \<and> (last_log_term (log_of n) < rv_lastLogTerm a
          \<or> last_log_term (log_of n) = rv_lastLogTerm a \<and> int (length (log_of n)) - 1 \<le> rv_lastLogIndex a)"
  by (auto simp: RequestVote_def Let_def)

lemma RequestVote_state_aux:
  "rvr_term (fst (RequestVote a now n)) = CurrentTerm (snd (RequestVote a now n))"
  "Logs (snd (RequestVote a now n)) = Logs n"
  "CurrentTerm (snd (RequestVote a now n)) =
     (if om_find (peers n) (rv_candidateId a) = None then CurrentTerm n else max (CurrentTerm n) (rv_term a))"
  "VotedFor (snd (RequestVote a now n)) =
     (if rvr_voteGranted (fst (RequestVote a now n)) then rv_candidateId a
      else if om_find (peers n) (rv_candidateId a) \<noteq> None \<and> CurrentTerm n < rv_term a then -1 else VotedFor n)"
  "Role (snd (RequestVote a now n)) =
     (if om_find (peers n) (rv_candidateId a) \<noteq> None \<and> CurrentTerm n < rv_term a then Follower else Role n)"
  by (simp_all add: RequestVote_def Let_def max_def) blast

lemma RequestVote_state:
  assumes "RequestVote a now n = (reply, n')"
  shows "rvr_term reply = CurrentTerm n'" and "Logs n' = Logs n"
    and "CurrentTerm n' = (if om_find (peers n) (rv_candidateId a) = None then CurrentTerm n else max (CurrentTerm n) (rv_term a))"
    and "VotedFor n' = (if rvr_voteGranted reply then rv_candidateId a
           else if om_find (peers n) (rv_candidateId a) \<noteq> None \<and> CurrentTerm n < rv_term a then -1 else VotedFor n)"
    and "Role n' = (if om_find (peers n) (rv_candidateId a) \<noteq> None \<and> CurrentTerm n < rv_term a then Follower else Role n)"
  using RequestVote_state_aux [of a now n] by (simp_all only: assms fst_conv snd_conv)

section \<open>Aborted operations\<close>

lemma append_new_services: "append_new es n = Inr n' \<Longrightarrow> services n' = services n"
proof (induction es arbitrary: n)
  case (Cons e es)
  then obtain n1 where
    a: "apply_config (ale_op e) (n\<lparr>Logs := pvec_push_back \<lparr>log_term = ale_term e, log_op = ale_op e\<rparr> (Logs n)\<rparr>) = Inr n1"
    and b: "append_new es n1 = Inr n'"
    by (auto elim: rbind_Inr_E)
  have "services n1 = services n"
    using a by (auto simp: apply_config_def rbind_eq_Inr_iff split: if_splits)
  then show ?case
    using Cons.IH [OF b] by simp
qed simp

lemma store_entries_aborts:
  assumes "store_entries a n = Inr n'" and "-1 \<le> ae_prevLogIndex a"
    and "agree_len (drop (nat (ae_prevLogIndex a + 1)) (log_of n)) (ae_entries a) < length (ae_entries a)"
  shows "abort_all (drop (nat (ae_prevLogIndex a + 1) + agree_len (drop (nat (ae_prevLogIndex a + 1)) (log_of n)) (ae_entries a)) (log_of n))
    (services n) = Inr (services n')"
proof -
  let ?k = "nat (ae_prevLogIndex a + 1)"
  define m where "m = agree_len (drop ?k (log_of n)) (ae_entries a)"
  have loop: "match_loop (log_of n) (ae_entries a) (ae_prevLogIndex a + 1) 0 = Inr (ae_prevLogIndex a + 1 + int m, int m)"
    using match_loop_agree [of "ae_prevLogIndex a + 1" 0] assms(2) by (simp add: Let_def m_def)
  have k: "nat (ae_prevLogIndex a + 1 + int m) = ?k + m"
    using assms(2) by (simp add: nat_add_distrib)
  obtain sv n1 where sv: "abort_all (drop (?k + m) (log_of n)) (services n) = Inr sv"
      and n1: "append_new (drop m (ae_entries a)) (truncate_logs (ae_prevLogIndex a + 1 + int m) (n\<lparr>services := sv\<rparr>)) = Inr n1"
      and n': "n' = persist_logs n1"
    using assms(1,3) by (auto simp: store_entries_def loop k m_def [symmetric] elim!: rbind_Inr_E)
  have "services n' = sv"
    using append_new_services [OF n1] by (simp add: n' persist_logs_def truncate_logs_def case_prod_beta)
  then show ?thesis
    using sv by (simp add: m_def)
qed

section \<open>Properties\<close>

text \<open>C13. \<open>AppendEntries\<close> accepts exactly the calls that are not stale and whose previous entry is in
  the log with the right term, and then the log is the reference merge: entries whose terms agree are
  skipped, the log is cut at the first difference, the rest is appended, and a call that brings
  nothing new leaves the log alone. A refused call leaves the log alone.\<close>

theorem AppendEntries_log:
  assumes r: "AppendEntries a now n = Inr (reply, n')"
  shows "(aer_success reply \<longleftrightarrow> Role n \<noteq> Dead \<and> CurrentTerm n \<le> ae_term a
      \<and> (ae_prevLogIndex a = -1 \<or> (0 \<le> ae_prevLogIndex a \<and> ae_prevLogIndex a < int (length (log_of n))
          \<and> ae_prevLogTerm a = log_term (log_of n ! nat (ae_prevLogIndex a))))) \<and>
    log_of n' = (if aer_success reply then ae_merge (log_of n) (nat (ae_prevLogIndex a + 1)) (ae_entries a) else log_of n)"
proof -
  let ?P = "Role n \<noteq> Dead \<and> CurrentTerm n \<le> ae_term a \<and> (ae_prevLogIndex a = -1 \<or> (0 \<le> ae_prevLogIndex a
      \<and> ae_prevLogIndex a < int (length (log_of n)) \<and> ae_prevLogTerm a = log_term (log_of n ! nat (ae_prevLogIndex a))))"
  consider (dead) "Role n = Dead" | (stale) "Role n \<noteq> Dead" "ae_term a < CurrentTerm n"
    | (current) "Role n \<noteq> Dead" "CurrentTerm n \<le> ae_term a"
    by linarith
  then have "(aer_success reply \<longleftrightarrow> ?P) \<and> (aer_success reply \<longrightarrow> log_of n' = ae_merge (log_of n) (nat (ae_prevLogIndex a + 1)) (ae_entries a))
      \<and> (\<not> aer_success reply \<longrightarrow> log_of n' = log_of n)"
  proof cases
    case current
    then obtain ok where ok: "prev_matches (log_of n) (ae_prevLogIndex a) (ae_prevLogTerm a) = Inr ok"
      using r by (auto simp: AppendEntries_current [OF current] elim: rbind_Inr_E)
    have p: "-1 \<le> ae_prevLogIndex a"
      using ok by (rule prev_matches_sign)
    have P: "?P \<longleftrightarrow> ok"
      using ok p current by (auto simp: prev_matches_ok)
    show ?thesis
    proof (cases ok)
      case True
      then obtain n4 where n4: "store_entries a (ae_stepdown a now n) = Inr n4" "follower_commit (ae_leaderCommit a) n4 = Inr n'"
          and s: "aer_success reply"
        using r ok by (auto simp: AppendEntries_current [OF current] elim!: rbind_Inr_E)
      have "ae_prevLogIndex a < int (length (log_of (ae_stepdown a now n)))"
        using P True by auto
      then show ?thesis
        using P True s store_entries_log [OF n4(1) p] follower_commit_keeps [OF n4(2)] by simp
    next
      case False
      then show ?thesis
        using r ok P by (auto simp: AppendEntries_current [OF current])
    qed
  qed (use r in \<open>auto simp: AppendEntries_dead AppendEntries_stale split: if_splits\<close>)
  then show ?thesis
    by auto
qed

text \<open>Calls used in the examples: one entry of term 3 at the start of the log, and a heartbeat.\<close>

definition example_call :: AppendEntriesParams where
  "example_call = \<lparr>ae_term = 3, ae_leaderId = 2, ae_prevLogIndex = -1, ae_prevLogTerm = -1,
     ae_entries = [\<lparr>ale_term = 3, ale_index = 0, ale_op = get_op 5\<rparr>], ae_leaderCommit = 0\<rparr>"

lemma example_call_safe: "ae_safe example_call blank_node"
  by (simp add: ae_safe_def example_call_def config_typed_def get_op_def)

theorem AppendEntries_log_witness:
  "\<exists>reply n'. AppendEntries example_call 9 blank_node = Inr (reply, n') \<and> aer_success reply
     \<and> log_of n' = [\<lparr>log_term = 3, log_op = get_op 5\<rparr>]"
proof -
  obtain reply n' where r: "AppendEntries example_call 9 blank_node = Inr (reply, n')"
    using AppendEntries_defined [OF example_call_safe] by blast
  then show ?thesis
    using AppendEntries_log [OF r] by (simp add: example_call_def ae_merge_def entry_of_def)
qed



text \<open>C25. No client waits for a truncated entry: when \<open>AppendEntries\<close> cuts the log, the future of every
  operation behind the cut that still has a live promise is answered with the failure value of its
  kind, and its promise leaves the store.\<close>

theorem truncated_clients_answered:
  assumes safe: "ae_safe a n" and r: "AppendEntries a now n = Inr (reply, n')" and s: "aer_success reply"
    and cut: "i = nat (ae_prevLogIndex a + 1) + agree_len (drop (nat (ae_prevLogIndex a + 1)) (log_of n)) (ae_entries a)"
      "i < nat (ae_prevLogIndex a + 1) + length (ae_entries a)"
    and e: "e \<in> set (drop i (log_of n))" "promiseHandle (log_op e) = Some h" "ps_live (promises (services n)) h = Some p"
  shows "(p, failure (log_op e)) \<in> set (futures (services n')) \<and> ps_live (promises (services n')) h = None"
proof -
  have p: "-1 \<le> ae_prevLogIndex a"
    using safe by (simp add: ae_safe_def)
  obtain n4 where n4: "store_entries a (ae_stepdown a now n) = Inr n4" "follower_commit (ae_leaderCommit a) n4 = Inr n'"
    using AppendEntries_success [OF r s p] by blast
  have ab: "abort_all (drop i (log_of n)) (services n) = Inr (services n4)"
    using store_entries_aborts [OF n4(1) p] cut by simp
  have d1: "distinct (handles (drop i (log_of n)))"
    using safe handles_append [of "take i (log_of n)" "drop i (log_of n)"] by (simp add: ae_safe_def)
  have "drop i (log_of n) = drop (i - nat (ae_prevLogIndex a + 1)) (drop (nat (ae_prevLogIndex a + 1)) (log_of n))"
    using cut(1) by (simp add: add.commute)
  then have "set (handles (drop i (log_of n))) \<subseteq> set (handles (drop (nat (ae_prevLogIndex a + 1)) (log_of n)))"
    by (metis append_take_drop_id handles_append set_append sup_ge2)
  then have d2: "set (handles (drop i (log_of n))) \<subseteq> dom (ps_live (promises (services n)))"
    using safe by (auto simp: ae_safe_def)
  have kn: "list_all (\<lambda>e. known_op (log_op e)) (drop i (log_of n))" and ok: "ps_ok (promises (services n))"
    using safe by (auto simp: ae_safe_def intro: list_all_drop)
  obtain sv' where sv': "abort_all (drop i (log_of n)) (services n) = Inr sv'"
      "ps_live (promises sv') = (ps_live (promises (services n))) |` (- set (handles (drop i (log_of n))))"
      "\<forall>e h p. e \<in> set (drop i (log_of n)) \<longrightarrow> promiseHandle (log_op e) = Some h \<longrightarrow> ps_live (promises (services n)) h = Some p
         \<longrightarrow> (p, failure (log_op e)) \<in> set (futures sv')"
    using abort_all_ok [OF ok d1 d2 kn] by blast
  have "services n' = sv'"
    using ab sv'(1) n4(2) by (auto simp: follower_commit_def queue_committed_def rbind_eq_Inr_iff split: if_splits)
  moreover have "h \<in> set (handles (drop i (log_of n)))"
    using e(1,2) by (force simp: handles_def map_filter_def)
  ultimately show ?thesis
    using sv'(2,3) e by (auto simp: restrict_map_def)
qed

text \<open>A replica whose log holds one operation of term 1 that a client waits for.\<close>

definition waiting_op :: RaftOp where
  "waiting_op = \<lparr>kind = PUT, args = ArgPair 1 2, promiseHandle = Some 0\<rparr>"

definition waiting_node :: node where
  "waiting_node = blank_node\<lparr>Logs := (Logs blank_node)\<lparr>items := [\<lparr>log_term = 1, log_op = waiting_op\<rparr>]\<rparr>,
     services := \<lparr>promises = snd (ps_insert 7 promise_store_init), futures = []\<rparr>\<rparr>"

lemma waiting_node_simps [simp]:
  "log_of waiting_node = [\<lparr>log_term = 1, log_op = waiting_op\<rparr>]" "Role waiting_node = Follower" "CurrentTerm waiting_node = 0"
  "LastApplied waiting_node = -1" "ps_live (promises (services waiting_node)) = [0 \<mapsto> 7]" "ps_ok (promises (services waiting_node))"
  by (simp_all add: waiting_node_def ps_insert_def promise_store_init_def ps_live_def ps_ok_def)

lemma waiting_node_safe: "ae_safe example_call waiting_node"
  by (simp add: ae_safe_def example_call_def config_typed_def get_op_def known_op_def waiting_op_def)

theorem truncated_clients_answered_witness:
  "\<exists>reply n'. AppendEntries example_call 9 waiting_node = Inr (reply, n') \<and> (7, ResBool False) \<in> set (futures (services n'))"
proof -
  obtain reply n' where r: "AppendEntries example_call 9 waiting_node = Inr (reply, n')"
    using AppendEntries_defined [OF waiting_node_safe] by blast
  have s: "aer_success reply"
    using r by (auto simp: AppendEntries_current example_call_def prev_matches_def elim!: rbind_Inr_E)
  show ?thesis
    using truncated_clients_answered [OF waiting_node_safe r s, of 0 "\<lparr>log_term = 1, log_op = waiting_op\<rparr>" 0 7] r
    by (simp add: example_call_def waiting_op_def failure_def)
qed

text \<open>The commit of a follower: when the leader's commit index is ahead, the follower's becomes the
  smaller of it and the last index of its log, and exactly the operations between the last applied and
  the new commit index, in log order, join the queue of the executer, which is signalled.\<close>

lemma follower_commits:
  assumes r: "AppendEntries a now n = Inr (reply, n')" and s: "aer_success reply"
    and p: "-1 \<le> ae_prevLogIndex a" and l: "-1 \<le> LastApplied n"
  shows "if ae_leaderCommit a > CommitIndex n
    then CommitIndex n' = min (ae_leaderCommit a) (int (length (log_of n')) - 1) \<and> LastApplied n' = CommitIndex n'
      \<and> raftOut n' = raftOut n @ map log_op (segment (LastApplied n + 1) (CommitIndex n') (log_of n'))
    else CommitIndex n' = CommitIndex n \<and> LastApplied n' = LastApplied n \<and> raftOut n' = raftOut n"
proof -
  obtain n4 where n4: "store_entries a (ae_stepdown a now n) = Inr n4" "follower_commit (ae_leaderCommit a) n4 = Inr n'"
    using AppendEntries_success [OF r s p] by blast
  have k: "CommitIndex n4 = CommitIndex n" "LastApplied n4 = LastApplied n" "raftOut n4 = raftOut n"
    using store_entries_keeps [OF n4(1)] by simp_all
  show ?thesis
    using n4(2) follower_commit_ok [of n4 "ae_leaderCommit a"] k l by (auto simp: Let_def)
qed

text \<open>C20. \<open>RequestVote\<close> grants a vote exactly when the candidate is a peer, its term is not behind, no
  other candidate has the vote of that term and its log is at least as up to date. The reply carries
  the term after the call, which is the larger of the two for a peer, and the vote is on disk when
  the call returns.\<close>

theorem RequestVote_grants:
  assumes r: "RequestVote a now n = (reply, n')" and inv: "disk_inv n" and ok: "i32_ok (rv_term a)" "i32_ok (rv_candidateId a)"
  shows "(rvr_voteGranted reply \<longleftrightarrow> om_find (peers n) (rv_candidateId a) \<noteq> None \<and> CurrentTerm n \<le> rv_term a
      \<and> (CurrentTerm n < rv_term a \<or> VotedFor n = -1 \<or> VotedFor n = rv_candidateId a)
      \<and> (last_log_term (log_of n) < rv_lastLogTerm a
         \<or> last_log_term (log_of n) = rv_lastLogTerm a \<and> int (length (log_of n)) - 1 \<le> rv_lastLogIndex a))
    \<and> rvr_term reply = CurrentTerm n'
    \<and> CurrentTerm n' = (if om_find (peers n) (rv_candidateId a) = None then CurrentTerm n else max (CurrentTerm n) (rv_term a))
    \<and> (rvr_voteGranted reply \<longrightarrow> VotedFor n' = rv_candidateId a)
    \<and> pstore_load (pStore n') ''VotedFor'' (-1) (disk n') = VotedFor n'
    \<and> pstore_load (pStore n') ''CurrentTerm'' 0 (disk n') = CurrentTerm n'"
proof -
  have g: "rvr_voteGranted reply \<longleftrightarrow> rvr_voteGranted (fst (RequestVote a now n))"
    by (simp add: r)
  have v: "rvr_voteGranted reply \<longrightarrow> VotedFor n' = rv_candidateId a"
    using RequestVote_state(4) [OF r] by simp
  have d: "pstore_load (pStore n') ''VotedFor'' (-1) (disk n') = VotedFor n'"
      "pstore_load (pStore n') ''CurrentTerm'' 0 (disk n') = CurrentTerm n'"
    using disk_inv_RequestVote [OF inv ok r] by (simp_all add: disk_inv_def meta_inv_def)
  show ?thesis
    unfolding g RequestVote_granted_iff [of a now n] using RequestVote_state(1,3) [OF r] v d g RequestVote_granted_iff [of a now n] by blast
qed

text \<open>A replica started on an empty disk that knows one peer.\<close>

definition voter_node :: node where
  "voter_node = addPeer 2 (router_new ''peer'') (bootstrap 1 False ''d'' blank_node)"

lemma voter_node_inv: "disk_inv voter_node"
  using bootstrap_new [OF flat_layout, of 1 "''d''" "\<lambda>_. None" no_clients]
    open_inv_addPeer [of "bootstrap 1 False ''d'' blank_node" 2 "router_new ''peer''"]
  by (simp add: voter_node_def blank_node_def disk_inv_alt i32_ok_def)

lemma voter_node_simps [simp]: "log_of voter_node = []" "CurrentTerm voter_node = 0" "VotedFor voter_node = -1"
  "om_find (peers voter_node) 2 \<noteq> None" "Role voter_node = Follower"
  by (simp_all add: voter_node_def bootstrap_def blank_node_def RaftManager_init_def pvec_setup_def pvec_init_def open_trunc_def Let_def
      raft_persist_def)

theorem RequestVote_grants_witness:
  "rvr_voteGranted (fst (RequestVote \<lparr>rv_candidateId = 2, rv_term = 4, rv_lastLogIndex = -1, rv_lastLogTerm = -1\<rparr> 8 voter_node))"
  using RequestVote_grants [OF surjective_pairing voter_node_inv, of "\<lparr>rv_candidateId = 2, rv_term = 4, rv_lastLogIndex = -1, rv_lastLogTerm = -1\<rparr>" 8]
  by (simp add: i32_ok_def last_log_term_def)

text \<open>The two RPC handlers never lower the term of the replica.\<close>

lemma handlers_keep_term:
  assumes "AppendEntries a now n = Inr (reply, n1)" and "RequestVote b now' n = (reply', n2)"
  shows "CurrentTerm n \<le> CurrentTerm n1 \<and> CurrentTerm n \<le> CurrentTerm n2"
proof -
  have "CurrentTerm n \<le> CurrentTerm n1"
    using assms(1)
  proof (cases rule: AppendEntries_cases)
    case (stored n4)
    then show ?thesis
      using store_entries_keeps [OF stored(5)] follower_commit_keeps [OF stored(6)] ae_stepdown_term [OF stored(2)] by simp
  qed simp
  then show ?thesis
    using RequestVote_state(3) [OF assms(2)] by simp
qed

lemma apply_config_plain: "kind op \<noteq> ADD_SERVER \<Longrightarrow> kind op \<noteq> REMOVE_SERVER \<Longrightarrow> apply_config op n = Inr n"
  by (simp add: apply_config_def)

lemma append_new_plain:
  assumes "append_new es n = Inr n'" and "\<forall>e \<in> set es. kind (ale_op e) \<noteq> ADD_SERVER \<and> kind (ale_op e) \<noteq> REMOVE_SERVER"
  shows "ClusterConfig n' = ClusterConfig n \<and> LastConfigChangeIndex n' = LastConfigChangeIndex n \<and> peers n' = peers n"
  using assms by (induction es arbitrary: n) (auto simp: apply_config_plain)

text \<open>C37. A configuration change that is truncated stays in force: a call without configuration entries
  leaves configuration, peers and the index of the last change as they are, also when it cuts away the
  entries that made them, and that index may then lie behind the end of the log.\<close>

theorem truncation_keeps_config:
  assumes r: "AppendEntries a now n = Inr (reply, n')" and s: "aer_success reply" and p: "-1 \<le> ae_prevLogIndex a"
    and plain: "\<forall>e \<in> set (ae_entries a). kind (ale_op e) \<noteq> ADD_SERVER \<and> kind (ale_op e) \<noteq> REMOVE_SERVER"
  shows "ClusterConfig n' = ClusterConfig n \<and> LastConfigChangeIndex n' = LastConfigChangeIndex n \<and> peers n' = peers n
    \<and> log_of n' = ae_merge (log_of n) (nat (ae_prevLogIndex a + 1)) (ae_entries a)"
proof -
  obtain n4 where c: "ae_prevLogIndex a = -1 \<or> (ae_prevLogIndex a < int (length (log_of n))
           \<and> ae_prevLogTerm a = log_term (log_of n ! nat (ae_prevLogIndex a)))"
      and n4: "store_entries a (ae_stepdown a now n) = Inr n4" "follower_commit (ae_leaderCommit a) n4 = Inr n'"
    using AppendEntries_success [OF r s p] by blast
  obtain i j where m: "match_loop (log_of n) (ae_entries a) (ae_prevLogIndex a + 1) 0 = Inr (i, j)"
    using n4(1) by (auto simp: store_entries_def elim: rbind_Inr_E)
  have st: "ClusterConfig (ae_stepdown a now n) = ClusterConfig n" "peers (ae_stepdown a now n) = peers n"
      "LastConfigChangeIndex (ae_stepdown a now n) = LastConfigChangeIndex n"
    by (simp_all add: ae_stepdown_def Let_def)
  have "ClusterConfig n4 = ClusterConfig n \<and> LastConfigChangeIndex n4 = LastConfigChangeIndex n \<and> peers n4 = peers n"
  proof (cases "j < int (length (ae_entries a))")
    case True
    then obtain sv n1 where n1: "append_new (drop (nat j) (ae_entries a)) (truncate_logs i ((ae_stepdown a now n)\<lparr>services := sv\<rparr>)) = Inr n1"
      and "n4 = persist_logs n1"
      using n4(1) by (auto simp: store_entries_def m elim!: rbind_Inr_E)
    moreover have "\<forall>e \<in> set (drop (nat j) (ae_entries a)). kind (ale_op e) \<noteq> ADD_SERVER \<and> kind (ale_op e) \<noteq> REMOVE_SERVER"
      using plain by (auto dest: in_set_dropD)
    ultimately show ?thesis
      using append_new_plain [OF n1] by (simp add: persist_logs_def truncate_logs_def case_prod_beta st)
  next
    case False
    then have "n4 = ae_stepdown a now n"
      using n4(1) by (simp add: store_entries_def m)
    then show ?thesis
      by (simp add: st)
  qed
  moreover have "ClusterConfig n' = ClusterConfig n4 \<and> LastConfigChangeIndex n' = LastConfigChangeIndex n4 \<and> peers n' = peers n4"
    using n4(2) by (auto simp: follower_commit_def queue_committed_def rbind_eq_Inr_iff split: if_splits)
  moreover have "log_of n' = ae_merge (log_of n) (nat (ae_prevLogIndex a + 1)) (ae_entries a)"
    using store_entries_log [OF n4(1) p] follower_commit_keeps [OF n4(2)] c by auto
  ultimately show ?thesis
    by simp
qed

text \<open>A follower whose only entry added server 7.\<close>

definition joined_node :: node where
  "joined_node = blank_node\<lparr>Logs := (Logs blank_node)\<lparr>items := [\<lparr>log_term = 1,
     log_op = \<lparr>kind = ADD_SERVER, args = ArgServer ServerInfo_zero, promiseHandle = None\<rparr>\<rparr>]\<rparr>,
     ClusterConfig := [(7, ServerInfo_zero)], LastConfigChangeIndex := 0\<rparr>"

theorem truncation_keeps_config_witness:
  "\<exists>reply n'. AppendEntries example_call 9 joined_node = Inr (reply, n') \<and> log_of n' = [\<lparr>log_term = 3, log_op = get_op 5\<rparr>]
     \<and> ClusterConfig n' = [(7, ServerInfo_zero)]"
proof -
  have j: "log_of joined_node = [\<lparr>log_term = 1, log_op = \<lparr>kind = ADD_SERVER, args = ArgServer ServerInfo_zero, promiseHandle = None\<rparr>\<rparr>]"
      "Role joined_node = Follower" "CurrentTerm joined_node = 0" "LastApplied joined_node = -1" "services joined_node = no_clients"
      "ClusterConfig joined_node = [(7, ServerInfo_zero)]"
    by (simp_all add: joined_node_def)
  have "ae_safe example_call joined_node"
    by (simp add: ae_safe_def j example_call_def config_typed_def get_op_def known_op_def)
  then obtain reply n' where r: "AppendEntries example_call 9 joined_node = Inr (reply, n')"
    using AppendEntries_defined by blast
  have s: "aer_success reply"
    using r j by (auto simp: AppendEntries_current example_call_def prev_matches_def elim!: rbind_Inr_E)
  have "\<forall>e \<in> set (ae_entries example_call). kind (ale_op e) \<noteq> ADD_SERVER \<and> kind (ale_op e) \<noteq> REMOVE_SERVER"
    by (simp add: example_call_def get_op_def)
  then show ?thesis
    using truncation_keeps_config [OF r s] r j by (simp add: example_call_def ae_merge_def entry_of_def)
qed

end
