(* ===== verification/RaftLeader.thy ===== *)
theory RaftLeader
  imports RaftFollower
begin

text \<open>
  \<open>ohmyraft/OhMyRaft.H\<close>, third part: the submission of operations, the leader's round
  \<open>runLeaderOneIter\<close> with the replication threads it detaches, and the bodies of the loops
  \<open>raftImpl\<close> and \<open>executerImpl\<close>.

  A replication thread holds the mutex twice, before and after its RPC: \<open>leader_prepare\<close> builds the
  request, \<open>leader_send\<close> puts it through the router of the peer, \<open>leader_reply\<close> handles the answer.
  Both loops of the source run until \<open>keepRunning_\<close> falls; their bodies are the definitions here, and
  the sleep between two rounds has no effect on the state.
\<close>

section \<open>Submission\<close>

definition submit :: "RaftOp \<Rightarrow> node \<Rightarrow> (bool \<times> int) \<times> node" where
  "submit op n =
     (if (kind op = GET \<or> kind op = PUT) \<and> Role n \<noteq> Leader
      then ((False, LastKnownLeaderId n), n)
      else ((True, LastKnownLeaderId n),
            n\<lparr>dispatchOut := dispatchOut n @ [op], moreInputsReady := tts_signal (moreInputsReady n)\<rparr>))"

section \<open>One round of the leader\<close>

fun append_ops :: "RaftOp list \<Rightarrow> node \<Rightarrow> node res" where
  "append_ops [] n = Inr n"
| "append_ops (op # ops) n =
     rbind (apply_config op (n\<lparr>Logs := pvec_push_back \<lparr>log_term = CurrentTerm n, log_op = op\<rparr> (Logs n)\<rparr>))
       (append_ops ops)"

definition leader_append :: "node \<Rightarrow> node res" where
  "leader_append n = rbind (append_ops (raftIn n) n) (\<lambda>n'. Inr (persist_logs n'))"

definition entries_from :: "int \<Rightarrow> LogEntry list \<Rightarrow> AppendLogEntry list" where
  "entries_from nextIndex logs =
     (if nextIndex < 0 then []
      else map (\<lambda>i. \<lparr>ale_term = log_term (logs ! i), ale_index = int i, ale_op = withoutPromise (log_op (logs ! i))\<rparr>)
             [nat nextIndex..<length logs])"

definition leader_prepare :: "int \<Rightarrow> int \<Rightarrow> node \<Rightarrow> ((int \<times> AppendEntriesParams) \<times> node) res" where
  "leader_prepare peer savedCurrentTerm n =
     (case om_at 0 (NextIndex n) peer of
        (nextIndex, nis) \<Rightarrow>
          let prevLogIndex = nextIndex - 1 in
          rbind (if prevLogIndex \<ge> 0 then rbind (vec_at (log_of n) prevLogIndex) (\<lambda>e. Inr (log_term e)) else Inr (-1))
            (\<lambda>prevLogTerm.
              Inr ((nextIndex,
                    \<lparr>ae_term = savedCurrentTerm, ae_leaderId = my_id n, ae_prevLogIndex = prevLogIndex,
                     ae_prevLogTerm = prevLogTerm, ae_entries = entries_from nextIndex (log_of n),
                     ae_leaderCommit = CommitIndex n\<rparr>),
                   n\<lparr>NextIndex := nis\<rparr>)))"

definition leader_send :: "(AppendEntriesParams \<Rightarrow> AppendEntriesRet option) \<Rightarrow> int \<Rightarrow> AppendEntriesParams
    \<Rightarrow> node \<Rightarrow> AppendEntriesRet option res" where
  "leader_send call peer a n =
     (case om_find (peers n) peer of
        None \<Rightarrow> Inl Null_Pointer
      | Some r \<Rightarrow> Inr (snd (router_AppendEntries call r a)))"

text \<open>The replicas known to hold index \<open>i\<close>; \<open>MatchIndex[pid]\<close> inserts a missing peer with 0.\<close>

fun match_count :: "int \<Rightarrow> int list \<Rightarrow> int \<times> (int, int) omap \<Rightarrow> int \<times> (int, int) omap" where
  "match_count i [] acc = acc"
| "match_count i (pid # pids) (matchCount, mi) =
     (case om_at 0 mi pid of
        (v, mi') \<Rightarrow> match_count i pids (if v \<ge> i then matchCount + 1 else matchCount, mi'))"

definition commit_step :: "int \<Rightarrow> node \<Rightarrow> node res" where
  "commit_step i n =
     rbind (vec_at (log_of n) i) (\<lambda>e.
       if log_term e = CurrentTerm n then
         (case match_count i (om_keys (peers n))
                 (if om_find (ClusterConfig n) (my_id n) \<noteq> None then 1 else 0, MatchIndex n) of
            (matchCount, mi) \<Rightarrow>
              let n1 = n\<lparr>MatchIndex := mi\<rparr> in
              Inr (if matchCount * 2 > int (length (ClusterConfig n1)) then n1\<lparr>CommitIndex := i\<rparr> else n1))
       else Inr n)"

fun commit_scan :: "int list \<Rightarrow> node \<Rightarrow> node res" where
  "commit_scan [] n = Inr n"
| "commit_scan (i # is) n = rbind (commit_step i n) (commit_scan is)"

definition leader_reply :: "int \<Rightarrow> int \<Rightarrow> int \<Rightarrow> nat \<Rightarrow> AppendEntriesRet \<Rightarrow> int \<Rightarrow> node \<Rightarrow> node res" where
  "leader_reply peer savedCurrentTerm nextIndex sent reply now n =
     (if aer_term reply > savedCurrentTerm then Inr (becomeFollower (aer_term reply) now n)
      else if Role n = Leader \<and> savedCurrentTerm = aer_term reply then
        if aer_success reply then
          (let n1 = n\<lparr>NextIndex := om_put peer (nextIndex + int sent) (NextIndex n)\<rparr>;
               n2 = n1\<lparr>MatchIndex := om_put peer (nextIndex + int sent - 1) (MatchIndex n1)\<rparr>
           in rbind (commit_scan [CommitIndex n2 + 1..int (length (log_of n2)) - 1] n2) (\<lambda>n3.
                if CommitIndex n3 \<noteq> CommitIndex n2 then queue_committed n3 else Inr n3))
        else Inr (n\<lparr>NextIndex := om_put peer (nextIndex - 1) (NextIndex n)\<rparr>)
      else Inr n)"

text \<open>The round: the log takes over the submitted operations, then one thread starts per peer.\<close>

definition runLeaderOneIter :: "node \<Rightarrow> ((int \<times> int) list \<times> node) res" where
  "runLeaderOneIter n =
     (let savedCurrentTerm = CurrentTerm n in
      rbind (leader_append n) (\<lambda>n'. Inr (map (\<lambda>p. (p, savedCurrentTerm)) (om_keys (peers n')), n')))"

lemma runLeaderOneIter_Inr:
  assumes "runLeaderOneIter n = Inr (ths, n')"
  obtains n1 where "append_ops (raftIn n) n = Inr n1" "n' = persist_logs n1" "ths = map (\<lambda>p. (p, CurrentTerm n)) (om_keys (peers n'))"
  using assms by (auto simp: runLeaderOneIter_def leader_append_def Let_def elim!: rbind_Inr_E)

section \<open>Bodies of the loops\<close>

definition raft_take :: "node \<Rightarrow> node" where
  "raft_take n = n\<lparr>dispatchOut := raftIn n, raftIn := dispatchOut n\<rparr>"

definition raft_clear :: "node \<Rightarrow> node" where
  "raft_clear n = n\<lparr>raftIn := []\<rparr>"

definition raftImpl_body :: "node \<Rightarrow> ((int \<times> int) list \<times> node) res" where
  "raftImpl_body n =
     (let n1 = raft_take n in
      if Role n1 = Leader
      then rbind (runLeaderOneIter n1) (\<lambda>(threads, n2). Inr (threads, raft_clear n2))
      else Inr ([], raft_clear n1))"

fun exec_ops :: "('d \<Rightarrow> int \<Rightarrow> int option res) \<Rightarrow> ('d \<Rightarrow> int \<times> int \<Rightarrow> bool \<times> 'd)
    \<Rightarrow> RaftOp list \<Rightarrow> 'd \<Rightarrow> service \<Rightarrow> ('d \<times> service) res" where
  "exec_ops dbget dbput [] db sv = Inr (db, sv)"
| "exec_ops dbget dbput (op # ops) db sv =
     rbind (op_execute dbget dbput op db sv) (\<lambda>(_, db', sv'). exec_ops dbget dbput ops db' sv')"

definition executer_wait :: "thread \<Rightarrow> node \<Rightarrow> wait_result \<times> node" where
  "executer_wait t n = (case tts_wait t (moreExecJobsReady n) of (r, s) \<Rightarrow> (r, n\<lparr>moreExecJobsReady := s\<rparr>))"

definition executerImpl_body :: "('d \<Rightarrow> int \<Rightarrow> int option res) \<Rightarrow> ('d \<Rightarrow> int \<times> int \<Rightarrow> bool \<times> 'd)
    \<Rightarrow> 'd \<Rightarrow> node \<Rightarrow> ('d \<times> node) res" where
  "executerImpl_body dbget dbput db n =
     (let n1 = n\<lparr>execIn := raftOut n, raftOut := execIn n\<rparr> in
      rbind (exec_ops dbget dbput (execIn n1) db (services n1)) (\<lambda>(db', sv).
        Inr (db', n1\<lparr>services := sv, execIn := []\<rparr>)))"

text \<open>
  The parts of a turn that other threads can come between: the queues are swapped under the mutex, then
  the loop runs one operation after the other. What is left of \<open>execIn\<close> is what the loop has still to run.
\<close>

definition executer_take :: "node \<Rightarrow> node" where
  "executer_take n = n\<lparr>execIn := raftOut n, raftOut := execIn n\<rparr>"

definition executer_one :: "('d \<Rightarrow> int \<Rightarrow> int option res) \<Rightarrow> ('d \<Rightarrow> int \<times> int \<Rightarrow> bool \<times> 'd)
    \<Rightarrow> 'd \<Rightarrow> node \<Rightarrow> ('d \<times> node) res" where
  "executer_one dbget dbput db n =
     (case execIn n of
        [] \<Rightarrow> Inr (db, n)
      | op # ops \<Rightarrow> rbind (op_execute dbget dbput op db (services n)) (\<lambda>(_, db', sv). Inr (db', n\<lparr>services := sv, execIn := ops\<rparr>)))"

fun executer_run :: "nat \<Rightarrow> ('d \<Rightarrow> int \<Rightarrow> int option res) \<Rightarrow> ('d \<Rightarrow> int \<times> int \<Rightarrow> bool \<times> 'd)
    \<Rightarrow> 'd \<Rightarrow> node \<Rightarrow> ('d \<times> node) res" where
  "executer_run 0 dbget dbput db n = Inr (db, n)"
| "executer_run (Suc k) dbget dbput db n = rbind (executer_one dbget dbput db n) (\<lambda>(db', n'). executer_run k dbget dbput db' n')"

lemma executer_run_ops:
  "executer_run (length (execIn n)) dbget dbput db n =
    rbind (exec_ops dbget dbput (execIn n) db (services n)) (\<lambda>(db', sv). Inr (db', n\<lparr>services := sv, execIn := []\<rparr>))"
proof (induction "execIn n" arbitrary: n db)
  case (Cons op ops)
  show ?case
  proof (cases "op_execute dbget dbput op db (services n)")
    case (Inr r)
    obtain op' db' sv' where r: "r = (op', db', sv')"
      by (cases r)
    show ?thesis
      using Cons(1) [of "n\<lparr>services := sv', execIn := ops\<rparr>" db'] Inr r by (simp add: executer_one_def flip: Cons(2))
  qed (simp add: executer_one_def flip: Cons(2))
qed simp

text \<open>A turn nobody comes between is these steps in a row.\<close>

lemma executer_turn: "executerImpl_body dbget dbput db n = executer_run (length (raftOut n)) dbget dbput db (executer_take n)"
  using executer_run_ops [of "executer_take n" dbget dbput db] by (simp add: executerImpl_body_def executer_take_def Let_def)

section \<open>The log of the leader\<close>

lemma append_ops_keeps:
  assumes "append_ops ops n = Inr n'"
  shows "log_of n' = log_of n @ map (\<lambda>op. \<lparr>log_term = CurrentTerm n, log_op = op\<rparr>) ops \<and> CurrentTerm n' = CurrentTerm n
    \<and> VotedFor n' = VotedFor n \<and> Role n' = Role n \<and> CommitIndex n' = CommitIndex n \<and> LastApplied n' = LastApplied n
    \<and> raftOut n' = raftOut n \<and> dispatchOut n' = dispatchOut n \<and> raftIn n' = raftIn n \<and> my_id n' = my_id n \<and> pStore n' = pStore n"
  using assms
proof (induction ops arbitrary: n)
  case (Cons op ops)
  then obtain n1 where
    a: "apply_config op (n\<lparr>Logs := pvec_push_back \<lparr>log_term = CurrentTerm n, log_op = op\<rparr> (Logs n)\<rparr>) = Inr n1"
    and b: "append_ops ops n1 = Inr n'"
    by (auto elim: rbind_Inr_E)
  show ?case
    using Cons.IH [OF b] apply_config_logs [OF a] apply_config_keeps [OF a] by simp
qed simp

lemma append_ops_defined: "list_all config_typed ops \<Longrightarrow> \<exists>n'. append_ops ops n = Inr n'"
proof (induction ops arbitrary: n)
  case (Cons op ops)
  then obtain n1 where
    "apply_config op (n\<lparr>Logs := pvec_push_back \<lparr>log_term = CurrentTerm n, log_op = op\<rparr> (Logs n)\<rparr>) = Inr n1"
    using apply_config_defined by fastforce
  then show ?case
    using Cons by simp
qed simp

lemma open_inv_append_ops:
  "open_inv n \<Longrightarrow> list_all op_ok ops \<Longrightarrow> append_ops ops n = Inr n' \<Longrightarrow> open_inv n'"
proof (induction ops arbitrary: n)
  case (Cons op ops)
  have "open_inv (n\<lparr>Logs := pvec_push_back \<lparr>log_term = CurrentTerm n, log_op = op\<rparr> (Logs n)\<rparr>)"
    using Cons.prems by (intro open_inv_push) (simp_all add: open_inv_def meta_inv_def)
  then show ?case
    using Cons.prems Cons.IH open_inv_apply_config by (auto elim!: rbind_Inr_E)
qed simp

lemma disk_inv_leader_append:
  assumes "disk_inv n" and "list_all op_ok (raftIn n)" and "leader_append n = Inr n'"
  shows "disk_inv n'"
  using assms disk_inv_persist_logs open_inv_append_ops
  by (auto simp: leader_append_def disk_inv_alt [of n] elim!: rbind_Inr_E)

section \<open>The commit rule\<close>

text \<open>
  The reference: an index can be committed when its entry is of the current term and the replicas
  that hold it, the leader included if it is a member, are a majority of the configuration.
\<close>

definition match_value :: "(int, int) omap \<Rightarrow> int \<Rightarrow> int" where
  "match_value mi p = (case om_find mi p of Some v \<Rightarrow> v | None \<Rightarrow> 0)"

definition holders :: "node \<Rightarrow> int \<Rightarrow> nat" where
  "holders n i = (if om_find (ClusterConfig n) (my_id n) \<noteq> None then 1 else 0)
     + length (filter (\<lambda>p. i \<le> match_value (MatchIndex n) p) (om_keys (peers n)))"

definition committable :: "node \<Rightarrow> int \<Rightarrow> bool" where
  "committable n i \<longleftrightarrow> log_term (log_of n ! nat i) = CurrentTerm n \<and> length (ClusterConfig n) < 2 * holders n i"

lemma match_value_put [simp]: "match_value (om_put p v mi) q = (if q = p then v else match_value mi q)"
  by (simp add: match_value_def)

lemma om_at_match_value: "fst (om_at 0 mi p) = match_value mi p" "match_value (snd (om_at 0 mi p)) = match_value mi"
  by (auto simp: om_at_def match_value_def fun_eq_iff split: option.splits)

lemma match_count_value:
  "fst (match_count i ps (c, mi)) = c + int (length (filter (\<lambda>p. i \<le> match_value mi p) ps))
    \<and> match_value (snd (match_count i ps (c, mi))) = match_value mi"
proof (induction ps arbitrary: c mi)
  case (Cons p ps)
  show ?case
    using Cons [of "if i \<le> match_value mi p then c + 1 else c" "snd (om_at 0 mi p)"]
    by (simp add: case_prod_beta om_at_match_value)
qed simp

text \<open>What a step of the scan leaves alone.\<close>

definition scan_frame :: "node \<Rightarrow> node \<Rightarrow> bool" where
  "scan_frame n n' \<longleftrightarrow> (\<exists>mi ci. n' = n\<lparr>MatchIndex := mi, CommitIndex := ci\<rparr> \<and> match_value mi = match_value (MatchIndex n))"

lemma scan_frame_committable: "scan_frame n n' \<Longrightarrow> committable n' = committable n"
  by (auto simp: scan_frame_def committable_def holders_def fun_eq_iff)

lemma scan_frame_intros:
  "scan_frame n n"
  "match_value mi = match_value (MatchIndex n) \<Longrightarrow> scan_frame n (n\<lparr>MatchIndex := mi\<rparr>)"
  "match_value mi = match_value (MatchIndex n) \<Longrightarrow> scan_frame n (n\<lparr>MatchIndex := mi, CommitIndex := ci\<rparr>)"
proof -
  have "n = n\<lparr>MatchIndex := MatchIndex n, CommitIndex := CommitIndex n\<rparr>"
    "n\<lparr>MatchIndex := mi\<rparr> = n\<lparr>MatchIndex := mi, CommitIndex := CommitIndex n\<rparr>"
    by simp_all
  then show "scan_frame n n"
    "match_value mi = match_value (MatchIndex n) \<Longrightarrow> scan_frame n (n\<lparr>MatchIndex := mi\<rparr>)"
    "match_value mi = match_value (MatchIndex n) \<Longrightarrow> scan_frame n (n\<lparr>MatchIndex := mi, CommitIndex := ci\<rparr>)"
    unfolding scan_frame_def by blast+
qed

lemma scan_frame_trans: "scan_frame n n1 \<Longrightarrow> scan_frame n1 n2 \<Longrightarrow> scan_frame n n2"
  by (fastforce simp: scan_frame_def)

lemma scan_frame_log: "scan_frame n n' \<Longrightarrow> log_of n' = log_of n"
  by (auto simp: scan_frame_def)

lemma commit_step_ok:
  assumes "0 \<le> i" and "i < int (length (log_of n))"
  shows "\<exists>n'. commit_step i n = Inr n' \<and> scan_frame n n'
    \<and> CommitIndex n' = (if committable n i then i else CommitIndex n)"
proof -
  let ?c = "if om_find (ClusterConfig n) (my_id n) \<noteq> None then 1 else 0 :: int"
  obtain k mi where mc: "match_count i (om_keys (peers n)) (?c, MatchIndex n) = (k, mi)"
    by (cases "match_count i (om_keys (peers n)) (?c, MatchIndex n)")
  have k: "k = int (holders n i)" and mi: "match_value mi = match_value (MatchIndex n)"
    using match_count_value [of i "om_keys (peers n)" ?c "MatchIndex n"] mc by (simp_all add: holders_def)
  have maj: "k * 2 > int (length (ClusterConfig n)) \<longleftrightarrow> length (ClusterConfig n) < 2 * holders n i"
    by (simp only: k) linarith
  show ?thesis
    using assms mc maj mi by (auto simp: commit_step_def committable_def Let_def intro: scan_frame_intros)
qed

lemma commit_scan_ok:
  assumes "\<forall>i \<in> set is. 0 \<le> i \<and> i < int (length (log_of n))"
  shows "\<exists>n'. commit_scan is n = Inr n' \<and> scan_frame n n'
    \<and> CommitIndex n' = last (CommitIndex n # filter (committable n) is)"
  using assms
proof (induction "is" arbitrary: n)
  case Nil
  then show ?case by (simp add: scan_frame_intros)
next
  case (Cons i "is")
  obtain n1 where n1: "commit_step i n = Inr n1" "scan_frame n n1"
      "CommitIndex n1 = (if committable n i then i else CommitIndex n)"
    using commit_step_ok [of i n] Cons.prems by auto
  have "log_of n1 = log_of n"
    using n1(2) by (rule scan_frame_log)
  then obtain n2 where n2: "commit_scan is n1 = Inr n2" "scan_frame n1 n2"
      "CommitIndex n2 = last (CommitIndex n1 # filter (committable n1) is)"
    using Cons.IH [of n1] Cons.prems by auto
  have "scan_frame n n2"
    using n1(2) n2(2) by (rule scan_frame_trans)
  then show ?case
    using n1 n2 by (auto simp: scan_frame_committable [OF n1(2)])
qed

text \<open>The state in which the scan runs: the peer is known to hold what was sent to it.\<close>

definition leader_matched :: "int \<Rightarrow> int \<Rightarrow> node \<Rightarrow> node" where
  "leader_matched peer next n = n\<lparr>NextIndex := om_put peer next (NextIndex n), MatchIndex := om_put peer (next - 1) (MatchIndex n)\<rparr>"

lemma leader_matched_simps [simp]:
  "Logs (leader_matched p k n) = Logs n" "CommitIndex (leader_matched p k n) = CommitIndex n"
  "LastApplied (leader_matched p k n) = LastApplied n" "raftOut (leader_matched p k n) = raftOut n"
  "CurrentTerm (leader_matched p k n) = CurrentTerm n" "ClusterConfig (leader_matched p k n) = ClusterConfig n"
  "peers (leader_matched p k n) = peers n" "my_id (leader_matched p k n) = my_id n"
  by (simp_all add: leader_matched_def)

text \<open>The greatest index that can be committed, or the commit index when there is none above it.\<close>

definition new_commit :: "node \<Rightarrow> int" where
  "new_commit n = last (CommitIndex n # filter (committable n) [CommitIndex n + 1..int (length (log_of n)) - 1])"

lemma new_commit_bounds:
  assumes "CommitIndex n < int (length (log_of n))"
  shows "CommitIndex n \<le> new_commit n" and "new_commit n < int (length (log_of n))"
    and "new_commit n \<noteq> CommitIndex n \<Longrightarrow> committable n (new_commit n)"
proof -
  have "new_commit n = CommitIndex n \<or> new_commit n \<in> set (filter (committable n) [CommitIndex n + 1..int (length (log_of n)) - 1])"
    unfolding new_commit_def by (metis last.simps last_in_set)
  then show "CommitIndex n \<le> new_commit n" and "new_commit n < int (length (log_of n))"
    and "new_commit n \<noteq> CommitIndex n \<Longrightarrow> committable n (new_commit n)"
    using assms by auto
qed

lemma sorted_le_last: "sorted xs \<Longrightarrow> x \<in> set xs \<Longrightarrow> x \<le> last xs"
  by (induction xs) (auto simp: last_in_set)

lemma new_commit_max:
  assumes "CommitIndex n < i" and "i < int (length (log_of n))" and "committable n i"
  shows "i \<le> new_commit n"
proof -
  let ?xs = "filter (committable n) [CommitIndex n + 1..int (length (log_of n)) - 1]"
  have "i \<in> set ?xs"
    using assms by simp
  moreover from this have "new_commit n = last ?xs"
    unfolding new_commit_def by (metis last.simps list.set_cases neq_Nil_conv)
  ultimately show ?thesis
    using sorted_le_last [of ?xs i] by (simp add: sorted_wrt_filter)
qed

lemma leader_reply_success:
  assumes role: "Role n = Leader" and reply: "aer_term reply = saved" "aer_success reply"
    and idx: "-1 \<le> CommitIndex n" "CommitIndex n < int (length (log_of n))" "-1 \<le> LastApplied n"
  shows "\<exists>n3. leader_reply peer saved next sent reply now n = Inr
      (if new_commit (leader_matched peer (next + int sent) n) \<noteq> CommitIndex n
       then n3\<lparr>raftOut := raftOut n @ map log_op (segment (LastApplied n + 1) (CommitIndex n3) (log_of n)),
               LastApplied := CommitIndex n3, moreExecJobsReady := tts_signal (moreExecJobsReady n3)\<rparr>
       else n3)
    \<and> scan_frame (leader_matched peer (next + int sent) n) n3
    \<and> CommitIndex n3 = new_commit (leader_matched peer (next + int sent) n)"
proof -
  let ?m = "leader_matched peer (next + int sent) n"
  obtain n3 where n3: "commit_scan [CommitIndex ?m + 1..int (length (log_of ?m)) - 1] ?m = Inr n3"
      "scan_frame ?m n3" "CommitIndex n3 = new_commit ?m"
    using commit_scan_ok [of "[CommitIndex ?m + 1..int (length (log_of ?m)) - 1]" ?m] idx
    by (auto simp: new_commit_def)
  have same: "log_of n3 = log_of n" "LastApplied n3 = LastApplied n" "raftOut n3 = raftOut n"
    using n3(2) by (auto simp: scan_frame_def)
  have "CommitIndex n3 < int (length (log_of n3))"
    using new_commit_bounds(2) [of ?m] idx(2) n3(3) same by simp
  then have q: "queue_committed n3 = Inr (n3\<lparr>raftOut := raftOut n @ map log_op (segment (LastApplied n + 1) (CommitIndex n3) (log_of n)),
               LastApplied := CommitIndex n3, moreExecJobsReady := tts_signal (moreExecJobsReady n3)\<rparr>)"
    using idx(3) same by (simp add: queue_committed_ok)
  have "leader_reply peer saved next sent reply now n =
      (if CommitIndex n3 \<noteq> CommitIndex n then queue_committed n3 else Inr n3)"
    using role reply n3(1) by (simp add: leader_reply_def leader_matched_def Let_def)
  then show ?thesis
    using n3 q by (intro exI [of _ n3]) simp
qed

lemma leader_reply_cases:
  assumes r: "leader_reply peer saved k sent reply now n = Inr n'"
  obtains (stepdown) "saved < aer_term reply" "n' = becomeFollower (aer_term reply) now n"
  | (ignored) "n' = n"
  | (backup) "n' = n\<lparr>NextIndex := om_put peer (k - 1) (NextIndex n)\<rparr>"
  | (scanned) n3 where "commit_scan [CommitIndex n + 1..int (length (log_of n)) - 1] (leader_matched peer (k + int sent) n) = Inr n3"
      "(if CommitIndex n3 \<noteq> CommitIndex n then queue_committed n3 else Inr n3) = Inr n'"
proof (cases "saved < aer_term reply")
  case True
  then show ?thesis
    using r by (intro stepdown) (simp_all add: leader_reply_def)
next
  case not_newer: False
  show ?thesis
  proof (cases "Role n = Leader \<and> saved = aer_term reply")
    case leads: True
    show ?thesis
    proof (cases "aer_success reply")
      case True
      then show ?thesis
        using r leads scanned by (auto simp: leader_reply_def leader_matched_def Let_def elim!: rbind_Inr_E)
    next
      case False
      then show ?thesis
        using r leads by (intro backup) (simp add: leader_reply_def)
    qed
  next
    case False
    then have "n' = n"
      using r not_newer by (simp add: leader_reply_def) (metis sum.inject(2))
    then show ?thesis
      by (rule ignored)
  qed
qed

section \<open>The disk after the steps of the leader\<close>

lemma disk_inv_submit: "disk_inv n \<Longrightarrow> submit op n = (r, n') \<Longrightarrow> disk_inv n'"
  by (erule disk_inv_frame) (auto simp: submit_def split: if_splits)

lemma disk_inv_raft_take: "disk_inv n \<Longrightarrow> disk_inv (raft_take n)"
  by (erule disk_inv_frame) (auto simp: raft_take_def)

lemma disk_inv_raft_clear: "disk_inv n \<Longrightarrow> disk_inv (raft_clear n)"
  by (erule disk_inv_frame) (auto simp: raft_clear_def)

lemma disk_inv_leader_prepare: "disk_inv n \<Longrightarrow> leader_prepare peer t n = Inr (r, n') \<Longrightarrow> disk_inv n'"
  by (erule disk_inv_frame) (auto simp: leader_prepare_def case_prod_beta Let_def rbind_eq_Inr_iff)

lemma commit_step_frame: "commit_step i n = Inr n' \<Longrightarrow> \<exists>mi ci. n' = n\<lparr>MatchIndex := mi, CommitIndex := ci\<rparr>"
proof -
  assume "commit_step i n = Inr n'"
  then have "scan_frame n n'"
    using commit_step_ok [of i n] by (cases "0 \<le> i \<and> i < int (length (log_of n))") (auto simp: commit_step_def vec_at_def)
  then show ?thesis
    by (auto simp: scan_frame_def)
qed

lemma disk_inv_commit_scan: "disk_inv n \<Longrightarrow> commit_scan is n = Inr n' \<Longrightarrow> disk_inv n'"
proof (induction "is" arbitrary: n)
  case (Cons i "is")
  then obtain n1 where n1: "commit_step i n = Inr n1" "commit_scan is n1 = Inr n'"
    by (auto elim: rbind_Inr_E)
  have "disk_inv n1"
    using Cons.prems(1) by (rule disk_inv_frame) (use commit_step_frame [OF n1(1)] in auto)
  then show ?case
    using Cons.IH n1(2) by blast
qed simp

lemma disk_inv_queue_committed: "disk_inv n \<Longrightarrow> queue_committed n = Inr n' \<Longrightarrow> disk_inv n'"
  by (erule disk_inv_frame) (auto simp: queue_committed_def rbind_eq_Inr_iff)

lemma disk_inv_leader_reply:
  assumes inv: "disk_inv n" and t: "i32_ok (aer_term reply)" and r: "leader_reply peer saved next sent reply now n = Inr n'"
  shows "disk_inv n'"
proof -
  have m: "disk_inv (n\<lparr>NextIndex := ni, MatchIndex := mi\<rparr>)" and m': "disk_inv (n\<lparr>NextIndex := ni\<rparr>)" for ni mi
    using inv by (auto intro: disk_inv_frame)
  show ?thesis
    using r inv t m' disk_inv_commit_scan [OF m] disk_inv_queue_committed
    by (auto simp: leader_reply_def Let_def disk_inv_becomeFollower elim!: rbind_Inr_E split: if_splits; blast)
qed

lemma disk_inv_runLeaderOneIter:
  assumes "disk_inv n" and "list_all op_ok (raftIn n)" and "runLeaderOneIter n = Inr (threads, n')"
  shows "disk_inv n'"
  using assms disk_inv_leader_append by (auto simp: runLeaderOneIter_def Let_def elim!: rbind_Inr_E)

lemma disk_inv_raftImpl_body:
  assumes "disk_inv n" and "list_all op_ok (dispatchOut n)" and "raftImpl_body n = Inr (threads, n')"
  shows "disk_inv n'"
proof -
  have "disk_inv (raft_take n)" and "list_all op_ok (raftIn (raft_take n))"
    using assms(1,2) by (simp_all add: disk_inv_raft_take) (simp add: raft_take_def)
  then show ?thesis
    using assms(3) disk_inv_raft_clear disk_inv_runLeaderOneIter
    by (auto simp: raftImpl_body_def Let_def split: if_splits elim!: rbind_Inr_E)
qed

lemma disk_inv_executer:
  "disk_inv n \<Longrightarrow> disk_inv (executer_take n)" "disk_inv n \<Longrightarrow> executer_one dbget dbput db n = Inr (db', n') \<Longrightarrow> disk_inv n'"
  by (erule disk_inv_frame; auto simp: executer_take_def executer_one_def rbind_eq_Inr_iff split: list.splits)+

section \<open>Properties\<close>

text \<open>C15. The commit rule of the leader. A positive answer of the current term moves the commit index to
  the greatest index whose entry is of the current term and held by a majority of the configuration,
  the answering peer counted with what was just sent to it; without such an index it stays. Exactly
  the newly committed operations, in log order, go to the executer, and the log is not touched.\<close>

theorem leader_commits_majority:
  assumes role: "Role n = Leader" and reply: "aer_term reply = saved" "aer_success reply"
    and idx: "-1 \<le> CommitIndex n" "CommitIndex n < int (length (log_of n))" "LastApplied n = CommitIndex n"
    and m: "m = leader_matched peer (k + int sent) n"
  shows "\<exists>n'. leader_reply peer saved k sent reply now n = Inr n' \<and> Logs n' = Logs n
    \<and> CommitIndex n \<le> CommitIndex n' \<and> CommitIndex n' < int (length (log_of n))
    \<and> (CommitIndex n' \<noteq> CommitIndex n \<longrightarrow> committable m (CommitIndex n'))
    \<and> (\<forall>i. CommitIndex n < i \<and> i < int (length (log_of n)) \<and> committable m i \<longrightarrow> i \<le> CommitIndex n')
    \<and> raftOut n' = raftOut n @ map log_op (segment (CommitIndex n + 1) (CommitIndex n') (log_of n))
    \<and> LastApplied n' = CommitIndex n'"
proof -
  obtain n3 where r: "leader_reply peer saved k sent reply now n = Inr
      (if new_commit m \<noteq> CommitIndex n
       then n3\<lparr>raftOut := raftOut n @ map log_op (segment (LastApplied n + 1) (CommitIndex n3) (log_of n)),
               LastApplied := CommitIndex n3, moreExecJobsReady := tts_signal (moreExecJobsReady n3)\<rparr>
       else n3)" and f: "scan_frame m n3" and c: "CommitIndex n3 = new_commit m"
    using leader_reply_success [OF role reply idx(1,2), of peer k sent now] idx unfolding m by auto
  have same: "Logs n3 = Logs n" "raftOut n3 = raftOut n" "LastApplied n3 = LastApplied n" and mc: "CommitIndex m = CommitIndex n" "log_of m = log_of n"
    using f by (auto simp: scan_frame_def m)
  show ?thesis
    using r c same idx mc new_commit_bounds [of m] new_commit_max [of m]
    by (cases "new_commit m = CommitIndex n") auto
qed

text \<open>A leader of term 2 in a cluster of three with one entry of its term, held by nobody else yet.\<close>

definition server_at :: "int \<Rightarrow> ServerInfo" where
  "server_at i = ServerInfo_zero\<lparr>si_id := i, raft_port := 5000 + i, db_port := 6000 + i\<rparr>"

definition config3 :: "(int, ServerInfo) omap" where
  "config3 = [(0, server_at 0), (1, server_at 1), (2, server_at 2)]"

definition leader_node :: node where
  "leader_node = blank_node\<lparr>CurrentTerm := 2, Role := Leader, Logs := (Logs blank_node)\<lparr>items := [\<lparr>log_term = 2, log_op = get_op 5\<rparr>]\<rparr>,
     ClusterConfig := config3, peers := [(1, router_new ''b''), (2, router_new ''c'')], NextIndex := [(1, 0), (2, 0)],
     MatchIndex := [(1, -1), (2, -1)]\<rparr>"

lemma leader_node_simps [simp]:
  "CurrentTerm leader_node = 2" "Role leader_node = Leader" "log_of leader_node = [\<lparr>log_term = 2, log_op = get_op 5\<rparr>]"
  "CommitIndex leader_node = -1" "LastApplied leader_node = -1" "ClusterConfig leader_node = config3" "my_id leader_node = 0"
  "peers leader_node = [(1, router_new ''b''), (2, router_new ''c'')]" "NextIndex leader_node = [(1, 0), (2, 0)]"
  "MatchIndex leader_node = [(1, -1), (2, -1)]" "raftOut leader_node = []"
  by (simp_all add: leader_node_def)

theorem leader_commits_majority_witness:
  "\<exists>n'. leader_reply 1 2 0 1 \<lparr>aer_term = 2, aer_success = True\<rparr> 7 leader_node = Inr n' \<and> CommitIndex n' = 0 \<and> raftOut n' = [get_op 5]"
proof -
  let ?m = "leader_matched 1 1 leader_node"
  have c: "committable ?m 0"
    by (simp add: committable_def holders_def match_value_def leader_matched_def config3_def om_keys_def)
  obtain n' where n': "leader_reply 1 2 0 1 \<lparr>aer_term = 2, aer_success = True\<rparr> 7 leader_node = Inr n'"
      "CommitIndex n' < int (length (log_of leader_node))"
      "\<forall>i. CommitIndex leader_node < i \<and> i < int (length (log_of leader_node)) \<and> committable ?m i \<longrightarrow> i \<le> CommitIndex n'"
      "raftOut n' = raftOut leader_node @ map log_op (segment (CommitIndex leader_node + 1) (CommitIndex n') (log_of leader_node))"
    using leader_commits_majority [of leader_node "\<lparr>aer_term = 2, aer_success = True\<rparr>" 2 ?m 1 0 1 7] by auto
  have "CommitIndex n' = 0"
    using n'(2,3) c by (auto dest!: spec [of _ 0])
  then show ?thesis
    using n'(1,4) by (simp add: segment_def)
qed

text \<open>A round of the leader takes over the submitted operations: the log is extended by one entry of
  the current term for each, in the order of submission, they are on disk before any of them is sent,
  and one replication thread starts for every peer with the term of the round. It faults on no
  operation whose argument fits its kind.\<close>

lemma leader_round_appends:
  assumes inv: "disk_inv n" and ok: "list_all op_ok (raftIn n)" and typed: "list_all config_typed (raftIn n)"
  shows "\<exists>n'. runLeaderOneIter n = Inr (map (\<lambda>p. (p, CurrentTerm n)) (om_keys (peers n')), n')
    \<and> log_of n' = log_of n @ map (\<lambda>op. \<lparr>log_term = CurrentTerm n, log_op = op\<rparr>) (raftIn n)
    \<and> persistedItems (Logs n') = length (log_of n') \<and> disk_inv n'"
proof -
  obtain n1 where n1: "append_ops (raftIn n) n = Inr n1"
    using append_ops_defined [OF typed] by blast
  then have "leader_append n = Inr (persist_logs n1)"
    by (simp add: leader_append_def)
  moreover from this have "disk_inv (persist_logs n1)"
    using disk_inv_leader_append [OF inv ok] by blast
  ultimately show ?thesis
    using append_ops_keeps [OF n1] by (auto simp: runLeaderOneIter_def Let_def disk_inv_def)
qed

text \<open>An operation accepted by \<open>submit\<close> whose replica stops leading before the next turn of the Raft
  loop is dropped: the turn neither logs nor aborts it, so the promise stays in the store and the
  client's future gets no value.\<close>

lemma pending_ops_dropped:
  assumes "Role n \<noteq> Leader" and "raftImpl_body n = Inr (threads, n')"
  shows "raftIn n' = [] \<and> dispatchOut n' = raftIn n \<and> log_of n' = log_of n \<and> services n' = services n \<and> raftOut n' = raftOut n"
  using assms by (auto simp: raftImpl_body_def raft_take_def raft_clear_def Let_def)

lemma pending_ops_dropped_witness:
  "\<exists>n'. raftImpl_body (waiting_node\<lparr>dispatchOut := [waiting_op]\<rparr>) = Inr ([], n') \<and> raftIn n' = [] \<and> dispatchOut n' = []
     \<and> ps_live (promises (services n')) 0 = Some 7 \<and> futures (services n') = []"
proof -
  let ?n = "waiting_node\<lparr>dispatchOut := [waiting_op]\<rparr>"
  obtain n' where r: "raftImpl_body ?n = Inr ([], n')"
    by (simp add: raftImpl_body_def raft_take_def raft_clear_def Let_def)
  show ?thesis
    using pending_ops_dropped [OF _ r] r by (simp add: waiting_node_def ps_insert_def promise_store_init_def ps_live_def)
qed

text \<open>The answer handler of a replication thread can take the term back: it compares the answer with
  the term the thread was started in, not with the current one, so an answer of a term between the two
  makes the replica a follower of that older term and clears its vote.\<close>

lemma late_reply_lowers_term:
  assumes "saved < aer_term reply" and "aer_term reply < CurrentTerm n"
  shows "\<exists>n'. leader_reply peer saved k sent reply now n = Inr n' \<and> CurrentTerm n' < CurrentTerm n \<and> VotedFor n' = -1"
  using assms by (simp add: leader_reply_def)

lemma late_reply_lowers_term_witness:
  "\<exists>n'. leader_reply 1 1 0 0 \<lparr>aer_term = 2, aer_success = False\<rparr> 7 (blank_node\<lparr>CurrentTerm := 5, VotedFor := 3\<rparr>) = Inr n' \<and> CurrentTerm n' < 5"
  using late_reply_lowers_term [of 1 "\<lparr>aer_term = 2, aer_success = False\<rparr>" "blank_node\<lparr>CurrentTerm := 5, VotedFor := 3\<rparr>" 1 0 0 7] by auto

end
