(* ===== verification/RaftMembership.thy ===== *)
theory RaftMembership
  imports RaftLeader
begin

text \<open>
  \<open>ohmyraft/OhMyRaft.H\<close>, fifth part: the membership calls \<open>AddServer\<close> and \<open>RemoveServer\<close>. Both poll
  the state of the replica, 100 ms apart, holding the mutex only for one look at a time, so they are
  step functions over a program counter: every other thread may run between two steps. \<open>'i\<close> is what
  the call carries to its submission, the new server or the identifier to remove.
\<close>

definition RAFT_MEMBERSHIP_WAIT_ITERS :: int where
  "RAFT_MEMBERSHIP_WAIT_ITERS = 100"

datatype 'i ms_pc =
    Wait_Prev 'i int        \<comment> \<open>waiting for the previous change to be committed; \<open>retryCount\<close>\<close>
  | Submit 'i int           \<comment> \<open>about to submit; \<open>prevConfigChangeIndex\<close>\<close>
  | Wait_New 'i int int     \<comment> \<open>waiting for this change; \<open>prevConfigChangeIndex\<close> and \<open>retryCount\<close>\<close>
  | Done MembershipRet

definition ms_fail :: "ErrorCode \<Rightarrow> node \<Rightarrow> 'i ms_pc \<times> node" where
  "ms_fail code n = (case getLastKnownLeaderRaftAddr n of (addr, n') \<Rightarrow> (Done \<lparr>errorCode = code, leaderAddr = addr\<rparr>, n'))"

definition wait_prev :: "'i \<Rightarrow> int \<Rightarrow> node \<Rightarrow> 'i ms_pc \<times> node" where
  "wait_prev x retryCount n =
     (if LastConfigChangeIndex n = -1 \<or> LastConfigChangeIndex n \<le> CommitIndex n
      then (Submit x (LastConfigChangeIndex n), n)
      else if retryCount + 1 = RAFT_MEMBERSHIP_WAIT_ITERS then ms_fail PREV_NOT_COMMITTED_TIMEOUT n
      else (Wait_Prev x (retryCount + 1), n))"

definition submit_change :: "RaftOp \<Rightarrow> 'i \<Rightarrow> int \<Rightarrow> node \<Rightarrow> 'i ms_pc \<times> node" where
  "submit_change op x prevConfigChangeIndex n =
     (case submit op n of
        ((isSubmitted, _), n') \<Rightarrow>
          if \<not> isSubmitted then ms_fail OTHER n' else (Wait_New x prevConfigChangeIndex 0, n'))"

section \<open>AddServer\<close>

definition new_server :: "AddServerParams \<Rightarrow> ServerInfo res" where
  "new_server a =
     rbind (strcpy (replicate 20 NUL) (as_ip a)) (\<lambda>ip.
     rbind (strcpy (replicate 25 NUL) (as_name a)) (\<lambda>name.
     Inr \<lparr>si_id = as_serverId a, si_ip = ip, raft_port = as_raftPort a, db_port = as_dbPort a, si_name = name\<rparr>))"

definition AddServer_begin :: "AddServerParams \<Rightarrow> node \<Rightarrow> (ServerInfo ms_pc \<times> node) res" where
  "AddServer_begin a n =
     (if Role n \<noteq> Leader then Inr (ms_fail NOT_LEADER n)
      else if om_find (ClusterConfig n) (as_serverId a) \<noteq> None then Inr (ms_fail SERVER_EXISTS n)
      else rbind (new_server a) (\<lambda>info. Inr (Wait_Prev info 0, n)))"

fun AddServer_step :: "ServerInfo ms_pc \<Rightarrow> node \<Rightarrow> ServerInfo ms_pc \<times> node" where
  "AddServer_step (Wait_Prev info retryCount) n = wait_prev info retryCount n"
| "AddServer_step (Submit info prev) n =
     submit_change \<lparr>kind = ADD_SERVER, args = ArgServer info, promiseHandle = None\<rparr> info prev n"
| "AddServer_step (Wait_New info prev retryCount) n =
     (if Role n \<noteq> Leader then ms_fail NOT_LEADER n
      else if prev < LastConfigChangeIndex n \<and> LastConfigChangeIndex n \<le> CommitIndex n
      then (Done \<lparr>errorCode = OK, leaderAddr = []\<rparr>, n)
      else if retryCount + 1 = RAFT_MEMBERSHIP_WAIT_ITERS then ms_fail CUR_NOT_COMMITTED_TIMEOUT n
      else (Wait_New info prev (retryCount + 1), n))"
| "AddServer_step (Done ret) n = (Done ret, n)"

section \<open>RemoveServer\<close>

definition RemoveServer_begin :: "RemoveServerParams \<Rightarrow> node \<Rightarrow> int ms_pc \<times> node" where
  "RemoveServer_begin a n =
     (if Role n \<noteq> Leader then ms_fail NOT_LEADER n
      else if om_find (ClusterConfig n) (rs_serverId a) = None then ms_fail SERVER_NOT_FOUND n
      else (Wait_Prev (rs_serverId a) 0, n))"

fun RemoveServer_step :: "int \<Rightarrow> int ms_pc \<Rightarrow> node \<Rightarrow> int ms_pc \<times> node" where
  "RemoveServer_step now (Wait_Prev serverId retryCount) n = wait_prev serverId retryCount n"
| "RemoveServer_step now (Submit serverId prev) n =
     submit_change \<lparr>kind = REMOVE_SERVER, args = ArgKey serverId, promiseHandle = None\<rparr> serverId prev n"
| "RemoveServer_step now (Wait_New serverId prev retryCount) n =
     (if prev < LastConfigChangeIndex n \<and> LastConfigChangeIndex n \<le> CommitIndex n
      then (Done \<lparr>errorCode = OK, leaderAddr = []\<rparr>, if serverId = my_id n then becomeFollower (-1) now n else n)
      else if retryCount + 1 = RAFT_MEMBERSHIP_WAIT_ITERS then ms_fail CUR_NOT_COMMITTED_TIMEOUT n
      else (Wait_New serverId prev (retryCount + 1), n))"
| "RemoveServer_step now (Done ret) n = (Done ret, n)"

section \<open>The calls end\<close>

text \<open>
  A call with the other threads around it: \<open>env k\<close> is what they do to the replica before the step
  that has \<open>k\<close> more to come.
\<close>

fun poll :: "('i ms_pc \<Rightarrow> node \<Rightarrow> 'i ms_pc \<times> node) \<Rightarrow> (nat \<Rightarrow> node \<Rightarrow> node) \<Rightarrow> nat \<Rightarrow> 'i ms_pc \<times> node \<Rightarrow> 'i ms_pc \<times> node" where
  "poll step env 0 s = s"
| "poll step env (Suc k) s = poll step env k (step (fst s) (env k (snd s)))"

text \<open>What the two calls share: a rank that every step lowers, whatever the replica looks like.\<close>

locale polling =
  fixes step :: "'i ms_pc \<Rightarrow> node \<Rightarrow> 'i ms_pc \<times> node"
    and counting :: "'i ms_pc \<Rightarrow> bool"
    and rank :: "'i ms_pc \<Rightarrow> nat"
  assumes step_done: "step (Done ret) n = (Done ret, n)"
    and step_counting: "counting pc \<Longrightarrow> counting (fst (step pc n))"
    and step_rank: "counting pc \<Longrightarrow> rank pc \<noteq> 0 \<Longrightarrow> rank (fst (step pc n)) < rank pc"
    and rank_0: "counting pc \<Longrightarrow> rank pc = 0 \<Longrightarrow> \<exists>ret. pc = Done ret"
begin

lemma poll_done: "fst s = Done ret \<Longrightarrow> fst (poll step env k s) = Done ret"
  by (induction k arbitrary: s) (simp_all add: step_done)

lemma poll_ends: "counting (fst s) \<Longrightarrow> rank (fst s) \<le> k \<Longrightarrow> \<exists>ret. fst (poll step env k s) = Done ret"
proof (induction k arbitrary: s)
  case 0
  then show ?case using rank_0 by simp
next
  case (Suc k)
  show ?case
  proof (cases "rank (fst s) = 0")
    case True
    then show ?thesis using rank_0 poll_done Suc.prems by blast
  next
    case False
    then have "rank (fst (step (fst s) (env k (snd s)))) < rank (fst s)"
      using Suc.prems step_rank by blast
    then show ?thesis
      using Suc.prems Suc.IH [of "step (fst s) (env k (snd s))"] step_counting by simp
  qed
qed

end

fun ms_counting :: "'i ms_pc \<Rightarrow> bool" where
  "ms_counting (Wait_Prev x r) \<longleftrightarrow> 0 \<le> r \<and> r < RAFT_MEMBERSHIP_WAIT_ITERS"
| "ms_counting (Wait_New x p r) \<longleftrightarrow> 0 \<le> r \<and> r < RAFT_MEMBERSHIP_WAIT_ITERS"
| "ms_counting _ \<longleftrightarrow> True"

fun ms_rank :: "'i ms_pc \<Rightarrow> nat" where
  "ms_rank (Wait_Prev x r) = 101 + nat (RAFT_MEMBERSHIP_WAIT_ITERS - r)"
| "ms_rank (Submit x p) = 101"
| "ms_rank (Wait_New x p r) = nat (RAFT_MEMBERSHIP_WAIT_ITERS - r)"
| "ms_rank (Done ret) = 0"

lemma ms_fail_Done: "\<exists>ret. fst (ms_fail code n) = Done ret"
  by (simp add: ms_fail_def case_prod_beta)

lemma ms_fail_simps [simp]: "ms_counting (fst (ms_fail code n))" "ms_rank (fst (ms_fail code n)) = 0"
  by (simp_all add: ms_fail_def case_prod_beta)

lemma ms_helpers_counting [simp]:
  "0 \<le> r \<Longrightarrow> r < RAFT_MEMBERSHIP_WAIT_ITERS \<Longrightarrow> ms_counting (fst (wait_prev x r n))"
  "ms_counting (fst (submit_change op x p n))"
  by (auto simp: wait_prev_def submit_change_def RAFT_MEMBERSHIP_WAIT_ITERS_def case_prod_beta)

lemma ms_helpers_rank [simp]:
  "0 \<le> r \<Longrightarrow> r < RAFT_MEMBERSHIP_WAIT_ITERS \<Longrightarrow> ms_rank (fst (wait_prev x r n)) < 101 + nat (RAFT_MEMBERSHIP_WAIT_ITERS - r)"
  "ms_rank (fst (submit_change op x p n)) < 101"
  by (auto simp: wait_prev_def submit_change_def RAFT_MEMBERSHIP_WAIT_ITERS_def case_prod_beta)

lemma ms_rank_0: "ms_counting pc \<Longrightarrow> ms_rank pc = 0 \<Longrightarrow> \<exists>ret. pc = Done ret"
  by (cases pc) auto

interpretation add_call: polling AddServer_step ms_counting ms_rank
proof
  fix pc :: "ServerInfo ms_pc" and n
  assume c: "ms_counting pc"
  then show "ms_counting (fst (AddServer_step pc n))"
    by (cases pc) (auto simp: RAFT_MEMBERSHIP_WAIT_ITERS_def)
  assume "ms_rank pc \<noteq> 0"
  with c show "ms_rank (fst (AddServer_step pc n)) < ms_rank pc"
    by (cases pc) (auto simp: RAFT_MEMBERSHIP_WAIT_ITERS_def ms_helpers_rank [unfolded RAFT_MEMBERSHIP_WAIT_ITERS_def])
qed (auto intro: ms_rank_0)

interpretation remove_call: polling "RemoveServer_step now" ms_counting ms_rank
proof
  fix pc :: "int ms_pc" and n
  assume c: "ms_counting pc"
  then show "ms_counting (fst (RemoveServer_step now pc n))"
    by (cases pc) (auto simp: RAFT_MEMBERSHIP_WAIT_ITERS_def)
  assume "ms_rank pc \<noteq> 0"
  with c show "ms_rank (fst (RemoveServer_step now pc n)) < ms_rank pc"
    by (cases pc) (auto simp: RAFT_MEMBERSHIP_WAIT_ITERS_def ms_helpers_rank [unfolded RAFT_MEMBERSHIP_WAIT_ITERS_def])
qed (auto intro: ms_rank_0)

section \<open>Frames\<close>

lemma disk_inv_ms_fail: "disk_inv n \<Longrightarrow> disk_inv (snd (ms_fail code n))"
  by (erule disk_inv_frame) (auto simp: ms_fail_def getLastKnownLeaderRaftAddr_def case_prod_beta)

lemma disk_inv_wait_prev: "disk_inv n \<Longrightarrow> disk_inv (snd (wait_prev x r n))"
  by (auto simp: wait_prev_def disk_inv_ms_fail)

lemma disk_inv_submit_change:
  assumes "disk_inv n"
  shows "disk_inv (snd (submit_change op x p n))"
proof -
  have "disk_inv (snd (submit op n))"
    using assms by (rule disk_inv_submit) (rule prod.collapse [symmetric])
  then show ?thesis
    by (auto simp: submit_change_def case_prod_beta disk_inv_ms_fail)
qed

lemma disk_inv_AddServer_step: "disk_inv n \<Longrightarrow> disk_inv (snd (AddServer_step pc n))"
  by (cases pc) (auto simp: disk_inv_wait_prev disk_inv_submit_change disk_inv_ms_fail)

lemma disk_inv_RemoveServer_step: "disk_inv n \<Longrightarrow> disk_inv (snd (RemoveServer_step now pc n))"
  by (cases pc) (auto simp: disk_inv_wait_prev disk_inv_submit_change disk_inv_ms_fail disk_inv_becomeFollower i32_ok_def)

section \<open>Properties\<close>

lemma AddServer_begin_rank:
  assumes "AddServer_begin a n = Inr (pc, n1)"
  shows "ms_counting pc \<and> ms_rank pc \<le> 201"
  using assms ms_fail_simps [of NOT_LEADER n] ms_fail_simps [of SERVER_EXISTS n]
  by (auto simp: AddServer_begin_def RAFT_MEMBERSHIP_WAIT_ITERS_def elim!: rbind_Inr_E split: if_splits)
     (metis fst_conv ms_fail_simps zero_le)+

lemma RemoveServer_begin_rank:
  assumes "RemoveServer_begin a n = (pc, n1)"
  shows "ms_counting pc \<and> ms_rank pc \<le> 201"
  using assms ms_fail_simps [of NOT_LEADER n] ms_fail_simps [of SERVER_NOT_FOUND n]
  by (auto simp: RemoveServer_begin_def RAFT_MEMBERSHIP_WAIT_ITERS_def split: if_splits)
     (metis fst_conv ms_fail_simps zero_le)+

text \<open>C29. The membership calls always answer: whatever the other threads do to the replica between the
  looks at its state, \<open>AddServer\<close> and \<open>RemoveServer\<close> are done after at most 201 steps behind their
  first checks, two waits of at most 100 looks and the submission between them.\<close>

theorem membership_calls_end:
  assumes "AddServer_begin a n = Inr (pc, n1)" and "RemoveServer_begin b m = (qc, m1)"
  shows "(\<exists>ret. fst (poll AddServer_step env 201 (pc, n1)) = Done ret)
    \<and> (\<exists>ret. fst (poll (RemoveServer_step now) env 201 (qc, m1)) = Done ret)"
  using AddServer_begin_rank [OF assms(1)] RemoveServer_begin_rank [OF assms(2)]
    add_call.poll_ends [of "(pc, n1)" 201 env] remove_call.poll_ends [of "(qc, m1)" 201 now env] by simp

definition example_server :: AddServerParams where
  "example_server = \<lparr>as_serverId = 7, as_ip = ''10.0.0.7'', as_raftPort = 5007, as_dbPort = 6007, as_name = ''node7''\<rparr>"

theorem membership_calls_end_witness:
  "\<exists>pc ret ret'. AddServer_begin example_server leader_node = Inr (pc, leader_node)
     \<and> RemoveServer_begin \<lparr>rs_serverId = 2\<rparr> leader_node = (Wait_Prev 2 0, leader_node)
     \<and> fst (poll AddServer_step (\<lambda>_ n. n) 201 (pc, leader_node)) = Done ret
     \<and> fst (poll (RemoveServer_step 5) (\<lambda>_ n. n) 201 (Wait_Prev 2 0, leader_node)) = Done ret'"
proof -
  obtain pc where a: "AddServer_begin example_server leader_node = Inr (pc, leader_node)"
    by (simp add: AddServer_begin_def example_server_def config3_def new_server_def strcpy_def c_str_def NUL_def Let_def)
  have b: "RemoveServer_begin \<lparr>rs_serverId = 2\<rparr> leader_node = (Wait_Prev 2 0, leader_node)"
    by (simp add: RemoveServer_begin_def config3_def)
  show ?thesis
    using membership_calls_end [OF a b, of "\<lambda>_ n. n" 5] a b by blast
qed



text \<open>A leader that removes itself takes its term back to -1: when the removal is committed,
  \<open>RemoveServer\<close> makes the replica a follower of term -1, in memory and on disk.\<close>

lemma self_removal_resets_term:
  assumes inv: "disk_inv n" and "my_id n = sid" and "prev < LastConfigChangeIndex n" and "LastConfigChangeIndex n \<le> CommitIndex n"
    and s: "RemoveServer_step now (Wait_New sid prev r) n = (pc, n')"
  shows "pc = Done \<lparr>errorCode = OK, leaderAddr = []\<rparr> \<and> CurrentTerm n' = -1
    \<and> pstore_load (pStore n') ''CurrentTerm'' 0 (disk n') = -1"
proof -
  have n': "n' = becomeFollower (-1) now n" "pc = Done \<lparr>errorCode = OK, leaderAddr = []\<rparr>"
    using assms by auto
  have "disk_inv n'"
    unfolding n'(1) using inv by (rule disk_inv_becomeFollower) (simp add: i32_ok_def)
  then show ?thesis
    using n' by (auto simp: disk_inv_def meta_inv_def)
qed

lemma self_removal_resets_term_witness:
  "CurrentTerm (snd (RemoveServer_step 5 (Wait_New 1 (-1) 0) (voter_node\<lparr>LastConfigChangeIndex := 0, CommitIndex := 0\<rparr>))) = -1"
proof -
  let ?n = "voter_node\<lparr>LastConfigChangeIndex := 0, CommitIndex := 0\<rparr>"
  have "disk_inv ?n"
    using voter_node_inv by (rule disk_inv_frame) simp_all
  moreover have "my_id ?n = 1"
    by (simp add: voter_node_def bootstrap_def Let_def case_prod_beta raft_persist_def)
  ultimately show ?thesis
    using self_removal_resets_term [OF _ _ _ _ surjective_pairing, of ?n 1 "-1" 5 0] by simp
qed

end
