(* ===== verification/RaftElection.thy ===== *)
theory RaftElection
  imports RaftFollower
begin

text \<open>
  \<open>ohmyraft/OhMyRaft.H\<close>, fourth part: elections. \<open>startElection\<close> makes the replica a candidate of
  the next term and detaches one thread per peer; such a thread reads the log under the mutex
  (\<open>vote_prepare\<close>), calls the peer through its router (\<open>vote_send\<close>) and counts the answer under the
  mutex again (\<open>vote_reply\<close>). \<open>electionImpl_body\<close> is one turn of the timer loop; the timeout it
  works with was drawn once, between 3500 and 5000 ms, by \<open>getRandomElectionTimeout\<close>.
\<close>

definition getRandomElectionTimeout :: "(int \<Rightarrow> int \<Rightarrow> int) \<Rightarrow> int" where
  "getRandomElectionTimeout uniform_int = uniform_int 3500 5000"

definition startElection :: "int \<Rightarrow> node \<Rightarrow> ((int \<times> int) list \<times> node) res" where
  "startElection now n =
     rbind (i32_add (CurrentTerm n) 1) (\<lambda>t.
       let n1 = becomeCandidate t now n;
           savedCurrentTerm = CurrentTerm n1;
           n2 = n1\<lparr>VotesReceived := 1\<rparr>
       in Inr (map (\<lambda>p. (p, savedCurrentTerm)) (om_keys (peers n2)), n2))"

definition vote_prepare :: "int \<Rightarrow> node \<Rightarrow> RequestVoteParams" where
  "vote_prepare savedCurrentTerm n =
     \<lparr>rv_candidateId = my_id n, rv_term = savedCurrentTerm,
      rv_lastLogIndex = int (length (log_of n)) - 1,
      rv_lastLogTerm = (if log_of n \<noteq> [] then log_term (last (log_of n)) else -1)\<rparr>"

definition vote_send :: "(RequestVoteParams \<Rightarrow> RequestVoteRet option) \<Rightarrow> int \<Rightarrow> RequestVoteParams
    \<Rightarrow> node \<Rightarrow> RequestVoteRet option res" where
  "vote_send call peer a n =
     (case om_find (peers n) peer of
        None \<Rightarrow> Inl Null_Pointer
      | Some r \<Rightarrow> Inr (snd (router_RequestVote call r a)))"

definition vote_reply :: "int \<Rightarrow> RequestVoteRet \<Rightarrow> int \<Rightarrow> node \<Rightarrow> node" where
  "vote_reply savedCurrentTerm reply now n =
     (if Role n \<noteq> Candidate then n
      else if rvr_term reply > savedCurrentTerm then becomeFollower (rvr_term reply) now n
      else if rvr_term reply = savedCurrentTerm then
        if rvr_voteGranted reply then
          (let n1 = n\<lparr>VotesReceived := VotesReceived n + 1\<rparr> in
           if VotesReceived n1 * 2 > int (length (ClusterConfig n1)) then becomeLeader now n1 else n1)
        else n
      else n)"

definition electionImpl_body :: "int \<Rightarrow> int \<Rightarrow> node \<Rightarrow> ((int \<times> int) list \<times> node) res" where
  "electionImpl_body electionTimeoutMillis now n =
     (let timedOut = (now - ElectionResetEvent n > electionTimeoutMillis) in
      case Role n of
        Leader \<Rightarrow> Inr ([], n)
      | Candidate \<Rightarrow> Inr ([], n)
      | Follower \<Rightarrow> if timedOut then startElection now n else Inr ([], n)
      | Dead \<Rightarrow> Inr ([], n\<lparr>keepRunning := False\<rparr>))"

section \<open>What an election does\<close>

lemma startElection_ok:
  assumes "i32_ok (CurrentTerm n + 1)"
  shows "startElection now n =
    Inr (map (\<lambda>p. (p, CurrentTerm n + 1)) (om_keys (peers n)), (becomeCandidate (CurrentTerm n + 1) now n)\<lparr>VotesReceived := 1\<rparr>)"
  using assms by (simp add: startElection_def i32_add_def Let_def)

lemma last_log_term_last: "last_log_term logs = (if logs \<noteq> [] then log_term (last logs) else -1)"
  by (simp add: last_log_term_def last_conv_nth)

lemma vote_prepare_params:
  "rv_candidateId (vote_prepare t n) = my_id n" "rv_term (vote_prepare t n) = t"
  "rv_lastLogIndex (vote_prepare t n) = int (length (log_of n)) - 1"
  "rv_lastLogTerm (vote_prepare t n) = last_log_term (log_of n)"
  by (simp_all add: vote_prepare_def last_log_term_last)

lemma vote_reply_cases:
  assumes "vote_reply saved reply now n = n'"
  obtains (same) "n' = n"
  | (stepdown) "Role n = Candidate" "saved < rvr_term reply" "n' = becomeFollower (rvr_term reply) now n"
  | (counted) "Role n = Candidate" "rvr_term reply = saved" "rvr_voteGranted reply"
      "n' = n\<lparr>VotesReceived := VotesReceived n + 1\<rparr>" "(VotesReceived n + 1) * 2 \<le> int (length (ClusterConfig n))"
  | (elected) "Role n = Candidate" "rvr_term reply = saved" "rvr_voteGranted reply"
      "n' = becomeLeader now (n\<lparr>VotesReceived := VotesReceived n + 1\<rparr>)" "int (length (ClusterConfig n)) < (VotesReceived n + 1) * 2"
proof -
  let ?won = "int (length (ClusterConfig n)) < (VotesReceived n + 1) * 2"
  show ?thesis
  proof (cases "Role n = Candidate")
    case c: True
    show ?thesis
    proof (cases "saved < rvr_term reply")
      case True
      then show ?thesis
        using assms c by (intro stepdown) (simp_all add: vote_reply_def)
    next
      case f: False
      show ?thesis
      proof (cases "rvr_term reply = saved \<and> rvr_voteGranted reply")
        case True
        then show ?thesis
          using assms c by (cases ?won) (auto intro: elected counted simp: vote_reply_def Let_def)
      next
        case False
        then show ?thesis
          using assms c f by (intro same) (auto simp: vote_reply_def)
      qed
    qed
  next
    case False
    then show ?thesis
      using assms by (intro same) (simp add: vote_reply_def)
  qed
qed

lemma disk_inv_startElection:
  assumes "disk_inv n" and "startElection now n = Inr (threads, n')"
  shows "disk_inv n'"
proof -
  have t: "i32_ok (CurrentTerm n + 1)" and n': "n' = (becomeCandidate (CurrentTerm n + 1) now n)\<lparr>VotesReceived := 1\<rparr>"
    using assms(2) by (auto simp: startElection_def i32_add_def Let_def split: if_splits)
  have "disk_inv (becomeCandidate (CurrentTerm n + 1) now n)"
    using assms(1) t by (rule disk_inv_becomeCandidate)
  then show ?thesis
    unfolding n' by (rule disk_inv_frame) simp_all
qed

lemma disk_inv_vote_reply:
  assumes inv: "disk_inv n" and "i32_ok (rvr_term reply)"
  shows "disk_inv (vote_reply saved reply now n)"
proof -
  have c: "disk_inv (n\<lparr>VotesReceived := v\<rparr>)" for v
    using inv by (rule disk_inv_frame) simp_all
  show ?thesis
    using assms c by (auto simp: vote_reply_def Let_def intro: disk_inv_becomeFollower disk_inv_becomeLeader)
qed

lemma disk_inv_electionImpl:
  assumes inv: "disk_inv n" and "electionImpl_body tmo now n = Inr (threads, n')"
  shows "disk_inv n'"
proof -
  have d: "disk_inv (n\<lparr>keepRunning := False\<rparr>)"
    using inv by (rule disk_inv_frame) simp_all
  show ?thesis
    using assms d disk_inv_startElection
    by (auto simp: electionImpl_body_def split: RaftRole.splits if_splits)
qed

text \<open>A candidate stays one whatever the timer says: only a message changes its role.\<close>

lemma candidate_timer: "Role n = Candidate \<Longrightarrow> electionImpl_body tmo now n = Inr ([], n)"
  by (simp add: electionImpl_body_def)

section \<open>Properties\<close>

text \<open>C28. When a follower's timer runs out it becomes a candidate of the next term that has voted for
  itself and counts one vote, term and vote are on disk, and one vote request is started per peer, all
  of them for the new term. A term at the end of the 32-bit range is a signed overflow instead.\<close>

theorem election_starts:
  assumes inv: "disk_inv n" and role: "Role n = Follower" and tmo: "now - ElectionResetEvent n > tmo"
  shows "if CurrentTerm n = 2147483647 then electionImpl_body tmo now n = Inl Signed_Overflow
    else \<exists>n'. electionImpl_body tmo now n = Inr (map (\<lambda>p. (p, CurrentTerm n + 1)) (om_keys (peers n)), n')
      \<and> Role n' = Candidate \<and> CurrentTerm n' = CurrentTerm n + 1 \<and> VotedFor n' = my_id n \<and> VotesReceived n' = 1
      \<and> pstore_load (pStore n') ''VotedFor'' (-1) (disk n') = my_id n
      \<and> pstore_load (pStore n') ''CurrentTerm'' 0 (disk n') = CurrentTerm n + 1"
proof -
  have t: "i32_ok (CurrentTerm n)"
    using inv by (simp add: disk_inv_def meta_inv_def)
  show ?thesis
  proof (cases "CurrentTerm n = 2147483647")
    case True
    then show ?thesis
      using role tmo by (simp add: electionImpl_body_def startElection_def i32_add_def i32_ok_def)
  next
    case False
    then have t1: "i32_ok (CurrentTerm n + 1)"
      using t by (simp add: i32_ok_def)
    let ?n = "(becomeCandidate (CurrentTerm n + 1) now n)\<lparr>VotesReceived := 1\<rparr>"
    have e: "electionImpl_body tmo now n = Inr (map (\<lambda>p. (p, CurrentTerm n + 1)) (om_keys (peers n)), ?n)"
      using role tmo startElection_ok [OF t1] by (simp add: electionImpl_body_def)
    then have "disk_inv ?n"
      using disk_inv_electionImpl [OF inv] by blast
    then show ?thesis
      using e False by (simp add: disk_inv_def meta_inv_def)
  qed
qed

theorem election_starts_witness:
  "\<exists>n'. electionImpl_body 4000 9000 voter_node = Inr ([(2, 1)], n') \<and> Role n' = Candidate \<and> CurrentTerm n' = 1"
proof -
  have "ElectionResetEvent voter_node = 0" "om_keys (peers voter_node) = [2]"
    by (simp_all add: voter_node_def bootstrap_def blank_node_def RaftManager_init_def Let_def case_prod_beta raft_persist_def om_keys_def)
  then show ?thesis
    using election_starts [OF voter_node_inv, where now = 9000 and tmo = 4000] by auto
qed

text \<open>A candidate becomes leader only by a granted vote that makes the votes counted more than half
  of the configuration; it then leads in its unchanged term, expects every peer to need the entry
  behind its log next and to match nothing yet.\<close>

lemma election_needs_majority:
  assumes n': "vote_reply saved reply now n = n'" and lead: "Role n' = Leader" "Role n \<noteq> Leader"
    and peers: "om_find (peers n) p = Some r"
  shows "Role n = Candidate \<and> rvr_voteGranted reply \<and> rvr_term reply = saved
    \<and> int (length (ClusterConfig n)) < 2 * (VotesReceived n + 1) \<and> CurrentTerm n' = CurrentTerm n
    \<and> LastKnownLeaderId n' = my_id n \<and> om_find (NextIndex n') p = Some (int (length (log_of n)))
    \<and> om_find (MatchIndex n') p = Some (-1)"
  using n'
proof (cases rule: vote_reply_cases)
  case elected
  have mem: "p \<in> set (om_keys (peers n))"
    using peers om_find_mem_keys [of "peers n" p] by simp
  have tab: "om_find (foldl (\<lambda>m q. om_put q v m) m0 ps) p = (if p \<in> set ps then Some v else om_find m0 p)" for v :: int and m0 ps
    by (induction ps arbitrary: m0) auto
  show ?thesis
    using elected mem tab by (simp add: becomeLeader_def)
qed (use lead in auto)

text \<open>A new leader forgets its own vote: \<open>becomeLeader\<close> sets \<open>VotedFor\<close> back within the term, so a
  replica that has just won an election grants its vote to any peer of the same term whose log is at
  least as up to date.\<close>

lemma leader_votes_again:
  assumes "Role (vote_reply saved reply now n) = Leader" and "Role n = Candidate"
    and "om_find (peers n) c \<noteq> None"
  shows "rvr_voteGranted (fst (RequestVote \<lparr>rv_candidateId = c, rv_term = CurrentTerm n,
    rv_lastLogIndex = int (length (log_of n)) - 1, rv_lastLogTerm = last_log_term (log_of n)\<rparr> now' (vote_reply saved reply now n)))"
proof -
  have "vote_reply saved reply now n = becomeLeader now (n\<lparr>VotesReceived := VotesReceived n + 1\<rparr>)"
    using assms(1,2) by (cases rule: vote_reply_cases [OF refl, of saved reply now n]) auto
  then show ?thesis
    using assms(3) by (simp add: RequestVote_granted_iff)
qed

text \<open>A vote answers the election of the thread that asked for it, but is counted in whatever
  election runs when it arrives: a granted vote of an older term raises the count of a candidate of a
  newer one and can elect it.\<close>

lemma stale_vote_counts:
  assumes "Role n = Candidate" and "rvr_term reply = saved" and "rvr_voteGranted reply" and "saved < CurrentTerm n"
  shows "VotesReceived (vote_reply saved reply now n) = VotesReceived n + 1
    \<and> (Role (vote_reply saved reply now n) = Leader \<longleftrightarrow> int (length (ClusterConfig n)) < 2 * (VotesReceived n + 1))
    \<and> CurrentTerm (vote_reply saved reply now n) = CurrentTerm n"
  using assms by (simp add: vote_reply_def Let_def)

lemma stale_vote_counts_witness:
  "Role (vote_reply 3 \<lparr>rvr_term = 3, rvr_voteGranted = True\<rparr> 6
     (blank_node\<lparr>Role := Candidate, CurrentTerm := 8, VotesReceived := 1\<rparr>)) = Leader"
  using stale_vote_counts [of "blank_node\<lparr>Role := Candidate, CurrentTerm := 8, VotesReceived := 1\<rparr>"
      "\<lparr>rvr_term = 3, rvr_voteGranted = True\<rparr>" 3 6]
  by simp

text \<open>Several turns of the timer loop, at the given times, with the vote threads they start.\<close>

fun timer_turns :: "int \<Rightarrow> int list \<Rightarrow> node \<Rightarrow> ((int \<times> int) list \<times> node) res" where
  "timer_turns tmo [] n = Inr ([], n)"
| "timer_turns tmo (now # nows) n =
     rbind (electionImpl_body tmo now n) (\<lambda>(ths, n1).
     rbind (timer_turns tmo nows n1) (\<lambda>(ths', n2). Inr (ths @ ths', n2)))"

text \<open>A replica without peers never leads: however often and late its timer fires, it stays
  follower or, after its one election, a candidate that never tries again, and no vote thread is
  started.\<close>

lemma lone_replica_never_leads:
  assumes "peers n = []" and "Role n = Follower \<or> Role n = Candidate" and "timer_turns tmo nows n = Inr (threads, n')"
  shows "threads = [] \<and> (Role n' = Follower \<or> Role n' = Candidate) \<and> (Role n = Candidate \<longrightarrow> n' = n)"
  using assms
proof (induction nows arbitrary: n threads)
  case (Cons now nows)
  then obtain ths n1 ths' where e: "electionImpl_body tmo now n = Inr (ths, n1)" and t: "timer_turns tmo nows n1 = Inr (ths', n')"
      and th: "threads = ths @ ths'"
    by (auto elim!: rbind_Inr_E)
  have "ths = [] \<and> peers n1 = [] \<and> (Role n1 = Follower \<or> Role n1 = Candidate) \<and> (Role n = Candidate \<longrightarrow> n1 = n)"
    using e Cons.prems(1,2)
    by (auto simp: electionImpl_body_def startElection_def i32_add_def om_keys_def Let_def split: if_splits)
  then show ?case
    using Cons.IH [OF _ _ t] Cons.prems(2) th by auto
qed simp

lemma lone_replica_never_leads_witness:
  "\<exists>n'. timer_turns 4000 [5000, 20000] blank_node = Inr ([], n') \<and> Role n' \<noteq> Leader"
proof -
  have "ElectionResetEvent blank_node = 0"
    by (simp add: blank_node_def RaftManager_init_def)
  then obtain threads n' where r: "timer_turns 4000 [5000, 20000] blank_node = Inr (threads, n')"
    by (simp add: electionImpl_body_def startElection_def i32_add_def i32_ok_def Let_def)
  show ?thesis
    using lone_replica_never_leads [OF _ _ r] r by auto
qed

end
