(* ===== verification/RaftServiceImpl.thy ===== *)
theory RaftServiceImpl
  imports RaftMembership RaftElection
begin

text \<open>
  \<open>ohmyserver/RaftServiceImpl.C\<close>: both ends of the Raft RPCs. \<open>RaftClient\<close> repackages the parameter
  structures into protobuf messages and \<open>RaftService\<close> unpacks them again and calls the replica. The
  messages of \<open>raft.proto\<close> are records; a call over the wire is the argument \<open>stub\<close>, whose result
  \<open>None\<close> is a status that is not OK. Log entries travel as the bytes of an array of
  \<open>TransportEntry\<close>. Uninitialised locals are the arguments \<open>junk\<close>.
\<close>

section \<open>Messages\<close>

record AppendEntriesRequest =
  areq_term :: int
  areq_leader_id :: int
  areq_prev_log_index :: int
  areq_prev_log_term :: int
  areq_entries :: "byte list"
  areq_leader_commit :: int

record AppendEntriesResponse =
  arsp_term :: int
  arsp_success :: int

record RequestVoteRequest =
  vreq_term :: int
  vreq_candidate_id :: int
  vreq_last_log_index :: int
  vreq_last_log_term :: int

record RequestVoteResponse =
  vrsp_term :: int
  vrsp_vote_granted :: int

record AddServerRequest =
  sreq_server_id :: int
  sreq_ip :: string
  sreq_db_port :: int
  sreq_raft_port :: int
  sreq_name :: string

record RemoveServerRequest =
  rreq_server_id :: int

text \<open>\<open>AddServerResponse\<close> and \<open>RemoveServerResponse\<close> have the same fields.\<close>

record MembershipResponse =
  mrsp_error_code :: int
  mrsp_leader_addr :: string

record NetworkUpdateRequest =
  nreq_num_entries :: int
  nreq_data :: "byte list"

definition bool_int :: "bool \<Rightarrow> int" where
  "bool_int b = (if b then 1 else 0)"

section \<open>The server\<close>

text \<open>
  The members of \<open>ReplicaManager\<close> (\<open>ohmydb/OhMyReplica.H\<close>) through which the service reaches the Raft
  core.
\<close>

definition ReplicaManager_AppendEntries :: "AppendEntriesParams \<Rightarrow> int \<Rightarrow> node \<Rightarrow> (AppendEntriesRet \<times> node) res" where
  "ReplicaManager_AppendEntries a now n = AppendEntries a now n"

definition ReplicaManager_RequestVote :: "RequestVoteParams \<Rightarrow> int \<Rightarrow> node \<Rightarrow> RequestVoteRet \<times> node" where
  "ReplicaManager_RequestVote a now n = RequestVote a now n"

definition ReplicaManager_AddServer :: "AddServerParams \<Rightarrow> node \<Rightarrow> (ServerInfo ms_pc \<times> node) res" where
  "ReplicaManager_AddServer a n = AddServer_begin a n"

definition ReplicaManager_RemoveServer :: "RemoveServerParams \<Rightarrow> node \<Rightarrow> int ms_pc \<times> node" where
  "ReplicaManager_RemoveServer a n = RemoveServer_begin a n"

definition ReplicaManager_NetworkUpdate :: "PeerNetworkConfig list \<Rightarrow> node \<Rightarrow> node" where
  "ReplicaManager_NetworkUpdate pVec n = NetworkUpdate pVec n"

lemmas replica_manager_simps [simp] =
  ReplicaManager_AppendEntries_def ReplicaManager_RequestVote_def ReplicaManager_AddServer_def
  ReplicaManager_RemoveServer_def ReplicaManager_NetworkUpdate_def

definition TestCall :: "int \<Rightarrow> int" where
  "TestCall cmd = cmd"

definition decode_args :: "TransportEntry \<Rightarrow> op_args" where
  "decode_args e =
     (if te_kind e = GET then ArgKey (te_arg1 e)
      else if te_kind e = PUT then ArgPair (te_arg1 e) (te_arg2 e)
      else if te_kind e = ADD_SERVER then ArgServer (te_serverInfo e)
      else ArgKey (te_arg1 e))"

definition decode_entry :: "TransportEntry \<Rightarrow> AppendLogEntry" where
  "decode_entry e =
     \<lparr>ale_term = te_term e, ale_index = te_index e,
      ale_op = \<lparr>kind = te_kind e, args = decode_args e, promiseHandle = None\<rparr>\<rparr>"

definition decode_AppendEntries :: "AppendEntriesRequest \<Rightarrow> AppendEntriesParams res" where
  "decode_AppendEntries rq =
     rbind (unpack_records 77 TransportEntry_of_bytes (areq_entries rq)) (\<lambda>es.
     Inr \<lparr>ae_term = areq_term rq, ae_leaderId = areq_leader_id rq, ae_prevLogIndex = areq_prev_log_index rq,
          ae_prevLogTerm = areq_prev_log_term rq, ae_entries = map decode_entry es,
          ae_leaderCommit = areq_leader_commit rq\<rparr>)"

definition RaftService_AppendEntries :: "AppendEntriesRequest \<Rightarrow> int \<Rightarrow> node \<Rightarrow> (AppendEntriesResponse \<times> node) res" where
  "RaftService_AppendEntries rq now n =
     rbind (decode_AppendEntries rq) (\<lambda>param.
     rbind (ReplicaManager_AppendEntries param now n) (\<lambda>(ret, n').
     Inr (\<lparr>arsp_term = aer_term ret, arsp_success = bool_int (aer_success ret)\<rparr>, n')))"

definition RaftService_RequestVote :: "RequestVoteRequest \<Rightarrow> int \<Rightarrow> node \<Rightarrow> RequestVoteResponse \<times> node" where
  "RaftService_RequestVote rq now n =
     (case ReplicaManager_RequestVote \<lparr>rv_candidateId = vreq_candidate_id rq, rv_term = vreq_term rq,
                        rv_lastLogIndex = vreq_last_log_index rq, rv_lastLogTerm = vreq_last_log_term rq\<rparr> now n of
        (ret, n') \<Rightarrow> (\<lparr>vrsp_term = rvr_term ret, vrsp_vote_granted = bool_int (rvr_voteGranted ret)\<rparr>, n'))"

definition decode_AddServer :: "string \<Rightarrow> string \<Rightarrow> AddServerRequest \<Rightarrow> AddServerParams res" where
  "decode_AddServer junk_ip junk_name rq =
     rbind (strcpy junk_ip (sreq_ip rq)) (\<lambda>ip.
     rbind (strcpy junk_name (sreq_name rq)) (\<lambda>name.
     Inr \<lparr>as_serverId = sreq_server_id rq, as_ip = ip, as_raftPort = sreq_raft_port rq,
          as_dbPort = sreq_db_port rq, as_name = name\<rparr>))"

text \<open>
  The membership calls answer when the polling call of the replica is done: here their first step,
  and the response made from what they return in the end.
\<close>

definition RaftService_AddServer :: "string \<Rightarrow> string \<Rightarrow> AddServerRequest \<Rightarrow> node \<Rightarrow> (ServerInfo ms_pc \<times> node) res" where
  "RaftService_AddServer junk_ip junk_name rq n =
     rbind (decode_AddServer junk_ip junk_name rq) (\<lambda>param. ReplicaManager_AddServer param n)"

definition RaftService_RemoveServer :: "RemoveServerRequest \<Rightarrow> node \<Rightarrow> int ms_pc \<times> node" where
  "RaftService_RemoveServer rq n = ReplicaManager_RemoveServer \<lparr>rs_serverId = rreq_server_id rq\<rparr> n"

definition membership_response :: "MembershipRet \<Rightarrow> MembershipResponse" where
  "membership_response ret = \<lparr>mrsp_error_code = ErrorCode_int (errorCode ret), mrsp_leader_addr = leaderAddr ret\<rparr>"

definition RaftService_NetworkUpdate :: "NetworkUpdateRequest \<Rightarrow> node \<Rightarrow> node res" where
  "RaftService_NetworkUpdate rq n =
     rbind (unpack_records 10 PeerNetworkConfig_of_bytes (nreq_data rq)) (\<lambda>pVec. Inr (ReplicaManager_NetworkUpdate pVec n))"

section \<open>The client\<close>

definition RaftClient_Ping :: "(int \<Rightarrow> int option) \<Rightarrow> int \<Rightarrow> int" where
  "RaftClient_Ping stub cmd = (case stub cmd of Some ok \<Rightarrow> ok | None \<Rightarrow> -1)"

definition encode_args :: "ServerInfo \<Rightarrow> RaftOp \<Rightarrow> (int \<times> int \<times> ServerInfo) res" where
  "encode_args junk op =
     (case kind op of
        GET \<Rightarrow> rbind (get_key (args op)) (\<lambda>k. Inr (k, 0, junk))
      | PUT \<Rightarrow> rbind (get_pair (args op)) (\<lambda>(k, v). Inr (k, v, junk))
      | ADD_SERVER \<Rightarrow> rbind (get_server (args op)) (\<lambda>s. Inr (0, 0, s))
      | REMOVE_SERVER \<Rightarrow> rbind (get_key (args op)) (\<lambda>k. Inr (k, 0, junk))
      | Unknown_Op _ \<Rightarrow> Inr (0, 0, junk))"

definition encode_entry :: "ServerInfo \<Rightarrow> AppendLogEntry \<Rightarrow> TransportEntry res" where
  "encode_entry junk e =
     rbind (encode_args junk (ale_op e)) (\<lambda>(arg1, arg2, serverInfo).
     Inr \<lparr>te_term = ale_term e, te_index = ale_index e, te_kind = kind (ale_op e),
          te_arg1 = arg1, te_arg2 = arg2, te_serverInfo = serverInfo\<rparr>)"

definition encode_AppendEntries :: "ServerInfo \<Rightarrow> AppendEntriesParams \<Rightarrow> AppendEntriesRequest res" where
  "encode_AppendEntries junk a =
     rbind (res_map (encode_entry junk) (ae_entries a)) (\<lambda>es.
     Inr \<lparr>areq_term = ae_term a, areq_leader_id = ae_leaderId a, areq_prev_log_index = ae_prevLogIndex a,
          areq_prev_log_term = ae_prevLogTerm a, areq_entries = concat (map TransportEntry_bytes es),
          areq_leader_commit = ae_leaderCommit a\<rparr>)"

definition RaftClient_AppendEntries :: "ServerInfo \<Rightarrow> (AppendEntriesRequest \<Rightarrow> AppendEntriesResponse option)
    \<Rightarrow> AppendEntriesParams \<Rightarrow> AppendEntriesRet option res" where
  "RaftClient_AppendEntries junk stub a =
     rbind (encode_AppendEntries junk a) (\<lambda>rq.
     Inr (case stub rq of
            Some rsp \<Rightarrow> Some \<lparr>aer_term = arsp_term rsp, aer_success = (arsp_success rsp \<noteq> 0)\<rparr>
          | None \<Rightarrow> None))"

definition RaftClient_RequestVote :: "(RequestVoteRequest \<Rightarrow> RequestVoteResponse option)
    \<Rightarrow> RequestVoteParams \<Rightarrow> RequestVoteRet option" where
  "RaftClient_RequestVote stub a =
     (case stub \<lparr>vreq_term = rv_term a, vreq_candidate_id = rv_candidateId a,
                 vreq_last_log_index = rv_lastLogIndex a, vreq_last_log_term = rv_lastLogTerm a\<rparr> of
        None \<Rightarrow> None
      | Some rsp \<Rightarrow> Some \<lparr>rvr_term = vrsp_term rsp, rvr_voteGranted = (vrsp_vote_granted rsp \<noteq> 0)\<rparr>)"

definition encode_AddServer :: "AddServerParams \<Rightarrow> AddServerRequest" where
  "encode_AddServer a =
     \<lparr>sreq_server_id = as_serverId a, sreq_ip = c_str (as_ip a), sreq_db_port = as_dbPort a,
      sreq_raft_port = as_raftPort a, sreq_name = c_str (as_name a)\<rparr>"

definition RaftClient_AddServer :: "(AddServerRequest \<Rightarrow> MembershipResponse option) \<Rightarrow> AddServerParams \<Rightarrow> MembershipRet option" where
  "RaftClient_AddServer stub a =
     (case stub (encode_AddServer a) of
        None \<Rightarrow> None
      | Some rsp \<Rightarrow> Some \<lparr>errorCode = ErrorCode_of_int (mrsp_error_code rsp), leaderAddr = mrsp_leader_addr rsp\<rparr>)"

definition RaftClient_RemoveServer :: "(RemoveServerRequest \<Rightarrow> MembershipResponse option) \<Rightarrow> RemoveServerParams \<Rightarrow> MembershipRet option" where
  "RaftClient_RemoveServer stub a =
     (case stub \<lparr>rreq_server_id = rs_serverId a\<rparr> of
        None \<Rightarrow> None
      | Some rsp \<Rightarrow> Some \<lparr>errorCode = ErrorCode_of_int (mrsp_error_code rsp), leaderAddr = mrsp_leader_addr rsp\<rparr>)"

definition RaftClient_NetworkUpdate :: "PeerNetworkConfig list \<Rightarrow> NetworkUpdateRequest" where
  "RaftClient_NetworkUpdate pVec =
     \<lparr>nreq_num_entries = int (length pVec), nreq_data = concat (map PeerNetworkConfig_bytes pVec)\<rparr>"

section \<open>Round trips\<close>

text \<open>What the wire preserves: entries in range, with the argument their kind calls for, without their promise.\<close>

definition wire_entry :: "AppendLogEntry \<Rightarrow> bool" where
  "wire_entry e \<longleftrightarrow> i32_ok (ale_term e) \<and> i32_ok (ale_index e) \<and> op_ok (ale_op e) \<and> op_typed (ale_op e)
     \<and> promiseHandle (ale_op e) = None"

lemma encode_entry_ok:
  assumes "wire_entry e" and "ServerInfo_ok junk"
  shows "\<exists>te. encode_entry junk e = Inr te \<and> TransportEntry_ok te \<and> decode_entry te = e"
proof (cases "ale_op e")
  case (fields k a h)
  then show ?thesis
    using assms
    by (cases k; cases a)
       (auto simp: wire_entry_def encode_entry_def encode_args_def decode_entry_def decode_args_def
          TransportEntry_ok_def op_ok_def i32_ok_def)
qed

lemma encode_entries_ok:
  assumes "list_all wire_entry es" and "ServerInfo_ok junk"
  shows "\<exists>tes. res_map (encode_entry junk) es = Inr tes \<and> list_all TransportEntry_ok tes \<and> map decode_entry tes = es"
  using assms(1)
proof (induction es)
  case (Cons e es)
  then obtain te tes where "encode_entry junk e = Inr te" "TransportEntry_ok te" "decode_entry te = e"
      "res_map (encode_entry junk) es = Inr tes" "list_all TransportEntry_ok tes" "map decode_entry tes = es"
    using encode_entry_ok [OF _ assms(2), of e] by auto
  then show ?case by simp
qed simp

lemma AppendEntries_wire:
  assumes "list_all wire_entry (ae_entries a)" and "ServerInfo_ok junk"
  shows "\<exists>rq. encode_AppendEntries junk a = Inr rq \<and> decode_AppendEntries rq = Inr a"
proof -
  obtain tes where "res_map (encode_entry junk) (ae_entries a) = Inr tes" "list_all TransportEntry_ok tes"
      "map decode_entry tes = ae_entries a"
    using encode_entries_ok [OF assms] by blast
  then show ?thesis
    by (simp add: encode_AppendEntries_def decode_AppendEntries_def transport_entry.unpack_enc)
qed

lemma NetworkUpdate_wire:
  "list_all PeerNetworkConfig_ok pVec \<Longrightarrow> RaftService_NetworkUpdate (RaftClient_NetworkUpdate pVec) n = Inr (NetworkUpdate pVec n)"
  by (simp add: RaftService_NetworkUpdate_def RaftClient_NetworkUpdate_def peer_config.unpack_enc)

section \<open>Properties\<close>

text \<open>C21. The wire is transparent for \<open>AppendEntries\<close>: for entries within the 32-bit range whose argument
  fits their kind, whatever the uninitialised structure holds, the request the client packs, served by
  the other side, has the effect of calling the replica directly, and the client reads the reply the
  replica gave.\<close>

theorem AppendEntries_over_wire:
  assumes "list_all wire_entry (ae_entries a)" and "ServerInfo_ok junk"
    and n': "AppendEntries a now n = Inr (ret, n')"
    and stub: "\<And>rq. stub rq = (case RaftService_AppendEntries rq now n of Inr (rsp, _) \<Rightarrow> Some rsp | Inl _ \<Rightarrow> None)"
  shows "RaftClient_AppendEntries junk stub a = Inr (Some ret)
    \<and> (\<exists>rq rsp. encode_AppendEntries junk a = Inr rq \<and> RaftService_AppendEntries rq now n = Inr (rsp, n'))"
proof -
  obtain rq where rq: "encode_AppendEntries junk a = Inr rq" "decode_AppendEntries rq = Inr a"
    using AppendEntries_wire [OF assms(1,2)] by blast
  have s: "RaftService_AppendEntries rq now n = Inr (\<lparr>arsp_term = aer_term ret, arsp_success = bool_int (aer_success ret)\<rparr>, n')"
    using rq(2) n' by (simp add: RaftService_AppendEntries_def)
  then show ?thesis
    using rq(1) by (simp add: RaftClient_AppendEntries_def stub bool_int_def)
qed

theorem AppendEntries_over_wire_witness:
  "\<exists>ret. RaftClient_AppendEntries ServerInfo_zero
     (\<lambda>rq. case RaftService_AppendEntries rq 9 blank_node of Inr (rsp, _) \<Rightarrow> Some rsp | Inl _ \<Rightarrow> None) example_call = Inr (Some ret)"
proof -
  obtain ret n' where r: "AppendEntries example_call 9 blank_node = Inr (ret, n')"
    using AppendEntries_defined [OF example_call_safe] by blast
  have "list_all wire_entry (ae_entries example_call)"
    by (simp add: example_call_def wire_entry_def op_ok_def get_op_def i32_ok_def)
  then show ?thesis
    using AppendEntries_over_wire [OF _ ServerInfo_zero_ok r refl] by blast
qed



end
