(* ===== verification/OhMyReplica.thy ===== *)
theory OhMyReplica
  imports RaftServiceImpl
begin

text \<open>
  \<open>ohmydb/OhMyReplica.H\<close>, \<open>ohmydb/DatabaseUtils.H\<close>, \<open>ohmyserver/DatabaseServiceImpl.C\<close> and
  \<open>ohmyserver/DatabaseClient.H\<close>: the replica manager that joins the Raft core to the database
  service, and both ends of the database RPCs.

  \<open>get\<close> and \<open>put\<close> block on a future: \<open>get_begin\<close> and \<open>put_begin\<close> run up to that point and either
  answer at once or give the future to wait for (\<open>Await\<close>); \<open>get_finish\<close> and \<open>put_finish\<close> make the
  answer from the value set there. The argument \<open>ft\<close> names the future of the fresh promise.
  Channels and the LevelDB handle that \<open>initialiseServices\<close> opens are not part of the state; of the two servers
  it starts, the calls on their builders are given.
\<close>

section \<open>Answers of the database\<close>

datatype DbError = DB_OK | DB_NOT_LEADER | DB_KEY_NOT_FOUND | Unknown_DB int

record Ret =
  db_errorCode :: DbError
  db_leaderAddr :: string
  db_value :: int

fun DbError_int :: "DbError \<Rightarrow> int" where
  "DbError_int DB_OK = 0"
| "DbError_int DB_NOT_LEADER = 1"
| "DbError_int DB_KEY_NOT_FOUND = 2"
| "DbError_int (Unknown_DB i) = i"

definition DbError_of_int :: "int \<Rightarrow> DbError" where
  "DbError_of_int i = (if i = 0 then DB_OK else if i = 1 then DB_NOT_LEADER else if i = 2 then DB_KEY_NOT_FOUND else Unknown_DB i)"

definition Ret_str :: "Ret \<Rightarrow> string" where
  "Ret_str r =
     ''DBRet={'' @ ''errorCode='' @ to_string (DbError_int (db_errorCode r)) @ '' '' @ ''leaderAddr='' @ db_leaderAddr r
       @ '' '' @ ''value='' @ to_string (db_value r) @ ''}''"

section \<open>Starting a replica\<close>

text \<open>
  The loop that pings the peers until a majority answers: \<open>pings r i\<close> is the answer of peer \<open>i\<close> in
  round \<open>r\<close>. It gives the round in which it ends, or nothing when it never does.
\<close>

definition active_peers :: "(int \<Rightarrow> int) \<Rightarrow> int list \<Rightarrow> nat" where
  "active_peers ping ps = 1 + length (filter (\<lambda>i. ping i > 0) ps)"

partial_function (option) wait_for_peers ::
    "bool \<Rightarrow> (nat \<Rightarrow> int \<Rightarrow> int) \<Rightarrow> int list \<Rightarrow> nat \<Rightarrow> nat \<Rightarrow> nat option" where
  "wait_for_peers waitForPeers pings ps clusterSize r =
     (if \<not> waitForPeers \<or> active_peers (pings r) ps * 2 > clusterSize then Some r
      else wait_for_peers waitForPeers pings ps clusterSize (Suc r))"

definition peer_routers :: "int \<Rightarrow> (int, ServerInfo) omap \<Rightarrow> (int, router) omap" where
  "peer_routers me clusterConfig =
     map (\<lambda>(i, s). (i, router_new (c_str (si_ip s) @ '':'' @ to_string (raft_port s))))
       (filter (\<lambda>(i, s). i \<noteq> me) clusterConfig)"

text \<open>
  The addresses the two servers listen on. A missing entry of the replica itself is inserted into
  the local copy of the configuration by \<open>operator[]\<close>; the copy is also what the rest works with.
\<close>

definition listen_config :: "int \<Rightarrow> string \<Rightarrow> int \<Rightarrow> int \<Rightarrow> (int, ServerInfo) omap
    \<Rightarrow> (string \<times> int \<times> int) \<times> (int, ServerInfo) omap" where
  "listen_config me ip raftPort dbPort cfg =
     (let (ip', cfg1) = (if ip = [] then (case om_at ServerInfo_zero cfg me of (s, c) \<Rightarrow> (c_str (si_ip s), c)) else (ip, cfg));
          (dbPort', cfg2) = (if dbPort = -1 then (case om_at ServerInfo_zero cfg1 me of (s, c) \<Rightarrow> (db_port s, c)) else (dbPort, cfg1));
          (raftPort', cfg3) = (if raftPort = -1 then (case om_at ServerInfo_zero cfg2 me of (s, c) \<Rightarrow> (raft_port s, c)) else (raftPort, cfg2))
      in ((ip', raftPort', dbPort'), cfg3))"

text \<open>
  The servers. gRPC is third-party code: a \<open>ServerBuilder\<close> is known here by the calls made on it, the last of
  which starts a server.
\<close>

datatype grpc_service = Raft_Service | DB_Service

datatype builder_call = AddListeningPort string | RegisterService grpc_service | BuildAndStart

definition serve_on :: "string \<Rightarrow> grpc_service \<Rightarrow> builder_call list" where
  "serve_on addr sv = [AddListeningPort addr, RegisterService sv, BuildAndStart]"

definition initialiseServices :: "(int, ServerInfo) omap \<Rightarrow> int \<Rightarrow> bool \<Rightarrow> bool \<Rightarrow> string \<Rightarrow> string \<Rightarrow> int \<Rightarrow> int
    \<Rightarrow> (nat \<Rightarrow> int \<Rightarrow> int) \<Rightarrow> node \<Rightarrow> ((builder_call list \<times> builder_call list) \<times> node) option" where
  "initialiseServices clusterConfig me waitForPeers enableBootstrap storeDir ip raftPort dbPort pings n =
     (let n1 = setClusterConfig clusterConfig (bootstrap me enableBootstrap storeDir n);
          ((ip', raftPort', dbPort'), cfg) = listen_config me ip raftPort dbPort (getClusterConfig n1);
          raftBuilder = serve_on (ip' @ '':'' @ to_string raftPort') Raft_Service;
          ps = peer_routers me cfg
      in case wait_for_peers waitForPeers pings (om_keys ps) (length cfg) 0 of
           None \<Rightarrow> None
         | Some _ \<Rightarrow>
             Some ((raftBuilder, serve_on (ip' @ '':'' @ to_string dbPort') DB_Service),
                   foldl (\<lambda>m (i, r). addPeer i r m) n1 ps))"

text \<open>The destructor stops the loops as \<open>stop\<close> does.\<close>

definition ReplicaManager_start :: "node \<Rightarrow> node" where
  "ReplicaManager_start n = start n"

definition ReplicaManager_stop :: "node \<Rightarrow> node" where
  "ReplicaManager_stop n = stop n"

section \<open>Client requests\<close>

datatype request_pc = Answered Ret | Await nat

definition request_begin :: "OpType \<Rightarrow> op_args \<Rightarrow> int \<Rightarrow> nat \<Rightarrow> node \<Rightarrow> (request_pc \<times> node) res" where
  "request_begin k a failValue ft n =
     (case ps_insert ft (promises (services n)) of
        (it, ps) \<Rightarrow>
          let n1 = n\<lparr>services := (services n)\<lparr>promises := ps\<rparr>\<rparr> in
          case submit \<lparr>kind = k, args = a, promiseHandle = Some it\<rparr> n1 of
            ((isSubmitted, _), n2) \<Rightarrow>
              if \<not> isSubmitted then
                rbind (getAndRemove it (promises (services n2))) (\<lambda>(_, ps').
                  case getLastKnownLeaderDBAddr (n2\<lparr>services := (services n2)\<lparr>promises := ps'\<rparr>\<rparr>) of
                    (addr, n3) \<Rightarrow>
                      Inr (Answered \<lparr>db_errorCode = DB_NOT_LEADER, db_leaderAddr = addr, db_value = failValue\<rparr>, n3))
              else Inr (Await ft, n2))"

definition get_begin :: "int \<Rightarrow> nat \<Rightarrow> node \<Rightarrow> (request_pc \<times> node) res" where
  "get_begin key ft n = request_begin GET (ArgKey key) (-1) ft n"

definition put_begin :: "int \<times> int \<Rightarrow> nat \<Rightarrow> node \<Rightarrow> (request_pc \<times> node) res" where
  "put_begin kvp ft n = request_begin PUT (ArgPair (fst kvp) (snd kvp)) 0 ft n"

fun get_finish :: "op_res \<Rightarrow> Ret res" where
  "get_finish (ResGet None) = Inr \<lparr>db_errorCode = DB_KEY_NOT_FOUND, db_leaderAddr = [], db_value = -1\<rparr>"
| "get_finish (ResGet (Some v)) = Inr \<lparr>db_errorCode = DB_OK, db_leaderAddr = [], db_value = v\<rparr>"
| "get_finish (ResBool _) = Inl Bad_Variant_Access"

fun put_finish :: "op_res \<Rightarrow> Ret res" where
  "put_finish (ResBool b) = Inr \<lparr>db_errorCode = DB_OK, db_leaderAddr = [], db_value = (if b then 1 else 0)\<rparr>"
| "put_finish (ResGet _) = Inl Bad_Variant_Access"

text \<open>The value a future has been given, once it has.\<close>

definition future_value :: "nat \<Rightarrow> node \<Rightarrow> op_res option" where
  "future_value ft n = map_of (futures (services n)) ft"

section \<open>The database RPCs\<close>

record PutResponse =
  prsp_error_code :: int
  prsp_leader_addr :: string

record GetResponse =
  grsp_error_code :: int
  grsp_leader_addr :: string
  grsp_value :: int

definition OhMyDBService_TestCall :: "int \<Rightarrow> int" where
  "OhMyDBService_TestCall cmd = cmd"

definition OhMyDBService_Put :: "Ret \<Rightarrow> PutResponse" where
  "OhMyDBService_Put ret = \<lparr>prsp_error_code = DbError_int (db_errorCode ret), prsp_leader_addr = db_leaderAddr ret\<rparr>"

definition OhMyDBService_Get :: "Ret \<Rightarrow> GetResponse" where
  "OhMyDBService_Get ret =
     \<lparr>grsp_error_code = DbError_int (db_errorCode ret), grsp_leader_addr = db_leaderAddr ret, grsp_value = db_value ret\<rparr>"

definition OhMyDBClient_Ping :: "(int \<Rightarrow> int option) \<Rightarrow> int \<Rightarrow> int" where
  "OhMyDBClient_Ping stub cmd = (case stub cmd of Some ok \<Rightarrow> ok | None \<Rightarrow> -1)"

definition OhMyDBClient_Put :: "(int \<Rightarrow> int \<Rightarrow> PutResponse option) \<Rightarrow> int \<Rightarrow> int \<Rightarrow> Ret option" where
  "OhMyDBClient_Put stub key v =
     (case stub key v of
        Some rsp \<Rightarrow> Some \<lparr>db_errorCode = DbError_of_int (prsp_error_code rsp), db_leaderAddr = prsp_leader_addr rsp, db_value = -1\<rparr>
      | None \<Rightarrow> None)"

definition OhMyDBClient_Get :: "(int \<Rightarrow> GetResponse option) \<Rightarrow> int \<Rightarrow> Ret option" where
  "OhMyDBClient_Get stub key =
     (case stub key of
        Some rsp \<Rightarrow> Some \<lparr>db_errorCode = DbError_of_int (grsp_error_code rsp), db_leaderAddr = grsp_leader_addr rsp,
                          db_value = grsp_value rsp\<rparr>
      | None \<Rightarrow> None)"

section \<open>What a request leaves behind\<close>

lemmas request_unfold = request_begin_def submit_def Let_def getLastKnownLeaderDBAddr_def case_prod_beta

lemma ps_insert_remove:
  "ps_ok ps \<Longrightarrow> ps_insert p ps = (h, ps') \<Longrightarrow> \<exists>ps''. getAndRemove h ps' = Inr (p, ps'') \<and> ps_live ps'' = ps_live ps \<and> ps_ok ps''"
  by (rule ps.insert_then_remove)

lemma request_refused:
  assumes "k = GET \<or> k = PUT" and "Role n \<noteq> Leader" and ok: "ps_ok (promises (services n))"
  shows "\<exists>addr n'. request_begin k a v ft n = Inr (Answered \<lparr>db_errorCode = DB_NOT_LEADER, db_leaderAddr = addr, db_value = v\<rparr>, n')
    \<and> dispatchOut n' = dispatchOut n \<and> ps_live (promises (services n')) = ps_live (promises (services n))
    \<and> ps_ok (promises (services n')) \<and> Role n' = Role n"
proof -
  obtain it ps where i: "ps_insert ft (promises (services n)) = (it, ps)"
    by (cases "ps_insert ft (promises (services n))")
  obtain ps' where "getAndRemove it ps = Inr (ft, ps')" "ps_live ps' = ps_live (promises (services n))" "ps_ok ps'"
    using ps_insert_remove [OF ok i] by blast
  then show ?thesis
    using assms i
    by (auto simp: request_unfold)
qed

lemma request_accepted:
  assumes "Role n = Leader" and ok: "ps_ok (promises (services n))"
  shows "\<exists>it n'. request_begin k a v ft n = Inr (Await ft, n')
    \<and> dispatchOut n' = dispatchOut n @ [\<lparr>kind = k, args = a, promiseHandle = Some it\<rparr>]
    \<and> ps_live (promises (services n)) it = None
    \<and> ps_live (promises (services n')) = (ps_live (promises (services n)))(it \<mapsto> ft) \<and> ps_ok (promises (services n'))"
proof -
  obtain it ps where i: "ps_insert ft (promises (services n)) = (it, ps)"
    by (cases "ps_insert ft (promises (services n))")
  then show ?thesis
    using assms ps.insert_fresh [OF ok i] ps.live_insert [OF ok i] ps.invar_insert [OF ok i]
    by (simp add: request_begin_def submit_def Let_def)
qed

section \<open>The start of a replica\<close>

lemma wait_for_peers_now: "\<not> w \<or> active_peers (pings r) ps * 2 > sz \<Longrightarrow> wait_for_peers w pings ps sz r = Some r"
  by (simp add: wait_for_peers.simps)

lemma wait_for_peers_step:
  "w \<Longrightarrow> \<not> active_peers (pings r) ps * 2 > sz \<Longrightarrow> wait_for_peers w pings ps sz r = wait_for_peers w pings ps sz (Suc r)"
  by (subst wait_for_peers.simps) simp

lemma wait_for_peers_until:
  assumes w: "w" and "\<forall>q. r \<le> q \<and> q < r + k \<longrightarrow> \<not> active_peers (pings q) ps * 2 > sz"
    and "active_peers (pings (r + k)) ps * 2 > sz"
  shows "wait_for_peers w pings ps sz r = Some (r + k)"
  using assms(2,3)
proof (induction k arbitrary: r)
  case 0
  then show ?case by (simp add: wait_for_peers_now)
next
  case (Suc k)
  have "wait_for_peers w pings ps sz r = wait_for_peers w pings ps sz (Suc r)"
    using Suc.prems(1) w by (intro wait_for_peers_step) auto
  also have "\<dots> = Some (Suc r + k)"
    using Suc.prems by (intro Suc.IH) auto
  finally show ?case by simp
qed

lemma foldl_addPeer:
  "Logs (foldl (\<lambda>m (i, r). addPeer i r m) n ps) = Logs n
    \<and> peers (foldl (\<lambda>m (i, r). addPeer i r m) n ps) = foldl (\<lambda>m (i, r). om_put i r m) (peers n) ps
    \<and> ClusterConfig (foldl (\<lambda>m (i, r). addPeer i r m) n ps) = ClusterConfig n
    \<and> Role (foldl (\<lambda>m (i, r). addPeer i r m) n ps) = Role n
    \<and> CurrentTerm (foldl (\<lambda>m (i, r). addPeer i r m) n ps) = CurrentTerm n"
  by (induction ps arbitrary: n) auto

lemma foldl_om_put_find: "om_find (foldl (\<lambda>m (i, r). om_put i r m) m ps) i = (case map_of (rev ps) i of None \<Rightarrow> om_find m i | Some r \<Rightarrow> Some r)"
  by (induction ps arbitrary: m) (auto simp: map_add_def split: option.splits)

lemma disk_inv_addPeer: "disk_inv n \<Longrightarrow> disk_inv (addPeer i r n)"
  using open_inv_addPeer [of n i r] by (simp add: disk_inv_alt)

lemma disk_inv_foldl_addPeer: "disk_inv n \<Longrightarrow> disk_inv (foldl (\<lambda>m (i, r). addPeer i r m) n ps)"
  by (induction ps arbitrary: n) (auto simp: disk_inv_addPeer)

lemma disk_inv_setClusterConfig: "disk_inv n \<Longrightarrow> disk_inv (setClusterConfig cfg n)"
  unfolding setClusterConfig_def by (rule disk_inv_persist) (auto simp: disk_inv_def meta_inv_def)

lemma peer_routers_find:
  "om_ok cfg \<Longrightarrow> map_of (rev (peer_routers me cfg)) i =
     (if i = me then None else map_option (\<lambda>s. router_new (c_str (si_ip s) @ '':'' @ to_string (raft_port s))) (om_find cfg i))"
proof -
  assume ok: "om_ok cfg"
  have "distinct (map fst (peer_routers me cfg))"
    using om_ok_distinct [OF ok] by (induction cfg) (auto simp: peer_routers_def om_keys_def image_iff)
  then have "map_of (rev (peer_routers me cfg)) i = map_of (peer_routers me cfg) i"
    using map_of_inject_set [of "rev (peer_routers me cfg)" "peer_routers me cfg"] by (simp add: rev_map [symmetric])
  also have "\<dots> = (if i = me then None else map_option (\<lambda>s. router_new (c_str (si_ip s) @ '':'' @ to_string (raft_port s))) (om_find cfg i))"
    by (induction cfg) (auto simp: peer_routers_def)
  finally show ?thesis .
qed

section \<open>Properties\<close>

text \<open>C31. A client request to a leader waits for its own future: a fresh promise is live under a new
  handle, and one operation with that handle and the client's arguments is queued behind the others.
  A request to any other replica is answered at once with the leader's address and leaves the queue
  and the promise store as they were.\<close>

theorem request_outcome:
  assumes "ps_ok (promises (services n))" and k: "k = GET \<or> k = PUT"
  shows "if Role n = Leader
    then \<exists>it n'. request_begin k a v ft n = Inr (Await ft, n')
      \<and> dispatchOut n' = dispatchOut n @ [\<lparr>kind = k, args = a, promiseHandle = Some it\<rparr>]
      \<and> ps_live (promises (services n)) it = None
      \<and> ps_live (promises (services n')) = (ps_live (promises (services n)))(it \<mapsto> ft) \<and> ps_ok (promises (services n'))
    else \<exists>addr n'. request_begin k a v ft n = Inr (Answered \<lparr>db_errorCode = DB_NOT_LEADER, db_leaderAddr = addr, db_value = v\<rparr>, n')
      \<and> dispatchOut n' = dispatchOut n \<and> ps_live (promises (services n')) = ps_live (promises (services n))"
  using request_accepted [OF _ assms(1), of k a v ft] request_refused [OF k _ assms(1), of a v ft] by (cases "Role n = Leader") fastforce+

theorem request_outcome_witness:
  "\<exists>it n'. put_begin (4, 5) 11 leader_node = Inr (Await 11, n')
     \<and> dispatchOut n' = [\<lparr>kind = PUT, args = ArgPair 4 5, promiseHandle = Some it\<rparr>]"
proof -
  have "ps_ok (promises (services leader_node))" "dispatchOut leader_node = []"
    by (simp_all add: leader_node_def)
  then show ?thesis
    using request_outcome [of leader_node PUT "ArgPair 4 5" 0 11] by (simp add: put_begin_def) blast
qed

lemma wait_for_peers_result:
  assumes "wait_for_peers w pings ps num r = Some k"
  shows "r \<le> k \<and> (\<not> w \<or> active_peers (pings k) ps * 2 > num) \<and> (\<forall>q. r \<le> q \<and> q < k \<longrightarrow> w \<and> \<not> active_peers (pings q) ps * 2 > num)"
proof (rule wait_for_peers.raw_induct [OF _ assms, where P = "\<lambda>w pings ps num r k. r \<le> k \<and> (\<not> w \<or> active_peers (pings k) ps * 2 > num)
    \<and> (\<forall>q. r \<le> q \<and> q < k \<longrightarrow> w \<and> \<not> active_peers (pings q) ps * 2 > num)"])
  fix f :: "bool \<Rightarrow> (nat \<Rightarrow> int \<Rightarrow> int) \<Rightarrow> int list \<Rightarrow> nat \<Rightarrow> nat \<Rightarrow> nat option" and w pings ps num r k
  assume IH: "\<And>w pings ps num r k. f w pings ps num r = Some k \<Longrightarrow> r \<le> k \<and> (\<not> w \<or> active_peers (pings k) ps * 2 > num)
      \<and> (\<forall>q. r \<le> q \<and> q < k \<longrightarrow> w \<and> \<not> active_peers (pings q) ps * 2 > num)"
    and eq: "(if \<not> w \<or> num < active_peers (pings r) ps * 2 then Some r else f w pings ps num (Suc r)) = Some k"
  show "r \<le> k \<and> (\<not> w \<or> active_peers (pings k) ps * 2 > num) \<and> (\<forall>q. r \<le> q \<and> q < k \<longrightarrow> w \<and> \<not> active_peers (pings q) ps * 2 > num)"
  proof (cases "\<not> w \<or> num < active_peers (pings r) ps * 2")
    case True
    then show ?thesis
      using eq by auto
  next
    case False
    then have "f w pings ps num (Suc r) = Some k"
      using eq by simp
    note IH [OF this]
    moreover have "q = r \<or> Suc r \<le> q" if "r \<le> q" for q
      using that by auto
    ultimately show ?thesis
      using False by auto
  qed
qed

text \<open>The start of a replica waits for a majority: told to wait, the ping loop ends in the first
  round in which the replica and the peers that answer are more than half of the cluster, and only
  if there is such a round.\<close>

lemma waits_for_majority:
  "wait_for_peers True pings ps num 0 = Some r \<longleftrightarrow>
     num < 2 * active_peers (pings r) ps \<and> (\<forall>q < r. 2 * active_peers (pings q) ps \<le> num)"
proof
  assume "wait_for_peers True pings ps num 0 = Some r"
  then show "num < 2 * active_peers (pings r) ps \<and> (\<forall>q < r. 2 * active_peers (pings q) ps \<le> num)"
    using wait_for_peers_result [of True pings ps num 0 r] by (auto simp: not_less mult.commute)
next
  assume "num < 2 * active_peers (pings r) ps \<and> (\<forall>q < r. 2 * active_peers (pings q) ps \<le> num)"
  then show "wait_for_peers True pings ps num 0 = Some r"
    using wait_for_peers_until [where w = True and r = 0 and k = r and pings = pings and ps = ps and sz = num]
    by (auto simp: not_less mult.commute)
qed

text \<open>Asking a replica for its leader's address changes its configuration: when the leader it last
  heard of is not a member, the lookup inserts an empty member, so the number of votes that makes a
  majority is computed from a larger cluster from then on.\<close>

lemma leader_lookup_adds_member:
  assumes "om_ok (ClusterConfig n)" and "om_find (ClusterConfig n) (LastKnownLeaderId n) = None"
  shows "length (ClusterConfig (snd (getLastKnownLeaderDBAddr n))) = Suc (length (ClusterConfig n))
    \<and> om_find (ClusterConfig (snd (getLastKnownLeaderDBAddr n))) (LastKnownLeaderId n) = Some ServerInfo_zero"
  using assms om.size_put_new [OF assms]
  by (simp add: getLastKnownLeaderDBAddr_def om_at_missing)

end
