(* ===== verification/Replication.thy ===== *)
theory Replication
  imports RaftLeader
begin

text \<open>
  Leader and follower together: one replication thread run to its end against a follower, from
  \<open>leader_prepare\<close> over \<open>AppendEntries\<close> to \<open>leader_reply\<close>. The logs are compared without the promise
  handles, which never leave the replica that made them.
\<close>

abbreviation stripped :: "LogEntry list \<Rightarrow> LogEntry list" where
  "stripped logs \<equiv> map strip_entry logs"

text \<open>Raft's log matching: entries of the same index and term have the same history.\<close>

definition log_matching :: "LogEntry list \<Rightarrow> LogEntry list \<Rightarrow> bool" where
  "log_matching A B \<longleftrightarrow>
     (\<forall>i < min (length A) (length B). log_term (A ! i) = log_term (B ! i) \<longrightarrow> take (Suc i) (stripped A) = take (Suc i) (stripped B))"

definition sync_round :: "int \<Rightarrow> int \<Rightarrow> node \<times> node \<Rightarrow> (node \<times> node) res" where
  "sync_round peer now = (\<lambda>(nl, nf).
     let savedCurrentTerm = CurrentTerm nl in
     rbind (leader_prepare peer savedCurrentTerm nl) (\<lambda>((nextIndex, a), nl1).
     rbind (AppendEntries a now nf) (\<lambda>(reply, nf1).
     rbind (leader_reply peer savedCurrentTerm nextIndex (length (ae_entries a)) reply now nl1) (\<lambda>nl2.
     Inr (nl2, nf1)))))"

fun sync_rounds :: "nat \<Rightarrow> int \<Rightarrow> int \<Rightarrow> node \<times> node \<Rightarrow> (node \<times> node) res" where
  "sync_rounds 0 peer now s = Inr s"
| "sync_rounds (Suc k) peer now s = rbind (sync_round peer now s) (sync_rounds k peer now)"

section \<open>The log after a successful call\<close>

lemma entries_from_stripped:
  assumes "0 \<le> k"
  shows "map entry_of (entries_from k L) = drop (nat k) (stripped L)"
proof -
  have "drop (nat k) L = map ((!) L) [nat k..<length L]"
    by (rule nth_equalityI) simp_all
  then show ?thesis
    using assms by (simp add: entries_from_def entry_of_def strip_entry_def drop_map comp_def LogEntry.defs)
qed

lemma length_entries_from: "0 \<le> k \<Longrightarrow> length (entries_from k L) = length L - nat k"
  by (simp add: entries_from_def)

lemma entries_from_nth_term: "0 \<le> k \<Longrightarrow> i < length L - nat k \<Longrightarrow> ale_term (entries_from k L ! i) = log_term (L ! (nat k + i))"
  by (simp add: entries_from_def)

text \<open>
  What a follower's log becomes: the leader's, or it stays because it already has the leader's as a
  prefix.
\<close>

definition caught_up :: "LogEntry list \<Rightarrow> LogEntry list \<Rightarrow> LogEntry list \<Rightarrow> bool" where
  "caught_up L F F' \<longleftrightarrow> stripped F' = stripped L \<or> (F' = F \<and> take (length L) (stripped F) = stripped L)"

lemma ae_merge_caught_up:
  assumes match: "log_matching L F" and k: "0 \<le> k" "nat k \<le> length L" "nat k \<le> length F"
    and prev: "k = 0 \<or> log_term (F ! nat (k - 1)) = log_term (L ! nat (k - 1))"
  shows "caught_up L F (ae_merge F (nat k) (entries_from k L))"
proof -
  let ?es = "entries_from k L"
  define m where "m = agree_len (drop (nat k) F) ?es"
  have m: "m \<le> length F - nat k" "m \<le> length L - nat k"
    using agree_len_le [of "drop (nat k) F" ?es] k by (simp_all add: m_def length_entries_from)
  have same: "take (nat k + m) (stripped F) = take (nat k + m) (stripped L)"
  proof (cases "nat k + m")
    case (Suc i)
    have "log_term (L ! i) = log_term (F ! i)"
    proof (cases "m = 0")
      case True
      then show ?thesis
        using prev Suc by (auto simp: nat_diff_distrib)
    next
      case False
      then have i: "i = nat k + (m - 1)"
        using Suc by simp
      have "log_term (drop (nat k) F ! (m - 1)) = ale_term (?es ! (m - 1))"
        using False unfolding m_def by (intro agree_len_nth) simp
      moreover have "m - 1 < length L - nat k"
        using False m by linarith
      ultimately show ?thesis
        using i False m k entries_from_nth_term [OF k(1), of "m - 1" L] by simp
    qed
    moreover have "i < min (length L) (length F)"
      using Suc m k by linarith
    ultimately show ?thesis
      using match Suc unfolding log_matching_def by metis
  qed simp
  show ?thesis
  proof (cases "m < length ?es")
    case True
    then have "stripped (ae_merge F (nat k) ?es) = take (nat k + m) (stripped L) @ drop m (map strip_entry (map entry_of ?es))"
      using same by (simp add: ae_merge_def m_def [symmetric] Let_def take_map drop_map)
    also have "map strip_entry (map entry_of ?es) = drop (nat k) (stripped L)"
      using entries_from_stripped [OF k(1), of L] by (simp add: drop_map)
    finally show ?thesis
      by (simp add: caught_up_def add.commute)
  next
    case False
    then have "nat k + m = length L"
      using m k by (simp add: length_entries_from)
    then show ?thesis
      using False same by (simp add: caught_up_def ae_merge_def m_def [symmetric] Let_def)
  qed
qed

lemma leader_prepare_ok:
  assumes "om_find (NextIndex n) peer = Some k" and "0 \<le> k" and "nat k \<le> length (log_of n)"
  shows "leader_prepare peer t n = Inr ((k,
    \<lparr>ae_term = t, ae_leaderId = my_id n, ae_prevLogIndex = k - 1,
     ae_prevLogTerm = (if k = 0 then -1 else log_term (log_of n ! nat (k - 1))), ae_entries = entries_from k (log_of n),
     ae_leaderCommit = CommitIndex n\<rparr>), n)"
  using assms by (auto simp: leader_prepare_def Let_def)

lemma prev_matches_prepared:
  assumes "0 \<le> k" and "nat k \<le> length L"
  shows "prev_matches F (k - 1) (if k = 0 then -1 else log_term (L ! nat (k - 1))) =
    Inr (k = 0 \<or> (nat k \<le> length F \<and> log_term (F ! nat (k - 1)) = log_term (L ! nat (k - 1))))"
  using assms by (auto simp: prev_matches_ok)

text \<open>A replica that can follow and one that can lead it, as far as a round is concerned.\<close>

definition can_follow :: "int \<Rightarrow> node \<Rightarrow> bool" where
  "can_follow t n \<longleftrightarrow> Role n \<noteq> Dead \<and> CurrentTerm n \<le> t \<and> ps_ok (promises (services n)) \<and> distinct (handles (log_of n))
     \<and> set (handles (log_of n)) \<subseteq> dom (ps_live (promises (services n)))
     \<and> list_all (\<lambda>e. known_op (log_op e)) (log_of n) \<and> -1 \<le> LastApplied n"

definition can_lead :: "int \<Rightarrow> int \<Rightarrow> node \<Rightarrow> bool" where
  "can_lead peer k n \<longleftrightarrow> Role n = Leader \<and> om_find (NextIndex n) peer = Some k \<and> 0 \<le> k \<and> nat k \<le> length (log_of n)
     \<and> list_all (\<lambda>e. config_typed (log_op e)) (log_of n)
     \<and> -1 \<le> CommitIndex n \<and> CommitIndex n < int (length (log_of n)) \<and> -1 \<le> LastApplied n"

lemma config_typed_entries: "list_all (\<lambda>e. config_typed (log_op e)) L \<Longrightarrow> list_all (\<lambda>e. config_typed (ale_op e)) (entries_from k L)"
  by (auto simp: entries_from_def list_all_iff config_typed_def all_set_conv_all_nth)

lemma set_handles_drop: "set (handles (drop k es)) \<subseteq> set (handles es)"
  by (metis append_take_drop_id handles_append set_append sup_ge2)

lemma ae_safe_prepared:
  assumes "can_follow t n" and "ae_prevLogIndex a = k - 1" and "0 \<le> k" and "list_all (\<lambda>e. config_typed (ale_op e)) (ae_entries a)"
  shows "ae_safe a n"
  using assms set_handles_drop [of "nat k" "log_of n"] by (auto simp: ae_safe_def can_follow_def)

text \<open>What the answers of the peers \<open>P\<close> leave alone on the leader, and that what is committed is queued for the executer.\<close>

definition commit_bounds :: "node \<Rightarrow> bool" where
  "commit_bounds n \<longleftrightarrow> -1 \<le> CommitIndex n \<and> CommitIndex n < int (length (log_of n)) \<and> -1 \<le> LastApplied n"

definition queued :: "node \<Rightarrow> bool" where
  "queued n \<longleftrightarrow> LastApplied n = CommitIndex n \<and> raftOut n = map log_op (take (nat (CommitIndex n + 1)) (log_of n))"

definition leader_kept :: "int set \<Rightarrow> node \<Rightarrow> node \<Rightarrow> bool" where
  "leader_kept P n n' \<longleftrightarrow> Logs n' = Logs n \<and> Role n' = Role n \<and> CurrentTerm n' = CurrentTerm n \<and> my_id n' = my_id n \<and> peers n' = peers n
     \<and> ClusterConfig n' = ClusterConfig n \<and> services n' = services n \<and> execIn n' = execIn n \<and> dispatchOut n' = dispatchOut n \<and> raftIn n' = raftIn n
     \<and> (\<forall>q. q \<notin> P \<longrightarrow> om_find (NextIndex n') q = om_find (NextIndex n) q \<and> match_value (MatchIndex n') q = match_value (MatchIndex n) q)
     \<and> (commit_bounds n \<longrightarrow> commit_bounds n') \<and> (queued n \<longrightarrow> queued n')"

lemma leader_kept_refl: "leader_kept P n n"
  by (simp add: leader_kept_def)

lemma leader_kept_trans: "leader_kept P n n1 \<Longrightarrow> leader_kept Q n1 n2 \<Longrightarrow> leader_kept (P \<union> Q) n n2"
  by (simp add: leader_kept_def)

text \<open>After a scan everything that can be committed is, up to the last entry.\<close>

definition scanned :: "node \<Rightarrow> bool" where
  "scanned n \<longleftrightarrow> (committable n (int (length (log_of n)) - 1) \<longrightarrow> CommitIndex n = int (length (log_of n)) - 1)"

lemma new_commit_scanned:
  assumes "scan_frame m n" and "CommitIndex n = new_commit m" and idx: "CommitIndex m < int (length (log_of m))"
  shows "scanned n"
  unfolding scanned_def
proof
  assume c: "committable n (int (length (log_of n)) - 1)"
  have l: "log_of n = log_of m"
    using assms(1) by (auto simp: scan_frame_def)
  have "int (length (log_of m)) - 1 \<le> new_commit m" if "CommitIndex m < int (length (log_of m)) - 1"
    using c that new_commit_max [of m "int (length (log_of m)) - 1"] scan_frame_committable [OF assms(1)] l by simp
  then show "CommitIndex n = int (length (log_of n)) - 1"
    using new_commit_bounds(1,2) [OF idx] idx assms(2) l by (cases "CommitIndex m = int (length (log_of m)) - 1") auto
qed

lemma leader_reply_success_kept:
  assumes "leader_reply peer saved k sent reply now n = Inr n'" and "aer_term reply = saved" "aer_success reply" and "Role n = Leader"
    and idx: "-1 \<le> CommitIndex n" "CommitIndex n < int (length (log_of n))" "-1 \<le> LastApplied n"
  shows "leader_kept {peer} n n' \<and> scanned n' \<and> match_value (MatchIndex n') peer = k + int sent - 1"
proof -
  let ?m = "leader_matched peer (k + int sent) n"
  let ?out = "\<lambda>n3. raftOut n @ map log_op (segment (LastApplied n + 1) (CommitIndex n3) (log_of n))"
  obtain n3 where r: "leader_reply peer saved k sent reply now n = Inr (if new_commit ?m \<noteq> CommitIndex n
         then n3\<lparr>raftOut := ?out n3, LastApplied := CommitIndex n3, moreExecJobsReady := tts_signal (moreExecJobsReady n3)\<rparr> else n3)"
      and n3: "scan_frame ?m n3" "CommitIndex n3 = new_commit ?m"
    using leader_reply_success [OF assms(4,2,3) idx, of peer k sent now] by blast
  have same: "scanned n3" "match_value (MatchIndex n3) peer = k + int sent - 1" "Logs n3 = Logs n" "LastApplied n3 = LastApplied n" "raftOut n3 = raftOut n"
    using new_commit_scanned [OF n3] idx(2) n3(1) by (auto simp: scan_frame_def leader_matched_def)
  have c: "CommitIndex n \<le> CommitIndex n3" "CommitIndex n3 < int (length (log_of n))"
    using new_commit_bounds(1,2) [of ?m] idx(2) n3(2) by simp_all
  have q: "?out n3 = map log_op (take (nat (CommitIndex n3 + 1)) (log_of n))" if "queued n"
    using that take_segment_append [of "CommitIndex n + 1" "CommitIndex n3" "log_of n"] idx(1) c(1) by (simp add: queued_def flip: map_append)
  have n': "n' = (if new_commit ?m \<noteq> CommitIndex n then n3\<lparr>raftOut := ?out n3, LastApplied := CommitIndex n3, moreExecJobsReady := tts_signal (moreExecJobsReady n3)\<rparr> else n3)"
    using r assms(1) by simp
  then have "commit_bounds n'" "queued n \<longrightarrow> queued n'"
    using same c idx q n3(2) by (auto simp: commit_bounds_def queued_def)
  moreover have "leader_kept {peer} n (n3\<lparr>CommitIndex := CommitIndex n\<rparr>)"
    using n3(1) by (auto simp: scan_frame_def leader_matched_def leader_kept_def commit_bounds_def queued_def)
  ultimately show ?thesis
    using n' same(1,2) by (auto simp: leader_kept_def scanned_def committable_def holders_def)
qed

section \<open>One round\<close>

lemma round_match:
  assumes lead: "can_lead peer k nl" and follow: "can_follow (CurrentTerm nl) nf" and lm: "log_matching (log_of nl) (log_of nf)"
    and prev: "k = 0 \<or> (nat k \<le> length (log_of nf) \<and> log_term (log_of nf ! nat (k - 1)) = log_term (log_of nl ! nat (k - 1)))"
  shows "\<exists>nl' nf'. sync_round peer now (nl, nf) = Inr (nl', nf') \<and> leader_kept {peer} nl nl' \<and> scanned nl'
    \<and> caught_up (log_of nl) (log_of nf) (log_of nf') \<and> match_value (MatchIndex nl') peer = int (length (log_of nl)) - 1"
proof -
  have k: "om_find (NextIndex nl) peer = Some k" "0 \<le> k" "nat k \<le> length (log_of nl)" and role: "Role nl = Leader"
    and idx: "-1 \<le> CommitIndex nl" "CommitIndex nl < int (length (log_of nl))" "-1 \<le> LastApplied nl"
    and typed: "list_all (\<lambda>e. config_typed (log_op e)) (log_of nl)"
    using lead by (auto simp: can_lead_def)
  define a where "a = \<lparr>ae_term = CurrentTerm nl, ae_leaderId = my_id nl, ae_prevLogIndex = k - 1,
     ae_prevLogTerm = (if k = 0 then -1 else log_term (log_of nl ! nat (k - 1))), ae_entries = entries_from k (log_of nl),
     ae_leaderCommit = CommitIndex nl\<rparr>"
  have prep: "leader_prepare peer (CurrentTerm nl) nl = Inr ((k, a), nl)"
    using leader_prepare_ok [OF k] by (simp add: a_def)
  have fol: "Role nf \<noteq> Dead" "CurrentTerm nf \<le> ae_term a"
    using follow by (auto simp: can_follow_def a_def)
  have safe: "ae_safe a nf"
    using follow k(2) config_typed_entries [OF typed] by (intro ae_safe_prepared [where k = k]) (auto simp: a_def)
  then obtain reply nf' where ae: "AppendEntries a now nf = Inr (reply, nf')"
    using AppendEntries_defined by blast
  have pm: "prev_matches (log_of nf) (ae_prevLogIndex a) (ae_prevLogTerm a) = Inr True"
    using prev_matches_prepared [OF k(2,3), of "log_of nf"] prev by (simp add: a_def)
  obtain n4 where n4: "store_entries a (ae_stepdown a now nf) = Inr n4" "follower_commit (ae_leaderCommit a) n4 = Inr nf'"
      and reply: "aer_success reply" "aer_term reply = CurrentTerm nf'"
    using ae by (auto simp: AppendEntries_current [OF fol] pm elim!: rbind_Inr_E)
  have ct: "CurrentTerm nf' = CurrentTerm nl"
    using store_entries_keeps [OF n4(1)] follower_commit_keeps [OF n4(2)] ae_stepdown_term [OF fol(2)] by (simp add: a_def)
  have kf: "nat k \<le> length (log_of nf)" "-1 \<le> ae_prevLogIndex a" "ae_prevLogIndex a < int (length (log_of (ae_stepdown a now nf)))"
    using prev k(2) by (auto simp: a_def)
  have "log_of nf' = ae_merge (log_of nf) (nat k) (entries_from k (log_of nl))"
    using store_entries_log [OF n4(1) kf(2,3)] follower_commit_keeps [OF n4(2)] by (simp add: a_def)
  moreover have "k = 0 \<or> log_term (log_of nf ! nat (k - 1)) = log_term (log_of nl ! nat (k - 1))"
    using prev by auto
  ultimately have cu: "caught_up (log_of nl) (log_of nf) (log_of nf')"
    using ae_merge_caught_up [OF lm k(2,3) kf(1)] by simp
  have sent: "k + int (length (ae_entries a)) = int (length (log_of nl))"
    using k by (simp add: a_def length_entries_from of_nat_diff)
  obtain nl' where lr: "leader_reply peer (CurrentTerm nl) k (length (ae_entries a)) reply now nl = Inr nl'"
    using leader_reply_success [OF role _ reply(1) idx, of "CurrentTerm nl" peer k "length (ae_entries a)" now] reply(2) ct by auto
  have "leader_kept {peer} nl nl' \<and> scanned nl' \<and> match_value (MatchIndex nl') peer = int (length (log_of nl)) - 1"
    using leader_reply_success_kept [OF lr _ reply(1) role idx] reply(2) ct by (simp add: sent)
  then show ?thesis
    using cu by (simp add: sync_round_def Let_def prep ae lr)
qed

lemma round_back_up:
  assumes lead: "can_lead peer k nl" and follow: "can_follow (CurrentTerm nl) nf"
    and prev: "\<not> (k = 0 \<or> (nat k \<le> length (log_of nf) \<and> log_term (log_of nf ! nat (k - 1)) = log_term (log_of nl ! nat (k - 1))))"
  shows "\<exists>nl' nf'. sync_round peer now (nl, nf) = Inr (nl', nf') \<and> leader_kept {peer} nl nl' \<and> Logs nf' = Logs nf
    \<and> can_lead peer (k - 1) nl' \<and> can_follow (CurrentTerm nl) nf'"
proof -
  have k: "om_find (NextIndex nl) peer = Some k" "0 \<le> k" "nat k \<le> length (log_of nl)" and role: "Role nl = Leader"
    using lead by (auto simp: can_lead_def)
  define a where "a = \<lparr>ae_term = CurrentTerm nl, ae_leaderId = my_id nl, ae_prevLogIndex = k - 1,
     ae_prevLogTerm = (if k = 0 then -1 else log_term (log_of nl ! nat (k - 1))), ae_entries = entries_from k (log_of nl),
     ae_leaderCommit = CommitIndex nl\<rparr>"
  have prep: "leader_prepare peer (CurrentTerm nl) nl = Inr ((k, a), nl)"
    using leader_prepare_ok [OF k] by (simp add: a_def)
  have fol: "Role nf \<noteq> Dead" "CurrentTerm nf \<le> ae_term a"
    using follow by (auto simp: can_follow_def a_def)
  have pm: "prev_matches (log_of nf) (ae_prevLogIndex a) (ae_prevLogTerm a) = Inr False"
    using prev_matches_prepared [OF k(2,3), of "log_of nf"] prev by (simp add: a_def)
  have ae: "AppendEntries a now nf = Inr (\<lparr>aer_term = CurrentTerm nl, aer_success = False\<rparr>, ae_stepdown a now nf)"
    using pm by (simp add: AppendEntries_current [OF fol]) (simp add: a_def)
  have "can_follow (CurrentTerm nl) (ae_stepdown a now nf)"
    using follow ae_stepdown_term [OF fol(2)] by (simp add: can_follow_def a_def)
  moreover have "can_lead peer (k - 1) (nl\<lparr>NextIndex := om_put peer (k - 1) (NextIndex nl)\<rparr>)"
    using lead prev by (auto simp: can_lead_def)
  ultimately show ?thesis
    using role by (simp add: sync_round_def Let_def prep ae leader_reply_def leader_kept_def commit_bounds_def queued_def)
qed

section \<open>Catching up\<close>

lemma catch_up:
  assumes "can_lead peer k nl" and "can_follow (CurrentTerm nl) nf" and "log_matching (log_of nl) (log_of nf)"
  shows "\<exists>r nl' nf'. r \<le> Suc (nat k) \<and> sync_rounds r peer now (nl, nf) = Inr (nl', nf') \<and> leader_kept {peer} nl nl' \<and> scanned nl'
    \<and> caught_up (log_of nl) (log_of nf) (log_of nf') \<and> match_value (MatchIndex nl') peer = int (length (log_of nl)) - 1"
  using assms
proof (induction "nat k" arbitrary: k nl nf rule: less_induct)
  case less
  let ?prev = "k = 0 \<or> (nat k \<le> length (log_of nf) \<and> log_term (log_of nf ! nat (k - 1)) = log_term (log_of nl ! nat (k - 1)))"
  show ?case
  proof (cases ?prev)
    case True
    then obtain nl' nf' where "sync_round peer now (nl, nf) = Inr (nl', nf')" "leader_kept {peer} nl nl'" "scanned nl'"
        "caught_up (log_of nl) (log_of nf) (log_of nf')" "match_value (MatchIndex nl') peer = int (length (log_of nl)) - 1"
      using round_match [OF less.prems] by blast
    then show ?thesis
      by (intro exI [of _ 1] exI [of _ nl'] exI [of _ nf']) simp
  next
    case False
    obtain nl1 nf1 where r1: "sync_round peer now (nl, nf) = Inr (nl1, nf1)" "leader_kept {peer} nl nl1" "Logs nf1 = Logs nf"
        "can_lead peer (k - 1) nl1" "can_follow (CurrentTerm nl) nf1"
      using round_back_up [OF less.prems(1,2) False] by blast
    have k: "nat (k - 1) < nat k" "Suc (nat (k - 1)) = nat k"
      using False less.prems(1) by (auto simp: can_lead_def)
    obtain r nl' nf' where "r \<le> Suc (nat (k - 1))" "sync_rounds r peer now (nl1, nf1) = Inr (nl', nf')" "leader_kept {peer} nl1 nl'" "scanned nl'"
        "caught_up (log_of nl1) (log_of nf1) (log_of nf')" "match_value (MatchIndex nl') peer = int (length (log_of nl1)) - 1"
      using less.hyps [OF k(1) r1(4), of nf1] r1(2,3,5) less.prems(3) by (auto simp: leader_kept_def)
    moreover have "log_of nl1 = log_of nl" "log_of nf1 = log_of nf"
      using r1(2,3) by (simp_all add: leader_kept_def)
    ultimately show ?thesis
      using r1(1) leader_kept_trans [OF r1(2), of "{peer}"] k(2) by (intro exI [of _ "Suc r"] exI [of _ nl'] exI [of _ nf']) simp
  qed
qed

section \<open>Log matching is kept\<close>

lemma stripped_terms: "stripped A = stripped B \<Longrightarrow> i < length A \<Longrightarrow> log_term (A ! i) = log_term (B ! i)"
  by (metis length_map nth_map strip_entry_simps(1))

lemma log_matching_cong:
  assumes "stripped A = stripped A'" and "log_matching A B"
  shows "log_matching A' B"
proof -
  have "length A' = length A"
    using assms(1) by (metis length_map)
  moreover from this have "i < length A \<Longrightarrow> log_term (A' ! i) = log_term (A ! i)" for i
    using stripped_terms [OF assms(1) [symmetric], of i] by simp
  ultimately show ?thesis
    using assms unfolding log_matching_def by simp
qed

lemma caught_up_matching: "caught_up L F F' \<Longrightarrow> log_matching L M \<Longrightarrow> log_matching F M \<Longrightarrow> log_matching F' M"
  unfolding caught_up_def using log_matching_cong by metis

section \<open>Properties\<close>

text \<open>C19. What a follower holds after it accepted a leader's entries: under Raft's log matching between
  the two, its log is the leader's, or it already had the leader's log as a prefix and stays as it is.
  Log matching with every third log that matched both is kept.\<close>

theorem accepted_entries_match:
  assumes prep: "leader_prepare peer t nl = Inr ((k, a), nl1)" and ae: "AppendEntries a now nf = Inr (reply, nf1)"
    and s: "aer_success reply" and k: "om_find (NextIndex nl) peer = Some k" "0 \<le> k" "nat k \<le> length (log_of nl)"
    and lm: "log_matching (log_of nl) (log_of nf)" "log_matching (log_of nl) M" "log_matching (log_of nf) M"
  shows "(stripped (log_of nf1) = stripped (log_of nl)
      \<or> (log_of nf1 = log_of nf \<and> take (length (log_of nl)) (stripped (log_of nf)) = stripped (log_of nl)))
    \<and> log_matching (log_of nf1) M"
proof -
  have a: "ae_prevLogIndex a = k - 1" "ae_prevLogTerm a = (if k = 0 then -1 else log_term (log_of nl ! nat (k - 1)))"
      "ae_entries a = entries_from k (log_of nl)"
    using prep leader_prepare_ok [OF k, of t] by auto
  obtain n4 where c: "ae_prevLogIndex a = -1 \<or> (ae_prevLogIndex a < int (length (log_of nf))
        \<and> ae_prevLogTerm a = log_term (log_of nf ! nat (ae_prevLogIndex a)))"
      and n4: "store_entries a (ae_stepdown a now nf) = Inr n4" "follower_commit (ae_leaderCommit a) n4 = Inr nf1"
    using AppendEntries_success [OF ae s] k(2) a(1) by auto
  have kf: "nat k \<le> length (log_of nf)" and prev: "k = 0 \<or> log_term (log_of nf ! nat (k - 1)) = log_term (log_of nl ! nat (k - 1))"
    using c a k(2) by (auto split: if_splits)
  have "log_of nf1 = ae_merge (log_of nf) (nat k) (entries_from k (log_of nl))"
    using store_entries_log [OF n4(1)] follower_commit_keeps [OF n4(2)] a kf k(2) by simp
  then have "caught_up (log_of nl) (log_of nf) (log_of nf1)"
    using ae_merge_caught_up [OF lm(1) k(2,3) kf prev] by simp
  then show ?thesis
    using caught_up_matching [OF _ lm(2,3)] by (auto simp: caught_up_def)
qed

text \<open>C14. A leader brings a follower up to date: if no other thread interferes, the follower can follow
  and the logs satisfy log matching, then after at most one round more than the index the leader
  starts from, the follower's log has caught up with the leader's, the leader knows it, and no round
  of it faults.\<close>

theorem follower_catches_up:
  assumes "can_lead peer k nl" and "can_follow (CurrentTerm nl) nf" and "log_matching (log_of nl) (log_of nf)"
  shows "\<exists>r nl' nf'. r \<le> nat k + 1 \<and> sync_rounds r peer now (nl, nf) = Inr (nl', nf') \<and> Logs nl' = Logs nl
    \<and> take (length (log_of nl)) (stripped (log_of nf')) = stripped (log_of nl)
    \<and> match_value (MatchIndex nl') peer = int (length (log_of nl)) - 1"
proof -
  obtain r nl' nf' where r: "r \<le> Suc (nat k)" "sync_rounds r peer now (nl, nf) = Inr (nl', nf')" "leader_kept {peer} nl nl'" "scanned nl'"
      "caught_up (log_of nl) (log_of nf) (log_of nf')" "match_value (MatchIndex nl') peer = int (length (log_of nl)) - 1"
    using catch_up [OF assms, of now] by (elim exE conjE) (rule that)
  have "take (length (log_of nl)) (stripped (log_of nf')) = stripped (log_of nl)"
    using r(5) unfolding caught_up_def by (metis length_map order_refl take_all)
  then show ?thesis
    using r by (intro exI [of _ r] exI [of _ nl'] exI [of _ nf']) (simp add: leader_kept_def)
qed

text \<open>A leader that starts one too high for a follower that has nothing.\<close>

definition ahead_node :: node where
  "ahead_node = leader_node\<lparr>NextIndex := [(1, 1), (2, 1)]\<rparr>"

lemma ahead_node_leads: "can_lead 1 1 ahead_node" "can_follow (CurrentTerm ahead_node) blank_node"
    "log_matching (log_of ahead_node) (log_of blank_node)"
  by (simp_all add: can_lead_def can_follow_def log_matching_def ahead_node_def config_typed_def get_op_def)

theorem follower_catches_up_witness:
  "\<exists>r nl' nf'. r \<le> 2 \<and> sync_rounds r 1 5 (ahead_node, blank_node) = Inr (nl', nf')
     \<and> take 1 (stripped (log_of nf')) = [\<lparr>log_term = 2, log_op = get_op 5\<rparr>]"
proof -
  obtain r nl' nf' where "r \<le> nat 1 + 1" "sync_rounds r 1 5 (ahead_node, blank_node) = Inr (nl', nf')"
      "take (length (log_of ahead_node)) (stripped (log_of nf')) = stripped (log_of ahead_node)"
    using follower_catches_up [OF ahead_node_leads, of 5] by blast
  then show ?thesis
    by (intro exI [of _ r] exI [of _ nl'] exI [of _ nf']) (simp add: ahead_node_def strip_entry_def withoutPromise_def get_op_def)
qed

lemma leader_node_prepares: "leader_prepare 1 2 leader_node = Inr ((0, \<lparr>ae_term = 2, ae_leaderId = 0, ae_prevLogIndex = -1,
    ae_prevLogTerm = -1, ae_entries = [\<lparr>ale_term = 2, ale_index = 0, ale_op = get_op 5\<rparr>], ae_leaderCommit = -1\<rparr>), leader_node)"
  by (simp add: leader_prepare_ok entries_from_def withoutPromise_def get_op_def)

theorem accepted_entries_match_witness:
  "\<exists>a reply nf1. leader_prepare 1 2 leader_node = Inr ((0, a), leader_node) \<and> AppendEntries a 9 blank_node = Inr (reply, nf1)
     \<and> stripped (log_of nf1) = stripped (log_of leader_node)"
proof -
  define a where "a = \<lparr>ae_term = 2, ae_leaderId = 0, ae_prevLogIndex = -1, ae_prevLogTerm = -1,
    ae_entries = [\<lparr>ale_term = 2, ale_index = 0, ale_op = get_op 5\<rparr>], ae_leaderCommit = -1\<rparr>"
  have "ae_safe a blank_node"
    by (simp add: ae_safe_def a_def config_typed_def get_op_def)
  then obtain reply nf1 where r: "AppendEntries a 9 blank_node = Inr (reply, nf1)"
    using AppendEntries_defined by blast
  have p: "leader_prepare 1 2 leader_node = Inr ((0, a), leader_node)"
    using leader_node_prepares by (simp add: a_def)
  have "aer_success reply"
    using r by (auto simp: AppendEntries_current a_def prev_matches_def elim!: rbind_Inr_E)
  then show ?thesis
    using accepted_entries_match [OF p r, of "[]"] p r by (auto simp: log_matching_def)
qed

end
