(* ===== verification/Executer.thy ===== *)
theory Executer
  imports RaftLeader
begin

text \<open>
  What the executer makes of a batch of committed operations, against a reference: a state machine
  whose state is a map from keys to values. The locale \<open>kv_total\<close> extends the contract of a store
  by what the reference takes for granted, that reads do not fail and writes succeed.
\<close>

section \<open>The reference\<close>

type_synonym kv = "int \<Rightarrow> int option"

fun kv_step :: "RaftOp \<Rightarrow> kv \<Rightarrow> op_res \<times> kv" where
  "kv_step op m =
     (case (kind op, args op) of
        (GET, ArgKey k) \<Rightarrow> (ResGet (m k), m)
      | (PUT, ArgPair k v) \<Rightarrow> (ResBool True, m(k \<mapsto> v))
      | _ \<Rightarrow> (ResBool True, m))"

fun kv_run :: "RaftOp list \<Rightarrow> kv \<Rightarrow> op_res list \<times> kv" where
  "kv_run [] m = ([], m)"
| "kv_run (op # ops) m = (case kv_step op m of (r, m1) \<Rightarrow> case kv_run ops m1 of (rs, m2) \<Rightarrow> (r # rs, m2))"

text \<open>The futures answered by a batch: those of the operations that carry a handle, in order.\<close>

definition answer :: "(handle \<Rightarrow> nat option) \<Rightarrow> RaftOp \<Rightarrow> op_res \<Rightarrow> (nat \<times> op_res) list" where
  "answer lv op r = (case promiseHandle op of None \<Rightarrow> [] | Some h \<Rightarrow> (case lv h of None \<Rightarrow> [] | Some p \<Rightarrow> [(p, r)]))"

fun answers :: "(handle \<Rightarrow> nat option) \<Rightarrow> RaftOp list \<Rightarrow> op_res list \<Rightarrow> (nat \<times> op_res) list" where
  "answers lv (op # ops) (r # rs) = answer lv op r @ answers lv ops rs"
| "answers lv _ _ = []"

abbreviation op_handles :: "RaftOp list \<Rightarrow> handle list" where
  "op_handles ops \<equiv> List.map_filter promiseHandle ops"

lemma op_handles_Cons: "op_handles (op # ops) = (case promiseHandle op of None \<Rightarrow> op_handles ops | Some h \<Rightarrow> h # op_handles ops)"
  by (simp add: map_filter_simps)

lemma answers_cong:
  "\<forall>h \<in> set (op_handles ops). lv h = lv' h \<Longrightarrow> answers lv ops rs = answers lv' ops rs"
proof (induction lv ops rs rule: answers.induct)
  case (1 lv op ops r rs)
  then show ?case
    by (cases "promiseHandle op") (simp_all add: op_handles_Cons answer_def)
qed simp_all

section \<open>The executer refines it\<close>

locale kv_total = kv_backend get put
  for get :: "'d \<Rightarrow> int \<Rightarrow> int option res" and put :: "'d \<Rightarrow> int \<times> int \<Rightarrow> bool \<times> 'd" +
  fixes view :: "'d \<Rightarrow> kv"
    and good :: "'d \<Rightarrow> bool"
  assumes get_view: "good d \<Longrightarrow> i32_ok k \<Longrightarrow> get d k = Inr (view d k)"
    and put_ok: "i32_ok k \<Longrightarrow> i32_ok v \<Longrightarrow> fst (put d (k, v))"
    and put_good: "good d \<Longrightarrow> i32_ok k \<Longrightarrow> i32_ok v \<Longrightarrow> good (snd (put d (k, v)))"
begin

lemma put_view:
  assumes "i32_ok k" "i32_ok v" "i32_ok j" "good d"
  shows "view (snd (put d (k, v))) j = ((view d)(k \<mapsto> v)) j"
proof -
  obtain d' where p: "put d (k, v) = (True, d')"
    using put_ok [OF assms(1,2), of d] by (cases "put d (k, v)") auto
  have "good d'"
    using put_good [OF assms(4,1,2)] p by simp
  then show ?thesis
    using get_put_same [OF assms(1,2) p] get_put_other [OF assms(1,3) p] get_view [of d'] get_view [of d] assms p
    by (cases "j = k") auto
qed

lemma execute_refines:
  assumes typed: "op_typed op" "op_ok op" and g: "good d" and ok: "ps_ok (promises sv)" and m: "\<forall>k. i32_ok k \<longrightarrow> view d k = m k"
    and live: "\<forall>h. promiseHandle op = Some h \<longrightarrow> ps_live (promises sv) h \<noteq> None"
  shows "\<exists>op' d' sv'. op_execute get put op d sv = Inr (op', d', sv')
    \<and> (\<forall>k. i32_ok k \<longrightarrow> view d' k = snd (kv_step op m) k) \<and> good d' \<and> ps_ok (promises sv')
    \<and> futures sv' = answer (ps_live (promises sv)) op (fst (kv_step op m)) @ futures sv
    \<and> (\<forall>h. promiseHandle op \<noteq> Some h \<longrightarrow> ps_live (promises sv') h = ps_live (promises sv) h)"
proof -
  have ff: "\<exists>op' sv'. op_fulfil op r sv = Inr (op', sv') \<and> ps_ok (promises sv')
      \<and> futures sv' = answer (ps_live (promises sv)) op r @ futures sv
      \<and> (\<forall>h. promiseHandle op \<noteq> Some h \<longrightarrow> ps_live (promises sv') h = ps_live (promises sv) h)" for r
  proof (cases "promiseHandle op")
    case None
    then show ?thesis
      using ok by (simp add: op_fulfil_def answer_def)
  next
    case (Some h)
    then obtain p where p: "ps_live (promises sv) h = Some p"
      using live by auto
    show ?thesis
      using take_promise_live [OF ok p] Some p by (auto simp: op_fulfil_def set_value_def answer_def)
  qed
  obtain str where str [simp]: "op_str op = Inr str"
    using op_typed_str [OF typed(1)] by blast
  show ?thesis
  proof (cases "kind op"; cases "args op")
    fix k assume a: "kind op = GET" "args op = ArgKey k"
    then show ?thesis
      using ff [of "ResGet (view d k)"] typed m g get_view [of d k] by (auto simp: op_execute_def Let_def op_ok_def)
  next
    fix k v assume a: "kind op = PUT" "args op = ArgPair k v"
    then have i: "i32_ok k" "i32_ok v"
      using typed by (simp_all add: op_ok_def)
    obtain d' where p: "put d (k, v) = (True, d')"
      using put_ok [OF i, of d] by (cases "put d (k, v)") auto
    show ?thesis
      using ff [of "ResBool True"] a p m put_view [OF i _ g] put_good [OF g i] by (auto simp: op_execute_def Let_def)
  next
    fix s assume "kind op = ADD_SERVER" "args op = ArgServer s"
    then show ?thesis
      using ff [of "ResBool True"] m g by (auto simp: op_execute_def Let_def)
  next
    fix k assume "kind op = REMOVE_SERVER" "args op = ArgKey k"
    then show ?thesis
      using ff [of "ResBool True"] m g by (auto simp: op_execute_def Let_def)
  qed (use typed in auto)
qed

lemma exec_refines:
  assumes "list_all (\<lambda>op. op_typed op \<and> op_ok op) ops" and "ps_ok (promises sv)" and "\<forall>k. i32_ok k \<longrightarrow> view d k = m k"
    and "distinct (op_handles ops)" and "set (op_handles ops) \<subseteq> dom (ps_live (promises sv))" and "good d"
  shows "\<exists>d' sv'. exec_ops get put ops d sv = Inr (d', sv')
    \<and> (\<forall>k. i32_ok k \<longrightarrow> view d' k = snd (kv_run ops m) k) \<and> good d'
    \<and> futures sv' = rev (answers (ps_live (promises sv)) ops (fst (kv_run ops m))) @ futures sv"
  using assms
proof (induction ops arbitrary: d sv m)
  case Nil
  then show ?case by simp
next
  case (Cons op ops)
  have live: "\<forall>h. promiseHandle op = Some h \<longrightarrow> ps_live (promises sv) h \<noteq> None"
    using Cons.prems(5) by (auto simp: map_filter_simps)
  obtain op' d1 sv1 where e: "op_execute get put op d sv = Inr (op', d1, sv1)"
      "\<forall>k. i32_ok k \<longrightarrow> view d1 k = snd (kv_step op m) k" "ps_ok (promises sv1)" "good d1"
      "futures sv1 = answer (ps_live (promises sv)) op (fst (kv_step op m)) @ futures sv"
      "\<forall>h. promiseHandle op \<noteq> Some h \<longrightarrow> ps_live (promises sv1) h = ps_live (promises sv) h"
    using execute_refines [of op d sv m] Cons.prems live by auto
  have same: "h \<in> set (op_handles ops) \<Longrightarrow> ps_live (promises sv1) h = ps_live (promises sv) h" for h
    using e(6) Cons.prems(4) by (cases "promiseHandle op") (simp_all add: op_handles_Cons, metis)
  have ans: "answers (ps_live (promises sv1)) ops rs = answers (ps_live (promises sv)) ops rs" for rs
    using same by (intro answers_cong) blast
  have "distinct (op_handles ops)" "set (op_handles ops) \<subseteq> dom (ps_live (promises sv1))"
    using Cons.prems(4,5) same by (auto simp: op_handles_Cons domIff split: option.splits)
  then obtain d2 sv2 where r: "exec_ops get put ops d1 sv1 = Inr (d2, sv2)"
      "\<forall>k. i32_ok k \<longrightarrow> view d2 k = snd (kv_run ops (snd (kv_step op m))) k" "good d2"
      "futures sv2 = rev (answers (ps_live (promises sv1)) ops (fst (kv_run ops (snd (kv_step op m))))) @ futures sv1"
    using Cons.IH [of sv1 d1 "snd (kv_step op m)"] Cons.prems(1) e by auto
  have "futures sv2 = rev (answers (ps_live (promises sv)) (op # ops)
      (fst (kv_step op m) # fst (kv_run ops (snd (kv_step op m))))) @ futures sv"
    unfolding r(4) e(5) ans by (simp add: answer_def split: option.split)
  then show ?case
    using e(1) r by (simp add: case_prod_beta del: kv_step.simps answers.simps)
qed

end

interpretation proxy_db: kv_total LevelDBProxy_get LevelDBProxy_put om_find "\<lambda>_. True"
  by unfold_locales (auto simp: LevelDBProxy_get_def LevelDBProxy_put_def om_at_def)

text \<open>
  The map a LevelDB database stands for, and the databases whose values are numbers or
  empty: \<open>std::stoi\<close> throws on anything else.
\<close>

definition real_view :: "('d \<Rightarrow> string \<Rightarrow> string option) \<Rightarrow> 'd \<Rightarrow> kv" where
  "real_view dbGet d k =
     (case dbGet d (to_string k) of None \<Rightarrow> None | Some s \<Rightarrow> (case stoi s of Inl _ \<Rightarrow> None | Inr v \<Rightarrow> Some v))"

definition real_good :: "('d \<Rightarrow> string \<Rightarrow> string option) \<Rightarrow> 'd \<Rightarrow> bool" where
  "real_good dbGet d \<longleftrightarrow> (\<forall>k s. i32_ok k \<and> dbGet d (to_string k) = Some s \<and> s \<noteq> [] \<longrightarrow> (\<exists>v. stoi s = Inr v))"

lemma stoi_Nil: "stoi [] \<noteq> Inr v"
  by (simp add: stoi_def)

lemma real_total:
  assumes same: "\<And>d k v d'. dbPut d k v = (True, d') \<Longrightarrow> dbGet d' k = Some v"
    and other: "\<And>d k v d' k'. dbPut d k v = (True, d') \<Longrightarrow> k' \<noteq> k \<Longrightarrow> dbGet d' k' = dbGet d k'"
    and ok: "\<And>d k v. fst (dbPut d k v)"
  shows "kv_total (LevelDBReal_get dbGet) (LevelDBReal_put dbPut) (real_view dbGet) (real_good dbGet)"
proof (intro kv_total.intro kv_total_axioms.intro real_backend same other)
  fix d k assume g: "real_good dbGet d" "i32_ok k"
  show "LevelDBReal_get dbGet d k = Inr (real_view dbGet d k)"
  proof (cases "dbGet d (to_string k)")
    case (Some s)
    then consider "s = []" | v where "stoi s = Inr v" "s \<noteq> []"
      using g unfolding real_good_def by metis
    then show ?thesis
      by cases (auto simp: LevelDBReal_get_def real_view_def Some stoi_Nil split: sum.split)
  qed (simp add: LevelDBReal_get_def real_view_def)
next
  fix d k v
  show "fst (LevelDBReal_put dbPut d (k, v))"
    using ok [of d "to_string k" "to_string v"] by (auto simp: LevelDBReal_put_def split: prod.splits)
next
  fix d k v assume g: "real_good dbGet d" "i32_ok k" "i32_ok v"
  obtain d' where p: "dbPut d (to_string k) (to_string v) = (True, d')"
    using ok [of d "to_string k" "to_string v"] by (cases "dbPut d (to_string k) (to_string v)") auto
  have "\<exists>w. stoi s = Inr w" if "i32_ok j" "dbGet d' (to_string j) = Some s" "s \<noteq> []" for j s
    using that g same [OF p] other [OF p, of "to_string j"] stoi_to_string [OF g(3)]
    by (cases "to_string j = to_string k") (auto simp: real_good_def)
  then show "real_good dbGet (snd (LevelDBReal_put dbPut d (k, v)))"
    by (auto simp: LevelDBReal_put_def p real_good_def)
qed

section \<open>Properties\<close>

text \<open>C18. The executer implements the replicated map: over a LevelDB that holds numbers, accepts every put
  and returns what was last put, a batch of well-typed operations whose handles name different live
  promises runs to its end, the database afterwards reads as the reference map after the same
  operations in the same order, and every waiting client gets the result the reference gives its
  operation, in that order.\<close>

theorem executer_refines_map:
  assumes same: "\<And>d k v d'. dbPut d k v = (True, d') \<Longrightarrow> dbGet d' k = Some v"
    and other: "\<And>d k v d' k'. dbPut d k v = (True, d') \<Longrightarrow> k' \<noteq> k \<Longrightarrow> dbGet d' k' = dbGet d k'"
    and ok: "\<And>d k v. fst (dbPut d k v)" and good: "real_good dbGet db"
    and typed: "list_all (\<lambda>op. op_typed op \<and> op_ok op) (raftOut n)" and ps: "ps_ok (promises (services n))"
    and hs: "distinct (op_handles (raftOut n))" "set (op_handles (raftOut n)) \<subseteq> dom (ps_live (promises (services n)))"
  shows "\<exists>db' n'. executerImpl_body (LevelDBReal_get dbGet) (LevelDBReal_put dbPut) db n = Inr (db', n')
    \<and> (\<forall>k. i32_ok k \<longrightarrow> LevelDBReal_get dbGet db' k = Inr (snd (kv_run (raftOut n) (real_view dbGet db)) k))
    \<and> futures (services n') = rev (answers (ps_live (promises (services n))) (raftOut n) (fst (kv_run (raftOut n) (real_view dbGet db)))) @ futures (services n)
    \<and> execIn n' = []"
proof -
  have total: "kv_total (LevelDBReal_get dbGet) (LevelDBReal_put dbPut) (real_view dbGet) (real_good dbGet)"
    by (rule real_total) (fact same other ok)+
  obtain db' sv' where "exec_ops (LevelDBReal_get dbGet) (LevelDBReal_put dbPut) (raftOut n) db (services n) = Inr (db', sv')"
      "\<forall>k. i32_ok k \<longrightarrow> real_view dbGet db' k = snd (kv_run (raftOut n) (real_view dbGet db)) k" "real_good dbGet db'"
      "futures sv' = rev (answers (ps_live (promises (services n))) (raftOut n) (fst (kv_run (raftOut n) (real_view dbGet db)))) @ futures (services n)"
    using kv_total.exec_refines [OF total typed ps _ hs good, of "real_view dbGet db"] by auto
  then show ?thesis
    using kv_total.get_view [OF total] by (simp add: executerImpl_body_def Let_def)
qed

theorem executer_refines_map_witness:
  "\<exists>db' n'. executerImpl_body (LevelDBReal_get (\<lambda>d k. d k)) (LevelDBReal_put (\<lambda>d k v. (True, d(k \<mapsto> v)))) Map.empty
       (waiting_node\<lparr>raftOut := [waiting_op, get_op 1]\<rparr>) = Inr (db', n')
     \<and> LevelDBReal_get (\<lambda>d k. d k) db' 1 = Inr (Some 2) \<and> futures (services n') = [(7, ResBool True)]"
proof -
  let ?n = "waiting_node\<lparr>raftOut := [waiting_op, get_op 1]\<rparr>"
  let ?get = "\<lambda>(d :: string \<Rightarrow> string option) k. d k"
  let ?put = "\<lambda>(d :: string \<Rightarrow> string option) k v. (True, d(k \<mapsto> v))"
  have t: "list_all (\<lambda>op. op_typed op \<and> op_ok op) (raftOut ?n)" and h: "op_handles (raftOut ?n) = [0]" and g: "real_good ?get Map.empty"
    by (simp_all add: waiting_op_def get_op_def op_ok_def i32_ok_def map_filter_simps real_good_def)
  have d: "distinct (op_handles (raftOut ?n))" "set (op_handles (raftOut ?n)) \<subseteq> dom (ps_live (promises (services ?n)))"
    unfolding h by simp_all
  have "\<exists>db' n'. executerImpl_body (LevelDBReal_get ?get) (LevelDBReal_put ?put) Map.empty ?n = Inr (db', n')
      \<and> (\<forall>k. i32_ok k \<longrightarrow> LevelDBReal_get ?get db' k = Inr (snd (kv_run (raftOut ?n) (real_view ?get Map.empty)) k))
      \<and> futures (services n') = rev (answers (ps_live (promises (services ?n))) (raftOut ?n) (fst (kv_run (raftOut ?n) (real_view ?get Map.empty)))) @ futures (services ?n)
      \<and> execIn n' = []"
    by (rule executer_refines_map) (fact g t d | force)+
  then obtain db' n' where r: "executerImpl_body (LevelDBReal_get ?get) (LevelDBReal_put ?put) Map.empty ?n = Inr (db', n')"
      "\<forall>k. i32_ok k \<longrightarrow> LevelDBReal_get ?get db' k = Inr (snd (kv_run (raftOut ?n) (real_view ?get Map.empty)) k)"
      "futures (services n') = rev (answers (ps_live (promises (services ?n))) (raftOut ?n) (fst (kv_run (raftOut ?n) (real_view ?get Map.empty)))) @ futures (services ?n)"
    by blast
  have "LevelDBReal_get ?get db' 1 = Inr (Some 2)"
    using r(2) by (simp add: waiting_op_def get_op_def i32_ok_def)
  moreover have "futures (services n') = [(7, ResBool True)]"
    using r(3) by (simp add: waiting_op_def get_op_def answer_def) (simp add: waiting_node_def)
  ultimately show ?thesis
    using r(1) by blast
qed

end
