(* ===== verification/NodeMachine.thy ===== *)
theory NodeMachine
  imports OhMyReplica Replication Executer
begin

text \<open>
  A replica as a state machine. \<open>node_step\<close> has one rule per critical section of its threads: RPC
  handlers, the Raft loop, replication and vote threads at their two points under the mutex, the
  election timer, the executer, the membership calls, client requests and fault injection. What a
  thread keeps between its two points (the peer, the saved term, the request) and what comes from
  outside is arbitrary in the rules (the Raft loop, for instance, may run its round after the replica has
  stopped leading, since it checks the role in an earlier critical section), so every interleaving of
  any number of threads is a run. A step that would be a fault of the C++ program has no rule instance.
  The second argument of a step is the list of operations it hands to the executer. The database is a map from strings to strings, with
  any functions for its reads and writes.
\<close>

section \<open>Steps\<close>

type_synonym leveldb = "string \<Rightarrow> string option"

text \<open>
  A call of \<open>AppendEntries\<close> as the service makes it: the fields fit into 32 bits and every operation has
  the argument its kind calls for, or an unknown kind.
\<close>

definition received :: "AppendEntriesParams \<Rightarrow> bool" where
  "received a \<longleftrightarrow> ae_ok a \<and> list_all (\<lambda>e. op_prints (ale_op e)) (ae_entries a)"

definition step_append :: "AppendEntriesParams \<Rightarrow> int \<Rightarrow> node \<Rightarrow> node \<Rightarrow> bool" where
  "step_append a now n n' \<longleftrightarrow> received a \<and> (\<exists>reply. AppendEntries a now n = Inr (reply, n'))"

definition step_vote :: "RequestVoteParams \<Rightarrow> int \<Rightarrow> node \<Rightarrow> node \<Rightarrow> bool" where
  "step_vote a now n n' \<longleftrightarrow> i32_ok (rv_term a) \<and> i32_ok (rv_candidateId a) \<and> n' = snd (RequestVote a now n)"

text \<open>
  The steps that neither commit nor touch the log. A membership call that fails its first checks
  changes the state as \<open>leaderAddr\<close> does, by the lookup of the leader.
\<close>

inductive quiet_step :: "node \<Rightarrow> node \<Rightarrow> bool" where
  vote: "step_vote a now n n' \<Longrightarrow> quiet_step n n'"
| take: "quiet_step n (raft_take n)"
| clear: "quiet_step n (raft_clear n)"
| prepare: "leader_prepare peer t n = Inr (r, n') \<Longrightarrow> quiet_step n n'"
| election: "electionImpl_body tmo now n = Inr (ths, n') \<Longrightarrow> quiet_step n n'"
| voteReply: "i32_ok (rvr_term reply) \<Longrightarrow> quiet_step n (vote_reply saved reply now n)"
| addStep: "(\<forall>info p. pc = Submit info p \<longrightarrow> ServerInfo_ok info) \<Longrightarrow> quiet_step n (snd (AddServer_step pc n))"
| removeStep: "(\<forall>i p. pc = Submit i p \<longrightarrow> i32_ok i) \<Longrightarrow> quiet_step n (snd (RemoveServer_step now pc n))"
| network: "quiet_step n (NetworkUpdate es n)"
| leaderAddr: "quiet_step n (snd (getLastKnownLeaderDBAddr n))"
| execWait: "quiet_step n (snd (executer_wait t n))"
| start: "quiet_step n (start n)"
| stop: "quiet_step n (stop n)"

inductive node_step :: "node \<Rightarrow> RaftOp list \<Rightarrow> node \<Rightarrow> bool" where
  quiet: "quiet_step n n' \<Longrightarrow> node_step n [] n'"
| append: "step_append a now n n' \<Longrightarrow> raftOut n' = raftOut n @ es \<Longrightarrow> node_step n es n'"
| run: "runLeaderOneIter n = Inr (ths, n') \<Longrightarrow> node_step n [] n'"
| reply: "i32_ok (aer_term reply) \<Longrightarrow> leader_reply peer saved k sent reply now n = Inr n'
    \<Longrightarrow> raftOut n' = raftOut n @ es \<Longrightarrow> node_step n es n'"
| execTake: "execIn n = [] \<Longrightarrow> node_step n [] (executer_take n)"
| execute: "executer_one dbget dbput (db :: leveldb) n = Inr (db', n') \<Longrightarrow> node_step n [] n'"
| get: "i32_ok key \<Longrightarrow> get_begin key ft n = Inr (pc, n') \<Longrightarrow> node_step n [] n'"
| put: "i32_ok (fst kvp) \<Longrightarrow> i32_ok (snd kvp) \<Longrightarrow> put_begin kvp ft n = Inr (pc, n') \<Longrightarrow> node_step n [] n'"

section \<open>The invariant\<close>

text \<open>
  The disk agrees with the memory, queued operations can be stored, and what was committed was
  handed over.
\<close>

definition node_inv :: "node \<Rightarrow> bool" where
  "node_inv n \<longleftrightarrow> disk_inv n \<and> list_all op_ok (dispatchOut n) \<and> list_all op_ok (raftIn n)
     \<and> LastApplied n = CommitIndex n \<and> -1 \<le> CommitIndex n"

text \<open>What quiet steps keep: the log, the commit index and, together, the two queues of the Raft thread.\<close>

definition quiet_frame :: "node \<Rightarrow> node \<Rightarrow> bool" where
  "quiet_frame n n' \<longleftrightarrow> Logs n' = Logs n \<and> CommitIndex n' = CommitIndex n \<and> LastApplied n' = LastApplied n \<and> raftOut n' = raftOut n
     \<and> my_id n' = my_id n \<and> pStore n' = pStore n
     \<and> (list_all op_ok (dispatchOut n) \<and> list_all op_ok (raftIn n) \<longrightarrow> list_all op_ok (dispatchOut n') \<and> list_all op_ok (raftIn n'))
     \<and> (disk_inv n \<longrightarrow> disk_inv n')"

lemma quiet_frame_refl: "quiet_frame n n"
  by (simp add: quiet_frame_def)

lemma RequestVote_frame:
  "CommitIndex (snd (RequestVote a now n)) = CommitIndex n" "LastApplied (snd (RequestVote a now n)) = LastApplied n"
  "raftOut (snd (RequestVote a now n)) = raftOut n" "dispatchOut (snd (RequestVote a now n)) = dispatchOut n"
  "raftIn (snd (RequestVote a now n)) = raftIn n" "my_id (snd (RequestVote a now n)) = my_id n"
  "pStore (snd (RequestVote a now n)) = pStore n"
  by (simp_all add: RequestVote_def Let_def)

lemma quiet_vote: "step_vote a now n n' \<Longrightarrow> quiet_frame n n'"
  using disk_inv_RequestVote [of n a now "fst (RequestVote a now n)" n']
  by (auto simp: step_vote_def quiet_frame_def RequestVote_frame RequestVote_state_aux(2))

lemma quiet_ms_fail: "quiet_frame n (snd (ms_fail code n))"
  using disk_inv_ms_fail by (auto simp: quiet_frame_def ms_fail_def getLastKnownLeaderRaftAddr_def case_prod_beta)

lemma quiet_wait_prev: "quiet_frame n (snd (wait_prev x r n))"
  by (simp add: wait_prev_def quiet_ms_fail quiet_frame_refl)

lemma quiet_submit: "op_ok op \<Longrightarrow> quiet_frame n (snd (submit op n))"
  using disk_inv_submit [of n op "fst (submit op n)" "snd (submit op n)"] by (auto simp: quiet_frame_def submit_def)

lemma quiet_submit_change:
  assumes "op_ok op" and "kind op \<noteq> GET" and "kind op \<noteq> PUT"
  shows "quiet_frame n (snd (submit_change op x p n))"
  using assms quiet_submit [of op n] by (simp add: submit_change_def case_prod_beta) (simp add: submit_def)

lemma quiet_becomeFollower: "i32_ok t \<Longrightarrow> quiet_frame n (becomeFollower t now n)"
  using disk_inv_becomeFollower by (auto simp: quiet_frame_def)

lemma quiet_AddServer_step:
  "(\<And>info p. pc = Submit info p \<Longrightarrow> ServerInfo_ok info) \<Longrightarrow> quiet_frame n (snd (AddServer_step pc n))"
  by (cases pc) (simp_all add: quiet_wait_prev quiet_ms_fail quiet_frame_refl quiet_submit_change op_ok_def)

lemma quiet_RemoveServer_step:
  "(\<And>i p. pc = Submit i p \<Longrightarrow> i32_ok i) \<Longrightarrow> quiet_frame n (snd (RemoveServer_step now pc n))"
  by (cases pc) (simp_all add: quiet_wait_prev quiet_ms_fail quiet_frame_refl quiet_submit_change quiet_becomeFollower op_ok_def i32_ok_def)

lemma quiet_NetworkUpdate: "quiet_frame n (NetworkUpdate es n)"
proof (induction es arbitrary: n)
  case (Cons e es)
  have f: "quiet_frame n (n\<lparr>peers := m\<rparr>)" for m
    by (auto simp: quiet_frame_def intro: disk_inv_frame)
  show ?case
  proof (cases "om_find (peers n) (pn_peerId e)")
    case None
    then show ?thesis
      using Cons by simp
  next
    case (Some r)
    then show ?thesis
      using Cons [of "n\<lparr>peers := om_put (pn_peerId e)
          (setDelayMs (pn_delayMs e) (setIsDelayed (pn_isDelayed e) (setEnable (pn_isEnabled e) r))) (peers n)\<rparr>"]
        f [of "om_put (pn_peerId e)
          (setDelayMs (pn_delayMs e) (setIsDelayed (pn_isDelayed e) (setEnable (pn_isEnabled e) r))) (peers n)"]
      by (auto simp: quiet_frame_def)
  qed
qed (simp add: quiet_frame_refl)

lemma quiet_election:
  assumes "electionImpl_body tmo now n = Inr (ths, n')"
  shows "quiet_frame n n'"
  using assms disk_inv_electionImpl [of n tmo now ths n']
  by (auto simp: quiet_frame_def electionImpl_body_def startElection_def Let_def i32_add_def
      split: RaftRole.splits if_splits)

lemma quiet_vote_reply: "i32_ok (rvr_term reply) \<Longrightarrow> quiet_frame n (vote_reply saved reply now n)"
  using disk_inv_vote_reply by (auto simp: quiet_frame_def vote_reply_def Let_def)

lemma quiet_queues: "quiet_frame n (raft_take n)" "quiet_frame n (raft_clear n)" "quiet_frame n (start n)" "quiet_frame n (stop n)"
  by (auto simp: quiet_frame_def raft_take_def raft_clear_def start_def stop_def intro: disk_inv_frame)

lemma quiet_step_frame: "quiet_step n n' \<Longrightarrow> quiet_frame n n'"
proof (induction rule: quiet_step.induct)
  case (prepare peer t n r n')
  then show ?case
    using disk_inv_leader_prepare [of n peer t r n']
    by (auto simp: quiet_frame_def leader_prepare_def Let_def case_prod_beta elim!: rbind_Inr_E)
next
  case (leaderAddr n)
  then show ?case
    by (auto simp: quiet_frame_def getLastKnownLeaderDBAddr_def case_prod_beta intro: disk_inv_frame)
next
  case (execWait n t)
  then show ?case
    by (auto simp: quiet_frame_def executer_wait_def case_prod_beta intro: disk_inv_frame)
qed (auto intro: quiet_vote quiet_election quiet_vote_reply quiet_AddServer_step quiet_RemoveServer_step
      quiet_NetworkUpdate quiet_queues)

section \<open>The invariant is kept\<close>

lemma node_inv_quiet: "node_inv n \<Longrightarrow> quiet_frame n n' \<Longrightarrow> node_inv n'"
  by (auto simp: node_inv_def quiet_frame_def)

lemma AppendEntries_queue:
  assumes "AppendEntries a now n = Inr (reply, n')" and "-1 \<le> LastApplied n"
  shows "\<exists>es. raftOut n' = raftOut n @ es"
  using assms(1)
proof (cases rule: AppendEntries_cases)
  case (stored n4)
  have "LastApplied n4 = LastApplied n" "raftOut n4 = raftOut n"
    using store_entries_keeps [OF stored(5)] by simp_all
  then show ?thesis
    using stored(6) assms(2) follower_commit_ok [of n4 "ae_leaderCommit a"] by (auto simp: Let_def split: if_splits)
qed simp

lemma disk_inv_step_append: "disk_inv n \<Longrightarrow> step_append a now n n' \<Longrightarrow> disk_inv n'"
proof -
  assume d: "disk_inv n" and "step_append a now n n'"
  then obtain reply where a: "ae_ok a" and r: "AppendEntries a now n = Inr (reply, n')"
    by (auto simp: step_append_def received_def)
  have "Role n = Dead \<or> ae_term a < CurrentTerm n \<or> -1 \<le> ae_prevLogIndex a"
  proof (rule ccontr)
    assume c: "\<not> ?thesis"
    then have cur: "Role n \<noteq> Dead" "CurrentTerm n \<le> ae_term a" by auto
    obtain ok where "prev_matches (log_of n) (ae_prevLogIndex a) (ae_prevLogTerm a) = Inr ok"
      using r by (auto simp: AppendEntries_current [OF cur] elim: rbind_Inr_E)
    then show False
      using c prev_matches_sign by blast
  qed
  then consider "Role n = Dead" | "Role n \<noteq> Dead" "ae_term a < CurrentTerm n" | "-1 \<le> ae_prevLogIndex a"
    by blast
  then show ?thesis
  proof cases
    case 3
    then show ?thesis
      using disk_inv_AppendEntries [OF d a _ r] by blast
  qed (use r d in \<open>auto simp: AppendEntries_dead AppendEntries_stale intro: disk_inv_frame\<close>)
qed

text \<open>How a step commits: not at all, or everything up to the new commit index goes to the executer.\<close>

definition commits :: "node \<Rightarrow> RaftOp list \<Rightarrow> node \<Rightarrow> bool" where
  "commits n es n' \<longleftrightarrow>
     (CommitIndex n' = CommitIndex n \<and> LastApplied n' = LastApplied n \<and> es = [])
     \<or> (LastApplied n' = CommitIndex n' \<and> -1 \<le> CommitIndex n' \<and> CommitIndex n' < int (length (log_of n'))
        \<and> es = map log_op (segment (LastApplied n + 1) (CommitIndex n') (log_of n')))"

lemma commits_follower:
  assumes "follower_commit c n4 = Inr n'" and "-1 \<le> CommitIndex n4" and "LastApplied n4 = CommitIndex n4" and "raftOut n' = raftOut n4 @ es"
  shows "commits n4 es n'"
  using assms follower_commit_ok [of n4 c] by (auto simp: commits_def Let_def split: if_splits)

lemma commits_reply:
  assumes r: "leader_reply peer saved k sent reply now n = Inr n'" and idx: "-1 \<le> CommitIndex n" "LastApplied n = CommitIndex n"
    and es: "raftOut n' = raftOut n @ es"
  shows "commits n es n' \<and> Logs n' = Logs n \<and> dispatchOut n' = dispatchOut n \<and> raftIn n' = raftIn n
    \<and> my_id n' = my_id n \<and> pStore n' = pStore n"
proof -
  let ?m = "leader_matched peer (k + int sent) n"
  let ?is = "[CommitIndex n + 1..int (length (log_of n)) - 1]"
  consider "\<exists>t. n' = becomeFollower t now n" | "n' = n" | "\<exists>x. n' = n\<lparr>NextIndex := x\<rparr>"
    | (scan) n3 where "commit_scan ?is ?m = Inr n3" "(if CommitIndex n3 \<noteq> CommitIndex n then queue_committed n3 else Inr n3) = Inr n'"
    by (rule leader_reply_cases [OF r]) blast+
  then show ?thesis
  proof cases
    case scan
    obtain n3' where n3: "n3' = n3" "scan_frame ?m n3" "CommitIndex n3 = last (CommitIndex ?m # filter (committable ?m) ?is)"
      using commit_scan_ok [of ?is ?m] idx scan(1) by auto
    have same: "Logs n3 = Logs n" "raftOut n3 = raftOut n" "dispatchOut n3 = dispatchOut n" "raftIn n3 = raftIn n" "LastApplied n3 = LastApplied n"
        "my_id n3 = my_id n" "pStore n3 = pStore n"
      using n3(2) by (auto simp: scan_frame_def leader_matched_def)
    have "CommitIndex n3 = CommitIndex n \<or> CommitIndex n3 \<in> set (filter (committable ?m) ?is)"
      unfolding n3(3) leader_matched_simps by (metis last.simps last_in_set)
    then have ci: "CommitIndex n3 = CommitIndex n \<or> (CommitIndex n < CommitIndex n3 \<and> CommitIndex n3 < int (length (log_of n)))"
      by auto
    show ?thesis
    proof (cases "CommitIndex n3 = CommitIndex n")
      case True
      then show ?thesis
        using scan(2) same es by (auto simp: commits_def)
    next
      case False
      then have q: "queue_committed n3 = Inr n'" and b: "CommitIndex n3 < int (length (log_of n3))" "-1 \<le> CommitIndex n3"
        using scan(2) ci idx same by auto
      then show ?thesis
        using queue_committed_ok [of n3] idx same es by (auto simp: commits_def)
    qed
  qed (use es in \<open>auto simp: commits_def\<close>)
qed

lemma commits_append:
  assumes "step_append a now n n'" and "raftOut n' = raftOut n @ es" and "-1 \<le> CommitIndex n" and "LastApplied n = CommitIndex n"
  shows "commits n es n' \<and> dispatchOut n' = dispatchOut n \<and> raftIn n' = raftIn n"
proof -
  obtain reply where r: "AppendEntries a now n = Inr (reply, n')"
    using assms(1) by (auto simp: step_append_def)
  from r show ?thesis
  proof (cases rule: AppendEntries_cases)
    case kept
    then show ?thesis
      using assms(2) by (simp add: commits_def)
  next
    case (stored n4)
    have k: "CommitIndex n4 = CommitIndex n" "LastApplied n4 = LastApplied n" "raftOut n4 = raftOut n"
        "dispatchOut n4 = dispatchOut n" "raftIn n4 = raftIn n"
      using store_entries_keeps [OF stored(5)] by (auto simp: ae_stepdown_def Let_def)
    then have "commits n4 es n'"
      using commits_follower [OF stored(6)] assms by simp
    then show ?thesis
      using k follower_commit_keeps [OF stored(6)] by (auto simp: commits_def)
  qed
qed

lemma run_frame:
  assumes "runLeaderOneIter n = Inr (ths, n')"
  shows "CommitIndex n' = CommitIndex n \<and> LastApplied n' = LastApplied n \<and> raftOut n' = raftOut n \<and> dispatchOut n' = dispatchOut n
    \<and> raftIn n' = raftIn n \<and> log_of n' = log_of n @ map (\<lambda>op. \<lparr>log_term = CurrentTerm n, log_op = op\<rparr>) (raftIn n)"
proof -
  obtain n1 where "append_ops (raftIn n) n = Inr n1" "n' = persist_logs n1"
    using runLeaderOneIter_Inr [OF assms] .
  then show ?thesis
    using append_ops_keeps [of "raftIn n" n n1] by (simp add: persist_logs_def case_prod_beta)
qed

lemma execute_frame:
  assumes "executer_one dbget dbput db n = Inr (db', n')"
  shows "CommitIndex n' = CommitIndex n \<and> LastApplied n' = LastApplied n \<and> Logs n' = Logs n \<and> dispatchOut n' = dispatchOut n \<and> raftIn n' = raftIn n"
  using assms by (auto simp: executer_one_def elim!: rbind_Inr_E split: list.splits)

lemma request_frame:
  assumes "request_begin k a v ft n = Inr (pc, n')" and "k = GET \<or> k = PUT" and "args_ok a"
  shows "CommitIndex n' = CommitIndex n \<and> LastApplied n' = LastApplied n \<and> Logs n' = Logs n \<and> raftIn n' = raftIn n
    \<and> (list_all op_ok (dispatchOut n) \<longrightarrow> list_all op_ok (dispatchOut n')) \<and> (disk_inv n \<longrightarrow> disk_inv n')"
  using assms
  by (auto simp: request_unfold op_ok_def
      elim!: rbind_Inr_E split: if_splits intro: disk_inv_frame)

lemma node_step_commits:
  assumes "node_step n es n'" and inv: "node_inv n"
  shows "node_inv n' \<and> commits n es n'"
  using assms(1)
proof cases
  case quiet
  then show ?thesis
    using node_inv_quiet [OF inv] quiet_step_frame by (auto simp: commits_def quiet_frame_def)
next
  case (append a now)
  then show ?thesis
    using inv commits_append [OF append(1,2)] disk_inv_step_append by (auto simp: node_inv_def commits_def)
next
  case (run ths)
  then show ?thesis
    using inv run_frame disk_inv_runLeaderOneIter by (auto simp: node_inv_def commits_def)
next
  case (reply rep peer saved k sent now)
  then show ?thesis
    using inv commits_reply [OF reply(2)] disk_inv_leader_reply [OF _ reply(1,2)] by (auto simp: node_inv_def commits_def)
next
  case execTake
  then show ?thesis
    using inv disk_inv_executer(1) [of n] by (auto simp: node_inv_def commits_def executer_take_def)
next
  case (execute dbget dbput db db')
  then show ?thesis
    using inv execute_frame [OF execute(2)] disk_inv_executer(2) [OF _ execute(2)] by (auto simp: node_inv_def commits_def)
next
  case (get key ft pc)
  then show ?thesis
    using inv request_frame [of GET "ArgKey key" "-1" ft n pc n'] by (auto simp: get_begin_def node_inv_def commits_def)
next
  case (put kvp ft pc)
  then show ?thesis
    using inv request_frame [of PUT "ArgPair (fst kvp) (snd kvp)" 0 ft n pc n'] by (auto simp: put_begin_def node_inv_def commits_def)
qed

section \<open>Runs and restarts\<close>

text \<open>
  A replica starts from the files it finds, with the configuration of the command line; the node it
  gets is that of \<open>initialiseServices\<close>.
\<close>

definition boot_node :: "LogEntry cxx_type \<Rightarrow> int \<Rightarrow> bool \<Rightarrow> string \<Rightarrow> (int, ServerInfo) omap \<Rightarrow> service \<Rightarrow> fs \<Rightarrow> node" where
  "boot_node T me withBootstrap dir cfg sv fs =
     foldl (\<lambda>m (i, r). addPeer i r m) (setClusterConfig cfg (bootstrap me withBootstrap dir (RaftManager_init T fs sv))) (peer_routers me cfg)"

lemma peer_routers_self: "peer_routers me (om_put me s cfg) = peer_routers me cfg"
  by (induction cfg) (auto simp: peer_routers_def)

lemma peer_routers_at: "peer_routers me (snd (om_at d cfg me)) = peer_routers me cfg"
  by (simp add: om_at_def peer_routers_self split: option.split)

lemma listen_config_peers: "peer_routers me (snd (listen_config me ip rp dp cfg)) = peer_routers me cfg"
  by (simp add: listen_config_def Let_def case_prod_beta peer_routers_at)

lemma initialiseServices_boot:
  assumes "initialiseServices cfg me w b dir ip rp dp pings (RaftManager_init T fs sv) = Some (addrs, n)"
  shows "n = boot_node T me b dir cfg sv fs"
  using assms listen_config_peers [of me ip rp dp cfg]
  by (auto simp: initialiseServices_def boot_node_def Let_def case_prod_beta getClusterConfig_def setClusterConfig_def split: option.splits)

inductive reach :: "string \<Rightarrow> int \<Rightarrow> LogEntry cxx_type \<Rightarrow> node \<Rightarrow> bool" for dir me T where
  first: "reach dir me T (boot_node T me False dir cfg sv fs)"
| step: "reach dir me T n \<Longrightarrow> node_step n es n' \<Longrightarrow> reach dir me T n'"
| crash: "reach dir me T n \<Longrightarrow> reach dir me T (boot_node T me True dir cfg sv (disk n))"

text \<open>What no step changes: the identity of the replica and the names of its files.\<close>

definition same_home :: "node \<Rightarrow> node \<Rightarrow> bool" where
  "same_home n n' \<longleftrightarrow> my_id n' = my_id n \<and> pStore n' = pStore n \<and> pv_type (Logs n') = pv_type (Logs n)"

lemma persist_logs_home: "same_home n (persist_logs n)"
  by (simp add: same_home_def persist_logs_def case_prod_beta)

lemma same_home_trans: "same_home n n1 \<Longrightarrow> same_home n1 n2 \<Longrightarrow> same_home n n2"
  by (simp add: same_home_def)

lemma apply_config_home: "apply_config op n = Inr n' \<Longrightarrow> same_home n n'"
  using apply_config_logs apply_config_keeps by (simp add: same_home_def)

lemma append_new_home: "append_new es n = Inr n' \<Longrightarrow> same_home n n'"
proof (induction es arbitrary: n)
  case (Cons e es)
  then obtain n1 where a: "apply_config (ale_op e) (n\<lparr>Logs := pvec_push_back \<lparr>log_term = ale_term e, log_op = ale_op e\<rparr> (Logs n)\<rparr>) = Inr n1"
    and b: "append_new es n1 = Inr n'"
    by (auto elim: rbind_Inr_E)
  then show ?case
    using Cons.IH [OF b] apply_config_home [OF a] by (simp add: same_home_def)
qed (simp add: same_home_def)

lemma append_ops_home: "append_ops ops n = Inr n' \<Longrightarrow> same_home n n'"
proof (induction ops arbitrary: n)
  case (Cons op ops)
  then obtain n1 where a: "apply_config op (n\<lparr>Logs := pvec_push_back \<lparr>log_term = CurrentTerm n, log_op = op\<rparr> (Logs n)\<rparr>) = Inr n1"
    and b: "append_ops ops n1 = Inr n'"
    by (auto elim: rbind_Inr_E)
  then show ?case
    using Cons.IH [OF b] apply_config_home [OF a] by (simp add: same_home_def)
qed (simp add: same_home_def)

lemma store_entries_home:
  assumes "store_entries a n = Inr n'"
  shows "same_home n n'"
proof -
  obtain i j where m: "match_loop (log_of n) (ae_entries a) (ae_prevLogIndex a + 1) 0 = Inr (i, j)"
    using assms by (auto simp: store_entries_def elim: rbind_Inr_E)
  show ?thesis
  proof (cases "j < int (length (ae_entries a))")
    case True
    then obtain sv n1 where n1: "append_new (drop (nat j) (ae_entries a)) (truncate_logs i (n\<lparr>services := sv\<rparr>)) = Inr n1"
      and n': "n' = persist_logs n1"
      using assms by (auto simp: store_entries_def m elim!: rbind_Inr_E)
    have "same_home n (truncate_logs i (n\<lparr>services := sv\<rparr>))"
      by (simp add: same_home_def truncate_logs_def case_prod_beta)
    then show ?thesis
      using append_new_home [OF n1] persist_logs_home [of n1] unfolding n' by (blast intro: same_home_trans)
  next
    case False
    then show ?thesis
      using assms by (simp add: store_entries_def m same_home_def)
  qed
qed

lemma request_home: "request_begin k a v ft n = Inr (pc, n') \<Longrightarrow> same_home n n'"
  by (auto simp: request_unfold same_home_def
      elim!: rbind_Inr_E split: if_splits)

lemma node_step_home:
  assumes "node_step n es n'" and inv: "node_inv n"
  shows "same_home n n'"
  using assms(1)
proof cases
  case quiet
  then show ?thesis
    using quiet_step_frame by (auto simp: quiet_frame_def same_home_def)
next
  case (append a now)
  then obtain reply where r: "AppendEntries a now n = Inr (reply, n')"
    by (auto simp: step_append_def)
  from r show ?thesis
  proof (cases rule: AppendEntries_cases)
    case kept
    then show ?thesis
      by (simp add: same_home_def)
  next
    case (stored n4)
    have "same_home n (ae_stepdown a now n)"
      by (simp add: same_home_def)
    then show ?thesis
      using store_entries_home [OF stored(5)] follower_commit_keeps [OF stored(6)] by (simp add: same_home_def)
  qed
next
  case (run ths)
  obtain n1 where "append_ops (raftIn n) n = Inr n1" "n' = persist_logs n1"
    using runLeaderOneIter_Inr [OF run(2)] .
  then show ?thesis
    using append_ops_home persist_logs_home same_home_trans by blast
next
  case (reply rep peer saved k sent now)
  then show ?thesis
    using commits_reply [OF reply(2)] inv by (auto simp: node_inv_def same_home_def)
next
  case execTake
  then show ?thesis
    by (simp add: executer_take_def same_home_def)
next
  case (execute dbget dbput db db')
  then show ?thesis
    by (auto simp: executer_one_def same_home_def elim!: rbind_Inr_E split: list.splits)
next
  case (get key ft pc)
  then show ?thesis
    unfolding get_begin_def by (intro request_home)
next
  case (put kvp ft pc)
  then show ?thesis
    unfolding put_begin_def by (intro request_home)
qed

section \<open>Reachable states\<close>

lemma foldl_addPeer_frame:
  "CommitIndex (foldl (\<lambda>m (i, r). addPeer i r m) n ps) = CommitIndex n
    \<and> LastApplied (foldl (\<lambda>m (i, r). addPeer i r m) n ps) = LastApplied n
    \<and> VotedFor (foldl (\<lambda>m (i, r). addPeer i r m) n ps) = VotedFor n
    \<and> dispatchOut (foldl (\<lambda>m (i, r). addPeer i r m) n ps) = dispatchOut n
    \<and> raftIn (foldl (\<lambda>m (i, r). addPeer i r m) n ps) = raftIn n
    \<and> my_id (foldl (\<lambda>m (i, r). addPeer i r m) n ps) = my_id n
    \<and> pStore (foldl (\<lambda>m (i, r). addPeer i r m) n ps) = pStore n"
  by (induction ps arbitrary: n) auto

lemma foldl_addPeer_services: "services (foldl (\<lambda>m (i, r). addPeer i r m) n ps) = services n"
  by (induction ps arbitrary: n) auto

lemma boot_node_frame:
  "Logs (boot_node T me b dir cfg sv fs) = Logs (bootstrap me b dir (RaftManager_init T fs sv))"
  "CurrentTerm (boot_node T me b dir cfg sv fs) = CurrentTerm (bootstrap me b dir (RaftManager_init T fs sv))"
  "VotedFor (boot_node T me b dir cfg sv fs) = VotedFor (bootstrap me b dir (RaftManager_init T fs sv))"
  "Role (boot_node T me b dir cfg sv fs) = Follower"
  "CommitIndex (boot_node T me b dir cfg sv fs) = -1"
  "LastApplied (boot_node T me b dir cfg sv fs) = -1"
  "dispatchOut (boot_node T me b dir cfg sv fs) = []"
  "raftIn (boot_node T me b dir cfg sv fs) = []"
  "ClusterConfig (boot_node T me b dir cfg sv fs) = cfg"
  "my_id (boot_node T me b dir cfg sv fs) = me"
  "pStore (boot_node T me b dir cfg sv fs) = pStore (bootstrap me b dir (RaftManager_init T fs sv))"
  by (simp_all add: boot_node_def foldl_addPeer foldl_addPeer_frame setClusterConfig_def)
     (simp_all add: bootstrap_def RaftManager_init_def Let_def case_prod_beta)

lemma disk_inv_boot: "disk_inv (bootstrap me b dir (RaftManager_init T fs sv)) \<Longrightarrow> disk_inv (boot_node T me b dir cfg sv fs)"
  by (simp add: boot_node_def disk_inv_foldl_addPeer disk_inv_setClusterConfig)

lemma node_inv_boot: "disk_inv (bootstrap me b dir (RaftManager_init T fs sv)) \<Longrightarrow> node_inv (boot_node T me b dir cfg sv fs)"
  by (simp add: node_inv_def disk_inv_boot boot_node_frame)

definition at_home :: "string \<Rightarrow> int \<Rightarrow> LogEntry cxx_type \<Rightarrow> node \<Rightarrow> bool" where
  "at_home dir me T n \<longleftrightarrow> my_id n = me \<and> fileBaseName (pStore n) = store_prefix dir me \<and> pv_type (Logs n) = T"

lemma bootstrap_type: "pv_type (Logs (bootstrap me b dir (RaftManager_init T fs sv))) = T"
  by (simp add: bootstrap_def RaftManager_init_def pvec_setup_def pvec_init_def pvec_bootstrap_def Let_def case_prod_beta
      split: option.split)

lemma bootstrap_base: "fileBaseName (pStore (bootstrap me b dir (RaftManager_init T fs sv))) = store_prefix dir me"
  by (simp add: bootstrap_def RaftManager_init_def pstore_setup_def pstore_init_def Let_def case_prod_beta)

lemma at_home_boot: "at_home dir me T (boot_node T me b dir cfg sv fs)"
  by (simp add: at_home_def boot_node_frame bootstrap_type bootstrap_base)

lemma boot_recovers:
  assumes "disk_inv n" and "at_home dir me T n"
  shows "log_of (boot_node T me True dir cfg sv (disk n)) = stripped (log_of n)
    \<and> CurrentTerm (boot_node T me True dir cfg sv (disk n)) = CurrentTerm n
    \<and> VotedFor (boot_node T me True dir cfg sv (disk n)) = VotedFor n
    \<and> node_inv (boot_node T me True dir cfg sv (disk n))"
  using bootstrap_recovers [OF assms(1), of dir _ sv] assms(2) node_inv_boot
  by (simp add: at_home_def boot_node_frame)

theorem reach_inv:
  assumes "reach dir me T n" and lay: "object_layout (t_size T) entry_ok (t_enc T) (t_dec T)" and me: "i32_ok me"
  shows "node_inv n \<and> at_home dir me T n"
  using assms(1)
proof induction
  case (first cfg sv fs)
  then show ?case
    using bootstrap_new [OF lay me, of dir fs sv] node_inv_boot at_home_boot by blast
next
  case (step n es n')
  then show ?case
    using node_step_commits [OF step(2)] node_step_home [OF step(2)] by (auto simp: same_home_def at_home_def)
next
  case (crash n cfg sv)
  then show ?case
    using boot_recovers at_home_boot by (auto simp: node_inv_def)
qed

section \<open>The executer sees the committed log\<close>

text \<open>
  The part of the log up to the commit index, and runs that do not rewrite it. In Raft the election
  rules keep them from doing so.
\<close>

definition committed :: "node \<Rightarrow> LogEntry list" where
  "committed n = take (nat (CommitIndex n + 1)) (stripped (log_of n))"

definition keeps_committed :: "node \<Rightarrow> node \<Rightarrow> bool" where
  "keeps_committed n n' \<longleftrightarrow> take (nat (CommitIndex n + 1)) (stripped (log_of n')) = committed n \<and> CommitIndex n \<le> CommitIndex n'"

inductive committing_run :: "node \<Rightarrow> RaftOp list \<Rightarrow> node \<Rightarrow> bool" where
  here: "committing_run n [] n"
| more: "committing_run n0 es n \<Longrightarrow> node_step n es' n' \<Longrightarrow> keeps_committed n n' \<Longrightarrow> committing_run n0 (es @ es') n'"

lemma committed_step:
  assumes "commits n es n'" and "LastApplied n = CommitIndex n" and "-1 \<le> CommitIndex n" and keep: "keeps_committed n n'"
  shows "map log_op (committed n') = map log_op (committed n) @ map withoutPromise es"
proof -
  have le: "CommitIndex n \<le> CommitIndex n'" and pre: "take (nat (CommitIndex n + 1)) (stripped (log_of n')) = committed n"
    using keep by (simp_all add: keeps_committed_def)
  from assms(1) consider "CommitIndex n' = CommitIndex n" "es = []"
    | "es = map log_op (segment (CommitIndex n + 1) (CommitIndex n') (log_of n'))"
    using assms(2) by (auto simp: commits_def)
  then show ?thesis
  proof cases
    case 1
    then show ?thesis
      using pre by (simp add: committed_def)
  next
    case 2
    have "committed n' = committed n @ segment (CommitIndex n + 1) (CommitIndex n') (stripped (log_of n'))"
      using take_segment_append [of "CommitIndex n + 1" "CommitIndex n'" "stripped (log_of n')"] le assms(3) pre
      by (simp add: committed_def)
    then show ?thesis
      by (simp add: 2 map_segment [symmetric] comp_def)
  qed
qed

lemma committing_run_prefix:
  assumes "committing_run n0 es n" and "node_inv n0"
  shows "node_inv n \<and> map log_op (committed n) = map log_op (committed n0) @ map withoutPromise es"
  using assms
proof induction
  case (more n0 es n es' n')
  then have inv: "node_inv n" and IH: "map log_op (committed n) = map log_op (committed n0) @ map withoutPromise es"
    by blast+
  have "node_inv n' \<and> commits n es' n'"
    using node_step_commits [OF more.hyps(2) inv] .
  moreover from this have "map log_op (committed n') = map log_op (committed n) @ map withoutPromise es'"
    using committed_step [OF _ _ _ more.hyps(3)] inv by (simp add: node_inv_def)
  ultimately show ?case
    using IH by simp
qed simp

section \<open>One vote per term\<close>

text \<open>
  What a replica does while it only serves: the two handlers and crashes with restarts, in any order.
\<close>

inductive serving :: "string \<Rightarrow> node \<Rightarrow> node \<Rightarrow> bool" for dir where
  idle: "serving dir n n"
| append: "serving dir n0 n \<Longrightarrow> step_append a now n n' \<Longrightarrow> serving dir n0 n'"
| vote: "serving dir n0 n \<Longrightarrow> step_vote a now n n' \<Longrightarrow> serving dir n0 n'"
| restart: "serving dir n0 n \<Longrightarrow> serving dir n0 (boot_node (pv_type (Logs n)) (my_id n) True dir cfg sv (disk n))"

definition voted :: "int \<Rightarrow> int \<Rightarrow> node \<Rightarrow> bool" where
  "voted t c n \<longleftrightarrow> Role n = Follower \<and> (t < CurrentTerm n \<or> (CurrentTerm n = t \<and> VotedFor n = c))"

lemma voted_append:
  assumes "step_append a now n n'" and "voted t c n"
  shows "voted t c n'"
proof -
  obtain reply where r: "AppendEntries a now n = Inr (reply, n')"
    using assms(1) by (auto simp: step_append_def)
  have f: "Role n = Follower"
    using assms(2) by (simp add: voted_def)
  from r show ?thesis
  proof (cases rule: AppendEntries_cases)
    case kept
    have "Role n' = Follower" "CurrentTerm n' = max (CurrentTerm n) (ae_term a)"
        "ae_term a \<le> CurrentTerm n \<Longrightarrow> VotedFor n' = VotedFor n"
      using kept(9-) f by simp_all
    then show ?thesis
      using assms(2) by (cases "ae_term a \<le> CurrentTerm n") (auto simp: voted_def)
  next
    case (stored n4)
    have "CurrentTerm n' = ae_term a" "VotedFor n' = VotedFor (ae_stepdown a now n)" "Role n' = Follower"
      using store_entries_keeps [OF stored(5)] follower_commit_keeps [OF stored(6)] ae_stepdown_term [OF stored(2)] by simp_all
    moreover have "CurrentTerm n = ae_term a \<Longrightarrow> VotedFor (ae_stepdown a now n) = VotedFor n"
      using f by (simp add: ae_stepdown_def Let_def)
    ultimately show ?thesis
      using assms(2) stored(2) by (auto simp: voted_def)
  qed
qed

lemma voted_vote:
  assumes "step_vote a now n n'" and "voted t c n" and "c \<noteq> -1"
  shows "voted t c n'"
proof -
  have n': "RequestVote a now n = (fst (RequestVote a now n), n')"
    using assms(1) by (simp add: step_vote_def)
  show ?thesis
  proof (cases "om_find (peers n) (rv_candidateId a) = None \<or> rv_term a \<le> CurrentTerm n")
    case True
    have "CurrentTerm n' = CurrentTerm n" "Role n' = Role n"
      using RequestVote_state(3,5) [OF n'] True by (auto simp: max_def)
    moreover have "VotedFor n' = VotedFor n \<or> VotedFor n = -1"
      using RequestVote_state(4) [OF n'] RequestVote_granted_iff [of a now n] True by (auto split: if_splits)
    ultimately show ?thesis
      using assms(2,3) by (auto simp: voted_def)
  next
    case False
    then have "CurrentTerm n' = rv_term a" "Role n' = Follower"
      using RequestVote_state(3,5) [OF n'] by simp_all
    then show ?thesis
      using assms(2) False by (auto simp: voted_def)
  qed
qed

lemma serving_voted:
  assumes "serving dir n0 n" and "node_inv n0" and "at_home dir me T n0" and "voted t c n0" and "c \<noteq> -1"
  shows "voted t c n \<and> node_inv n \<and> at_home dir me T n"
  using assms
proof induction
  case (append n0 n a now n')
  have inv: "node_inv n" and h: "at_home dir me T n" and v: "voted t c n"
    using append by blast+
  obtain reply where r: "AppendEntries a now n = Inr (reply, n')"
    using append.hyps(2) by (auto simp: step_append_def)
  have "\<exists>es. raftOut n' = raftOut n @ es"
    using AppendEntries_queue [OF r] inv by (simp add: node_inv_def)
  then obtain es where "node_step n es n'"
    using append.hyps(2) node_step.append by blast
  then show ?case
    using node_step_commits [OF _ inv] node_step_home [OF _ inv] voted_append [OF append.hyps(2) v] h
    by (auto simp: same_home_def at_home_def)
next
  case (vote n0 n a now n')
  have inv: "node_inv n" and h: "at_home dir me T n" and v: "voted t c n"
    using vote by blast+
  have s: "node_step n [] n'"
    using vote.hyps(2) quiet_step.vote node_step.quiet by blast
  then show ?case
    using node_step_commits [OF s inv] node_step_home [OF s inv] voted_vote [OF vote.hyps(2) v vote.prems(4)] h
    by (auto simp: same_home_def at_home_def)
next
  case (restart n0 n cfg sv)
  have inv: "node_inv n" and h: "at_home dir me T n" and v: "voted t c n"
    using restart by blast+
  then show ?case
    using boot_recovers [of n dir me T cfg sv] at_home_boot [of dir me T True cfg sv "disk n"]
    by (simp add: node_inv_def voted_def at_home_def boot_node_frame)
qed blast

section \<open>Properties\<close>


definition fresh_node :: node where
  "fresh_node = boot_node flat_entry 0 False ''d'' config3 no_clients (\<lambda>_. None)"

lemma fresh_node_simps:
  "log_of fresh_node = []" "CurrentTerm fresh_node = 0" "Role fresh_node = Follower" "CommitIndex fresh_node = -1"
  "LastApplied fresh_node = -1" "services fresh_node = no_clients" "om_find (peers fresh_node) 2 \<noteq> None" "VotedFor fresh_node = -1"
  by (simp_all add: fresh_node_def boot_node_frame)
     (simp_all add: boot_node_def foldl_addPeer foldl_addPeer_services setClusterConfig_def bootstrap_def RaftManager_init_def
        pvec_setup_def pvec_init_def open_trunc_def Let_def case_prod_beta raft_persist_def peer_routers_def config3_def)


text \<open>C16. The executer is given the committed log, each operation once and in order: along any run of a
  replica from its start that does not rewrite committed entries, the operations handed to the
  executer are exactly those of the log up to the commit index.\<close>

theorem executer_gets_committed_log:
  assumes boot: "n0 = boot_node T me False dir cfg sv fs" and lay: "object_layout (t_size T) entry_ok (t_enc T) (t_dec T)" "i32_ok me"
    and run: "committing_run n0 es n"
  shows "map withoutPromise es = map log_op (take (nat (CommitIndex n + 1)) (stripped (log_of n)))"
proof -
  have "node_inv n0" "committed n0 = []"
    using reach_inv [OF reach.first lay] by (auto simp: boot committed_def boot_node_frame)
  then show ?thesis
    using committing_run_prefix [OF run] by (simp add: committed_def)
qed

theorem executer_gets_committed_log_witness:
  "\<exists>es n. committing_run fresh_node es n \<and> CommitIndex n = 0 \<and> map withoutPromise es = [get_op 5]"
proof -
  note f = fresh_node_simps
  have safe: "ae_safe example_call fresh_node"
    using f by (simp add: ae_safe_def example_call_def config_typed_def get_op_def)
  obtain reply n where r: "AppendEntries example_call 9 fresh_node = Inr (reply, n)"
    using AppendEntries_defined [OF safe] by blast
  obtain n4 where s: "aer_success reply" "store_entries example_call (ae_stepdown example_call 9 fresh_node) = Inr n4"
      "follower_commit 0 n4 = Inr n"
    using r f by (auto simp: AppendEntries_current example_call_def prev_matches_def elim!: rbind_Inr_E)
  have l: "log_of n = [\<lparr>log_term = 3, log_op = get_op 5\<rparr>]"
    using store_entries_log [OF s(2)] follower_commit_keeps [OF s(3)] f by (simp add: example_call_def ae_merge_def entry_of_def)
  have c: "CommitIndex n = 0"
    using s(3) store_entries_keeps [OF s(2)] follower_commit_ok [of n4 0] follower_commit_keeps [OF s(3)] l f by (auto simp: Let_def)
  obtain es where es: "raftOut n = raftOut fresh_node @ es"
    using AppendEntries_queue [OF r] f by auto
  have "step_append example_call 9 fresh_node n"
    using r by (auto simp: step_append_def received_def ae_ok_def example_call_def op_ok_def op_prints_def get_op_def i32_ok_def)
  then have "node_step fresh_node es n"
    using es by (rule node_step.append)
  moreover have "keeps_committed fresh_node n"
    using f c by (simp add: keeps_committed_def committed_def)
  ultimately have run: "committing_run fresh_node es n"
    using committing_run.more [OF committing_run.here] by fastforce
  have "map withoutPromise es = [get_op 5]"
    using executer_gets_committed_log [OF fresh_node_def flat_layout _ run] l c
    by (simp add: i32_ok_def strip_entry_def withoutPromise_def get_op_def)
  then show ?thesis
    using run c by (intro exI [of _ es] exI [of _ n]) simp
qed

text \<open>C17. One vote per term, crashes included: once a replica has granted its vote in a term as a
  follower, then however long it goes on serving the two calls and crashing and restarting from its
  files, a vote it grants in that term is for the same candidate.\<close>

theorem votes_once_per_term:
  assumes reach: "reach dir me T n0" and lay: "object_layout (t_size T) entry_ok (t_enc T) (t_dec T)" "i32_ok me"
    and first: "RequestVote a now n0 = (reply, n)" "rvr_voteGranted reply" "step_vote a now n0 n"
    and follower: "Role n0 = Follower \<or> CurrentTerm n0 < rv_term a" and cand: "rv_candidateId a \<noteq> -1"
    and serve: "serving dir n n'"
    and again: "rvr_voteGranted (fst (RequestVote b now' n'))" "rv_term b = rv_term a"
  shows "rv_candidateId b = rv_candidateId a"
proof -
  have "reach dir me T n"
    using reach.step [OF reach node_step.quiet [OF quiet_step.vote [OF first(3)]]] .
  then have inv: "node_inv n" "at_home dir me T n"
    using reach_inv [OF _ lay] by blast+
  have g: "om_find (peers n0) (rv_candidateId a) \<noteq> None" "CurrentTerm n0 \<le> rv_term a"
    using first(1,2) RequestVote_granted_iff [of a now n0] by simp_all
  then have "voted (rv_term a) (rv_candidateId a) n"
    using RequestVote_state(3-5) [OF first(1)] first(2) follower by (auto simp: voted_def)
  then have "voted (rv_term a) (rv_candidateId a) n'"
    using serving_voted [OF serve inv _ cand] by blast
  then show ?thesis
    using again RequestVote_granted_iff [of b now' n'] cand by (auto simp: voted_def)
qed

theorem votes_once_per_term_witness:
  "\<not> rvr_voteGranted (fst (RequestVote \<lparr>rv_candidateId = 1, rv_term = 4, rv_lastLogIndex = 9, rv_lastLogTerm = 9\<rparr> 8
     (snd (RequestVote \<lparr>rv_candidateId = 2, rv_term = 4, rv_lastLogIndex = -1, rv_lastLogTerm = -1\<rparr> 8 fresh_node))))"
proof
  let ?a = "\<lparr>rv_candidateId = 2, rv_term = 4, rv_lastLogIndex = -1, rv_lastLogTerm = -1\<rparr>"
  let ?b = "\<lparr>rv_candidateId = 1, rv_term = 4, rv_lastLogIndex = 9, rv_lastLogTerm = 9\<rparr>"
  assume again: "rvr_voteGranted (fst (RequestVote ?b 8 (snd (RequestVote ?a 8 fresh_node))))"
  have r: "reach ''d'' 0 flat_entry fresh_node"
    unfolding fresh_node_def by (rule reach.first)
  have g: "rvr_voteGranted (fst (RequestVote ?a 8 fresh_node))"
    by (simp add: RequestVote_granted_iff fresh_node_simps last_log_term_def)
  have "step_vote ?a 8 fresh_node (snd (RequestVote ?a 8 fresh_node))"
    by (simp add: step_vote_def i32_ok_def)
  from votes_once_per_term [OF r flat_layout _ surjective_pairing g this _ _ serving.idle again]
  show False
    by (simp add: i32_ok_def fresh_node_simps)
qed

end
