(* ===== verification/Cluster.thy ===== *)
theory Cluster
  imports NodeMachine
begin

text \<open>
  Three replicas started on empty disks with the same configuration, and the run that elects two of
  them in one term. Every step of the run is the code of one critical section; the requests are those
  the vote threads build, the answers those the replicas give.
\<close>

definition replica :: "int \<Rightarrow> node" where
  "replica i = boot_node flat_entry i False ''d'' config3 no_clients (\<lambda>_. None)"

text \<open>
  Replicas 0 and 2 both time out and start an election of term 1. Replica 1 votes for 0, which
  becomes leader. Then the vote request of replica 2 reaches replica 0.
\<close>

definition two_elections :: "(node \<times> node) res" where
  "two_elections =
     rbind (electionImpl_body 4000 5000 (replica 0)) (\<lambda>(_, a1).
     rbind (electionImpl_body 4000 5000 (replica 2)) (\<lambda>(_, c1).
       let (r1, b1) = RequestVote (vote_prepare 1 a1) 5001 (replica 1);
           a2 = vote_reply 1 r1 5002 a1;
           (r2, a3) = RequestVote (vote_prepare 1 c1) 5003 a2;
           c2 = vote_reply 1 r2 5004 c1
       in Inr (a3, c2)))"

lemma boot_node_new:
  "log_of (boot_node T me False dir cfg sv fs) = []"
  "CurrentTerm (boot_node T me False dir cfg sv fs) = 0"
  "VotedFor (boot_node T me False dir cfg sv fs) = -1"
  by (simp_all add: boot_node_frame)
     (simp_all add: bootstrap_def RaftManager_init_def pvec_setup_def pvec_init_def open_trunc_def Let_def case_prod_beta raft_persist_def)

lemma boot_node_peers:
  assumes "om_ok cfg"
  shows "om_find (peers (boot_node T me b dir cfg sv fs)) i =
    (if i = me then None else map_option (\<lambda>s. router_new (c_str (si_ip s) @ '':'' @ to_string (raft_port s))) (om_find cfg i))"
proof -
  have "peers (setClusterConfig cfg (bootstrap me b dir (RaftManager_init T fs sv))) = []"
    by (simp add: setClusterConfig_def bootstrap_def RaftManager_init_def Let_def case_prod_beta raft_persist_def)
  then show ?thesis
    using peer_routers_find [OF assms, of me i]
    by (simp add: boot_node_def foldl_addPeer foldl_om_put_find split: option.split)
qed

lemma foldl_addPeer_timer: "ElectionResetEvent (foldl (\<lambda>m (i, r). addPeer i r m) n ps) = ElectionResetEvent n"
  by (induction ps arbitrary: n) auto

lemma replica_simps [simp]:
  "log_of (replica i) = []" "CurrentTerm (replica i) = 0" "VotedFor (replica i) = -1" "Role (replica i) = Follower"
  "my_id (replica i) = i" "ClusterConfig (replica i) = config3" "ElectionResetEvent (replica i) = 0"
proof -
  show "log_of (replica i) = []" "CurrentTerm (replica i) = 0" "VotedFor (replica i) = -1"
    by (simp_all only: replica_def boot_node_new)
  show "Role (replica i) = Follower" "my_id (replica i) = i" "ClusterConfig (replica i) = config3"
    by (simp_all add: replica_def boot_node_frame)
  show "ElectionResetEvent (replica i) = 0"
    by (simp add: replica_def boot_node_def foldl_addPeer_timer setClusterConfig_def bootstrap_def
          RaftManager_init_def Let_def case_prod_beta raft_persist_def)
qed

lemma replica_peers [simp]: "(\<exists>r. om_find (peers (replica i)) j = Some r) \<longleftrightarrow> j \<noteq> i \<and> j \<in> {0, 1, 2}"
  using boot_node_peers [of config3 flat_entry i False "''d''" no_clients "\<lambda>_. None" j]
  by (auto simp: replica_def config3_def)

text \<open>A replica that is elected with the vote of one peer and its own in a cluster of three.\<close>

definition candidate :: "int \<Rightarrow> node" where
  "candidate i = (becomeCandidate 1 5000 (replica i))\<lparr>VotesReceived := 1\<rparr>"

lemma candidate_simps [simp]:
  "log_of (candidate i) = []" "CurrentTerm (candidate i) = 1" "VotedFor (candidate i) = i" "Role (candidate i) = Candidate"
  "my_id (candidate i) = i" "ClusterConfig (candidate i) = config3" "VotesReceived (candidate i) = 1"
  "peers (candidate i) = peers (replica i)"
  by (simp_all add: candidate_def)

lemma candidate_starts: "electionImpl_body 4000 5000 (replica i) = Inr (map (\<lambda>p. (p, 1)) (om_keys (peers (replica i))), candidate i)"
  by (simp add: electionImpl_body_def startElection_ok i32_ok_def candidate_def)

lemma candidate_wins:
  "vote_reply 1 \<lparr>rvr_term = 1, rvr_voteGranted = True\<rparr> now (candidate i) = becomeLeader now ((candidate i)\<lparr>VotesReceived := 2\<rparr>)"
  by (simp add: vote_reply_def Let_def config3_def)

section \<open>Properties\<close>

text \<open>Election safety fails: there is a run of three replicas from their first start, with two
  elections and one vote request each delivered, after which two different replicas lead in term 1.\<close>

lemma two_leaders_in_one_term:
  "\<exists>a c. two_elections = Inr (a, c) \<and> Role a = Leader \<and> Role c = Leader \<and> CurrentTerm a = 1 \<and> CurrentTerm c = 1 \<and> my_id a \<noteq> my_id c"
proof -
  let ?a2 = "becomeLeader 5002 ((candidate 0)\<lparr>VotesReceived := 2\<rparr>)"
  obtain r1 b1 where r1: "RequestVote (vote_prepare 1 (candidate 0)) 5001 (replica 1) = (r1, b1)"
    by (cases "RequestVote (vote_prepare 1 (candidate 0)) 5001 (replica 1)")
  have "rvr_voteGranted r1"
    using RequestVote_granted_iff [of "vote_prepare 1 (candidate 0)" 5001 "replica 1"]
    by (simp add: r1 vote_prepare_params)
  moreover have "rvr_term r1 = 1"
    using RequestVote_state(1,3) [OF r1] by (simp add: vote_prepare_params)
  ultimately have 1: "r1 = \<lparr>rvr_term = 1, rvr_voteGranted = True\<rparr>"
    by simp
  obtain r2 a3 where r2: "RequestVote (vote_prepare 1 (candidate 2)) 5003 ?a2 = (r2, a3)"
    by (cases "RequestVote (vote_prepare 1 (candidate 2)) 5003 ?a2")
  have "rvr_voteGranted r2"
    using RequestVote_granted_iff [of "vote_prepare 1 (candidate 2)" 5003 ?a2]
    by (simp add: r2 vote_prepare_params)
  moreover have t: "rvr_term r2 = 1" "CurrentTerm a3 = 1" "Role a3 = Leader"
    using RequestVote_state(1,3,5) [OF r2] by (simp_all add: vote_prepare_params)
  ultimately have 2: "r2 = \<lparr>rvr_term = 1, rvr_voteGranted = True\<rparr>"
    by simp
  have id: "my_id a3 = 0"
    using RequestVote_frame(6) [of "vote_prepare 1 (candidate 2)" 5003 ?a2] by (simp add: r2)
  show ?thesis
    using t id by (simp add: two_elections_def candidate_starts r1 1 candidate_wins r2 2)
qed

end
