(* ===== verification/OpTypes.thy ===== *)
theory OpTypes
  imports NodeMachine
begin

text \<open>
  The variant of an operation and its kind are separate members, and \<open>std::get\<close> on the wrong alternative
  throws. Here: whatever a replica receives and does, the operations in its log and its queues have the
  argument their kind calls for (or a kind without a name, for which no argument is read), so none of
  the places that read the argument can throw.
\<close>

section \<open>What the service hands over\<close>

lemma unpack_records_valid:
  assumes "unpack_records k dec bs = Inr xs" and "\<And>c. length c = k \<Longrightarrow> P (dec c)"
  shows "list_all P xs"
  using assms
proof (induction k dec bs arbitrary: xs rule: unpack_records.induct)
  case (1 k dec bs)
  show ?case
  proof (cases "bs = []")
    case False
    then have k: "k \<noteq> 0" "k \<le> length bs"
      using "1.prems"(1) by (auto simp: unpack_records.simps [of k dec bs] split: if_splits)
    then obtain ys where "unpack_records k dec (drop k bs) = Inr ys" "xs = dec (take k bs) # ys"
      using "1.prems"(1) False by (auto simp: unpack_records.simps [of k dec bs] elim!: rbind_Inr_E split: if_splits)
    then show ?thesis
      using "1.IH" [OF False] k "1.prems"(2) by simp
  qed (use "1.prems" in simp)
qed

lemma OpType_of_int_ok: "i32_ok i \<Longrightarrow> OpType_ok (OpType_of_int i)"
  by (auto simp: OpType_of_int_def)

lemma ServerInfo_of_bytes_ok: "length bs = 57 \<Longrightarrow> ServerInfo_ok (ServerInfo_of_bytes bs)"
  by (simp add: ServerInfo_ok_def ServerInfo_of_bytes_def i32_of_bytes_ok chars_of_bytes_def)

lemma decode_entry_received:
  assumes "length c = 77"
  shows "i32_ok (ale_term (decode_entry (TransportEntry_of_bytes c))) \<and> op_ok (ale_op (decode_entry (TransportEntry_of_bytes c)))
    \<and> op_prints (ale_op (decode_entry (TransportEntry_of_bytes c)))"
proof -
  have "ServerInfo_ok (ServerInfo_of_bytes (take 57 (drop 20 c)))"
    using assms by (intro ServerInfo_of_bytes_ok) simp
  moreover have "OpType_ok (OpType_of_int (i32_of_bytes (take 4 (drop 8 c))))"
    by (simp add: OpType_of_int_ok i32_of_bytes_ok)
  ultimately show ?thesis
    by (cases "OpType_of_int (i32_of_bytes (take 4 (drop 8 c)))")
       (simp_all add: decode_entry_def TransportEntry_of_bytes_def decode_args_def op_ok_def op_prints_def i32_of_bytes_ok)
qed

text \<open>Whatever bytes a peer sends: what the service passes to the replica is \<open>received\<close>.\<close>

lemma decode_received:
  assumes "decode_AppendEntries rq = Inr a" and "i32_ok (areq_term rq)"
  shows "received a"
proof -
  obtain es where es: "unpack_records 77 TransportEntry_of_bytes (areq_entries rq) = Inr es" "ae_entries a = map decode_entry es" "ae_term a = areq_term rq"
    using assms(1) by (auto simp: decode_AppendEntries_def elim!: rbind_Inr_E)
  have "list_all (\<lambda>te. i32_ok (ale_term (decode_entry te)) \<and> op_ok (ale_op (decode_entry te)) \<and> op_prints (ale_op (decode_entry te))) es"
    by (rule unpack_records_valid [OF es(1)]) (rule decode_entry_received)
  then show ?thesis
    using es assms(2) by (simp add: received_def ae_ok_def list_all_iff)
qed

section \<open>Typed queues and log\<close>

definition ops_typed :: "node \<Rightarrow> bool" where
  "ops_typed n \<longleftrightarrow> list_all (\<lambda>e. op_prints (log_op e)) (log_of n) \<and> list_all op_prints (dispatchOut n) \<and> list_all op_prints (raftIn n)
     \<and> list_all op_prints (raftOut n) \<and> list_all op_prints (execIn n)"

lemma ops_typed_frame:
  "ops_typed n \<Longrightarrow> Logs n' = Logs n \<Longrightarrow> dispatchOut n' = dispatchOut n \<Longrightarrow> raftIn n' = raftIn n \<Longrightarrow> raftOut n' = raftOut n
    \<Longrightarrow> execIn n' = execIn n \<Longrightarrow> ops_typed n'"
  by (simp add: ops_typed_def)

lemma role_execIn [simp]:
  "execIn (becomeFollower t now n) = execIn n" "execIn (becomeCandidate t now n) = execIn n" "execIn (becomeLeader now n) = execIn n"
  by (simp_all add: becomeFollower_def becomeCandidate_def becomeLeader_def raft_persist_def)

lemma typed_ms_fail: "ops_typed n \<Longrightarrow> ops_typed (snd (ms_fail code n))"
  by (erule ops_typed_frame) (simp_all add: ms_fail_def getLastKnownLeaderRaftAddr_def case_prod_beta)

lemma typed_wait_prev: "ops_typed n \<Longrightarrow> ops_typed (snd (wait_prev x r n))"
  by (simp add: wait_prev_def typed_ms_fail)

lemma typed_submit_change: "ops_typed n \<Longrightarrow> op_prints op \<Longrightarrow> ops_typed (snd (submit_change op x p n))"
  using typed_ms_fail [of n OTHER] by (auto simp: submit_change_def submit_def ops_typed_def case_prod_beta)

lemma typed_NetworkUpdate: "ops_typed n \<Longrightarrow> ops_typed (NetworkUpdate es n)"
proof (induction es arbitrary: n)
  case (Cons e es)
  then show ?case
    by (cases "om_find (peers n) (pn_peerId e)") (simp_all add: ops_typed_def)
qed simp

lemma typed_quiet: "quiet_step n n' \<Longrightarrow> ops_typed n \<Longrightarrow> ops_typed n'"
proof (induction rule: quiet_step.induct)
  case (vote a now n n')
  then show ?case
    by (auto simp: step_vote_def RequestVote_def Let_def raft_persist_def intro: ops_typed_frame)
next
  case (prepare peer t n r n')
  then show ?case
    by (auto simp: leader_prepare_def Let_def case_prod_beta elim!: rbind_Inr_E intro: ops_typed_frame)
next
  case (election tmo now n ths n')
  then show ?case
    by (auto simp: electionImpl_body_def startElection_def Let_def i32_add_def intro: ops_typed_frame split: RaftRole.splits if_splits)
next
  case (voteReply reply n saved now)
  then show ?case
    by (auto simp: vote_reply_def Let_def intro: ops_typed_frame)
next
  case (addStep pc n)
  then show ?case
    by (cases pc) (simp_all add: typed_wait_prev typed_ms_fail typed_submit_change op_prints_def)
next
  case (removeStep pc n now)
  then show ?case
    by (cases pc) (auto simp: typed_wait_prev typed_ms_fail typed_submit_change op_prints_def intro: ops_typed_frame)
next
  case (network n es)
  then show ?case
    by (simp add: typed_NetworkUpdate)
qed (auto simp: raft_take_def raft_clear_def start_def stop_def getLastKnownLeaderDBAddr_def executer_wait_def
      case_prod_beta ops_typed_def)

section \<open>The other steps\<close>

lemma apply_config_services: "apply_config op n = Inr n' \<Longrightarrow> execIn n' = execIn n \<and> services n' = services n"
  by (auto simp: apply_config_def ApplyAddServer_def ApplyRemoveServer_def addPeer_def removePeer_def raft_persist_def Let_def
      elim!: rbind_Inr_E split: if_splits)

lemma append_ops_services: "append_ops ops n = Inr n' \<Longrightarrow> execIn n' = execIn n \<and> services n' = services n"
  by (induction ops arbitrary: n) (auto elim!: rbind_Inr_E dest!: apply_config_services)

lemma round_services:
  assumes "runLeaderOneIter n = Inr (ths, n')"
  shows "execIn n' = execIn n" "services n' = services n"
proof -
  obtain n1 where "append_ops (raftIn n) n = Inr n1" "n' = persist_logs n1"
    using runLeaderOneIter_Inr [OF assms] .
  then show "execIn n' = execIn n" "services n' = services n"
    using append_ops_services by (simp_all add: persist_logs_def case_prod_beta)
qed

lemma append_new_execIn: "append_new es n = Inr n' \<Longrightarrow> execIn n' = execIn n"
  by (induction es arbitrary: n) (auto elim!: rbind_Inr_E dest!: apply_config_services)

lemma store_entries_execIn: "store_entries a n = Inr n' \<Longrightarrow> execIn n' = execIn n"
  by (auto simp: store_entries_def persist_logs_def truncate_logs_def case_prod_beta elim!: rbind_Inr_E split: if_splits dest!: append_new_execIn)

lemma queue_committed_execIn: "queue_committed n = Inr n' \<Longrightarrow> execIn n' = execIn n"
  by (auto simp: queue_committed_def elim!: rbind_Inr_E)

lemma AppendEntries_execIn:
  assumes "AppendEntries a now n = Inr (reply, n')"
  shows "execIn n' = execIn n"
proof (cases "Role n = Dead \<or> ae_term a < CurrentTerm n")
  case True
  then show ?thesis
    using assms by (auto simp: AppendEntries_def Let_def split: if_splits)
next
  case False
  then have cur: "Role n \<noteq> Dead" "CurrentTerm n \<le> ae_term a"
    by auto
  have "execIn (ae_stepdown a now n) = execIn n"
    by (simp add: ae_stepdown_def Let_def)
  then show ?thesis
    using assms
    by (auto simp: AppendEntries_current [OF cur] follower_commit_def elim!: rbind_Inr_E split: if_splits
        dest!: store_entries_execIn queue_committed_execIn)
qed

lemma leader_reply_execIn: "leader_reply peer saved k sent reply now n = Inr n' \<Longrightarrow> execIn n' = execIn n"
proof -
  have scan: "commit_scan is m = Inr m' \<Longrightarrow> execIn m' = execIn m" for "is" m m'
  proof (induction "is" arbitrary: m)
    case (Cons i "is")
    then show ?case
      by (auto simp: commit_step_def Let_def case_prod_beta elim!: rbind_Inr_E split: if_splits)
  qed simp
  show "leader_reply peer saved k sent reply now n = Inr n' \<Longrightarrow> execIn n' = execIn n"
    by (auto simp: leader_reply_def Let_def elim!: rbind_Inr_E split: if_splits dest!: scan queue_committed_execIn)
qed

lemma ae_merge_typed:
  assumes "list_all (\<lambda>e. op_prints (log_op e)) L" and "list_all (\<lambda>e. op_prints (ale_op e)) es"
  shows "list_all (\<lambda>e. op_prints (log_op e)) (ae_merge L k es)"
  using assms by (auto simp: ae_merge_def Let_def list_all_iff entry_of_def dest!: in_set_takeD in_set_dropD)

lemma commits_typed:
  assumes "commits n es n'" and "list_all (\<lambda>e. op_prints (log_op e)) (log_of n')" and "list_all op_prints (raftOut n)"
    and "raftOut n' = raftOut n @ es"
  shows "list_all op_prints (raftOut n')"
  using assms by (auto simp: commits_def list_all_iff segment_def dest!: in_set_takeD in_set_dropD)

lemma append_typed:
  assumes "step_append a now n n'" and "raftOut n' = raftOut n @ es" and inv: "node_inv n" and t: "ops_typed n"
  shows "ops_typed n'"
proof -
  obtain reply where a: "received a" and r: "AppendEntries a now n = Inr (reply, n')"
    using assms(1) by (auto simp: step_append_def)
  have "log_of n' = log_of n \<or> (\<exists>k. log_of n' = ae_merge (log_of n) k (ae_entries a))"
    using r
  proof (cases rule: AppendEntries_cases)
    case (stored n4)
    then show ?thesis
      using store_entries_log [OF stored(5)] follower_commit_keeps [OF stored(6)] by auto
  qed simp
  then have log: "list_all (\<lambda>e. op_prints (log_op e)) (log_of n')"
    using t a ae_merge_typed by (auto simp: ops_typed_def received_def)
  have c: "commits n es n'" "dispatchOut n' = dispatchOut n" "raftIn n' = raftIn n"
    using commits_append [OF assms(1,2)] inv by (auto simp: node_inv_def)
  show ?thesis
    using log c commits_typed [OF c(1) log _ assms(2)] AppendEntries_execIn [OF r] t by (simp add: ops_typed_def)
qed

lemma reply_typed:
  assumes r: "leader_reply peer saved k sent rep now n = Inr n'" and out: "raftOut n' = raftOut n @ es" and inv: "node_inv n" and t: "ops_typed n"
  shows "ops_typed n'"
proof -
  have c: "commits n es n'" "Logs n' = Logs n" "dispatchOut n' = dispatchOut n" "raftIn n' = raftIn n"
    using commits_reply [OF r _ _ out] inv by (auto simp: node_inv_def)
  show ?thesis
    using c commits_typed [OF c(1) _ _ out] leader_reply_execIn [OF r] t by (simp add: ops_typed_def)
qed

lemma request_typed:
  assumes "request_begin k a v ft n = Inr (pc, n')" and "\<And>p. op_prints \<lparr>kind = k, args = a, promiseHandle = p\<rparr>" and "ops_typed n"
  shows "ops_typed n'"
  using assms by (auto simp: request_unfold ops_typed_def elim!: rbind_Inr_E split: if_splits)

lemma typed_step:
  assumes "node_step n es n'" and inv: "node_inv n" and t: "ops_typed n"
  shows "ops_typed n'"
  using assms(1)
proof cases
  case quiet
  then show ?thesis
    using typed_quiet t by blast
next
  case (append a now)
  then show ?thesis
    using append_typed inv t by blast
next
  case (run ths)
  then show ?thesis
    using run_frame [OF run(2)] round_services [OF run(2)] t by (auto simp: ops_typed_def list_all_iff)
next
  case (reply rep peer saved k sent now)
  then show ?thesis
    using reply_typed inv t by blast
next
  case execTake
  then show ?thesis
    using t by (simp add: executer_take_def ops_typed_def)
next
  case (execute dbget dbput db db')
  then show ?thesis
    using t by (auto simp: executer_one_def ops_typed_def elim!: rbind_Inr_E split: list.splits)
next
  case (get key ft pc)
  then show ?thesis
    using request_typed [OF get(3) [unfolded get_begin_def] _ t] by (simp add: op_prints_def)
next
  case (put kvp ft pc)
  then show ?thesis
    using request_typed [OF put(4) [unfolded put_begin_def] _ t] by (simp add: op_prints_def)
qed

lemma foldl_addPeer_queues:
  "raftOut (foldl (\<lambda>m (i, r). addPeer i r m) n ps) = raftOut n \<and> execIn (foldl (\<lambda>m (i, r). addPeer i r m) n ps) = execIn n"
  by (induction ps arbitrary: n) (auto simp: addPeer_def raft_persist_def)

lemma boot_node_queues:
  "raftOut (boot_node T me b dir cfg sv fs) = []" "execIn (boot_node T me b dir cfg sv fs) = []"
  by (simp_all add: boot_node_def foldl_addPeer_queues setClusterConfig_def bootstrap_def RaftManager_init_def Let_def case_prod_beta raft_persist_def)

lemma boot_node_services: "services (boot_node T me b dir cfg sv fs) = sv"
  by (simp add: boot_node_def foldl_addPeer_services setClusterConfig_def bootstrap_def RaftManager_init_def Let_def case_prod_beta raft_persist_def)

lemma typed_boot_new: "ops_typed (boot_node T me False dir cfg sv fs)"
  by (simp add: ops_typed_def boot_node_frame boot_node_queues)
     (simp add: bootstrap_def RaftManager_init_def pvec_setup_def pvec_init_def open_trunc_def Let_def case_prod_beta raft_persist_def)

lemma op_prints_withoutPromise [simp]: "op_prints (withoutPromise op) = op_prints op"
  by (simp add: op_prints_def)

lemma typed_boot_again:
  assumes "disk_inv n" and "at_home dir me T n" and "ops_typed n"
  shows "ops_typed (boot_node T me True dir cfg sv (disk n))"
proof -
  show ?thesis
    using boot_recovers [OF assms(1,2), of cfg sv] assms(3)
    by (simp add: ops_typed_def boot_node_frame(7,8) boot_node_queues list_all_iff strip_entry_def)
qed

lemma reach_typed:
  assumes "reach dir me T n" and lay: "object_layout (t_size T) entry_ok (t_enc T) (t_dec T)" "i32_ok me"
  shows "ops_typed n"
  using assms(1)
proof induction
  case (first cfg sv fs)
  then show ?case
    by (rule typed_boot_new)
next
  case (step n es n')
  then show ?case
    using typed_step reach_inv [OF step(1) lay] by blast
next
  case (crash n cfg sv)
  then show ?case
    using typed_boot_again reach_inv [OF crash(1) lay] by (auto simp: node_inv_def)
qed

section \<open>Nothing throws\<close>

lemma op_prints_config: "op_prints op \<Longrightarrow> config_typed op"
  by (cases "kind op"; cases "args op") (simp_all add: op_prints_def config_typed_def)

lemma encode_args_prints: "op_prints op \<Longrightarrow> \<exists>x. encode_args junk op = Inr x"
  by (cases "kind op"; cases "args op") (simp_all add: op_prints_def encode_args_def)

lemma res_map_total: "(\<And>x. x \<in> set xs \<Longrightarrow> \<exists>y. f x = Inr y) \<Longrightarrow> \<exists>ys. res_map f xs = Inr ys"
proof (induction xs)
  case (Cons x xs)
  then obtain y ys where "f x = Inr y" "res_map f xs = Inr ys"
    by (metis list.set_intros)
  then show ?case
    by simp
qed simp

lemma entries_from_typed:
  assumes "list_all (\<lambda>e. op_prints (log_op e)) L"
  shows "\<forall>e \<in> set (entries_from k L). op_prints (ale_op e)"
  using assms by (auto simp: entries_from_def list_all_length)

lemma encode_entries_from:
  assumes "list_all (\<lambda>e. op_prints (log_op e)) L"
  shows "\<exists>tes. res_map (encode_entry junk) (entries_from k L) = Inr tes"
proof (rule res_map_total)
  fix e assume "e \<in> set (entries_from k L)"
  then have "op_prints (ale_op e)"
    using entries_from_typed [OF assms] by blast
  then show "\<exists>y. encode_entry junk e = Inr y"
    using encode_args_prints by (auto simp: encode_entry_def rbind_eq_Inr_iff)
qed

lemma take_promise_fault: "take_promise h sv = Inl e \<Longrightarrow> e = Dangling_Handle"
  by (cases "ps_live (promises sv) h") (auto simp: take_promise_def getAndRemove_def ps_live_def rbind_def split: option.splits sum.splits)

lemma op_execute_fault:
  fixes db :: 'd
  assumes "op_prints op" and get: "\<And>d k. \<exists>v. dbget d k = Inr v" and e: "op_execute dbget dbput op db sv = Inl e"
  shows "e = Dangling_Handle"
proof -
  obtain str where str: "op_str op = Inr str"
    using assms(1) op_str_Inr_iff by blast
  have fulfil: "op_fulfil op r sv = Inl e \<Longrightarrow> e = Dangling_Handle" for r e
    by (auto simp: op_fulfil_def rbind_def dest!: take_promise_fault split: option.splits sum.splits prod.splits)
  have abort: "op_abort op sv = Inl e \<Longrightarrow> e = Dangling_Handle" for e
    by (auto simp: op_abort_def rbind_def dest!: take_promise_fault split: option.splits sum.splits prod.splits OpType.splits)
  have f: "rbind (op_fulfil op r sv) (\<lambda>(op', sv'). Inr (op', d, sv')) = Inl e \<Longrightarrow> e = Dangling_Handle" for r and d :: 'd
    using fulfil [of r e] by (cases "op_fulfil op r sv") (auto simp: case_prod_beta)
  have a: "rbind (op_abort op sv) (\<lambda>(op', sv'). Inr (op', d, sv')) = Inl e \<Longrightarrow> e = Dangling_Handle" for d :: 'd
    using abort [of e] by (cases "op_abort op sv") (auto simp: case_prod_beta)
  show ?thesis
  proof (cases "kind op")
    case GET
    then obtain k where k: "args op = ArgKey k"
      using assms(1) by (cases "args op") (auto simp: op_prints_def)
    obtain v where "dbget db k = Inr v"
      using get by blast
    then show ?thesis
      using e GET k str f by (auto simp: op_execute_def Let_def)
  next
    case PUT
    then obtain k v where "args op = ArgPair k v"
      using assms(1) by (cases "args op") (auto simp: op_prints_def)
    then show ?thesis
      using e PUT str f by (auto simp: op_execute_def Let_def split: prod.splits)
  qed (use e str f a in \<open>auto simp: op_execute_def Let_def\<close>)
qed

lemma exec_ops_fault:
  assumes "list_all op_prints ops" and "\<And>d k. \<exists>v. dbget d k = Inr v" and "exec_ops dbget dbput ops db sv = Inl e"
  shows "e = Dangling_Handle"
  using assms(1,3)
proof (induction ops arbitrary: db sv)
  case (Cons op ops)
  show ?case
  proof (cases "op_execute dbget dbput op db sv")
    case (Inl e')
    then show ?thesis
      using Cons.prems op_execute_fault [OF _ assms(2) Inl] by auto
  next
    case (Inr x)
    then show ?thesis
      using Cons by (auto simp: case_prod_beta)
  qed
qed simp

section \<open>Properties\<close>

text \<open>C22. Operations stay well typed. In every state a replica can reach, whatever bytes its peers and
  clients send, every operation in its log and its queues has the argument its kind calls for, or a kind
  without a name. So a round of the leader never throws, the entries it sends can be packed, and with
  reads of the database that succeed the executer can fail in one way only, on a promise that is gone.\<close>

theorem operations_typed:
  assumes "reach dir me T n" and lay: "object_layout (t_size T) entry_ok (t_enc T) (t_dec T)" "i32_ok me"
  shows "list_all op_prints (map log_op (log_of n) @ dispatchOut n @ raftIn n @ raftOut n @ execIn n)
    \<and> (\<exists>ths n'. runLeaderOneIter n = Inr (ths, n'))
    \<and> (\<exists>tes. res_map (encode_entry junk) (entries_from k (log_of n)) = Inr tes)
    \<and> (\<forall>dbget dbput db e. (\<forall>d k. \<exists>v. dbget d k = Inr v) \<longrightarrow> executerImpl_body dbget dbput (db :: 'd) n = Inl e \<longrightarrow> e = Dangling_Handle)"
proof -
  have t: "ops_typed n"
    using reach_typed [OF assms] .
  have "list_all config_typed (raftIn n)"
    using t op_prints_config by (auto simp: ops_typed_def list_all_iff)
  then obtain n1 where "append_ops (raftIn n) n = Inr n1"
    using append_ops_defined by blast
  then have "\<exists>ths n'. runLeaderOneIter n = Inr (ths, n')"
    by (simp add: runLeaderOneIter_def leader_append_def Let_def)
  moreover have "e = Dangling_Handle"
    if "\<forall>d k. \<exists>v. dbget d k = Inr v" "executerImpl_body dbget dbput db n = Inl e" for dbget dbput and db :: 'd and e
  proof -
    have "exec_ops dbget dbput (raftOut n) db (services n) = Inl e"
      using that(2) by (cases "exec_ops dbget dbput (raftOut n) db (services n)")
        (auto simp: executerImpl_body_def Let_def case_prod_beta)
    then show ?thesis
      using exec_ops_fault [of "raftOut n" dbget dbput db "services n" e] t that(1) by (auto simp: ops_typed_def)
  qed
  ultimately show ?thesis
    using t encode_entries_from by (auto simp: ops_typed_def list_all_iff)
qed

text \<open>A replica that has been sent an entry of unknown kind.\<close>

definition odd_call :: AppendEntriesParams where
  "odd_call = \<lparr>ae_term = 3, ae_leaderId = 1, ae_prevLogIndex = -1, ae_prevLogTerm = -1,
     ae_entries = [\<lparr>ale_term = 3, ale_index = 0, ale_op = \<lparr>kind = Unknown_Op 9, args = ArgKey 5, promiseHandle = None\<rparr>\<rparr>], ae_leaderCommit = 0\<rparr>"

theorem operations_typed_witness:
  "\<exists>n ths n'. reach ''d'' 0 flat_entry n \<and> map (kind \<circ> log_op) (log_of n) = [Unknown_Op 9] \<and> runLeaderOneIter n = Inr (ths, n')"
proof -
  note f = fresh_node_simps
  have safe: "ae_safe odd_call fresh_node"
    using f by (simp add: ae_safe_def odd_call_def config_typed_def)
  obtain reply n where r: "AppendEntries odd_call 9 fresh_node = Inr (reply, n)"
    using AppendEntries_defined [OF safe] by blast
  obtain n4 where s: "store_entries odd_call (ae_stepdown odd_call 9 fresh_node) = Inr n4" "follower_commit 0 n4 = Inr n"
    using r f by (auto simp: AppendEntries_current odd_call_def prev_matches_def elim!: rbind_Inr_E)
  have l: "log_of n = [\<lparr>log_term = 3, log_op = \<lparr>kind = Unknown_Op 9, args = ArgKey 5, promiseHandle = None\<rparr>\<rparr>]"
    using store_entries_log [OF s(1)] follower_commit_keeps [OF s(2)] f by (simp add: odd_call_def ae_merge_def entry_of_def)
  obtain es where es: "raftOut n = raftOut fresh_node @ es"
    using AppendEntries_queue [OF r] f by auto
  have "step_append odd_call 9 fresh_node n"
    using r by (auto simp: step_append_def received_def ae_ok_def odd_call_def op_ok_def op_prints_def i32_ok_def)
  then have "node_step fresh_node es n"
    using es by (rule node_step.append)
  moreover have "reach ''d'' 0 flat_entry fresh_node"
    unfolding fresh_node_def by (rule reach.first)
  ultimately have reach: "reach ''d'' 0 flat_entry n"
    by (meson reach.step)
  have "\<exists>ths n'. runLeaderOneIter n = Inr (ths, n')"
    using operations_typed [OF reach flat_layout] by (auto simp: i32_ok_def)
  then show ?thesis
    using reach l by (auto intro!: exI [of _ n])
qed

end
