(* ===== verification/RaftSpec.thy ===== *)
theory RaftSpec
  imports RaftFollower
begin

text \<open>
  The abstract specification of replication: what Raft promises of a set \<open>M\<close> of replicas, without
  messages, threads and files. Every term has at most one chain, the log of its leader; replicas copy
  prefixes of chains, acknowledge them, vote and learn of commits. \<open>sp_chain\<close>, \<open>sp_owner\<close>, \<open>sp_sent\<close>,
  \<open>sp_acks\<close>, \<open>sp_votes\<close> and \<open>sp_committed\<close> are history: they only grow. Theory \<open>ClusterSafety\<close> shows
  that the runs of the modelled code in which every term has one leader and late answers are ignored
  are runs of this specification.
\<close>

section \<open>Majorities\<close>

locale quorum_system =
  fixes is_quorum :: "'p set \<Rightarrow> bool"
  assumes intersect: "is_quorum Q \<Longrightarrow> is_quorum Q' \<Longrightarrow> Q \<inter> Q' \<noteq> {}"
begin

text \<open>Facts two quorums were told by their members meet in one member.\<close>

lemma common_witness:
  assumes "is_quorum Q" "\<forall>p \<in> Q. A p" and "is_quorum Q'" "\<forall>p \<in> Q'. B p"
  shows "\<exists>p. A p \<and> B p"
  using intersect [OF assms(1,3)] assms(2,4) by blast

end

definition quorum :: "'p set \<Rightarrow> 'p set \<Rightarrow> bool" where
  "quorum M Q \<longleftrightarrow> finite M \<and> Q \<subseteq> M \<and> card M < 2 * card Q"

interpretation majority: quorum_system "quorum M" for M :: "'p set"
proof
  fix Q Q' :: "'p set"
  assume Q: "quorum M Q" "quorum M Q'"
  then have fin: "finite Q" "finite Q'" and sub: "Q \<union> Q' \<subseteq> M"
    by (auto simp: quorum_def intro: finite_subset)
  have "card (Q \<union> Q') \<le> card M"
    using Q sub by (intro card_mono) (auto simp: quorum_def)
  then have "card (Q \<inter> Q') \<noteq> 0"
    using Q card_Un_Int [OF fin] by (simp add: quorum_def)
  then show "Q \<inter> Q' \<noteq> {}"
    by auto
qed

section \<open>The specification\<close>

type_synonym rlog = "LogEntry list"

record raft_spec =
  sp_term :: "int \<Rightarrow> int"
  sp_log :: "int \<Rightarrow> rlog"
  sp_done :: "int \<Rightarrow> nat"
  sp_chain :: "int \<Rightarrow> rlog option"
  sp_owner :: "int \<Rightarrow> int"
  sp_sent :: "(int \<times> rlog) set"
  sp_acks :: "(int \<times> int \<times> nat) set"
  sp_votes :: "(int \<times> int \<times> int \<times> rlog) set"
  sp_committed :: "(int \<times> nat) set"

definition spec_init :: raft_spec where
  "spec_init = \<lparr>sp_term = (\<lambda>_. 0), sp_log = (\<lambda>_. []), sp_done = (\<lambda>_. 0), sp_chain = Map.empty, sp_owner = (\<lambda>_. 0),
     sp_sent = {}, sp_acks = {}, sp_votes = {}, sp_committed = {}\<rparr>"

text \<open>Raft's comparison of logs: \<open>A\<close> is at least as up to date as \<open>B\<close>.\<close>

definition up_to_date :: "rlog \<Rightarrow> rlog \<Rightarrow> bool" where
  "up_to_date A B \<longleftrightarrow> last_log_term B < last_log_term A \<or> (last_log_term B = last_log_term A \<and> length B \<le> length A)"

inductive spec_step :: "int set \<Rightarrow> raft_spec \<Rightarrow> raft_spec \<Rightarrow> bool" for M where
  advance: "sp_term s j < t \<Longrightarrow> spec_step M s (s\<lparr>sp_term := (sp_term s)(j := t)\<rparr>)"
| vote: "sp_chain s (sp_term s v) = None
    \<Longrightarrow> spec_step M s (s\<lparr>sp_votes := insert (v, sp_term s v, c, sp_log s v) (sp_votes s)\<rparr>)"
| elect: "sp_chain s t = None \<Longrightarrow> t = sp_term s i \<Longrightarrow> quorum M Q
    \<Longrightarrow> \<forall>v \<in> Q. \<exists>l. (v, t, i, l) \<in> sp_votes s \<and> up_to_date (sp_log s i) l
    \<Longrightarrow> spec_step M s (s\<lparr>sp_chain := (sp_chain s)(t \<mapsto> sp_log s i), sp_owner := (sp_owner s)(t := i),
          sp_acks := insert (i, t, length (sp_log s i)) (sp_acks s)\<rparr>)"
| append: "sp_chain s t = Some h \<Longrightarrow> t = sp_term s i \<Longrightarrow> sp_owner s t = i \<Longrightarrow> \<forall>e \<in> set es. log_term e = t
    \<Longrightarrow> spec_step M s (s\<lparr>sp_log := (sp_log s)(i := sp_log s i @ es), sp_chain := (sp_chain s)(t \<mapsto> sp_log s i @ es),
          sp_acks := insert (i, t, length (sp_log s i @ es)) (sp_acks s)\<rparr>)"
| send: "sp_chain s t = Some h \<Longrightarrow> t = sp_term s i \<Longrightarrow> sp_owner s t = i
    \<Longrightarrow> spec_step M s (s\<lparr>sp_sent := insert (t, sp_log s i) (sp_sent s)\<rparr>)"
| accept: "(t, L) \<in> sp_sent s \<Longrightarrow> t = sp_term s j \<Longrightarrow> sp_owner s t \<noteq> j
    \<Longrightarrow> l = (if take (length L) (sp_log s j) = L then sp_log s j else L)
    \<Longrightarrow> spec_step M s (s\<lparr>sp_log := (sp_log s)(j := l), sp_acks := insert (j, t, length L) (sp_acks s)\<rparr>)"
| commit: "sp_chain s t = Some h \<Longrightarrow> 0 < m \<Longrightarrow> m \<le> length h \<Longrightarrow> log_term (h ! (m - 1)) = t \<Longrightarrow> quorum M Q
    \<Longrightarrow> \<forall>j \<in> Q. \<exists>m1 \<ge> m. (j, t, m1) \<in> sp_acks s
    \<Longrightarrow> spec_step M s (s\<lparr>sp_committed := insert (t, m) (sp_committed s)\<rparr>)"
| learn: "(t, m0) \<in> sp_committed s \<Longrightarrow> t \<le> sp_term s j \<Longrightarrow> m \<le> m0 \<Longrightarrow> take m (sp_log s j) = take m (the (sp_chain s t))
    \<Longrightarrow> spec_step M s (s\<lparr>sp_done := (sp_done s)(j := m)\<rparr>)"
| restart: "spec_step M s (s\<lparr>sp_done := (sp_done s)(j := 0)\<rparr>)"

inductive spec_reach :: "int set \<Rightarrow> raft_spec \<Rightarrow> bool" for M where
  init: "spec_reach M spec_init"
| step: "spec_reach M s \<Longrightarrow> spec_step M s s' \<Longrightarrow> spec_reach M s'"

section \<open>Chains\<close>

text \<open>A log that consists of prefixes of chains: each entry has the history its term's leader gave it.\<close>

definition chain_ok :: "raft_spec \<Rightarrow> rlog \<Rightarrow> bool" where
  "chain_ok s l \<longleftrightarrow> (\<forall>k < length l. \<exists>h. sp_chain s (log_term (l ! k)) = Some h \<and> take (Suc k) l = take (Suc k) h)"

text \<open>All chains of terms behind \<open>t\<close> up to \<open>hi\<close> begin with the first \<open>m\<close> entries of the chain of \<open>t\<close>.\<close>

definition kept :: "raft_spec \<Rightarrow> int \<Rightarrow> nat \<Rightarrow> int \<Rightarrow> bool" where
  "kept s t m hi \<longleftrightarrow> (\<forall>t' g. t < t' \<and> t' \<le> hi \<and> sp_chain s t' = Some g \<longrightarrow> take m g = take m (the (sp_chain s t)))"

definition chain_grows :: "raft_spec \<Rightarrow> raft_spec \<Rightarrow> bool" where
  "chain_grows s s' \<longleftrightarrow> (\<forall>t h. sp_chain s t = Some h \<longrightarrow> (\<exists>es. sp_chain s' t = Some (h @ es) \<and> (\<forall>e \<in> set es. log_term e = t)))"

definition inv_terms :: "raft_spec \<Rightarrow> bool" where
  "inv_terms s \<longleftrightarrow> (\<forall>j. 0 \<le> sp_term s j)
     \<and> (\<forall>t h. sp_chain s t = Some h \<longrightarrow> 0 \<le> t \<and> t \<le> sp_term s (sp_owner s t) \<and> (sp_term s (sp_owner s t) = t \<longrightarrow> sp_log s (sp_owner s t) = h))"

definition inv_logs :: "raft_spec \<Rightarrow> bool" where
  "inv_logs s \<longleftrightarrow> (\<forall>j. chain_ok s (sp_log s j) \<and> (\<forall>e \<in> set (sp_log s j). log_term e \<le> sp_term s j))
     \<and> (\<forall>t h. sp_chain s t = Some h \<longrightarrow> chain_ok s h \<and> sorted (map log_term h) \<and> (\<forall>e \<in> set h. log_term e \<le> t))
     \<and> (\<forall>t L. (t, L) \<in> sp_sent s \<longrightarrow> (\<exists>h. sp_chain s t = Some h \<and> take (length L) h = L))"

definition ack_ok :: "raft_spec \<Rightarrow> int \<Rightarrow> int \<Rightarrow> nat \<Rightarrow> bool" where
  "ack_ok s j t m \<longleftrightarrow> t \<le> sp_term s j \<and> (\<exists>h. sp_chain s t = Some h \<and> m \<le> length h
     \<and> (\<forall>k \<le> m. kept s t k (sp_term s j) \<longrightarrow> take k (sp_log s j) = take k h))"

definition inv_acks :: "raft_spec \<Rightarrow> bool" where
  "inv_acks s \<longleftrightarrow> (\<forall>j t m. (j, t, m) \<in> sp_acks s \<longrightarrow> ack_ok s j t m)"

definition inv_votes :: "raft_spec \<Rightarrow> bool" where
  "inv_votes s \<longleftrightarrow> (\<forall>v t c l. (v, t, c, l) \<in> sp_votes s \<longrightarrow>
     t \<le> sp_term s v \<and> chain_ok s l \<and> (\<forall>e \<in> set l. log_term e < t)
     \<and> (\<forall>t0 m k. (v, t0, m) \<in> sp_acks s \<and> t0 < t \<and> k \<le> m \<and> kept s t0 k (t - 1) \<longrightarrow> take k l = take k (the (sp_chain s t0))))"

definition elected_with :: "int set \<Rightarrow> raft_spec \<Rightarrow> int \<Rightarrow> LogEntry list \<Rightarrow> bool" where
  "elected_with M s t h \<longleftrightarrow>
     (\<exists>Q n. quorum M Q \<and> n \<le> length h \<and> (\<forall>e \<in> set (take n h). log_term e < t) \<and> (\<forall>e \<in> set (drop n h). log_term e = t)
       \<and> (\<forall>v \<in> Q. \<exists>l. (v, t, sp_owner s t, l) \<in> sp_votes s \<and> up_to_date (take n h) l))"

definition inv_elect :: "int set \<Rightarrow> raft_spec \<Rightarrow> bool" where
  "inv_elect M s \<longleftrightarrow> (\<forall>t h. sp_chain s t = Some h \<longrightarrow> elected_with M s t h)"

definition inv_commit :: "int set \<Rightarrow> raft_spec \<Rightarrow> bool" where
  "inv_commit M s \<longleftrightarrow> (\<forall>t m. (t, m) \<in> sp_committed s \<longrightarrow>
     (\<exists>h Q. sp_chain s t = Some h \<and> 0 < m \<and> m \<le> length h \<and> log_term (h ! (m - 1)) = t \<and> quorum M Q
       \<and> (\<forall>j \<in> Q. \<exists>m1 \<ge> m. (j, t, m1) \<in> sp_acks s)))"

text \<open>A replica holds the first \<open>d\<close> entries of a chain of which at least as many are committed.\<close>

definition holds_committed :: "raft_spec \<Rightarrow> int \<Rightarrow> nat \<Rightarrow> int \<Rightarrow> nat \<Rightarrow> bool" where
  "holds_committed s j d t m \<longleftrightarrow> (t, m) \<in> sp_committed s \<and> t \<le> sp_term s j \<and> d \<le> m \<and> take d (sp_log s j) = take d (the (sp_chain s t))"

definition inv_done :: "raft_spec \<Rightarrow> bool" where
  "inv_done s \<longleftrightarrow> (\<forall>j. sp_done s j = 0 \<or> (\<exists>t m. holds_committed s j (sp_done s j) t m))"

definition spec_inv :: "int set \<Rightarrow> raft_spec \<Rightarrow> bool" where
  "spec_inv M s \<longleftrightarrow> inv_terms s \<and> inv_logs s \<and> inv_acks s \<and> inv_votes s \<and> inv_elect M s \<and> inv_commit M s \<and> inv_done s"

section \<open>Growing chains\<close>

lemma chain_grows_refl: "sp_chain s' = sp_chain s \<Longrightarrow> chain_grows s s'"
  by (simp add: chain_grows_def)

lemma chain_growsE:
  assumes "chain_grows s s'" and "sp_chain s t = Some h"
  obtains es where "sp_chain s' t = Some (h @ es)" "\<forall>e \<in> set es. log_term e = t"
  using assms unfolding chain_grows_def by blast

lemma chain_ok_grows:
  assumes "chain_ok s l" and "chain_grows s s'"
  shows "chain_ok s' l"
  unfolding chain_ok_def
proof (intro allI impI)
  fix k assume k: "k < length l"
  then obtain h where h: "sp_chain s (log_term (l ! k)) = Some h" "take (Suc k) l = take (Suc k) h"
    using assms(1) by (auto simp: chain_ok_def)
  obtain es where es: "sp_chain s' (log_term (l ! k)) = Some (h @ es)"
    using chain_growsE [OF assms(2) h(1)] by blast
  have "Suc k \<le> length h"
    using arg_cong [OF h(2), of length] k by simp
  then show "\<exists>h. sp_chain s' (log_term (l ! k)) = Some h \<and> take (Suc k) l = take (Suc k) h"
    using h(2) es by (intro exI [of _ "h @ es"]) simp
qed

lemma chain_ok_take: "chain_ok s l \<Longrightarrow> chain_ok s (take n l)"
  by (auto simp: chain_ok_def min_def)

lemma chain_ok_Nil [simp]: "chain_ok s []"
  by (simp add: chain_ok_def)

lemma chain_ok_known: "chain_ok s l \<Longrightarrow> e \<in> set l \<Longrightarrow> sp_chain s (log_term e) \<noteq> None"
  by (auto simp: chain_ok_def in_set_conv_nth)

text \<open>Log matching: two such logs with entries of one term at one index agree up to it.\<close>

lemma chain_ok_matching:
  assumes "chain_ok s A" "chain_ok s B" and "k < length A" "k < length B" and "log_term (A ! k) = log_term (B ! k)"
  shows "take (Suc k) A = take (Suc k) B"
  using assms unfolding chain_ok_def by (metis option.inject)

lemma kept_grows:
  assumes grow: "chain_grows s s'" and kept: "kept s' t m hi'" and hi: "hi \<le> hi'"
    and h: "sp_chain s t = Some h" "m \<le> length h" "\<forall>e \<in> set h. log_term e \<le> t"
  shows "kept s t m hi"
  unfolding kept_def
proof (intro allI impI)
  fix t' g assume t': "t < t' \<and> t' \<le> hi \<and> sp_chain s t' = Some g"
  obtain es where es: "sp_chain s' t = Some (h @ es)"
    using chain_growsE [OF grow h(1)] by blast
  obtain fs where fs: "sp_chain s' t' = Some (g @ fs)" "\<forall>e \<in> set fs. log_term e = t'"
    using chain_growsE [OF grow] t' by blast
  have eq: "take m (g @ fs) = take m h"
    using kept [unfolded kept_def, rule_format, of t' "g @ fs"] t' hi es fs(1) h(2) by simp
  show "take m g = take m (the (sp_chain s t))"
  proof (cases "m \<le> length g \<or> fs = []")
    case True
    then show ?thesis
      using eq h(1) by auto
  next
    case False
    then have k: "length g < m" "length g < length (g @ fs)"
      by auto
    have "h ! length g = take m h ! length g"
      using k h(2) by simp
    also have "\<dots> = (g @ fs) ! length g"
      using k by (simp add: nth_append flip: eq)
    also have "\<dots> \<in> set fs"
      using False by (simp add: nth_append)
    finally have "log_term (h ! length g) = t'"
      using fs(2) by simp
    moreover have "h ! length g \<in> set h"
      using k h(2) by simp
    ultimately show ?thesis
      using h(3) t' by force
  qed
qed

section \<open>Leader completeness\<close>

lemma chain_ok_sorted:
  assumes "chain_ok s l" and "inv_logs s"
  shows "sorted (map log_term l)"
proof (cases "l = []")
  case False
  then obtain h where h: "sp_chain s (log_term (last l)) = Some h" "take (length l) l = take (length l) h"
    using assms(1) by (auto simp: chain_ok_def last_conv_nth dest!: spec [of _ "length l - 1"])
  have "sorted (map log_term (take (length l) h))"
    using assms(2) h(1) by (auto simp: inv_logs_def take_map [symmetric] sorted_wrt_take)
  then show ?thesis
    using h(2) by simp
qed simp

lemma last_log_term_nth: "l \<noteq> [] \<Longrightarrow> last_log_term l = log_term (l ! (length l - 1))"
  by (simp add: last_log_term_def)

text \<open>A log at least as up to date as one that has a committed prefix has the prefix itself.\<close>

lemma chain_ok_last:
  assumes "chain_ok s A" and "A \<noteq> []"
  shows "\<exists>g. sp_chain s (last_log_term A) = Some g \<and> A = take (length A) g"
  using assms by (auto simp: chain_ok_def last_log_term_nth dest!: spec [of _ "length A - 1"])

text \<open>A log whose last term is later than a chain's is longer than the part of the chain it shares.\<close>

lemma prefix_long_enough:
  assumes inv: "inv_logs s" and h: "sp_chain s t = Some h" "m \<le> length h" and g: "take m g = take m h" "A = take (length A) g"
    and A: "A \<noteq> []" "t < last_log_term A"
  shows "m \<le> length A"
proof (rule ccontr)
  assume "\<not> m \<le> length A"
  then have lt: "length A - 1 < m" "length A - 1 < length A"
    using A(1) by auto
  have "A ! (length A - 1) = g ! (length A - 1)"
    using g(2) lt(2) by (metis nth_take)
  also have "\<dots> = h ! (length A - 1)"
    using g(1) lt(1) by (metis nth_take)
  finally have "last_log_term A = log_term (h ! (length A - 1))"
    using A(1) by (simp add: last_log_term_nth)
  moreover have "h ! (length A - 1) \<in> set h"
    using lt(1) h(2) by simp
  ultimately show False
    using inv h(1) A(2) by (force simp: inv_logs_def)
qed

lemma up_to_date_has_prefix:
  assumes inv: "inv_logs s" and A: "chain_ok s A" and l: "chain_ok s l" "take m l = take m h" and upd: "up_to_date A l"
    and h: "sp_chain s t = Some h" "0 < m" "m \<le> length h" "log_term (h ! (m - 1)) = t" and t: "0 \<le> t"
    and between: "\<And>t' g. t < t' \<Longrightarrow> t' \<le> last_log_term A \<Longrightarrow> sp_chain s t' = Some g \<Longrightarrow> take m g = take m h"
  shows "take m A = take m h"
proof -
  have len: "m \<le> length l"
    using arg_cong [OF l(2), of length] h(3) by simp
  have "l ! (m - 1) = h ! (m - 1)"
    using arg_cong [OF l(2), of "\<lambda>xs. xs ! (m - 1)"] h(2) by simp
  moreover have "log_term (l ! (m - 1)) \<le> log_term (l ! (length l - 1))"
    using chain_ok_sorted [OF l(1) inv] len h(2) sorted_nth_mono [of "map log_term l" "m - 1" "length l - 1"] by simp
  moreover have "l \<noteq> []"
    using len h(2) by auto
  ultimately have last_l: "t \<le> last_log_term l"
    using h(4) by (simp add: last_log_term_nth)
  then have "A \<noteq> []"
    using upd t by (auto simp: up_to_date_def last_log_term_def)
  then obtain g where g: "sp_chain s (last_log_term A) = Some g" "A = take (length A) g"
    using chain_ok_last [OF A] by blast
  consider (same) "last_log_term l = last_log_term A" "length l \<le> length A" | (later) "t < last_log_term A"
    using upd last_l by (auto simp: up_to_date_def)
  then show ?thesis
  proof cases
    case same
    obtain g' where "sp_chain s (last_log_term l) = Some g'" "l = take (length l) g'"
      using chain_ok_last [OF l(1)] len h(2) by fastforce
    then have "l = take (length l) g"
      using g(1) same(1) by simp
    also have "\<dots> = take (length l) A"
      using g(2) same(2) by (metis min.absorb1 take_all order_refl take_take)
    finally show ?thesis
      using l(2) len by (metis min.absorb1 take_take)
  next
    case later
    have g_m: "take m g = take m h"
      using between [OF later order_refl g(1)] .
    have "m \<le> length A"
      using prefix_long_enough [OF inv h(1,3) g_m g(2) \<open>A \<noteq> []\<close> later] .
    then show ?thesis
      using g(2) g_m by (metis min.absorb1 take_all order_refl take_take)
  qed
qed

lemma inv_votesD:
  assumes "inv_votes s" and "(v, t, c, l) \<in> sp_votes s"
  shows "t \<le> sp_term s v" and "chain_ok s l" and "e \<in> set l \<Longrightarrow> log_term e < t"
    and "(v, t0, m) \<in> sp_acks s \<Longrightarrow> t0 < t \<Longrightarrow> k \<le> m \<Longrightarrow> kept s t0 k (t - 1) \<Longrightarrow> take k l = take k (the (sp_chain s t0))"
  using assms unfolding inv_votes_def by blast+

lemma inv_electE:
  assumes "inv_elect M s" and "sp_chain s t = Some h"
  obtains Q n where "quorum M Q" "n \<le> length h" "\<forall>e \<in> set (take n h). log_term e < t" "\<forall>e \<in> set (drop n h). log_term e = t"
    "\<forall>v \<in> Q. \<exists>l. (v, t, sp_owner s t, l) \<in> sp_votes s \<and> up_to_date (take n h) l"
  using assms unfolding inv_elect_def elected_with_def by blast

lemma inv_commitE:
  assumes "inv_commit M s" and "(t, m) \<in> sp_committed s"
  obtains h Q where "sp_chain s t = Some h" "0 < m" "m \<le> length h" "log_term (h ! (m - 1)) = t" "quorum M Q"
    "\<forall>j \<in> Q. \<exists>m1 \<ge> m. (j, t, m1) \<in> sp_acks s"
  using assms unfolding inv_commit_def by blast

lemma inv_acksE:
  assumes "inv_acks s" and "(j, t, m) \<in> sp_acks s"
  obtains h where "t \<le> sp_term s j" "sp_chain s t = Some h" "m \<le> length h"
    "\<And>k. k \<le> m \<Longrightarrow> kept s t k (sp_term s j) \<Longrightarrow> take k (sp_log s j) = take k h"
  using assms unfolding inv_acks_def ack_ok_def by blast

lemma sent_prefix: "spec_inv M s \<Longrightarrow> (t, L) \<in> sp_sent s \<Longrightarrow> \<exists>h. sp_chain s t = Some h \<and> take (length L) h = L"
  unfolding spec_inv_def inv_logs_def by blast

lemma done_committed: "spec_inv M s \<Longrightarrow> sp_done s j \<noteq> 0 \<Longrightarrow> \<exists>t m. holds_committed s j (sp_done s j) t m"
  unfolding spec_inv_def inv_done_def by (elim conjE allE [of _ j]) simp

lemma leader_completeness:
  assumes inv: "spec_inv M s" and c: "(t, m) \<in> sp_committed s" and h: "sp_chain s t = Some h"
    and t': "t < t'" "sp_chain s t' = Some h'"
  shows "take m h' = take m h"
  using t'
proof (induction "nat (t' - t)" arbitrary: t' h' rule: less_induct)
  case less
  have logs: "inv_logs s" and t: "0 \<le> t"
    using inv h by (auto simp: spec_inv_def inv_terms_def)
  obtain Q where m: "0 < m" "m \<le> length h" "log_term (h ! (m - 1)) = t" and Q: "quorum M Q" "\<forall>j \<in> Q. \<exists>m1 \<ge> m. (j, t, m1) \<in> sp_acks s"
    using inv_commitE [OF _ c] inv h unfolding spec_inv_def by (metis option.inject)
  obtain Q' n where n: "n \<le> length h'" "\<forall>e \<in> set (take n h'). log_term e < t'"
      and Q': "quorum M Q'" "\<forall>v \<in> Q'. \<exists>l. (v, t', sp_owner s t', l) \<in> sp_votes s \<and> up_to_date (take n h') l"
    using inv_electE [OF _ less.prems(2)] inv unfolding spec_inv_def by metis
  obtain v m1 l where v: "m \<le> m1" "(v, t, m1) \<in> sp_acks s" "(v, t', sp_owner s t', l) \<in> sp_votes s" "up_to_date (take n h') l"
    using majority.common_witness [OF Q Q'] by blast
  have IH: "take m g = take m h" if "t < t''" "t'' < t'" "sp_chain s t'' = Some g" for t'' g
    using less.hyps [OF _ that(1,3)] that by simp
  then have "kept s t m (t' - 1)"
    by (auto simp: kept_def h)
  then have l: "chain_ok s l" "take m l = take m h"
    using inv_votesD(2) [OF _ v(3)] inv_votesD(4) [OF _ v(3,2) less.prems(1) v(1)] inv h by (simp_all add: spec_inv_def)
  have "last_log_term (take n h') < t'"
  proof (cases "take n h' = []")
    case True
    then show ?thesis
      using t less.prems(1) by (simp add: last_log_term_def)
  next
    case False
    then show ?thesis
      using n(2) by (metis last_conv_nth last_in_set last_log_term_nth)
  qed
  moreover have "chain_ok s (take n h')"
    using logs less.prems(2) by (auto simp: inv_logs_def intro: chain_ok_take)
  ultimately have eq: "take m (take n h') = take m h"
    using IH by (intro up_to_date_has_prefix [OF logs _ l v(4) h m t]) auto
  then have "length (take m (take n h')) = m"
    using m(2) by (simp only: eq) simp
  then have "m \<le> n"
    by simp
  then show ?case
    using eq by (simp add: min_def split: if_splits)
qed

section \<open>The invariant holds\<close>

text \<open>What every step does to the history.\<close>

definition history_grows :: "raft_spec \<Rightarrow> raft_spec \<Rightarrow> bool" where
  "history_grows s s' \<longleftrightarrow> chain_grows s s' \<and> (\<forall>j. sp_term s j \<le> sp_term s' j) \<and> sp_sent s \<subseteq> sp_sent s' \<and> sp_acks s \<subseteq> sp_acks s'
     \<and> sp_votes s \<subseteq> sp_votes s' \<and> sp_committed s \<subseteq> sp_committed s' \<and> (\<forall>t. sp_chain s t \<noteq> None \<longrightarrow> sp_owner s' t = sp_owner s t)"

lemma owner_log: "spec_inv M s \<Longrightarrow> sp_chain s t = Some h \<Longrightarrow> sp_term s (sp_owner s t) = t \<Longrightarrow> sp_log s (sp_owner s t) = h"
  unfolding spec_inv_def inv_terms_def by blast

lemma spec_step_grows:
  assumes "spec_step M s s'" and inv: "spec_inv M s"
  shows "history_grows s s'"
  using assms(1)
proof cases
  case (append t h i es)
  then have "sp_log s i = h"
    using owner_log [OF inv append(2)] by simp
  then show ?thesis
    using append by (auto simp: history_grows_def chain_grows_def)
qed (auto simp: history_grows_def chain_grows_def)

lemma inv_terms_step:
  assumes "spec_step M s s'" and inv: "spec_inv M s"
  shows "inv_terms s'"
proof -
  have t: "\<And>j. 0 \<le> sp_term s j"
    and c: "\<And>t h. sp_chain s t = Some h \<Longrightarrow> 0 \<le> t \<and> t \<le> sp_term s (sp_owner s t) \<and> (sp_term s (sp_owner s t) = t \<longrightarrow> sp_log s (sp_owner s t) = h)"
    using inv by (auto simp: spec_inv_def inv_terms_def)
  from assms(1) show ?thesis
  proof cases
    case (advance j t')
    have "0 \<le> t'"
      using advance t [of j] by simp
    moreover have "t \<le> (if sp_owner s t = j then t' else sp_term s (sp_owner s t)) \<and> ((if sp_owner s t = j then t' else sp_term s (sp_owner s t)) = t \<longrightarrow> sp_log s (sp_owner s t) = h)"
      if "sp_chain s t = Some h" for t h
      using c [OF that] advance by auto
    ultimately show ?thesis
      using t c advance by (auto simp: inv_terms_def)
  qed (use t c in \<open>auto simp: inv_terms_def\<close>)
qed

lemma sent_grows:
  assumes "chain_grows s s'" and "sp_chain s t = Some h" "take (length L) h = L"
  shows "\<exists>h. sp_chain s' t = Some h \<and> take (length L) h = L"
proof -
  obtain es where "sp_chain s' t = Some (h @ es)"
    using chain_growsE [OF assms(1,2)] by blast
  then show ?thesis
    using assms(3) by (metis append_take_drop_id append.assoc append_eq_conv_conj)
qed

text \<open>A leader's chain stays well formed when entries of its own term are put at its end.\<close>

lemma chain_ok_extend:
  assumes "chain_ok s h" and "sp_chain s t = Some (h @ es)" and "\<forall>e \<in> set es. log_term e = t"
  shows "chain_ok s (h @ es)"
  unfolding chain_ok_def
proof (intro allI impI)
  fix k assume k: "k < length (h @ es)"
  show "\<exists>g. sp_chain s (log_term ((h @ es) ! k)) = Some g \<and> take (Suc k) (h @ es) = take (Suc k) g"
  proof (cases "k < length h")
    case True
    then show ?thesis
      using assms(1) by (auto simp: chain_ok_def nth_append)
  next
    case False
    then have "log_term ((h @ es) ! k) = t"
      using assms(3) k by (simp add: nth_append)
    then show ?thesis
      using assms(2) by simp
  qed
qed

lemma inv_logs_step:
  assumes "spec_step M s s'" and inv: "spec_inv M s"
  shows "inv_logs s'"
proof -
  have log: "\<And>j. chain_ok s (sp_log s j)" "\<And>j e. e \<in> set (sp_log s j) \<Longrightarrow> log_term e \<le> sp_term s j"
    and ch: "\<And>t h. sp_chain s t = Some h \<Longrightarrow> chain_ok s h" "\<And>t h. sp_chain s t = Some h \<Longrightarrow> sorted (map log_term h)"
      "\<And>t h e. sp_chain s t = Some h \<Longrightarrow> e \<in> set h \<Longrightarrow> log_term e \<le> t"
    and sent: "\<And>t L. (t, L) \<in> sp_sent s \<Longrightarrow> \<exists>h. sp_chain s t = Some h \<and> take (length L) h = L"
    and terms: "\<And>t h. sp_chain s t = Some h \<Longrightarrow> t = sp_term s (sp_owner s t) \<Longrightarrow> sp_log s (sp_owner s t) = h"
    using inv by (auto simp: spec_inv_def inv_logs_def inv_terms_def)
  have g: "chain_grows s s'"
    using spec_step_grows [OF assms] by (simp add: history_grows_def)
  note grow = chain_ok_grows [OF _ g]
  have sent': "\<exists>h. sp_chain s' t = Some h \<and> take (length L) h = L" if tL: "(t, L) \<in> sp_sent s" for t L
    using sent [OF tL] sent_grows [OF g] by blast
  have chain: "chain_ok s' h" if "sp_chain s t = Some h" for t h
    using grow ch(1) that by blast
  from assms(1) show ?thesis
  proof cases
    case (advance j t)
    then show ?thesis
      using grow log ch sent' chain by (fastforce simp: inv_logs_def)
  next
    case (elect t i Q)
    have "sorted (map log_term (sp_log s i))"
      using chain_ok_sorted [OF log(1)] inv by (simp add: spec_inv_def)
    then show ?thesis
      using elect grow log ch sent' chain by (auto simp: inv_logs_def)
  next
    case (append t h i es)
    have h: "sp_log s i = h"
      using terms [OF append(2)] append(3,4) by simp
    have new: "chain_ok s' (h @ es)"
      using append h by (intro chain_ok_extend [OF chain [OF append(2)]]) auto
    have "sorted (map log_term (h @ es))"
      using ch(2,3) [OF append(2)] append(5) by (fastforce simp: sorted_append intro: sorted_wrt_iff_nth_less [THEN iffD2])
    then show ?thesis
      using append grow log ch sent' chain new h by (fastforce simp: inv_logs_def)
  next
    case (send t h i)
    then show ?thesis
      using grow log ch sent' chain terms by (fastforce simp: inv_logs_def)
  next
    case (accept t L j l)
    obtain h where h: "sp_chain s t = Some h" "take (length L) h = L"
      using sent accept by blast
    then have "chain_ok s L" "\<forall>e \<in> set L. log_term e \<le> t"
      using ch(1,3) [OF h(1)] by (metis chain_ok_take, metis in_set_takeD)
    then have "chain_ok s l" "\<forall>e \<in> set l. log_term e \<le> t"
      using accept log by auto
    then show ?thesis
      using accept grow log ch sent' chain by (auto simp: inv_logs_def)
  qed (use grow log ch sent' chain in \<open>auto simp: inv_logs_def\<close>)
qed

text \<open>What a log holds of an acknowledged chain, after a step that changes logs only as \<open>accept\<close> does.\<close>

lemma acks_stable:
  assumes inv: "spec_inv M s" and g: "chain_grows s s'" and a: "(j, t, m) \<in> sp_acks s" and t: "sp_term s j \<le> sp_term s' j"
    and log: "\<And>k h. sp_chain s t = Some h \<Longrightarrow> k \<le> m \<Longrightarrow> take k (sp_log s j) = take k h \<Longrightarrow> kept s' t k (sp_term s' j) \<Longrightarrow> take k (sp_log s' j) = take k h"
  shows "ack_ok s' j t m"
proof -
  obtain h where h: "t \<le> sp_term s j" "sp_chain s t = Some h" "m \<le> length h"
    "\<And>k. k \<le> m \<Longrightarrow> kept s t k (sp_term s j) \<Longrightarrow> take k (sp_log s j) = take k h"
    using inv_acksE [OF _ a] inv unfolding spec_inv_def by blast
  obtain es where es: "sp_chain s' t = Some (h @ es)"
    using chain_growsE [OF g h(2)] by blast
  have "take k (sp_log s' j) = take k (h @ es)" if "k \<le> m" "kept s' t k (sp_term s' j)" for k
  proof -
    have "\<forall>e \<in> set h. log_term e \<le> t"
      using inv h(2) by (auto simp: spec_inv_def inv_logs_def)
    then have "kept s t k (sp_term s j)"
      using kept_grows [OF g that(2) t h(2)] that(1) h(3) by simp
    then show ?thesis
      using log [OF h(2) that(1) h(4) [OF that(1)] that(2)] that(1) h(3) by simp
  qed
  then show ?thesis
    unfolding ack_ok_def using h(1,3) t es by (intro conjI exI [of _ "h @ es"]) auto
qed

lemma take_prefix_eq: "take n xs = take n ys \<Longrightarrow> k \<le> n \<Longrightarrow> take k xs = take k ys"
  by (metis min.absorb1 take_take)

text \<open>A replica that copies a prefix of a chain keeps what it shares with the chain.\<close>

lemma accept_keeps_prefix:
  assumes L: "take (length L) h = L" and l: "l = (if take (length L) old = L then old else L)" and k: "take k old = take k h"
  shows "take k l = take k h"
proof (cases "take (length L) old = L \<or> k \<le> length L")
  case True
  then show ?thesis
    using l k take_prefix_eq [of "length L" L h k] L by (auto simp: min_def)
next
  case False
  then have "take (length L) old = take (length L) h"
    using take_prefix_eq [OF k] by simp
  then show ?thesis
    using L False by simp
qed

lemma take_eq_length: "take k xs = take k ys \<Longrightarrow> k \<le> length ys \<Longrightarrow> k \<le> length xs"
  by (metis length_take min.absorb2 min.cobounded1)

lemma acks_le_chain: "spec_inv M s \<Longrightarrow> (j, t, m) \<in> sp_acks s \<Longrightarrow> sp_chain s t = Some h \<Longrightarrow> m \<le> length h \<and> t \<le> sp_term s j"
  unfolding spec_inv_def inv_acks_def ack_ok_def by (metis option.inject)

lemma accept_stable:
  assumes inv: "spec_inv M s" and h: "sp_chain s t = Some h" "take (length L) h = L" and t: "t = sp_term s j"
    and l: "l = (if take (length L) (sp_log s j) = L then sp_log s j else L)"
    and k: "sp_chain s t0 = Some h0" "t0 \<le> t" "take k (sp_log s j) = take k h0" "kept s' t0 k t" and s': "sp_chain s' = sp_chain s"
  shows "take k l = take k h0"
proof -
  have "take k h = take k h0"
    using k(4) [unfolded kept_def, rule_format, of t h] k(1,2) h(1) s' by (cases "t0 = t") auto
  then show ?thesis
    using accept_keeps_prefix [OF h(2) l] k(3) by simp
qed

lemma inv_acks_step:
  assumes "spec_step M s s'" and inv: "spec_inv M s"
  shows "inv_acks s'"
proof -
  have g: "chain_grows s s'" and t: "\<And>j. sp_term s j \<le> sp_term s' j"
    using spec_step_grows [OF assms] by (auto simp: history_grows_def)
  note stable = acks_stable [OF inv g _ t]
  from assms(1) show ?thesis
  proof cases
    case (elect t i Q)
    have "ack_ok s' j t m" if "(j, t, m) \<in> sp_acks s" for j t m
      using stable [OF that] elect by simp
    then show ?thesis
      using elect unfolding inv_acks_def by (auto simp: ack_ok_def)
  next
    case (append t h i es)
    have h: "sp_log s i = h"
      using owner_log [OF inv append(2)] append(3,4) by simp
    have "ack_ok s' j t0 m" if a: "(j, t0, m) \<in> sp_acks s" for j t0 m
    proof (rule stable [OF a])
      fix k h0 assume k: "sp_chain s t0 = Some h0" "k \<le> m" "take k (sp_log s j) = take k h0"
      have "k \<le> length (sp_log s j)"
        using take_eq_length [OF k(3)] acks_le_chain [OF inv a k(1)] k(2) by simp
      then show "take k (sp_log s' j) = take k h0"
        using append k(3) by (cases "j = i") simp_all
    qed
    then show ?thesis
      using append unfolding inv_acks_def by (auto simp: ack_ok_def)
  next
    case (accept t L j l)
    obtain h where h: "sp_chain s t = Some h" "take (length L) h = L"
      using sent_prefix [OF inv accept(2)] by blast
    have len: "length L \<le> length h"
      using h(2) by (metis nle_le take_all)
    have "ack_ok s' i t0 m" if a: "(i, t0, m) \<in> sp_acks s" for i t0 m
    proof (rule stable [OF a])
      fix k h0 assume k: "sp_chain s t0 = Some h0" "k \<le> m" "take k (sp_log s i) = take k h0" "kept s' t0 k (sp_term s' i)"
      show "take k (sp_log s' i) = take k h0"
        using accept_stable [OF inv h accept(3,5) k(1)] acks_le_chain [OF inv a k(1)] k accept by (cases "i = j") simp_all
    qed
    moreover have "take k l = take k h" if "k \<le> length L" for k
      using that take_prefix_eq [of "length L" "sp_log s j" h k] take_prefix_eq [of "length L" L h k] h(2)
      by (auto simp: accept(5))
    ultimately show ?thesis
      using accept h(1) len unfolding inv_acks_def by (auto simp: ack_ok_def)
  qed (use stable in \<open>simp_all add: inv_acks_def\<close>)
qed

text \<open>A vote that was cast says what it said when chains grow.\<close>

lemma votes_stable:
  assumes inv: "spec_inv M s" and g: "chain_grows s s'" and t: "sp_term s v \<le> sp_term s' v" and v: "(v, t', c, l) \<in> sp_votes s"
  shows "t' \<le> sp_term s' v \<and> chain_ok s' l \<and> (\<forall>e \<in> set l. log_term e < t')
      \<and> ((v, t0, m) \<in> sp_acks s \<and> t0 < t' \<and> k \<le> m \<and> kept s' t0 k (t' - 1) \<longrightarrow> take k l = take k (the (sp_chain s' t0)))"
proof (intro conjI impI ballI)
  have votes: "inv_votes s"
    using inv by (simp add: spec_inv_def)
  show "t' \<le> sp_term s' v"
    using inv_votesD(1) [OF votes v] t by (rule order_trans)
  show "chain_ok s' l"
    using chain_ok_grows [OF inv_votesD(2) [OF votes v] g] .
  show "log_term e < t'" if "e \<in> set l" for e
    using inv_votesD(3) [OF votes v that] .
  assume k: "(v, t0, m) \<in> sp_acks s \<and> t0 < t' \<and> k \<le> m \<and> kept s' t0 k (t' - 1)"
  obtain h where h: "sp_chain s t0 = Some h" "m \<le> length h"
    using inv_acksE [of s v t0 m] k inv unfolding spec_inv_def by blast
  obtain es where es: "sp_chain s' t0 = Some (h @ es)"
    using chain_growsE [OF g h(1)] by blast
  have "\<forall>e \<in> set h. log_term e \<le> t0"
    using inv h(1) by (auto simp: spec_inv_def inv_logs_def)
  then have "kept s t0 k (t' - 1)"
    using kept_grows [OF g _ order_refl h(1)] k h(2) by simp
  then show "take k l = take k (the (sp_chain s' t0))"
    using inv_votesD(4) [OF votes v, of t0 m k] k h es by simp
qed

lemma inv_votes_step:
  assumes "spec_step M s s'" and inv: "spec_inv M s"
  shows "inv_votes s'"
proof -
  have g: "chain_grows s s'" and t: "\<And>j. sp_term s j \<le> sp_term s' j"
    using spec_step_grows [OF assms] by (auto simp: history_grows_def)
  note old = votes_stable [OF inv g t]
  have new_ack: "\<not> t0 < t'" if "(v, t', c, l) \<in> sp_votes s" "t0 = sp_term s v" for v t' c l t0
    using inv_votesD(1) [OF _ that(1)] that(2) inv by (simp add: spec_inv_def)
  from assms(1) show ?thesis
  proof cases
    case (vote v c)
    have log: "chain_ok s (sp_log s v)" "\<And>e. e \<in> set (sp_log s v) \<Longrightarrow> log_term e \<le> sp_term s v"
      using inv by (auto simp: spec_inv_def inv_logs_def)
    have "log_term e < sp_term s v" if "e \<in> set (sp_log s v)" for e
      using log(2) [OF that] chain_ok_known [OF log(1) that] vote(2) by (metis order_le_less)
    moreover have "take k (sp_log s v) = take k (the (sp_chain s t0))"
      if k: "(v, t0, m) \<in> sp_acks s" "t0 < sp_term s v" "k \<le> m" "kept s t0 k (sp_term s v - 1)" for t0 m k
    proof -
      have "kept s t0 k (sp_term s v)"
        using k(4) vote(2) unfolding kept_def by (metis option.distinct(1) order_le_less zle_diff1_eq)
      then show ?thesis
        using inv_acksE [OF _ k(1)] inv k(3) unfolding spec_inv_def by (metis option.sel)
    qed
    ultimately show ?thesis
      using vote old log chain_ok_grows [OF _ g] unfolding inv_votes_def kept_def by auto
  qed (use old new_ack in \<open>auto simp: inv_votes_def\<close>)
qed

lemma elected_grows:
  assumes "elected_with M s t h" and g: "history_grows s s'" and h: "sp_chain s t = Some h" and es: "\<forall>e \<in> set es. log_term e = t"
  shows "elected_with M s' t (h @ es)"
proof -
  obtain Q n where Q: "quorum M Q" "n \<le> length h" "\<forall>e \<in> set (take n h). log_term e < t" "\<forall>e \<in> set (drop n h). log_term e = t"
      "\<forall>v \<in> Q. \<exists>l. (v, t, sp_owner s t, l) \<in> sp_votes s \<and> up_to_date (take n h) l"
    using assms(1) unfolding elected_with_def by blast
  moreover have "sp_owner s' t = sp_owner s t" "sp_votes s \<subseteq> sp_votes s'"
    using g h by (auto simp: history_grows_def)
  ultimately show ?thesis
    unfolding elected_with_def using es by (intro exI [of _ Q] exI [of _ n]) (auto, blast)
qed

lemma elected_new:
  assumes "spec_step M s s'" and inv: "spec_inv M s" and t: "sp_chain s' t = Some h" "sp_chain s t = None"
  shows "elected_with M s' t h"
  using assms(1)
proof cases
  case (elect t1 i Q)
  then have e: "t1 = t" "h = sp_log s i"
    using t by (auto split: if_splits)
  have log: "chain_ok s (sp_log s i)" "\<forall>e \<in> set (sp_log s i). log_term e \<le> t"
    using inv elect(3) e by (auto simp: spec_inv_def inv_logs_def)
  have "log_term e < t" if "e \<in> set (sp_log s i)" for e
    using log(2) that chain_ok_known [OF log(1) that] t(2) by (metis order_le_less)
  then show ?thesis
    unfolding elected_with_def using elect e by (intro exI [of _ Q] exI [of _ "length h"]) simp
qed (use t in \<open>auto split: if_splits\<close>)

lemma inv_elect_step:
  assumes "spec_step M s s'" and inv: "spec_inv M s"
  shows "inv_elect M s'"
  unfolding inv_elect_def
proof (intro allI impI)
  fix t h' assume h': "sp_chain s' t = Some h'"
  note g = spec_step_grows [OF assms]
  show "elected_with M s' t h'"
  proof (cases "sp_chain s t")
    case None
    then show ?thesis
      by (rule elected_new [OF assms h'])
  next
    case (Some h)
    obtain es where "sp_chain s' t = Some (h @ es)" "\<forall>e \<in> set es. log_term e = t"
      using chain_growsE [of s s' t h] g Some unfolding history_grows_def by blast
    moreover have "elected_with M s t h"
      using inv Some by (simp add: spec_inv_def inv_elect_def)
    ultimately show ?thesis
      using elected_grows [OF _ g Some, of M es] h' by simp
  qed
qed

lemma inv_commit_step:
  assumes "spec_step M s s'" and inv: "spec_inv M s"
  shows "inv_commit M s'"
proof -
  have g: "chain_grows s s'" "sp_acks s \<subseteq> sp_acks s'"
    using spec_step_grows [OF assms] by (auto simp: history_grows_def)
  have old: "\<exists>h Q. sp_chain s' t = Some h \<and> 0 < m \<and> m \<le> length h \<and> log_term (h ! (m - 1)) = t \<and> quorum M Q
       \<and> (\<forall>j \<in> Q. \<exists>m1 \<ge> m. (j, t, m1) \<in> sp_acks s')" if c: "(t, m) \<in> sp_committed s" for t m
  proof -
    obtain h Q where h: "sp_chain s t = Some h" "0 < m" "m \<le> length h" "log_term (h ! (m - 1)) = t" "quorum M Q"
        "\<forall>j \<in> Q. \<exists>m1 \<ge> m. (j, t, m1) \<in> sp_acks s"
      using inv_commitE [OF _ c] inv unfolding spec_inv_def by blast
    obtain es where "sp_chain s' t = Some (h @ es)"
      using chain_growsE [OF g(1) h(1)] by blast
    then show ?thesis
      using h g(2) by (intro exI [of _ "h @ es"] exI [of _ Q] conjI) (auto simp: nth_append)
  qed
  from assms(1) show ?thesis
  proof cases
    case (commit t h m Q)
    then show ?thesis
      using old unfolding inv_commit_def by auto
  qed (use old in \<open>simp_all add: inv_commit_def\<close>)
qed

text \<open>No step takes a committed prefix away from a replica.\<close>

lemma holds_committed_step:
  assumes "spec_step M s s'" and inv: "spec_inv M s" and holds: "holds_committed s j d t m"
  shows "holds_committed s' j d t m"
proof -
  have g: "chain_grows s s'" "sp_committed s \<subseteq> sp_committed s'" "sp_term s j \<le> sp_term s' j"
    using spec_step_grows [OF assms(1,2)] by (auto simp: history_grows_def)
  have c: "(t, m) \<in> sp_committed s" "t \<le> sp_term s j" "d \<le> m"
    using holds by (auto simp: holds_committed_def)
  obtain h where h: "sp_chain s t = Some h" "m \<le> length h"
    using inv_commitE [OF _ c(1)] inv unfolding spec_inv_def by blast
  have k: "take d (sp_log s j) = take d h"
    using holds h(1) by (simp add: holds_committed_def)
  obtain es where es: "sp_chain s' t = Some (h @ es)"
    using chain_growsE [OF g(1) h(1)] by blast
  have "take d (sp_log s' j) = take d h"
    using assms(1)
  proof cases
    case (append t' g i es)
    then show ?thesis
      using k take_eq_length [OF k] c(3) h(2) by (cases "j = i") simp_all
  next
    case (accept t' L i l)
    show ?thesis
    proof (cases "j = i")
      case True
      obtain g where g: "sp_chain s t' = Some g" "take (length L) g = L"
        using sent_prefix [OF inv accept(2)] by blast
      have "take m g = take m h"
        using leader_completeness [OF inv c(1) h(1) _ g(1)] c(2) h(1) g(1) accept(3) True by (cases "t = t'") auto
      then have "take d (sp_log s j) = take d g"
        using k c(3) take_prefix_eq by metis
      then have "take d l = take d g"
        using accept_keeps_prefix [OF g(2) accept(5)] True by simp
      then show ?thesis
        using \<open>take d (sp_log s j) = take d g\<close> k accept True by simp
    qed (use k accept in simp)
  qed (use k in simp_all)
  then show ?thesis
    using c g es h by (auto simp: holds_committed_def)
qed

lemma inv_done_step:
  assumes "spec_step M s s'" and inv: "spec_inv M s"
  shows "inv_done s'"
proof -
  have old: "sp_done s j = 0 \<or> (\<exists>t m. holds_committed s' j (sp_done s j) t m)" for j
    using done_committed [OF inv] holds_committed_step [OF assms] by blast
  from assms(1) show ?thesis
  proof cases
    case (learn t m0 j m)
    have "holds_committed s' j m t m0"
      using learn by (simp add: holds_committed_def)
    then show ?thesis
      using learn old unfolding inv_done_def by auto
  qed (use old in \<open>simp_all add: inv_done_def\<close>)
qed

section \<open>What the specification promises\<close>

lemma spec_inv_init: "spec_inv M spec_init"
  by (simp add: spec_inv_def spec_init_def inv_terms_def inv_logs_def inv_acks_def inv_votes_def inv_elect_def inv_commit_def inv_done_def)

lemma spec_inv_step: "spec_inv M s \<Longrightarrow> spec_step M s s' \<Longrightarrow> spec_inv M s'"
  by (simp add: spec_inv_def [of M s'] inv_terms_step inv_logs_step inv_acks_step inv_votes_step inv_elect_step inv_commit_step inv_done_step)

lemma spec_reach_inv: "spec_reach M s \<Longrightarrow> spec_inv M s"
  by (induction rule: spec_reach.induct) (auto intro: spec_inv_init spec_inv_step)

lemma committed_agree:
  assumes inv: "spec_inv M s" and c: "(t, m) \<in> sp_committed s" "(t', m') \<in> sp_committed s" and k: "k \<le> m" "k \<le> m'"
  shows "take k (the (sp_chain s t)) = take k (the (sp_chain s t'))"
proof -
  obtain h h' where h: "sp_chain s t = Some h" "sp_chain s t' = Some h'"
    using inv_commitE [OF _ c(1)] inv_commitE [OF _ c(2)] inv unfolding spec_inv_def by metis
  consider "t = t'" | "t < t'" | "t' < t"
    by linarith
  then show ?thesis
  proof cases
    case 2
    then show ?thesis
      using leader_completeness [OF inv c(1) h(1) _ h(2)] h k take_prefix_eq by (metis option.sel)
  next
    case 3
    then show ?thesis
      using leader_completeness [OF inv c(2) h(2) _ h(1)] h k take_prefix_eq by (metis option.sel)
  qed simp
qed

lemma spec_agreement:
  assumes inv: "spec_inv M s"
  shows "take (min (sp_done s i) (sp_done s j)) (sp_log s i) = take (min (sp_done s i) (sp_done s j)) (sp_log s j)"
proof (cases "sp_done s i = 0 \<or> sp_done s j = 0")
  case False
  let ?k = "min (sp_done s i) (sp_done s j)"
  obtain t m where t: "(t, m) \<in> sp_committed s" "sp_done s i \<le> m" "take (sp_done s i) (sp_log s i) = take (sp_done s i) (the (sp_chain s t))"
    using done_committed [OF inv, of i] False by (auto simp: holds_committed_def)
  obtain t' m' where t': "(t', m') \<in> sp_committed s" "sp_done s j \<le> m'" "take (sp_done s j) (sp_log s j) = take (sp_done s j) (the (sp_chain s t'))"
    using done_committed [OF inv, of j] False by (auto simp: holds_committed_def)
  have "take ?k (sp_log s i) = take ?k (the (sp_chain s t))"
    using take_prefix_eq [OF t(3)] by simp
  also have "\<dots> = take ?k (the (sp_chain s t'))"
    using committed_agree [OF inv t(1) t'(1)] t(2) t'(2) by simp
  also have "\<dots> = take ?k (sp_log s j)"
    using take_prefix_eq [OF t'(3)] by simp
  finally show ?thesis .
qed auto

text \<open>Several steps.\<close>

lemma history_grows_refl: "history_grows s s"
  by (auto simp: history_grows_def chain_grows_def)

lemma history_grows_trans: "history_grows s s1 \<Longrightarrow> history_grows s1 s2 \<Longrightarrow> history_grows s s2"
proof -
  assume g: "history_grows s s1" "history_grows s1 s2"
  have "chain_grows s s2"
    unfolding chain_grows_def
  proof (intro allI impI)
    fix t h assume "sp_chain s t = Some h"
    then obtain es where es: "sp_chain s1 t = Some (h @ es)" "\<forall>e \<in> set es. log_term e = t"
      using chain_growsE [of s s1] g(1) unfolding history_grows_def by metis
    then obtain fs where "sp_chain s2 t = Some ((h @ es) @ fs)" "\<forall>e \<in> set fs. log_term e = t"
      using chain_growsE [of s1 s2] g(2) unfolding history_grows_def by metis
    then show "\<exists>es. sp_chain s2 t = Some (h @ es) \<and> (\<forall>e \<in> set es. log_term e = t)"
      using es by (intro exI [of _ "es @ fs"]) auto
  qed
  moreover have "sp_chain s t \<noteq> None \<longrightarrow> sp_chain s1 t \<noteq> None" for t
    using g(1) chain_growsE [of s s1 t] unfolding history_grows_def by (metis not_None_eq)
  ultimately show ?thesis
    using g unfolding history_grows_def by (metis order_trans)
qed

abbreviation spec_steps :: "int set \<Rightarrow> raft_spec \<Rightarrow> raft_spec \<Rightarrow> bool" where
  "spec_steps M \<equiv> (spec_step M)\<^sup>*\<^sup>*"

lemma spec_steps_inv:
  assumes "spec_steps M s s'" and "spec_inv M s"
  shows "spec_inv M s' \<and> history_grows s s' \<and> (\<forall>j d t m. holds_committed s j d t m \<longrightarrow> holds_committed s' j d t m)"
  using assms
proof induction
  case (step s1 s2)
  then have "spec_inv M s1" "history_grows s s1"
    by auto
  then have "spec_inv M s2" "history_grows s s2"
    using spec_inv_step [OF _ step.hyps(2)] spec_step_grows [OF step.hyps(2)] history_grows_trans by blast+
  then show ?case
    using step holds_committed_step [OF step.hyps(2)] by blast
qed (auto simp: history_grows_refl)

lemma spec_steps_reach: "spec_reach M s \<Longrightarrow> spec_steps M s s' \<Longrightarrow> spec_reach M s'"
  by (rotate_tac, induction rule: rtranclp_induct) (auto intro: spec_reach.step)

text \<open>What a replica had of a committed chain it keeps.\<close>

lemma spec_steps_keep_prefix:
  assumes "spec_steps M s s'" and inv: "spec_inv M s"
  shows "take (sp_done s j) (sp_log s' j) = take (sp_done s j) (sp_log s j)"
proof (cases "sp_done s j = 0")
  case False
  obtain t m where h: "holds_committed s j (sp_done s j) t m"
    using done_committed [OF inv False] by blast
  then have h': "holds_committed s' j (sp_done s j) t m" and g: "chain_grows s s'"
    using spec_steps_inv [OF assms] by (auto simp: history_grows_def)
  obtain g where g': "sp_chain s t = Some g" "m \<le> length g"
    using inv_commitE [of M s t m] h inv unfolding spec_inv_def holds_committed_def by blast
  then obtain es where "sp_chain s' t = Some (g @ es)"
    using chain_growsE [OF g g'(1)] by blast
  then show ?thesis
    using h h' g' by (simp add: holds_committed_def)
qed simp

lemma spec_matching:
  assumes "spec_inv M s" and "k < length (sp_log s i)" "k < length (sp_log s j)" and "log_term (sp_log s i ! k) = log_term (sp_log s j ! k)"
  shows "take (Suc k) (sp_log s i) = take (Suc k) (sp_log s j)"
  using assms chain_ok_matching unfolding spec_inv_def inv_logs_def by blast

end
