(* ===== verification/ClusterMachine.thy ===== *)
theory ClusterMachine
  imports Cluster OpTypes RaftSpec "HOL-Library.Multiset"
begin

text \<open>
  A cluster of replicas with calls in flight. A detached thread of the code is a \<open>call\<close> that moves
  through three stages: started, request built and on its way, answer on its way back. The rules of
  \<open>net_step\<close> are the critical sections of the code at those points and the timer; \<open>cluster_step\<close> adds the
  Raft loop, the purely local steps (\<open>local_step\<close>) and crashes with restarts. Calls may be lost and may take any time.
  Membership changes are left out here (theory \<open>Membership\<close> adds them): the members are those of the configuration \<open>cfg\<close>. The wire between
  the replicas is that of theory \<open>RaftServiceImpl\<close>, which hands over the structures unchanged.

  With \<open>strict = False\<close> these are the steps of the code. With \<open>strict = True\<close> they are those in which five
  checks Raft asks for would have succeeded: an answer is handled in the term its thread was started in,
  unless it has no effect; a round runs, and its requests are built, while the replica still leads in
  that term; and a term gets only one leader. The code makes none of these checks. \<open>led\<close> (the terms that
  had a leader) and \<open>fed\<close> (the operations handed to the executer since the last start) are history.
\<close>

section \<open>The machine\<close>

datatype call =
    VoteStart int int int
  | VoteSent int int int RequestVoteParams
  | VoteDone int int int RequestVoteRet
  | AppendStart int int int
  | AppendSent int int int int AppendEntriesParams
  | AppendDone int int int int nat AppendEntriesRet

record cluster =
  reps :: "int \<Rightarrow> node"
  calls :: "call multiset"
  led :: "int set"
  fed :: "int \<Rightarrow> RaftOp list"

inductive idle_step :: "node \<Rightarrow> node \<Rightarrow> bool" where
  network: "idle_step n (NetworkUpdate es n)"
| leaderAddr: "idle_step n (snd (getLastKnownLeaderDBAddr n))"
| execWait: "idle_step n (snd (executer_wait t n))"
| start: "idle_step n (start n)"
| stop: "idle_step n (stop n)"

inductive local_step :: "node \<Rightarrow> node \<Rightarrow> bool" where
  idle: "idle_step n n' \<Longrightarrow> local_step n n'"
| take: "local_step n (raft_take n)"
| clear: "local_step n (raft_clear n)"
| execTake: "execIn n = [] \<Longrightarrow> local_step n (executer_take n)"
| execute: "executer_one dbget dbput (db :: leveldb) n = Inr (db', n') \<Longrightarrow> local_step n n'"
| get: "i32_ok key \<Longrightarrow> get_begin key ft n = Inr (pc, n') \<Longrightarrow> local_step n n'"
| put: "i32_ok (fst kvp) \<Longrightarrow> i32_ok (snd kvp) \<Longrightarrow> put_begin kvp ft n = Inr (pc, n') \<Longrightarrow> local_step n n'"

abbreviation members :: "(int, ServerInfo) omap \<Rightarrow> int set" where
  "members cfg \<equiv> set (om_keys cfg)"

definition set_rep :: "int \<Rightarrow> node \<Rightarrow> cluster \<Rightarrow> cluster" where
  "set_rep i n c = c\<lparr>reps := (reps c)(i := n), fed := (fed c)(i := fed c i @ drop (length (raftOut (reps c i))) (raftOut n))\<rparr>"

inductive net_step :: "bool \<Rightarrow> (int, ServerInfo) omap \<Rightarrow> cluster \<Rightarrow> cluster \<Rightarrow> bool"
  for strict cfg where
  idle: "i \<in> members cfg \<Longrightarrow> idle_step (reps c i) n' \<Longrightarrow> net_step strict cfg c (c\<lparr>reps := (reps c)(i := n')\<rparr>)"
| timer: "i \<in> members cfg \<Longrightarrow> electionImpl_body tmo now (reps c i) = Inr (ths, n')
    \<Longrightarrow> net_step strict cfg c
          ((set_rep i n' c)\<lparr>calls := calls c + mset (map (\<lambda>(p, t). VoteStart i p t) ths)\<rparr>)"
| ask: "calls c = add_mset (VoteStart i p t) rest
    \<Longrightarrow> net_step strict cfg c (c\<lparr>calls := add_mset (VoteSent i p t (vote_prepare t (reps c i))) rest\<rparr>)"
| vote: "calls c = add_mset (VoteSent i p t a) rest \<Longrightarrow> RequestVote a now (reps c p) = (reply, n')
    \<Longrightarrow> net_step strict cfg c ((set_rep p n' c)\<lparr>calls := add_mset (VoteDone i p t reply) rest\<rparr>)"
| count: "calls c = add_mset (VoteDone i p t reply) rest \<Longrightarrow> n' = vote_reply t reply now (reps c i)
    \<Longrightarrow> elected = (Role n' = Leader \<and> Role (reps c i) \<noteq> Leader)
    \<Longrightarrow> strict \<longrightarrow> (n' = reps c i \<or> CurrentTerm (reps c i) = t) \<and> (elected \<longrightarrow> t \<notin> led c)
    \<Longrightarrow> net_step strict cfg c
          ((set_rep i n' c)\<lparr>calls := rest, led := if elected then insert (CurrentTerm n') (led c) else led c\<rparr>)"
| prepare: "calls c = add_mset (AppendStart i p t) rest \<Longrightarrow> leader_prepare p t (reps c i) = Inr ((k, a), n')
    \<Longrightarrow> strict \<longrightarrow> Role (reps c i) = Leader \<and> CurrentTerm (reps c i) = t
    \<Longrightarrow> net_step strict cfg c ((set_rep i n' c)\<lparr>calls := add_mset (AppendSent i p t k a) rest\<rparr>)"
| deliver: "calls c = add_mset (AppendSent i p t k a) rest \<Longrightarrow> AppendEntries a now (reps c p) = Inr (reply, n')
    \<Longrightarrow> net_step strict cfg c
          ((set_rep p n' c)\<lparr>calls := add_mset (AppendDone i p t k (length (ae_entries a)) reply) rest\<rparr>)"
| reply: "calls c = add_mset (AppendDone i p t k sent rep) rest \<Longrightarrow> leader_reply p t k sent rep now (reps c i) = Inr n'
    \<Longrightarrow> strict \<longrightarrow> n' = reps c i \<or> CurrentTerm (reps c i) = t
    \<Longrightarrow> net_step strict cfg c ((set_rep i n' c)\<lparr>calls := rest\<rparr>)"
| lose: "calls c = remaining + lost \<Longrightarrow> net_step strict cfg c (c\<lparr>calls := remaining\<rparr>)"

inductive cluster_step :: "bool \<Rightarrow> string \<Rightarrow> LogEntry cxx_type \<Rightarrow> (int, ServerInfo) omap \<Rightarrow> cluster \<Rightarrow> cluster \<Rightarrow> bool"
  for strict dir T cfg where
  net: "net_step strict cfg c c' \<Longrightarrow> cluster_step strict dir T cfg c c'"
| local: "i \<in> members cfg \<Longrightarrow> local_step (reps c i) n'
    \<Longrightarrow> cluster_step strict dir T cfg c (c\<lparr>reps := (reps c)(i := n')\<rparr>)"
| round: "i \<in> members cfg \<Longrightarrow> runLeaderOneIter (reps c i) = Inr (ths, n') \<Longrightarrow> strict \<longrightarrow> Role (reps c i) = Leader
    \<Longrightarrow> cluster_step strict dir T cfg c
          ((set_rep i n' c)\<lparr>calls := calls c + mset (map (\<lambda>(p, t). AppendStart i p t) ths)\<rparr>)"
| crash: "i \<in> members cfg
    \<Longrightarrow> cluster_step strict dir T cfg c
          (c\<lparr>reps := (reps c)(i := boot_node T i True dir cfg sv (disk (reps c i))), fed := (fed c)(i := [])\<rparr>)"

definition cluster_init :: "string \<Rightarrow> LogEntry cxx_type \<Rightarrow> (int, ServerInfo) omap \<Rightarrow> cluster \<Rightarrow> bool" where
  "cluster_init dir T cfg c \<longleftrightarrow> (\<forall>i \<in> members cfg. \<exists>sv fs. reps c i = boot_node T i False dir cfg sv fs)
     \<and> calls c = {#} \<and> led c = {} \<and> (\<forall>i. fed c i = [])"

inductive cluster_reach :: "bool \<Rightarrow> string \<Rightarrow> LogEntry cxx_type \<Rightarrow> (int, ServerInfo) omap \<Rightarrow> cluster \<Rightarrow> bool"
  for strict dir T cfg where
  init: "cluster_init dir T cfg c \<Longrightarrow> cluster_reach strict dir T cfg c"
| step: "cluster_reach strict dir T cfg c \<Longrightarrow> cluster_step strict dir T cfg c c' \<Longrightarrow> cluster_reach strict dir T cfg c'"

text \<open>A checked step is a step of the code.\<close>

lemma strict_net: "net_step True cfg c c' \<Longrightarrow> net_step False cfg c c'"
proof (induction rule: net_step.induct)
  case (count c i p t reply rest n' now elected)
  show ?case
    by (rule net_step.count [OF count(1-3)]) simp
next
  case (prepare c i p t rest k a n')
  show ?case
    by (rule net_step.prepare [OF prepare(1,2)]) simp
next
  case (reply c i p t k sent rep rest now n')
  show ?case
    by (rule net_step.reply [OF reply(1,2)]) simp
qed (rule net_step.intros; assumption)+

lemma strict_step: "cluster_step True dir T cfg c c' \<Longrightarrow> cluster_step False dir T cfg c c'"
proof (induction rule: cluster_step.induct)
  case (net c c')
  then show ?case
    by (intro cluster_step.net strict_net)
next
  case (round i c ths n')
  show ?case
    by (rule cluster_step.round [OF round(1,2)]) simp
qed (rule cluster_step.intros; assumption)+

section \<open>Members\<close>

definition plain :: "RaftOp \<Rightarrow> bool" where
  "plain op \<longleftrightarrow> kind op \<noteq> ADD_SERVER \<and> kind op \<noteq> REMOVE_SERVER"

text \<open>
  What stays as it is in a replica while nobody changes the membership: identity, peers, a configuration
  that has all members (looking up the address of an unknown leader may add one), and operations that
  do not change the configuration.
\<close>

definition member_ok :: "int set \<Rightarrow> int \<Rightarrow> node \<Rightarrow> bool" where
  "member_ok M i n \<longleftrightarrow> my_id n = i \<and> om_ok (peers n) \<and> set (om_keys (peers n)) = M - {i}
     \<and> om_ok (ClusterConfig n) \<and> M \<subseteq> set (om_keys (ClusterConfig n))
     \<and> list_all (\<lambda>e. plain (log_op e)) (log_of n) \<and> list_all plain (dispatchOut n) \<and> list_all plain (raftIn n)"

lemma member_ok_frame:
  "member_ok M i n \<Longrightarrow> my_id n' = my_id n \<Longrightarrow> peers n' = peers n \<Longrightarrow> ClusterConfig n' = ClusterConfig n \<Longrightarrow> Logs n' = Logs n
    \<Longrightarrow> dispatchOut n' = dispatchOut n \<Longrightarrow> raftIn n' = raftIn n \<Longrightarrow> member_ok M i n'"
  by (simp add: member_ok_def)

lemma members_le_config: "member_ok M i n \<Longrightarrow> card M \<le> length (ClusterConfig n)"
proof -
  assume "member_ok M i n"
  then have "M \<subseteq> set (om_keys (ClusterConfig n))"
    by (simp add: member_ok_def)
  then have "card M \<le> card (set (om_keys (ClusterConfig n)))"
    by (intro card_mono) simp_all
  also have "\<dots> \<le> length (ClusterConfig n)"
    using card_length [of "om_keys (ClusterConfig n)"] by (simp add: om_keys_def)
  finally show ?thesis .
qed

text \<open>The steps of one replica, seen from the cluster.\<close>

lemma member_quiet:
  assumes "member_ok M i n"
  shows "member_ok M i (snd (RequestVote a now n))" "member_ok M i (vote_reply t reply now n)"
    "electionImpl_body tmo now n = Inr (ths, n') \<Longrightarrow> member_ok M i n'"
    "leader_prepare p t n = Inr (r, n') \<Longrightarrow> member_ok M i n'"
proof -
  show "member_ok M i (snd (RequestVote a now n))"
    using assms by (rule member_ok_frame) (simp_all add: RequestVote_def Let_def)
  show "member_ok M i (vote_reply t reply now n)"
    using assms by (rule member_ok_frame) (simp_all add: vote_reply_def Let_def)
  show "electionImpl_body tmo now n = Inr (ths, n') \<Longrightarrow> member_ok M i n'"
    by (rule member_ok_frame [OF assms])
       (auto simp: electionImpl_body_def startElection_def Let_def i32_add_def split: RaftRole.splits if_splits)
  show "leader_prepare p t n = Inr (r, n') \<Longrightarrow> member_ok M i n'"
    by (rule member_ok_frame [OF assms]) (auto simp: leader_prepare_def Let_def case_prod_beta elim!: rbind_Inr_E)
qed

text \<open>What local steps leave alone, beside the log and the commit index.\<close>

definition local_frame :: "node \<Rightarrow> node \<Rightarrow> bool" where
  "local_frame n n' \<longleftrightarrow> Logs n' = Logs n \<and> CommitIndex n' = CommitIndex n \<and> CurrentTerm n' = CurrentTerm n \<and> Role n' = Role n
     \<and> MatchIndex n' = MatchIndex n \<and> VotesReceived n' = VotesReceived n"

lemma NetworkUpdate_frame:
  "set (om_keys (peers (NetworkUpdate es n))) = set (om_keys (peers n)) \<and> (om_ok (peers n) \<longrightarrow> om_ok (peers (NetworkUpdate es n)))
    \<and> ClusterConfig (NetworkUpdate es n) = ClusterConfig n
    \<and> dispatchOut (NetworkUpdate es n) = dispatchOut n \<and> raftIn (NetworkUpdate es n) = raftIn n \<and> my_id (NetworkUpdate es n) = my_id n
    \<and> local_frame n (NetworkUpdate es n)"
proof (induction es arbitrary: n)
  case (Cons e es)
  show ?case
  proof (cases "om_find (peers n) (pn_peerId e)")
    case (Some r)
    then have "pn_peerId e \<in> set (om_keys (peers n))"
      using om_find_mem_keys by fastforce
    then have "set (om_keys (om_put (pn_peerId e) v (peers n))) = set (om_keys (peers n))" for v
      by (auto simp: om_keys_def om_keys_put)
    then show ?thesis
      using Cons Some by (simp add: local_frame_def)
  qed (use Cons in simp)
qed (simp add: local_frame_def)

lemma request_shape:
  assumes "request_begin k a v ft n = Inr (pc, n')" and "k = GET \<or> k = PUT"
  shows "local_frame n n' \<and> my_id n' = my_id n \<and> peers n' = peers n \<and> raftIn n' = raftIn n
    \<and> (ClusterConfig n' = ClusterConfig n \<or> (\<exists>l. ClusterConfig n' = snd (om_at ServerInfo_zero (ClusterConfig n) l)))
    \<and> (list_all plain (dispatchOut n) \<longrightarrow> list_all plain (dispatchOut n'))"
  using assms
  by (auto simp: request_unfold local_frame_def plain_def
      elim!: rbind_Inr_E split: if_splits)

lemma om_keys_at: "set (om_keys (snd (om_at d m k))) \<supseteq> set (om_keys m)"
  by (auto simp: om_at_def om_keys_def om_keys_put split: option.splits)

lemma member_ok_request:
  assumes "member_ok M i n" and "local_frame n n'" "my_id n' = my_id n" "peers n' = peers n" "raftIn n' = raftIn n"
    and cfg: "ClusterConfig n' = ClusterConfig n \<or> (\<exists>l. ClusterConfig n' = snd (om_at ServerInfo_zero (ClusterConfig n) l))"
    and "list_all plain (dispatchOut n) \<longrightarrow> list_all plain (dispatchOut n')"
  shows "member_ok M i n'"
proof -
  have "set (om_keys (ClusterConfig n)) \<subseteq> set (om_keys (ClusterConfig n'))" "om_ok (ClusterConfig n) \<Longrightarrow> om_ok (ClusterConfig n')"
    using cfg by (auto dest: subsetD [OF om_keys_at])
  then show ?thesis
    using assms by (auto simp: member_ok_def local_frame_def)
qed

lemma idle_step_member:
  assumes "idle_step n n'" and "member_ok M i n"
  shows "member_ok M i n' \<and> local_frame n n'"
  using assms
proof induction
  case (network n es)
  then show ?case
    using NetworkUpdate_frame [of es n] by (auto simp: member_ok_def local_frame_def)
next
  case (leaderAddr n)
  then show ?case
    using om_keys_at [of "ClusterConfig n" ServerInfo_zero "LastKnownLeaderId n"]
    by (auto simp: member_ok_def local_frame_def getLastKnownLeaderDBAddr_def case_prod_beta)
qed (auto simp: start_def stop_def executer_wait_def case_prod_beta member_ok_def local_frame_def)

lemma local_step_member:
  assumes "local_step n n'" and "member_ok M i n"
  shows "member_ok M i n' \<and> local_frame n n'"
  using assms
proof induction
  case (idle n n')
  then show ?case
    by (rule idle_step_member)
next
  case (execute dbget dbput db n db' n')
  then show ?case
    by (auto simp: executer_one_def member_ok_def local_frame_def elim!: rbind_Inr_E split: list.splits)
next
  case (get key ft n pc n')
  then show ?case
    using request_shape [of GET "ArgKey key" "-1" ft n pc n'] by (auto simp: get_begin_def intro: member_ok_request)
next
  case (put kvp ft n pc n')
  then show ?case
    using request_shape [of PUT "ArgPair (fst kvp) (snd kvp)" 0 ft n pc n'] by (auto simp: put_begin_def intro: member_ok_request)
qed (auto simp: raft_take_def raft_clear_def executer_take_def member_ok_def local_frame_def)

lemma local_node_step: "local_step n n' \<Longrightarrow> node_step n [] n'"
  by (induction rule: local_step.induct) (auto intro: node_step.intros quiet_step.intros elim!: idle_step.cases)

lemma append_ops_plain:
  assumes "append_ops ops n = Inr n'" and "list_all plain ops"
  shows "peers n' = peers n \<and> ClusterConfig n' = ClusterConfig n \<and> MatchIndex n' = MatchIndex n \<and> VotesReceived n' = VotesReceived n"
  using assms by (induction ops arbitrary: n) (auto simp: apply_config_plain plain_def)

lemma round_shape:
  assumes "runLeaderOneIter n = Inr (ths, n')" and "member_ok M i n"
  shows "member_ok M i n' \<and> stripped (log_of n') = stripped (log_of n) @ map (\<lambda>op. strip_entry \<lparr>log_term = CurrentTerm n, log_op = op\<rparr>) (raftIn n)
    \<and> CommitIndex n' = CommitIndex n \<and> CurrentTerm n' = CurrentTerm n \<and> Role n' = Role n \<and> MatchIndex n' = MatchIndex n
    \<and> VotesReceived n' = VotesReceived n \<and> raftOut n' = raftOut n \<and> ths = map (\<lambda>p. (p, CurrentTerm n)) (om_keys (peers n))"
proof -
  obtain n1 where n1: "append_ops (raftIn n) n = Inr n1" "n' = persist_logs n1" "ths = map (\<lambda>p. (p, CurrentTerm n)) (om_keys (peers n'))"
    using runLeaderOneIter_Inr [OF assms(1)] .
  have p: "peers n1 = peers n" "ClusterConfig n1 = ClusterConfig n" "MatchIndex n1 = MatchIndex n" "VotesReceived n1 = VotesReceived n"
    using append_ops_plain [OF n1(1)] assms(2) by (simp_all add: member_ok_def)
  show ?thesis
    using append_ops_keeps [OF n1(1)] p assms(2) n1(3)
    by (auto simp: n1(2) member_ok_def persist_logs_def case_prod_beta list_all_iff)
qed

lemma store_entries_plain:
  assumes "store_entries a n = Inr n'" and "\<forall>e \<in> set (ae_entries a). plain (ale_op e)"
  shows "peers n' = peers n \<and> ClusterConfig n' = ClusterConfig n"
proof -
  obtain i j where m: "match_loop (log_of n) (ae_entries a) (ae_prevLogIndex a + 1) 0 = Inr (i, j)"
    using assms(1) by (auto simp: store_entries_def elim: rbind_Inr_E)
  show ?thesis
  proof (cases "j < int (length (ae_entries a))")
    case True
    then obtain sv n1 where n1: "append_new (drop (nat j) (ae_entries a)) (truncate_logs i (n\<lparr>services := sv\<rparr>)) = Inr n1"
      and n': "n' = persist_logs n1"
      using assms by (auto simp: store_entries_def m elim!: rbind_Inr_E)
    have "\<forall>e \<in> set (drop (nat j) (ae_entries a)). kind (ale_op e) \<noteq> ADD_SERVER \<and> kind (ale_op e) \<noteq> REMOVE_SERVER"
      using assms(2) by (auto simp: plain_def dest: in_set_dropD)
    then show ?thesis
      using append_new_plain [OF n1] by (simp add: n' persist_logs_def truncate_logs_def case_prod_beta)
  next
    case False
    then show ?thesis
      using assms by (simp add: store_entries_def m)
  qed
qed

text \<open>The outcomes of \<open>AppendEntries\<close>: nothing but the timer and the known leader, a step down, or the entries stored.\<close>

lemma AppendEntries_outcome:
  assumes "AppendEntries a now n = Inr (reply, n')"
  obtains (ignored) "\<not> aer_success reply" "n' \<in> {n, n\<lparr>ElectionResetEvent := now\<rparr>, n\<lparr>LastKnownLeaderId := ae_leaderId a\<rparr>}"
    "aer_term reply \<in> {0, CurrentTerm n}"
  | (refused) "\<not> aer_success reply" "CurrentTerm n \<le> ae_term a" "n' = ae_stepdown a now n" "aer_term reply = ae_term a"
  | (stored) n4 where "aer_success reply" "aer_term reply = ae_term a" "CurrentTerm n \<le> ae_term a" "-1 \<le> ae_prevLogIndex a"
      "ae_prevLogIndex a < int (length (log_of n))"
      "ae_prevLogIndex a = -1 \<or> ae_prevLogTerm a = log_term (log_of n ! nat (ae_prevLogIndex a))"
      "store_entries a (ae_stepdown a now n) = Inr n4" "follower_commit (ae_leaderCommit a) n4 = Inr n'"
proof (cases "Role n = Dead \<or> ae_term a < CurrentTerm n")
  case True
  have "n' \<in> {n, n\<lparr>ElectionResetEvent := now\<rparr>, n\<lparr>LastKnownLeaderId := ae_leaderId a\<rparr>} \<and> \<not> aer_success reply \<and> aer_term reply \<in> {0, CurrentTerm n}"
    using assms True by (cases "Role n = Dead") (auto simp: AppendEntries_dead AppendEntries_stale)
  then show ?thesis
    using ignored by blast
next
  case False
  then have cur: "Role n \<noteq> Dead" "CurrentTerm n \<le> ae_term a"
    by auto
  obtain ok where ok: "prev_matches (log_of n) (ae_prevLogIndex a) (ae_prevLogTerm a) = Inr ok"
    using assms by (auto simp: AppendEntries_current [OF cur] elim: rbind_Inr_E)
  have sign: "-1 \<le> ae_prevLogIndex a"
    using prev_matches_sign [OF ok] .
  show ?thesis
  proof (cases ok)
    case True
    then obtain n4 where n4: "store_entries a (ae_stepdown a now n) = Inr n4" "follower_commit (ae_leaderCommit a) n4 = Inr n'"
        "aer_success reply" "aer_term reply = CurrentTerm n'"
      using assms ok by (auto simp: AppendEntries_current [OF cur] elim!: rbind_Inr_E)
    have t: "CurrentTerm n' = ae_term a"
      using store_entries_keeps [OF n4(1)] follower_commit_keeps [OF n4(2)] ae_stepdown_term [OF cur(2)] by simp
    have "ae_prevLogIndex a = -1 \<or> (ae_prevLogIndex a < int (length (log_of n)) \<and> ae_prevLogTerm a = log_term (log_of n ! nat (ae_prevLogIndex a)))"
      using ok True sign by (simp add: prev_matches_ok)
    then show ?thesis
      using n4 t cur sign by (intro stored [of n4]) auto
  next
    case False
    then show ?thesis
      using assms ok cur ae_stepdown_term [OF cur(2), of now] by (intro refused) (auto simp: AppendEntries_current [OF cur])
  qed
qed

end
