(* ===== verification/ClusterRefinement.thy ===== *)
theory ClusterRefinement
  imports ClusterMachine
begin

text \<open>
  The checked runs of a cluster implement the specification of theory \<open>RaftSpec\<close>: \<open>cluster_sim\<close> relates
  a state of the machine to a state of the specification, and every step of the machine is matched by
  steps of the specification. The logs are compared without promise handles. The safety of Raft is then
  read off the specification.
\<close>

section \<open>The simulation relation\<close>

definition replica_sim :: "raft_spec \<Rightarrow> int \<Rightarrow> node \<Rightarrow> bool" where
  "replica_sim s i n \<longleftrightarrow> sp_term s i = CurrentTerm n \<and> sp_log s i = stripped (log_of n) \<and> sp_done s i = nat (CommitIndex n + 1)"

definition leader_sim :: "int set \<Rightarrow> raft_spec \<Rightarrow> int \<Rightarrow> node \<Rightarrow> bool" where
  "leader_sim M s i n \<longleftrightarrow> (Role n = Leader \<longrightarrow>
     sp_chain s (CurrentTerm n) \<noteq> None \<and> sp_owner s (CurrentTerm n) = i \<and> (i, CurrentTerm n, length (log_of n)) \<in> sp_acks s
     \<and> (\<forall>p \<in> M - {i}. 0 \<le> match_value (MatchIndex n) p \<longrightarrow>
          (\<exists>m. (p, CurrentTerm n, m) \<in> sp_acks s \<and> match_value (MatchIndex n) p < int m)))"

text \<open>The vote threads that have not been counted yet: candidate, voter, term.\<close>

fun vote_key :: "call \<Rightarrow> (int \<times> int \<times> int) multiset" where
  "vote_key (VoteStart i p t) = {#(i, p, t)#}"
| "vote_key (VoteSent i p t a) = {#(i, p, t)#}"
| "vote_key (VoteDone i p t r) = {#(i, p, t)#}"
| "vote_key _ = {#}"

definition vote_keys :: "call multiset \<Rightarrow> (int \<times> int \<times> int) multiset" where
  "vote_keys cs = \<Sum>\<^sub># (image_mset vote_key cs)"

text \<open>The voters a candidate has counted: itself and peers whose thread is done.\<close>

definition candidate_sim :: "int set \<Rightarrow> raft_spec \<Rightarrow> (int \<times> int \<times> int) multiset \<Rightarrow> int \<Rightarrow> node \<Rightarrow> bool" where
  "candidate_sim M s ks i n \<longleftrightarrow> (Role n = Candidate \<longrightarrow>
     (\<exists>V. V \<subseteq> M \<and> i \<in> V \<and> VotesReceived n = int (card V) \<and> (\<forall>p \<in> V. (i, p, CurrentTerm n) \<notin># ks)
        \<and> (sp_chain s (CurrentTerm n) = None \<longrightarrow>
             (\<forall>v \<in> V. \<exists>l. (v, CurrentTerm n, i, l) \<in> sp_votes s \<and> up_to_date (stripped (log_of n)) l))))"

lemma candidate_simE:
  assumes "candidate_sim M s ks i n" and "Role n = Candidate"
  obtains V where "V \<subseteq> M" "i \<in> V" "VotesReceived n = int (card V)" "\<forall>p \<in> V. (i, p, CurrentTerm n) \<notin># ks"
    "sp_chain s (CurrentTerm n) = None \<longrightarrow> (\<forall>v \<in> V. \<exists>l. (v, CurrentTerm n, i, l) \<in> sp_votes s \<and> up_to_date (stripped (log_of n)) l)"
  using assms(1) [unfolded candidate_sim_def, THEN mp, OF assms(2)] by (elim exE conjE) (rule that)

definition keys_ok :: "int set \<Rightarrow> (int \<Rightarrow> node) \<Rightarrow> (int \<times> int \<times> int) multiset \<Rightarrow> bool" where
  "keys_ok M R ks \<longleftrightarrow> (\<forall>i p t. count ks (i, p, t) \<le> 1 \<and> (i \<in> M \<and> CurrentTerm (R i) < t \<longrightarrow> count ks (i, p, t) = 0))"

text \<open>A request on its way carries a suffix of a log its leader had, and a commit index that was justified.\<close>

definition request_sim :: "raft_spec \<Rightarrow> int \<Rightarrow> int \<Rightarrow> int \<Rightarrow> AppendEntriesParams \<Rightarrow> bool" where
  "request_sim s p t k a \<longleftrightarrow> sp_owner s t \<noteq> p \<and> ae_term a = t \<and> ae_prevLogIndex a = k - 1
     \<and> (\<exists>L. (t, L) \<in> sp_sent s \<and> stripped L = L
          \<and> (0 \<le> k \<longrightarrow> nat k \<le> length L \<and> ae_entries a = entries_from k L \<and> (0 < k \<longrightarrow> ae_prevLogTerm a = log_term (L ! nat (k - 1))))
          \<and> ae_leaderCommit a < int (length L)
          \<and> (0 \<le> ae_leaderCommit a \<longrightarrow>
               (\<exists>t' m. (t', m) \<in> sp_committed s \<and> t' \<le> t \<and> nat (ae_leaderCommit a + 1) \<le> m
                  \<and> take (nat (ae_leaderCommit a + 1)) L = take (nat (ae_leaderCommit a + 1)) (the (sp_chain s t')))))"

fun call_sim :: "int set \<Rightarrow> raft_spec \<Rightarrow> (int \<Rightarrow> node) \<Rightarrow> call \<Rightarrow> bool" where
  "call_sim M s R (VoteStart i p t) \<longleftrightarrow> i \<in> M \<and> p \<in> M - {i} \<and> t \<le> CurrentTerm (R i) \<and> i32_ok t"
| "call_sim M s R (VoteSent i p t a) \<longleftrightarrow> i \<in> M \<and> p \<in> M - {i} \<and> t \<le> CurrentTerm (R i) \<and> rv_candidateId a = i \<and> rv_term a = t
     \<and> i32_ok t
     \<and> (Role (R i) = Candidate \<and> CurrentTerm (R i) = t \<longrightarrow>
          rv_lastLogIndex a = int (length (log_of (R i))) - 1 \<and> rv_lastLogTerm a = last_log_term (log_of (R i)))"
| "call_sim M s R (VoteDone i p t r) \<longleftrightarrow> i \<in> M \<and> p \<in> M - {i} \<and> t \<le> CurrentTerm (R i) \<and> i32_ok (rvr_term r)
     \<and> (rvr_voteGranted r \<and> Role (R i) = Candidate \<and> CurrentTerm (R i) = t \<and> sp_chain s t = None \<longrightarrow>
          (\<exists>l. (p, t, i, l) \<in> sp_votes s \<and> up_to_date (stripped (log_of (R i))) l))"
| "call_sim M s R (AppendStart i p t) \<longleftrightarrow> i \<in> M \<and> p \<in> M - {i}"
| "call_sim M s R (AppendSent i p t k a) \<longleftrightarrow> i \<in> M \<and> p \<in> M - {i} \<and> received a \<and> (\<forall>e \<in> set (ae_entries a). plain (ale_op e))
     \<and> request_sim s p t k a"
| "call_sim M s R (AppendDone i p t k sent r) \<longleftrightarrow> i \<in> M \<and> p \<in> M - {i} \<and> i32_ok (aer_term r)
     \<and> (aer_success r \<longrightarrow> (\<exists>m. (p, t, m) \<in> sp_acks s \<and> k + int sent \<le> int m))"

definition replica_ok :: "string \<Rightarrow> LogEntry cxx_type \<Rightarrow> int set \<Rightarrow> raft_spec \<Rightarrow> (int \<times> int \<times> int) multiset \<Rightarrow> int \<Rightarrow> node \<Rightarrow> bool" where
  "replica_ok dir T M s ks i n \<longleftrightarrow> reach dir i T n \<and> member_ok M i n \<and> replica_sim s i n \<and> leader_sim M s i n \<and> candidate_sim M s ks i n"

definition cluster_sim :: "string \<Rightarrow> LogEntry cxx_type \<Rightarrow> int set \<Rightarrow> cluster \<Rightarrow> raft_spec \<Rightarrow> bool" where
  "cluster_sim dir T M c s \<longleftrightarrow> spec_inv M s
     \<and> (\<forall>i \<in> M. replica_ok dir T M s (vote_keys (calls c)) i (reps c i))
     \<and> (\<forall>x. x \<in># calls c \<longrightarrow> call_sim M s (reps c) x)
     \<and> keys_ok M (reps c) (vote_keys (calls c))
     \<and> (\<forall>t. sp_chain s t \<noteq> None \<longleftrightarrow> t \<in> led c)"

section \<open>What does not change\<close>

text \<open>How a replica may change without the calls of its threads becoming wrong about it.\<close>

definition cand_stable :: "node \<Rightarrow> node \<Rightarrow> bool" where
  "cand_stable n n' \<longleftrightarrow> CurrentTerm n \<le> CurrentTerm n'
     \<and> (Role n' = Candidate \<and> CurrentTerm n' = CurrentTerm n \<longrightarrow> Role n = Candidate \<and> Logs n' = Logs n)"

lemma cand_stable_refl: "cand_stable n n"
  by (simp add: cand_stable_def)

lemma growth_facts:
  assumes "history_grows s s'"
  shows "sp_acks s \<subseteq> sp_acks s'" and "sp_votes s \<subseteq> sp_votes s'" "sp_sent s \<subseteq> sp_sent s'" "sp_committed s \<subseteq> sp_committed s'"
    and "sp_chain s t \<noteq> None \<Longrightarrow> sp_chain s' t \<noteq> None" "sp_chain s t \<noteq> None \<Longrightarrow> sp_owner s' t = sp_owner s t"
proof -
  show "sp_chain s t \<noteq> None \<Longrightarrow> sp_chain s' t \<noteq> None"
    using assms chain_growsE [of s s' t] unfolding history_grows_def by (metis not_None_eq)
qed (use assms in \<open>auto simp: history_grows_def\<close>)

lemma request_sim_grows:
  assumes r: "request_sim s p t k a" and g: "history_grows s s'" and inv: "spec_inv M s"
  shows "request_sim s' p t k a"
proof -
  obtain L where L: "(t, L) \<in> sp_sent s" "stripped L = L"
      "0 \<le> k \<longrightarrow> nat k \<le> length L \<and> ae_entries a = entries_from k L \<and> (0 < k \<longrightarrow> ae_prevLogTerm a = log_term (L ! nat (k - 1)))"
      "ae_leaderCommit a < int (length L)"
    and com: "0 \<le> ae_leaderCommit a \<Longrightarrow> \<exists>t' m. (t', m) \<in> sp_committed s \<and> t' \<le> t \<and> nat (ae_leaderCommit a + 1) \<le> m
        \<and> take (nat (ae_leaderCommit a + 1)) L = take (nat (ae_leaderCommit a + 1)) (the (sp_chain s t'))"
    using r unfolding request_sim_def by blast
  have "sp_chain s t \<noteq> None"
    using sent_prefix [OF inv L(1)] by auto
  then have "sp_owner s' t \<noteq> p"
    using growth_facts(6) [OF g] r by (simp add: request_sim_def)
  moreover have "\<exists>t' m. (t', m) \<in> sp_committed s' \<and> t' \<le> t \<and> nat (ae_leaderCommit a + 1) \<le> m
        \<and> take (nat (ae_leaderCommit a + 1)) L = take (nat (ae_leaderCommit a + 1)) (the (sp_chain s' t'))" if pos: "0 \<le> ae_leaderCommit a"
  proof -
    obtain t' m where t': "(t', m) \<in> sp_committed s" "t' \<le> t" "nat (ae_leaderCommit a + 1) \<le> m"
        "take (nat (ae_leaderCommit a + 1)) L = take (nat (ae_leaderCommit a + 1)) (the (sp_chain s t'))"
      using com [OF pos] by blast
    obtain h where h: "sp_chain s t' = Some h" "m \<le> length h"
      using inv_commitE [of M s t' m] inv t'(1) unfolding spec_inv_def by blast
    have "chain_grows s s'"
      using g by (simp add: history_grows_def)
    then obtain es where "sp_chain s' t' = Some (h @ es)"
      using chain_growsE [OF _ h(1)] by blast
    then show ?thesis
      using t' h growth_facts(4) [OF g] by (intro exI [of _ t'] exI [of _ m]) auto
  qed
  ultimately show ?thesis
    using r L growth_facts(3) [OF g] unfolding request_sim_def by blast
qed

lemma call_sim_grows:
  assumes x: "call_sim M s R x" and g: "history_grows s s'" and inv: "spec_inv M s"
    and st: "\<And>i. i \<in> M \<Longrightarrow> cand_stable (R i) (R' i)"
  shows "call_sim M s' R' x"
proof -
  note gf = growth_facts [OF g]
  have prior: "Role (R i) = Candidate \<and> CurrentTerm (R i) = t \<and> Logs (R' i) = Logs (R i)"
    if "i \<in> M" "t \<le> CurrentTerm (R i)" "Role (R' i) = Candidate" "CurrentTerm (R' i) = t" for i t
    using st [OF that(1)] that by (auto simp: cand_stable_def)
  have le: "t \<le> CurrentTerm (R i) \<Longrightarrow> i \<in> M \<Longrightarrow> t \<le> CurrentTerm (R' i)" for i t
    using st [of i] by (auto simp: cand_stable_def)
  show ?thesis
  proof (cases x)
    case (VoteSent i p t a)
    then show ?thesis
      using x prior [of i t] le [of t i] by auto
  next
    case (VoteDone i p t r)
    have "\<exists>l. (p, t, i, l) \<in> sp_votes s' \<and> up_to_date (stripped (log_of (R' i))) l"
      if "rvr_voteGranted r" "Role (R' i) = Candidate" "CurrentTerm (R' i) = t" "sp_chain s' t = None"
    proof -
      have i: "i \<in> M" "t \<le> CurrentTerm (R i)"
        using x VoteDone by simp_all
      have b: "Role (R i) = Candidate \<and> CurrentTerm (R i) = t \<and> Logs (R' i) = Logs (R i)"
        using prior [OF i] that by simp
      have "sp_chain s t = None"
        using gf(5) [of t] that(4) by blast
      then show ?thesis
        using x VoteDone b that(1) gf(2) by auto
    qed
    then show ?thesis
      using x VoteDone le [of t i] by auto
  next
    case (AppendSent i p t k a)
    then show ?thesis
      using x request_sim_grows [OF _ g inv] by auto
  next
    case (AppendDone i p t k sent r)
    then show ?thesis
      using x gf(1) by auto
  qed (use x le in auto)
qed

lemma replica_ok_grows:
  assumes ok: "replica_ok dir T M s ks i n" and g: "history_grows s s'"
    and same: "sp_term s' i = sp_term s i" "sp_log s' i = sp_log s i" "sp_done s' i = sp_done s i"
    and ks: "\<And>p t. (i, p, t) \<in># ks' \<Longrightarrow> (i, p, t) \<in># ks"
  shows "replica_ok dir T M s' ks' i n"
proof -
  note gf = growth_facts [OF g]
  have "leader_sim M s' i n"
    using ok gf(1) gf(5,6) [of "CurrentTerm n"] by (fastforce simp: replica_ok_def leader_sim_def)
  moreover have "candidate_sim M s' ks' i n"
  proof -
    have "\<exists>V. V \<subseteq> M \<and> i \<in> V \<and> VotesReceived n = int (card V) \<and> (\<forall>p \<in> V. (i, p, CurrentTerm n) \<notin># ks')
        \<and> (sp_chain s' (CurrentTerm n) = None \<longrightarrow> (\<forall>v \<in> V. \<exists>l. (v, CurrentTerm n, i, l) \<in> sp_votes s' \<and> up_to_date (stripped (log_of n)) l))"
      if cand: "Role n = Candidate"
    proof -
      obtain V where V: "V \<subseteq> M" "i \<in> V" "VotesReceived n = int (card V)" "\<forall>p \<in> V. (i, p, CurrentTerm n) \<notin># ks"
          "sp_chain s (CurrentTerm n) = None \<longrightarrow> (\<forall>v \<in> V. \<exists>l. (v, CurrentTerm n, i, l) \<in> sp_votes s \<and> up_to_date (stripped (log_of n)) l)"
        using candidate_simE [OF _ cand] ok unfolding replica_ok_def by metis
      then show ?thesis
        using gf(2) gf(5) [of "CurrentTerm n"] ks by (intro exI [of _ V]) (auto, blast+)
    qed
    then show ?thesis
      by (simp add: candidate_sim_def)
  qed
  ultimately show ?thesis
    using ok same by (simp add: replica_ok_def replica_sim_def)
qed

text \<open>A step of one replica.\<close>

lemma cluster_sim_update:
  assumes sim: "cluster_sim dir T M c s" and steps: "spec_steps M s s'" and i: "i \<in> M"
    and same: "\<And>j. j \<noteq> i \<Longrightarrow> sp_term s' j = sp_term s j \<and> sp_log s' j = sp_log s j \<and> sp_done s' j = sp_done s j"
    and ok: "replica_ok dir T M s' (vote_keys (calls c')) i n'" and st: "cand_stable (reps c i) n'"
    and c': "reps c' = (reps c)(i := n')" "\<And>t. sp_chain s' t \<noteq> None \<longleftrightarrow> t \<in> led c'"
    and calls: "\<And>x. x \<in># calls c' \<Longrightarrow> x \<in># calls c \<or> call_sim M s' (reps c') x"
    and keys: "keys_ok M (reps c') (vote_keys (calls c'))"
      "\<And>j p t. j \<noteq> i \<Longrightarrow> (j, p, t) \<in># vote_keys (calls c') \<Longrightarrow> (j, p, t) \<in># vote_keys (calls c)"
  shows "cluster_sim dir T M c' s'"
proof -
  have inv: "spec_inv M s" and old: "\<And>j. j \<in> M \<Longrightarrow> replica_ok dir T M s (vote_keys (calls c)) j (reps c j)"
    "\<And>x. x \<in># calls c \<Longrightarrow> call_sim M s (reps c) x"
    using sim by (auto simp: cluster_sim_def)
  have inv': "spec_inv M s'" and g: "history_grows s s'"
    using spec_steps_inv [OF steps inv] by auto
  have "cand_stable (reps c j) (reps c' j)" for j
    using st by (simp add: c' cand_stable_refl)
  then have "call_sim M s' (reps c') x" if "x \<in># calls c'" for x
    using calls [OF that] call_sim_grows [OF old(2) g inv] by blast
  moreover have "replica_ok dir T M s' (vote_keys (calls c')) j (reps c' j)" if "j \<in> M" for j
  proof (cases "j = i")
    case False
    then show ?thesis
      using replica_ok_grows [OF old(1) [OF that] g] same [OF False] keys(2) [OF False] by (simp add: c')
  qed (simp add: c' ok)
  ultimately show ?thesis
    using inv' c' keys(1) by (simp add: cluster_sim_def)
qed

section \<open>Outstanding votes\<close>

lemma vote_keys_simps [simp]:
  "vote_keys {#} = {#}" "vote_keys (add_mset x cs) = vote_key x + vote_keys cs" "vote_keys (A + B) = vote_keys A + vote_keys B"
  by (simp_all add: vote_keys_def)

lemma vote_keys_started:
  "vote_keys (mset (map (\<lambda>(p, t). VoteStart i p t) (map (\<lambda>p. (p, t0)) ps))) = mset (map (\<lambda>p. (i, p, t0)) ps)"
  "vote_keys (mset (map (\<lambda>(p, t). AppendStart i p t) (map (\<lambda>p. (p, t0)) ps))) = {#}"
  by (induction ps) simp_all

lemma keys_ok_mono:
  assumes "keys_ok M R ks" and "ks' \<subseteq># ks" and "\<And>i. i \<in> M \<Longrightarrow> CurrentTerm (R i) \<le> CurrentTerm (R' i)"
  shows "keys_ok M R' ks'"
  unfolding keys_ok_def
proof (intro allI conjI impI)
  fix i p t
  have c: "count ks' (i, p, t) \<le> count ks (i, p, t)"
    using assms(2) by (rule mset_subset_eq_count)
  show "count ks' (i, p, t) \<le> 1"
    using assms(1) c unfolding keys_ok_def by (meson order_trans)
  assume "i \<in> M \<and> CurrentTerm (R' i) < t"
  then have "count ks (i, p, t) = 0"
    using assms(1) assms(3) [of i] unfolding keys_ok_def by (meson order_le_less_trans)
  then show "count ks' (i, p, t) = 0"
    using c by simp
qed

lemma keys_ok_start:
  assumes "keys_ok M R ks" and i: "i \<in> M" "CurrentTerm (R i) < t" and R': "\<And>j. j \<noteq> i \<Longrightarrow> R' j = R j" "CurrentTerm (R' i) = t" and d: "distinct ps"
  shows "keys_ok M R' (ks + mset (map (\<lambda>p. (i, p, t)) ps))"
  unfolding keys_ok_def
proof (intro allI conjI impI)
  fix j p t'
  have "distinct (map (\<lambda>p. (i, p, t)) ps)"
    using d by (simp add: distinct_map inj_on_def)
  then have new: "count (mset (map (\<lambda>p. (i, p, t)) ps)) (j, p, t') \<le> (if j = i \<and> t' = t then 1 else 0)"
    by (auto simp: distinct_count_atmost_1 count_mset_0_iff)
  have old: "count ks (j, p, t') \<le> (if j = i \<and> t' = t then 0 else 1)"
    using assms(1) i unfolding keys_ok_def by auto
  show "count (ks + mset (map (\<lambda>p. (i, p, t)) ps)) (j, p, t') \<le> 1"
    using new old by (auto split: if_splits)
  assume t': "j \<in> M \<and> CurrentTerm (R' j) < t'"
  then have "count ks (j, p, t') = 0"
    using assms(1) i R' unfolding keys_ok_def by (metis order_less_trans)
  moreover have "\<not> (j = i \<and> t' = t)"
    using t' R' by auto
  ultimately show "count (ks + mset (map (\<lambda>p. (i, p, t)) ps)) (j, p, t') = 0"
    using new by auto
qed

section \<open>Steps of the specification\<close>

definition advance_spec :: "int \<Rightarrow> int \<Rightarrow> raft_spec \<Rightarrow> raft_spec" where
  "advance_spec i t s = (if sp_term s i < t then s\<lparr>sp_term := (sp_term s)(i := t)\<rparr> else s)"

definition vote_spec :: "int \<Rightarrow> int \<Rightarrow> raft_spec \<Rightarrow> raft_spec" where
  "vote_spec v c s = (if sp_chain s (sp_term s v) = None then s\<lparr>sp_votes := insert (v, sp_term s v, c, sp_log s v) (sp_votes s)\<rparr> else s)"

lemma advance_spec_simps [simp]:
  "sp_term (advance_spec i t s) = (sp_term s)(i := max (sp_term s i) t)" "sp_log (advance_spec i t s) = sp_log s"
  "sp_done (advance_spec i t s) = sp_done s" "sp_chain (advance_spec i t s) = sp_chain s" "sp_owner (advance_spec i t s) = sp_owner s"
  "sp_sent (advance_spec i t s) = sp_sent s" "sp_acks (advance_spec i t s) = sp_acks s" "sp_votes (advance_spec i t s) = sp_votes s"
  "sp_committed (advance_spec i t s) = sp_committed s"
  by (auto simp: advance_spec_def)

lemma vote_spec_simps [simp]:
  "sp_term (vote_spec v c s) = sp_term s" "sp_log (vote_spec v c s) = sp_log s" "sp_done (vote_spec v c s) = sp_done s"
  "sp_chain (vote_spec v c s) = sp_chain s" "sp_owner (vote_spec v c s) = sp_owner s" "sp_sent (vote_spec v c s) = sp_sent s"
  "sp_acks (vote_spec v c s) = sp_acks s" "sp_committed (vote_spec v c s) = sp_committed s"
  by (simp_all add: vote_spec_def)

lemma advance_spec_steps: "spec_steps M s (advance_spec i t s)"
  using spec_step.advance [of s i t M] by (auto simp: advance_spec_def)

lemma vote_spec_steps: "spec_steps M s (vote_spec v c s)"
  using spec_step.vote [of s v M c] by (auto simp: vote_spec_def)

section \<open>Changes of one replica\<close>

lemma local_frame_stable: "local_frame n n' \<Longrightarrow> cand_stable n n'"
  by (simp add: local_frame_def cand_stable_def)

lemma replica_ok_local:
  assumes "replica_ok dir T M s ks i n" and "reach dir i T n'" and "member_ok M i n'" and "local_frame n n'"
  shows "replica_ok dir T M s ks i n'"
  using assms by (simp add: replica_ok_def local_frame_def replica_sim_def leader_sim_def candidate_sim_def)

lemma replica_ok_follower:
  assumes "reach dir i T n" and "member_ok M i n" and "replica_sim s i n" and "Role n = Follower"
  shows "replica_ok dir T M s ks i n"
  using assms by (simp add: replica_ok_def leader_sim_def candidate_sim_def)

lemma cluster_simD:
  assumes "cluster_sim dir T M c s"
  shows "spec_inv M s" and "i \<in> M \<Longrightarrow> replica_ok dir T M s (vote_keys (calls c)) i (reps c i)" and "x \<in># calls c \<Longrightarrow> call_sim M s (reps c) x"
    and "keys_ok M (reps c) (vote_keys (calls c))" and "sp_chain s t \<noteq> None \<longleftrightarrow> t \<in> led c"
  using assms by (auto simp: cluster_sim_def)

lemma replica_okD:
  assumes "replica_ok dir T M s ks i n"
  shows "reach dir i T n" and "member_ok M i n" and "sp_term s i = CurrentTerm n" and "sp_log s i = stripped (log_of n)"
    and "sp_done s i = nat (CommitIndex n + 1)" and "leader_sim M s i n" and "candidate_sim M s ks i n"
  using assms by (auto simp: replica_ok_def replica_sim_def)

text \<open>Steps that change nothing the specification sees, and may take calls away.\<close>

lemma sim_quiet:
  assumes sim: "cluster_sim dir T M c s" and i: "i \<in> M" and n': "reach dir i T n'" "member_ok M i n'" "local_frame (reps c i) n'"
    and c': "reps c' = (reps c)(i := n')" "led c' = led c" "vote_keys (calls c') \<subseteq># vote_keys (calls c)"
    and calls: "\<And>x. x \<in># calls c' \<Longrightarrow> x \<in># calls c \<or> call_sim M s (reps c') x"
  shows "cluster_sim dir T M c' s"
proof (rule cluster_sim_update [OF sim _ i _ _ local_frame_stable [OF n'(3)] c'(1)])
  show "spec_steps M s s"
    by simp
  have "replica_ok dir T M s (vote_keys (calls c')) i (reps c i)"
    using cluster_simD(2) [OF sim i]
    by (rule replica_ok_grows) (use c'(3) in \<open>auto simp: history_grows_refl intro: mset_subset_eqD\<close>)
  then show "replica_ok dir T M s (vote_keys (calls c')) i n'"
    using n' by (rule replica_ok_local)
  show "keys_ok M (reps c') (vote_keys (calls c'))"
    using cluster_simD(4) [OF sim] c'(3) by (rule keys_ok_mono) (use n'(3) c'(1) in \<open>simp add: local_frame_def\<close>)
  show "sp_chain s t \<noteq> None \<longleftrightarrow> t \<in> led c'" for t
    using cluster_simD(5) [OF sim] c'(2) by simp
qed (use calls c'(3) in \<open>auto intro: mset_subset_eqD\<close>)

text \<open>A step of one replica that starts no vote threads.\<close>

lemma sim_moved:
  assumes sim: "cluster_sim dir T M c s" and steps: "spec_steps M s s'" and i: "i \<in> M"
    and ok: "replica_ok dir T M s' (vote_keys (calls c')) i n'" and st: "cand_stable (reps c i) n'"
    and same: "\<And>j. j \<noteq> i \<Longrightarrow> sp_term s' j = sp_term s j \<and> sp_log s' j = sp_log s j \<and> sp_done s' j = sp_done s j"
    and c': "reps c' = (reps c)(i := n')" "\<And>t. sp_chain s' t \<noteq> None \<longleftrightarrow> t \<in> led c'" "vote_keys (calls c') \<subseteq># vote_keys (calls c)"
    and calls: "\<And>x. x \<in># calls c' \<Longrightarrow> x \<in># calls c \<or> call_sim M s' (reps c') x"
  shows "\<exists>s'. spec_steps M s s' \<and> cluster_sim dir T M c' s'"
proof (intro exI conjI)
  show "spec_steps M s s'"
    by (rule steps)
  show "cluster_sim dir T M c' s'"
  proof (rule cluster_sim_update [OF sim steps i same ok st c'(1,2) calls])
    show "keys_ok M (reps c') (vote_keys (calls c'))"
      using cluster_simD(4) [OF sim] c'(3) by (rule keys_ok_mono) (use c'(1) st in \<open>auto simp: cand_stable_def\<close>)
  qed (use c'(3) in \<open>auto intro: mset_subset_eqD\<close>)
qed

lemma reach_term_ok:
  assumes "reach dir i T n" and "object_layout (t_size T) entry_ok (t_enc T) (t_dec T)" and "i32_ok i"
  shows "i32_ok (CurrentTerm n)"
  using reach_inv [OF assms] by (simp add: node_inv_def disk_inv_def meta_inv_def)

section \<open>The steps are matched\<close>

text \<open>Every lemma of this section is one rule of the machine.\<close>

lemma sim_local:
  assumes sim: "cluster_sim dir T M c s" and i: "i \<in> M" and l: "local_step (reps c i) n'"
  shows "cluster_sim dir T M (c\<lparr>reps := (reps c)(i := n')\<rparr>) s"
proof (rule sim_quiet [OF sim i])
  note ok = cluster_simD(2) [OF sim i]
  show "reach dir i T n'"
    using reach.step [OF replica_okD(1) [OF ok] local_node_step [OF l]] .
  show "member_ok M i n'" "local_frame (reps c i) n'"
    using local_step_member [OF l replica_okD(2) [OF ok]] by auto
qed auto

lemma sim_lose:
  assumes sim: "cluster_sim dir T M c s" and "calls c = remaining + lost"
  shows "cluster_sim dir T M (c\<lparr>calls := remaining\<rparr>) s"
proof -
  have sub: "vote_keys remaining \<subseteq># vote_keys (calls c)"
    by (simp add: assms(2))
  have "replica_ok dir T M s (vote_keys remaining) i (reps c i)" if "i \<in> M" for i
    using cluster_simD(2) [OF sim that]
    by (rule replica_ok_grows) (use sub in \<open>auto simp: history_grows_refl intro: mset_subset_eqD\<close>)
  moreover have "keys_ok M (reps c) (vote_keys remaining)"
    using cluster_simD(4) [OF sim] sub by (rule keys_ok_mono) simp
  ultimately show ?thesis
    using sim assms(2) by (simp add: cluster_sim_def)
qed

lemma sim_ask:
  assumes sim: "cluster_sim dir T M c s" and calls: "calls c = add_mset (VoteStart i p t) rest"
  shows "cluster_sim dir T M (c\<lparr>calls := add_mset (VoteSent i p t (vote_prepare t (reps c i))) rest\<rparr>) s"
proof -
  have v: "i \<in> M" "p \<in> M - {i}" "t \<le> CurrentTerm (reps c i)" "i32_ok t"
    using cluster_simD(3) [OF sim, of "VoteStart i p t"] calls by simp_all
  note ok = cluster_simD(2) [OF sim v(1)]
  have "my_id (reps c i) = i"
    using replica_okD(2) [OF ok] by (simp add: member_ok_def)
  then have "call_sim M s (reps c) (VoteSent i p t (vote_prepare t (reps c i)))"
    using v by (simp add: vote_prepare_params)
  then show ?thesis
    by (intro sim_quiet [OF sim v(1), where n' = "reps c i"])
       (use calls replica_okD(1,2) [OF ok] in \<open>auto simp: local_frame_def\<close>)
qed

lemma candidate_self:
  assumes "i \<in> M" and "CurrentTerm n = t" "VotesReceived n = 1" and "(i, i, t) \<notin># ks"
    and "sp_chain s t = None \<Longrightarrow> (i, t, i, stripped (log_of n)) \<in> sp_votes s"
  shows "candidate_sim M s ks i n"
  using assms by (auto simp: candidate_sim_def up_to_date_def intro!: exI [of _ "{i}"])

text \<open>An election starts.\<close>

lemma sim_election:
  assumes sim: "cluster_sim dir T M c s" and i: "i \<in> M" and n': "n' = (becomeCandidate t now (reps c i))\<lparr>VotesReceived := 1\<rparr>"
    and t: "t = CurrentTerm (reps c i) + 1" "i32_ok t" and ok': "reach dir i T n'" "member_ok M i n'" and ps: "ps = om_keys (peers (reps c i))"
  shows "\<exists>s'. spec_steps M s s' \<and> cluster_sim dir T M ((set_rep i n' c)\<lparr>calls := calls c + mset (map (\<lambda>p. VoteStart i p t) ps)\<rparr>) s'"
proof -
  let ?c' = "(set_rep i n' c)\<lparr>calls := calls c + mset (map (\<lambda>p. VoteStart i p t) ps)\<rparr>"
  note ok = cluster_simD(2) [OF sim i]
  have keys: "set ps = M - {i}" "distinct ps"
    using replica_okD(2) [OF ok] by (auto simp: ps member_ok_def om_ok_distinct)
  have vk: "vote_keys (calls ?c') = vote_keys (calls c) + mset (map (\<lambda>p. (i, p, t)) ps)"
    using vote_keys_started(1) [of i t ps] by (simp add: comp_def)
  have none: "(i, p, t) \<notin># vote_keys (calls c)" for p
    using cluster_simD(4) [OF sim] i unfolding keys_ok_def t(1) by (metis not_in_iff zless_add1_eq)
  define s' where "s' = vote_spec i i (advance_spec i t s)"
  have steps: "spec_steps M s s'"
    unfolding s'_def using advance_spec_steps vote_spec_steps by (rule rtranclp_trans)
  have "(i, i, t) \<notin># vote_keys (calls ?c')"
    unfolding vk using none keys(1) by auto
  then have cand: "candidate_sim M s' (vote_keys (calls ?c')) i n'"
    using i replica_okD(3,4) [OF ok] by (intro candidate_self [of _ _ _ t]) (auto simp: n' s'_def vote_spec_def t(1))
  have "cluster_sim dir T M ?c' s'"
  proof (rule cluster_sim_update [OF sim steps i])
    show "replica_ok dir T M s' (vote_keys (calls ?c')) i n'"
      using ok' cand replica_okD(3-5) [OF ok] t(1) by (auto simp: replica_ok_def replica_sim_def leader_sim_def n' s'_def)
    show "keys_ok M (reps ?c') (vote_keys (calls ?c'))"
      unfolding vk unfolding t(1) by (rule keys_ok_start [OF cluster_simD(4) [OF sim] i]) (simp_all add: keys(2) set_rep_def n' t(1))
    show "x \<in># calls c \<or> call_sim M s' (reps ?c') x" if x: "x \<in># calls ?c'" for x
    proof -
      have "x \<in># calls c \<or> x \<in> (\<lambda>p. VoteStart i p t) ` set ps"
        using x by simp
      then show ?thesis
        unfolding keys(1) using i t by (auto simp: set_rep_def n')
    qed
    show "sp_chain s' u \<noteq> None \<longleftrightarrow> u \<in> led ?c'" for u
      using cluster_simD(5) [OF sim] by (simp add: s'_def set_rep_def)
    show "(j, p, u) \<in># vote_keys (calls c)" if "j \<noteq> i" "(j, p, u) \<in># vote_keys (calls ?c')" for j p u
      using that(2) unfolding vk using that(1) by auto
  qed (auto simp: s'_def set_rep_def n' cand_stable_def t(1))
  then show ?thesis
    using steps by blast
qed

lemma sim_timer:
  assumes sim: "cluster_sim dir T M c s" and i: "i \<in> M" and e: "electionImpl_body tmo now (reps c i) = Inr (ths, n')"
    and lay: "object_layout (t_size T) entry_ok (t_enc T) (t_dec T)" "\<forall>i \<in> M. i32_ok i"
  shows "\<exists>s'. spec_steps M s s' \<and> cluster_sim dir T M ((set_rep i n' c)\<lparr>calls := calls c + mset (map (\<lambda>(p, t). VoteStart i p t) ths)\<rparr>) s'"
proof -
  let ?n = "reps c i"
  let ?t = "CurrentTerm ?n + 1"
  note ok = cluster_simD(2) [OF sim i]
  have reach: "reach dir i T n'"
    using reach.step [OF replica_okD(1) [OF ok] node_step.quiet [OF quiet_step.election [OF e]]] .
  have mem: "member_ok M i n'"
    using member_quiet(3) [OF replica_okD(2) [OF ok] e] .
  show ?thesis
  proof (cases "Role ?n = Follower \<and> now - ElectionResetEvent ?n > tmo")
    case True
    then have n': "n' = (becomeCandidate ?t now ?n)\<lparr>VotesReceived := 1\<rparr>" and ths: "ths = map (\<lambda>p. (p, ?t)) (om_keys (peers ?n))"
      using e by (auto simp: electionImpl_body_def startElection_def Let_def i32_add_def split: if_splits)
    have "i32_ok ?t"
      using reach_term_ok [OF reach lay(1)] lay(2) i by (simp add: n')
    then show ?thesis
      using sim_election [OF sim i n' refl _ reach mem refl] by (simp add: ths image_mset.compositionality comp_def)
  next
    case False
    then have "ths = []" "local_frame ?n n'"
      using e by (auto simp: electionImpl_body_def local_frame_def split: RaftRole.splits)
    then show ?thesis
      by (intro exI [of _ s] conjI sim_quiet [OF sim i reach mem]) (auto simp: set_rep_def)
  qed
qed

lemma last_log_term_stripped [simp]: "last_log_term (stripped l) = last_log_term l"
  by (simp add: last_log_term_def)

text \<open>A vote: the voter moves to the term of the candidate, and the specification counts a granted vote.\<close>

definition voted_spec :: "bool \<Rightarrow> int \<Rightarrow> int \<Rightarrow> int \<Rightarrow> raft_spec \<Rightarrow> raft_spec" where
  "voted_spec granted p i t s = (if granted then vote_spec p i (advance_spec p t s) else advance_spec p t s)"

lemma voted_spec_simps [simp]:
  "sp_log (voted_spec g p i t s) = sp_log s" "sp_done (voted_spec g p i t s) = sp_done s" "sp_chain (voted_spec g p i t s) = sp_chain s"
  "sp_term (voted_spec g p i t s) = (sp_term s)(p := max (sp_term s p) t)"
  by (simp_all add: voted_spec_def)

lemma voted_spec_steps: "spec_steps M s (voted_spec g p i t s)"
  using advance_spec_steps [of M s p t] vote_spec_steps [of M "advance_spec p t s" p i]
  unfolding voted_spec_def by (auto intro: rtranclp_trans)

lemma voted_spec_vote:
  assumes g: "rvr_voteGranted (fst (RequestVote a now n))" and a: "rv_term a = t" and n: "sp_term s p = CurrentTerm n" "sp_log s p = stripped (log_of n)"
    and none: "sp_chain s t = None" and L: "rv_lastLogIndex a = int (length L) - 1" "rv_lastLogTerm a = last_log_term L"
  shows "\<exists>l. (p, t, i, l) \<in> sp_votes (voted_spec True p i t s) \<and> up_to_date (stripped L) l"
proof -
  have gr: "CurrentTerm n \<le> t" "last_log_term (log_of n) < rv_lastLogTerm a
      \<or> last_log_term (log_of n) = rv_lastLogTerm a \<and> int (length (log_of n)) - 1 \<le> rv_lastLogIndex a"
    using g RequestVote_granted_iff [of a now n] a by simp_all
  then have "(p, t, i, stripped (log_of n)) \<in> sp_votes (voted_spec True p i t s)"
    using none n by (simp add: voted_spec_def vote_spec_def max_def)
  moreover have "up_to_date (stripped L) (stripped (log_of n))"
    using L gr(2) by (auto simp: up_to_date_def)
  ultimately show ?thesis by blast
qed

lemma voter_ok:
  assumes ok: "replica_ok dir T M s ks p n" and g: "history_grows s (voted_spec b p i t s)" and ks: "ks' = ks"
    and n': "reach dir p T n'" "member_ok M p n'" "CurrentTerm n' = max (CurrentTerm n) t" "Role n' = (if CurrentTerm n < t then Follower else Role n)"
      "Logs n' = Logs n" "CommitIndex n' = CommitIndex n" "MatchIndex n' = MatchIndex n" "VotesReceived n' = VotesReceived n"
  shows "replica_ok dir T M (voted_spec b p i t s) ks' p n'"
proof (cases "CurrentTerm n < t")
  case True
  then show ?thesis
    using n' replica_okD(3-5) [OF ok] by (intro replica_ok_follower) (simp_all add: replica_sim_def)
next
  case False
  have "replica_ok dir T M (voted_spec b p i t s) ks' p n"
    using ok g by (rule replica_ok_grows) (use False replica_okD(3) [OF ok] ks in auto)
  then show ?thesis
    using n'(1,2) by (rule replica_ok_local) (use False n' in \<open>simp add: local_frame_def\<close>)
qed

lemma sim_vote:
  assumes sim: "cluster_sim dir T M c s" and calls: "calls c = add_mset (VoteSent i p t a) rest"
    and v: "RequestVote a now (reps c p) = (reply, n')"
    and lay: "object_layout (t_size T) entry_ok (t_enc T) (t_dec T)" "\<forall>i \<in> M. i32_ok i"
  shows "\<exists>s'. spec_steps M s s' \<and> cluster_sim dir T M ((set_rep p n' c)\<lparr>calls := add_mset (VoteDone i p t reply) rest\<rparr>) s'"
proof -
  let ?n = "reps c p"
  let ?c' = "(set_rep p n' c)\<lparr>calls := add_mset (VoteDone i p t reply) rest\<rparr>"
  define s' where "s' = voted_spec (rvr_voteGranted reply) p i t s"
  have m: "i \<in> M" "p \<in> M" "p \<noteq> i" "t \<le> CurrentTerm (reps c i)" "rv_candidateId a = i" "rv_term a = t" "i32_ok t"
    and told: "Role (reps c i) = Candidate \<and> CurrentTerm (reps c i) = t \<longrightarrow>
      rv_lastLogIndex a = int (length (log_of (reps c i))) - 1 \<and> rv_lastLogTerm a = last_log_term (log_of (reps c i))"
    using cluster_simD(3) [OF sim, of "VoteSent i p t a"] calls by simp_all
  note ok = cluster_simD(2) [OF sim m(2)]
  have step: "step_vote a now ?n n'"
    using m lay(2) v by (simp add: step_vote_def)
  have reach: "reach dir p T n'"
    using reach.step [OF replica_okD(1) [OF ok] node_step.quiet [OF quiet_step.vote [OF step]]] .
  have mem: "member_ok M p n'"
    using member_quiet(1) [OF replica_okD(2) [OF ok], of a now] v by simp
  have known: "om_find (peers ?n) i \<noteq> None"
    unfolding om_find_mem_keys using replica_okD(2) [OF ok] m by (simp add: member_ok_def)
  have ct: "CurrentTerm n' = max (CurrentTerm ?n) t" and role: "Role n' = (if CurrentTerm ?n < t then Follower else Role ?n)" and logs: "Logs n' = Logs ?n"
    using RequestVote_state(2,3,5) [OF v] known m by simp_all
  have "CommitIndex (snd (RequestVote a now ?n)) = CommitIndex ?n" "MatchIndex (snd (RequestVote a now ?n)) = MatchIndex ?n"
      "VotesReceived (snd (RequestVote a now ?n)) = VotesReceived ?n"
    by (simp_all add: RequestVote_def Let_def)
  then have frame: "CommitIndex n' = CommitIndex ?n" "MatchIndex n' = MatchIndex ?n" "VotesReceived n' = VotesReceived ?n"
    by (simp_all add: v)
  have g: "history_grows s s'"
    using spec_steps_inv [OF voted_spec_steps cluster_simD(1) [OF sim]] by (simp add: s'_def)
  have rok: "replica_ok dir T M s' (vote_keys (calls ?c')) p n'"
    unfolding s'_def by (rule voter_ok [OF ok g [unfolded s'_def] _ reach mem ct role logs frame]) (simp add: calls)
  have "i32_ok (rvr_term reply)"
    using reach_term_ok [OF reach lay(1)] lay(2) m(2) RequestVote_state(1) [OF v] by simp
  then have answered: "call_sim M s' (reps ?c') (VoteDone i p t reply)"
    using m told voted_spec_vote [of a now ?n t s p "log_of (reps c i)" i] replica_okD(3,4) [OF ok] by (auto simp: set_rep_def s'_def v)
  show ?thesis
    by (rule sim_moved [OF sim voted_spec_steps m(2) rok [unfolded s'_def]])
      (use ct role logs calls answered cluster_simD(5) [OF sim] in \<open>auto simp: cand_stable_def set_rep_def s'_def\<close>)
qed

text \<open>A replica steps down to a higher term.\<close>

lemma sim_stepdown:
  assumes sim: "cluster_sim dir T M c s" and i: "i \<in> M" and n': "reach dir i T n'" "member_ok M i n'"
    and down: "Role n' = Follower" "CurrentTerm (reps c i) \<le> CurrentTerm n'" "Logs n' = Logs (reps c i)" "CommitIndex n' = CommitIndex (reps c i)"
    and c': "reps c' = (reps c)(i := n')" "led c' = led c" "vote_keys (calls c') \<subseteq># vote_keys (calls c)"
    and calls: "\<And>x. x \<in># calls c' \<Longrightarrow> x \<in># calls c \<or> call_sim M (advance_spec i (CurrentTerm n') s) (reps c') x"
  shows "\<exists>s'. spec_steps M s s' \<and> cluster_sim dir T M c' s'"
proof -
  note ok = cluster_simD(2) [OF sim i]
  let ?s = "advance_spec i (CurrentTerm n') s"
  have "cluster_sim dir T M c' ?s"
  proof (rule cluster_sim_update [OF sim advance_spec_steps i _ _ _ c'(1)])
    show "replica_ok dir T M ?s (vote_keys (calls c')) i n'"
      using n' by (rule replica_ok_follower) (use down replica_okD(3-5) [OF ok] in \<open>simp_all add: replica_sim_def\<close>)
    show "cand_stable (reps c i) n'"
      using down by (simp add: cand_stable_def)
    show "keys_ok M (reps c') (vote_keys (calls c'))"
      using cluster_simD(4) [OF sim] c'(3) by (rule keys_ok_mono) (use c'(1) down in simp)
    show "sp_chain ?s t \<noteq> None \<longleftrightarrow> t \<in> led c'" for t
      using cluster_simD(5) [OF sim] c'(2) by simp
  qed (use calls c'(3) in \<open>auto intro: mset_subset_eqD\<close>)
  then show ?thesis
    using advance_spec_steps by blast
qed

text \<open>The votes a candidate has when it wins are those of a majority.\<close>

lemma votes_quorum:
  assumes "member_ok M i n" and "V \<subseteq> M" and "finite M" and "int (length (ClusterConfig n)) < int (card V) * 2"
  shows "quorum M V"
  using members_le_config [OF assms(1)] assms by (simp add: quorum_def)

lemma becomeLeader_match: "p \<in> set (om_keys (peers n)) \<Longrightarrow> match_value (MatchIndex (becomeLeader now n)) p = -1"
  by (simp add: becomeLeader_def match_value_def om_find_foldl_put)

text \<open>One more vote: the voters of a candidate grow by the peer that answered.\<close>

lemma count_vote:
  assumes sim: "cluster_sim dir T M c s" and calls: "calls c = add_mset (VoteDone i p t reply) rest" and fin: "finite M"
    and cand: "Role (reps c i) = Candidate" "CurrentTerm (reps c i) = t" "rvr_voteGranted reply"
  obtains V where "V \<subseteq> M" "i \<in> V" "VotesReceived (reps c i) + 1 = int (card V)" "\<forall>q \<in> V. (i, q, t) \<notin># vote_keys rest"
    "sp_chain s t = None \<longrightarrow> (\<forall>v \<in> V. \<exists>l. (v, t, i, l) \<in> sp_votes s \<and> up_to_date (stripped (log_of (reps c i))) l)"
proof -
  have m: "i \<in> M" "p \<in> M"
    and granted: "sp_chain s t = None \<longrightarrow> (\<exists>l. (p, t, i, l) \<in> sp_votes s \<and> up_to_date (stripped (log_of (reps c i))) l)"
    using cluster_simD(3) [OF sim, of "VoteDone i p t reply"] calls cand by auto
  have "count (vote_keys (calls c)) (i, p, t) \<le> 1"
    using cluster_simD(4) [OF sim] unfolding keys_ok_def by blast
  then have key: "(i, p, t) \<in># vote_keys (calls c)" "(i, p, t) \<notin># vote_keys rest"
    by (simp_all add: calls not_in_iff)
  obtain V where V: "V \<subseteq> M" "i \<in> V" "VotesReceived (reps c i) = int (card V)" "\<forall>q \<in> V. (i, q, CurrentTerm (reps c i)) \<notin># vote_keys (calls c)"
      "sp_chain s (CurrentTerm (reps c i)) = None \<longrightarrow>
        (\<forall>v \<in> V. \<exists>l. (v, CurrentTerm (reps c i), i, l) \<in> sp_votes s \<and> up_to_date (stripped (log_of (reps c i))) l)"
    using candidate_simE [OF replica_okD(7) [OF cluster_simD(2) [OF sim m(1)]] cand(1)] .
  have "p \<notin> V" "finite V"
    using V(1,4) key(1) cand(2) finite_subset [OF _ fin] by auto
  moreover have "(i, q, t) \<notin># vote_keys rest" if "q \<in> V" for q
    using V(4) that cand(2) by (auto simp: calls)
  ultimately show ?thesis
    using V m(2) key(2) cand granted by (intro that [of "insert p V"]) auto
qed

definition elect_spec :: "int \<Rightarrow> int \<Rightarrow> raft_spec \<Rightarrow> raft_spec" where
  "elect_spec i t s = s\<lparr>sp_chain := (sp_chain s)(t \<mapsto> sp_log s i), sp_owner := (sp_owner s)(t := i),
     sp_acks := insert (i, t, length (sp_log s i)) (sp_acks s)\<rparr>"

lemma sim_elected:
  assumes sim: "cluster_sim dir T M c s" and i: "i \<in> M" and calls: "calls c = add_mset x rest" and n: "Role (reps c i) = Candidate"
    and n': "n' = becomeLeader now ((reps c i)\<lparr>VotesReceived := k\<rparr>)" "reach dir i T n'" "member_ok M i n'"
    and t: "CurrentTerm (reps c i) = t" "t \<notin> led c"
    and V: "quorum M V" "sp_chain s t = None \<longrightarrow> (\<forall>v \<in> V. \<exists>l. (v, t, i, l) \<in> sp_votes s \<and> up_to_date (stripped (log_of (reps c i))) l)"
  shows "\<exists>s'. spec_steps M s s' \<and> cluster_sim dir T M ((set_rep i n' c)\<lparr>calls := rest, led := insert t (led c)\<rparr>) s'"
proof -
  let ?n = "reps c i"
  note ok = cluster_simD(2) [OF sim i]
  have none: "sp_chain s t = None"
    using cluster_simD(5) [OF sim, of t] t(2) by auto
  have "spec_step M s (elect_spec i t s)"
    unfolding elect_spec_def by (rule spec_step.elect [OF none _ V(1)]) (use V(2) none t replica_okD(3,4) [OF ok] in auto)
  then have steps: "spec_steps M s (elect_spec i t s)"
    by simp
  have rok: "replica_ok dir T M (elect_spec i t s) (vote_keys rest) i n'"
    using n' t replica_okD(2-5) [OF ok] becomeLeader_match
    by (auto simp: replica_ok_def replica_sim_def leader_sim_def candidate_sim_def elect_spec_def member_ok_def)
  have "sp_chain (elect_spec i t s) u \<noteq> None \<longleftrightarrow> u \<in> insert t (led c)" for u
    using cluster_simD(5) [OF sim, of u] by (simp add: elect_spec_def)
  then show ?thesis
    by (intro sim_moved [OF sim steps i, where n' = n'])
      (use rok n t(1) calls in \<open>auto simp: cand_stable_def set_rep_def n'(1) elect_spec_def\<close>)
qed

lemma sim_counted:
  assumes sim: "cluster_sim dir T M c s" and calls: "calls c = add_mset (VoteDone i p t reply) rest" and fin: "finite M"
    and n': "n' = (reps c i)\<lparr>VotesReceived := VotesReceived (reps c i) + 1\<rparr>" "reach dir i T n'" "member_ok M i n'"
    and cand: "Role (reps c i) = Candidate" "CurrentTerm (reps c i) = t" "rvr_voteGranted reply"
  shows "\<exists>s'. spec_steps M s s' \<and> cluster_sim dir T M ((set_rep i n' c)\<lparr>calls := rest, led := led c\<rparr>) s'"
proof -
  have m: "i \<in> M"
    using cluster_simD(3) [OF sim, of "VoteDone i p t reply"] calls by auto
  note ok = cluster_simD(2) [OF sim m]
  obtain V where "V \<subseteq> M" "i \<in> V" "VotesReceived (reps c i) + 1 = int (card V)" "\<forall>q \<in> V. (i, q, t) \<notin># vote_keys rest"
      "sp_chain s t = None \<longrightarrow> (\<forall>v \<in> V. \<exists>l. (v, t, i, l) \<in> sp_votes s \<and> up_to_date (stripped (log_of (reps c i))) l)"
    using count_vote [OF sim calls fin cand] .
  then have "candidate_sim M s (vote_keys rest) i n'"
    unfolding candidate_sim_def n'(1) by (intro impI exI [of _ V]) (simp add: cand(2))
  then have "replica_ok dir T M s (vote_keys rest) i n'"
    using n' ok cand(1) by (simp add: replica_ok_def replica_sim_def leader_sim_def)
  then show ?thesis
    by (intro sim_moved [OF sim rtranclp.rtrancl_refl m, where n' = n'])
      (use n'(1) calls cluster_simD(5) [OF sim] in \<open>auto simp: cand_stable_def set_rep_def\<close>)
qed

lemma sim_won:
  assumes sim: "cluster_sim dir T M c s" and calls: "calls c = add_mset (VoteDone i p t reply) rest" and fin: "finite M"
    and n': "n' = becomeLeader now ((reps c i)\<lparr>VotesReceived := VotesReceived (reps c i) + 1\<rparr>)" "reach dir i T n'" "member_ok M i n'"
    and cand: "Role (reps c i) = Candidate" "CurrentTerm (reps c i) = t" "rvr_voteGranted reply"
    and won: "int (length (ClusterConfig (reps c i))) < (VotesReceived (reps c i) + 1) * 2" "t \<notin> led c"
  shows "\<exists>s'. spec_steps M s s' \<and> cluster_sim dir T M ((set_rep i n' c)\<lparr>calls := rest, led := insert t (led c)\<rparr>) s'"
proof -
  have m: "i \<in> M"
    using cluster_simD(3) [OF sim, of "VoteDone i p t reply"] calls by auto
  obtain V where V: "V \<subseteq> M" "i \<in> V" "VotesReceived (reps c i) + 1 = int (card V)" "\<forall>q \<in> V. (i, q, t) \<notin># vote_keys rest"
      "sp_chain s t = None \<longrightarrow> (\<forall>v \<in> V. \<exists>l. (v, t, i, l) \<in> sp_votes s \<and> up_to_date (stripped (log_of (reps c i))) l)"
    using count_vote [OF sim calls fin cand] .
  have "quorum M V"
    using votes_quorum [OF replica_okD(2) [OF cluster_simD(2) [OF sim m]] V(1) fin] won(1) V(3) by simp
  then show ?thesis
    by (rule sim_elected [OF sim m calls cand(1) n' cand(2) won(2) _ V(5)])
qed

lemma sim_count:
  assumes sim: "cluster_sim dir T M c s" and calls: "calls c = add_mset (VoteDone i p t reply) rest"
    and n': "n' = vote_reply t reply now (reps c i)" and el: "elected = (Role n' = Leader \<and> Role (reps c i) \<noteq> Leader)"
    and strict: "n' = reps c i \<or> CurrentTerm (reps c i) = t" "elected \<longrightarrow> t \<notin> led c"
    and fin: "finite M"
  shows "\<exists>s'. spec_steps M s s' \<and> cluster_sim dir T M
    ((set_rep i n' c)\<lparr>calls := rest, led := if elected then insert (CurrentTerm n') (led c) else led c\<rparr>) s'"
proof -
  let ?n = "reps c i"
  have m: "i \<in> M" "i32_ok (rvr_term reply)"
    using cluster_simD(3) [OF sim, of "VoteDone i p t reply"] calls by auto
  note ok = cluster_simD(2) [OF sim m(1)]
  have reach: "reach dir i T n'"
    using reach.step [OF replica_okD(1) [OF ok] node_step.quiet [OF quiet_step.voteReply [OF m(2)]]] n' by simp
  have mem: "member_ok M i n'"
    using member_quiet(2) [OF replica_okD(2) [OF ok]] n' by simp
  show ?thesis
    using n' [symmetric]
  proof (cases rule: vote_reply_cases)
    case same
    then show ?thesis
      by (intro exI [of _ s] conjI sim_quiet [OF sim m(1) reach mem]) (use el calls in \<open>auto simp: local_frame_def set_rep_def\<close>)
  next
    case stepdown
    then have "Role n' \<noteq> Role ?n"
      by simp
    then have "t = CurrentTerm ?n"
      using strict(1) by auto
    then show ?thesis
      using stepdown el calls by (intro sim_stepdown [OF sim m(1) reach mem]) (auto simp: set_rep_def)
  next
    case counted
    then have "VotesReceived n' \<noteq> VotesReceived ?n" "\<not> elected"
      using el by simp_all
    then have "CurrentTerm ?n = t"
      using strict(1) by auto
    then show ?thesis
      using sim_counted [OF sim calls fin counted(4) reach mem counted(1) _ counted(3)] \<open>\<not> elected\<close> by simp
  next
    case won: elected
    then have "Role n' \<noteq> Role ?n" and elected
      using el by simp_all
    then have t: "CurrentTerm ?n = t" "t \<notin> led c"
      using strict by auto
    then show ?thesis
      using sim_won [OF sim calls fin won(4) reach mem won(1) t(1) won(3,5) t(2)] won(4) \<open>elected\<close> by simp
  qed
qed

lemma leader_simD:
  assumes "leader_sim M s i n" and "Role n = Leader"
  obtains h where "sp_chain s (CurrentTerm n) = Some h" "sp_owner s (CurrentTerm n) = i" "(i, CurrentTerm n, length (log_of n)) \<in> sp_acks s"
    "\<And>p. p \<in> M \<Longrightarrow> p \<noteq> i \<Longrightarrow> 0 \<le> match_value (MatchIndex n) p \<Longrightarrow> \<exists>m. (p, CurrentTerm n, m) \<in> sp_acks s \<and> match_value (MatchIndex n) p < int m"
  using assms unfolding leader_sim_def by auto

lemma sim_round:
  assumes sim: "cluster_sim dir T M c s" and i: "i \<in> M" and run: "runLeaderOneIter (reps c i) = Inr (ths, n')" and role: "Role (reps c i) = Leader"
  shows "\<exists>s'. spec_steps M s s' \<and> cluster_sim dir T M ((set_rep i n' c)\<lparr>calls := calls c + mset (map (\<lambda>(p, t). AppendStart i p t) ths)\<rparr>) s'"
proof -
  let ?n = "reps c i"
  let ?t = "CurrentTerm ?n"
  let ?c' = "(set_rep i n' c)\<lparr>calls := calls c + mset (map (\<lambda>(p, t). AppendStart i p t) ths)\<rparr>"
  note ok = cluster_simD(2) [OF sim i]
  have reach: "reach dir i T n'"
    using reach.step [OF replica_okD(1) [OF ok] node_step.run [OF run]] .
  define es where "es = map (\<lambda>op. strip_entry \<lparr>log_term = ?t, log_op = op\<rparr>) (raftIn ?n)"
  have sh: "member_ok M i n'" "stripped (log_of n') = stripped (log_of ?n) @ es" "CommitIndex n' = CommitIndex ?n" "CurrentTerm n' = ?t"
      "Role n' = Leader" "MatchIndex n' = MatchIndex ?n" "ths = map (\<lambda>p. (p, ?t)) (om_keys (peers ?n))"
    using round_shape [OF run replica_okD(2) [OF ok]] role by (simp_all add: es_def)
  have len: "length (log_of n') = length (sp_log s i @ es)"
    using arg_cong [OF sh(2), of length] replica_okD(4) [OF ok] by simp
  have keys: "set (om_keys (peers ?n)) = M - {i}"
    using replica_okD(2) [OF ok] by (simp add: member_ok_def)
  obtain h where h: "sp_chain s ?t = Some h" "sp_owner s ?t = i"
      "\<And>p. p \<in> M \<Longrightarrow> p \<noteq> i \<Longrightarrow> 0 \<le> match_value (MatchIndex ?n) p \<Longrightarrow> \<exists>m. (p, ?t, m) \<in> sp_acks s \<and> match_value (MatchIndex ?n) p < int m"
    using leader_simD [OF replica_okD(6) [OF ok] role] by blast
  define s' where "s' = s\<lparr>sp_log := (sp_log s)(i := sp_log s i @ es), sp_chain := (sp_chain s)(?t \<mapsto> sp_log s i @ es),
          sp_acks := insert (i, ?t, length (sp_log s i @ es)) (sp_acks s)\<rparr>"
  have "spec_step M s s'"
    unfolding s'_def by (rule spec_step.append [OF h(1)]) (use h(2) replica_okD(3) [OF ok] in \<open>auto simp: es_def\<close>)
  then have steps: "spec_steps M s s'"
    by simp
  have vk: "vote_keys (calls ?c') = vote_keys (calls c)"
    using vote_keys_started(2) [of i ?t "om_keys (peers ?n)"] by (simp add: sh(7))
  have "leader_sim M s' i n'"
    unfolding leader_sim_def using sh h len by (auto simp: s'_def)
  then have rok: "replica_ok dir T M s' (vote_keys (calls ?c')) i n'"
    using reach sh replica_okD(3-5) [OF ok] by (simp add: replica_ok_def replica_sim_def candidate_sim_def s'_def)
  have "x \<in># calls c \<or> call_sim M s' (reps ?c') x" if "x \<in># calls ?c'" for x
  proof -
    have "x \<in># calls c \<or> x \<in> (\<lambda>p. AppendStart i p ?t) ` set (om_keys (peers ?n))"
      using that by (simp add: sh(7) image_image)
    then show ?thesis
      unfolding keys using i by auto
  qed
  moreover have "sp_chain s' t \<noteq> None \<longleftrightarrow> t \<in> led ?c'" for t
    using cluster_simD(5) [OF sim, of t] h(1) by (auto simp: s'_def set_rep_def)
  ultimately show ?thesis
    by (intro sim_moved [OF sim steps i rok]) (use sh vk in \<open>auto simp: s'_def set_rep_def cand_stable_def\<close>)
qed

text \<open>What a leader may tell about its commit index.\<close>

lemma done_within_log:
  assumes "spec_inv M s" and "sp_done s i \<noteq> 0"
  shows "sp_done s i \<le> length (sp_log s i) \<and> (\<exists>t' m. (t', m) \<in> sp_committed s \<and> t' \<le> sp_term s i \<and> sp_done s i \<le> m
    \<and> take (sp_done s i) (sp_log s i) = take (sp_done s i) (the (sp_chain s t')))"
proof -
  obtain t' m where t': "holds_committed s i (sp_done s i) t' m"
    using done_committed [OF assms] by blast
  then obtain h where h: "sp_chain s t' = Some h" "m \<le> length h"
    using inv_commitE [of M s t' m] assms(1) unfolding spec_inv_def holds_committed_def by blast
  have "sp_done s i \<le> length (sp_log s i)"
    using t' h take_eq_length [of "sp_done s i" "sp_log s i" h] by (simp add: holds_committed_def)
  then show ?thesis
    using t' unfolding holds_committed_def by blast
qed

lemma entries_from_strip: "entries_from k (stripped L) = entries_from k L"
  by (simp add: entries_from_def)

lemma leader_prepare_shape:
  assumes "leader_prepare p t n = Inr ((k, a), n')"
  shows "ae_term a = t \<and> ae_leaderId a = my_id n \<and> ae_prevLogIndex a = k - 1 \<and> ae_entries a = entries_from k (log_of n) \<and> ae_leaderCommit a = CommitIndex n
    \<and> (0 < k \<longrightarrow> nat k \<le> length (log_of n) \<and> ae_prevLogTerm a = log_term (log_of n ! nat (k - 1))) \<and> (\<exists>ni. n' = n\<lparr>NextIndex := ni\<rparr>)"
  using assms by (auto simp: leader_prepare_def Let_def case_prod_beta vec_at_Inr_iff elim!: rbind_Inr_E split: if_splits)

text \<open>The request a leader builds.\<close>

lemma prepared_request:
  assumes prep: "leader_prepare p t n = Inr ((k, a), n')" and inv: "spec_inv M s" and s: "replica_sim s i n" "sp_owner s t = i" "CurrentTerm n = t"
    and n: "node_inv n" and p: "p \<noteq> i"
  shows "request_sim (s\<lparr>sp_sent := insert (t, sp_log s i) (sp_sent s)\<rparr>) p t k a"
proof -
  let ?L = "sp_log s i"
  note sh = leader_prepare_shape [OF prep]
  have L: "?L = stripped (log_of n)" and d: "sp_done s i = nat (CommitIndex n + 1)" and "-1 \<le> CommitIndex n" "sp_term s i = t"
    using s n by (auto simp: replica_sim_def node_inv_def)
  then have ci: "CommitIndex n < int (length ?L)"
    using done_within_log [OF inv, of i] by (cases "CommitIndex n = -1") auto
  have com: "\<exists>t' m. (t', m) \<in> sp_committed s \<and> t' \<le> t \<and> nat (CommitIndex n + 1) \<le> m
      \<and> take (nat (CommitIndex n + 1)) ?L = take (nat (CommitIndex n + 1)) (the (sp_chain s t'))" if "0 \<le> CommitIndex n"
    using done_within_log [OF inv, of i] d \<open>sp_term s i = t\<close> that by auto
  show ?thesis
    unfolding request_sim_def
  proof (intro conjI exI [of _ ?L])
    show "0 \<le> k \<longrightarrow> nat k \<le> length ?L \<and> ae_entries a = entries_from k ?L \<and> (0 < k \<longrightarrow> ae_prevLogTerm a = log_term (?L ! nat (k - 1)))"
      using sh by (auto simp: L entries_from_strip)
  qed (use p s sh ci com in \<open>auto simp: L\<close>)
qed

lemma prepared_received:
  assumes prep: "leader_prepare p t n = Inr ((k, a), n')" and n: "node_inv n" "ops_typed n" and t: "i32_ok t" and mem: "member_ok M i n"
  shows "received a \<and> (\<forall>e \<in> set (ae_entries a). plain (ale_op e))"
proof -
  note sh = leader_prepare_shape [OF prep]
  have "list_all (\<lambda>e. i32_ok (log_term e) \<and> op_ok (log_op e)) (log_of n)"
    using n(1) by (auto simp: node_inv_def disk_inv_def log_inv_def pvec_storable_def entry_ok_def list_all_iff)
  then have "list_all (\<lambda>e. i32_ok (ale_term e) \<and> op_ok (ale_op e)) (entries_from k (log_of n))"
    by (auto simp: entries_from_def list_all_length)
  moreover have "\<forall>e \<in> set (ae_entries a). plain (ale_op e)"
    using mem sh by (auto simp: member_ok_def entries_from_def list_all_length plain_def)
  ultimately show ?thesis
    using sh t entries_from_typed [of "log_of n" k] n(2) by (auto simp: received_def ae_ok_def ops_typed_def list_all_iff)
qed

lemma sim_prepare:
  assumes sim: "cluster_sim dir T M c s" and calls: "calls c = add_mset (AppendStart i p t) rest"
    and prep: "leader_prepare p t (reps c i) = Inr ((k, a), n')" and role: "Role (reps c i) = Leader" "CurrentTerm (reps c i) = t"
    and lay: "object_layout (t_size T) entry_ok (t_enc T) (t_dec T)" "\<forall>i \<in> M. i32_ok i"
  shows "\<exists>s'. spec_steps M s s' \<and> cluster_sim dir T M ((set_rep i n' c)\<lparr>calls := add_mset (AppendSent i p t k a) rest\<rparr>) s'"
proof -
  let ?n = "reps c i"
  let ?c' = "(set_rep i n' c)\<lparr>calls := add_mset (AppendSent i p t k a) rest\<rparr>"
  have m: "i \<in> M" "p \<in> M" "p \<noteq> i"
    using cluster_simD(3) [OF sim, of "AppendStart i p t"] calls by auto
  note ok = cluster_simD(2) [OF sim m(1)]
  have reach: "reach dir i T n'"
    using reach.step [OF replica_okD(1) [OF ok] node_step.quiet [OF quiet_step.prepare [OF prep]]] .
  have mem: "member_ok M i n'"
    using member_quiet(4) [OF replica_okD(2) [OF ok] prep] .
  have fr: "local_frame ?n n'"
    using leader_prepare_shape [OF prep] by (auto simp: local_frame_def)
  obtain h where h: "sp_chain s t = Some h" "sp_owner s t = i"
    using leader_simD [OF replica_okD(6) [OF ok] role(1)] role(2) by metis
  define s' where "s' = s\<lparr>sp_sent := insert (t, sp_log s i) (sp_sent s)\<rparr>"
  have "spec_step M s s'"
    unfolding s'_def by (rule spec_step.send [OF h(1) _ h(2)]) (use replica_okD(3) [OF ok] role(2) in simp)
  then have steps: "spec_steps M s s'"
    by simp
  have inv: "node_inv ?n" "ops_typed ?n" "i32_ok t"
    using reach_inv [OF replica_okD(1) [OF ok] lay(1)] reach_typed [OF replica_okD(1) [OF ok] lay(1)]
      reach_term_ok [OF replica_okD(1) [OF ok] lay(1)] lay(2) m(1) role(2) by auto
  have "replica_sim s i ?n"
    using ok by (simp add: replica_ok_def)
  then have "call_sim M s' (reps ?c') (AppendSent i p t k a)"
    using prepared_request [OF prep cluster_simD(1) [OF sim] _ h(2) role(2) inv(1) m(3)]
      prepared_received [OF prep inv replica_okD(2) [OF ok]] m by (simp add: s'_def)
  moreover have "replica_ok dir T M s' (vote_keys (calls ?c')) i ?n"
    using ok spec_steps_inv [OF steps cluster_simD(1) [OF sim], THEN conjunct2, THEN conjunct1]
    by (rule replica_ok_grows) (auto simp: s'_def calls)
  then have "replica_ok dir T M s' (vote_keys (calls ?c')) i n'"
    using reach mem fr by (rule replica_ok_local)
  ultimately show ?thesis
    by (intro sim_moved [OF sim steps m(1) _ local_frame_stable [OF fr]])
      (use calls cluster_simD(5) [OF sim] in \<open>auto simp: s'_def set_rep_def\<close>)
qed

end
