(* ===== verification/ClusterSafety.thy ===== *)
theory ClusterSafety
  imports ClusterRefinement
begin

text \<open>
  The rest of the simulation, the steps that move entries: requests arrive, answers come back, replicas
  crash. Then what the refinement gives: the safety of the modelled cluster.
\<close>

section \<open>The log a request leaves behind\<close>

lemma agree_len_full:
  "length es \<le> length ls \<Longrightarrow> \<forall>i < length es. log_term (ls ! i) = ale_term (es ! i) \<Longrightarrow> agree_len ls es = length es"
proof (induction ls es rule: agree_len.induct)
  case (1 l ls e es)
  have e: "log_term l = ale_term e"
    using "1.prems"(2) by force
  have "\<forall>i < length es. log_term (ls ! i) = ale_term (es ! i)"
    using "1.prems"(2) by (auto dest: spec [of _ "Suc i" for i])
  then show ?case
    using "1.IH" [OF e] "1.prems"(1) e by simp
qed auto

lemma ae_merge_same:
  assumes "0 \<le> k" "nat k \<le> length L" and "take (length L) (stripped F) = stripped L"
  shows "ae_merge F (nat k) (entries_from k L) = F"
proof -
  have len: "length L \<le> length F"
    using take_eq_length [of "length L" "stripped F" "stripped L"] assms(3) by simp
  have "log_term (F ! i) = log_term (L ! i)" if "i < length L" for i
    using arg_cong [OF assms(3), of "\<lambda>l. log_term (l ! i)"] that len by simp
  then have "agree_len (drop (nat k) F) (entries_from k L) = length (entries_from k L)"
    using assms(1,2) len by (intro agree_len_full) (auto simp: length_entries_from entries_from_nth_term)
  then show ?thesis
    by (simp add: ae_merge_def)
qed

lemma ae_merge_plain:
  assumes "list_all (\<lambda>e. plain (log_op e)) F" and "\<forall>e \<in> set es. plain (ale_op e)"
  shows "list_all (\<lambda>e. plain (log_op e)) (ae_merge F k es)"
  using assms by (auto simp: ae_merge_def Let_def list_all_iff entry_of_def dest: in_set_takeD in_set_dropD)

text \<open>A request that is accepted leaves the log the specification accepts.\<close>

lemma accepted_log:
  assumes inv: "spec_inv M s" and sent: "(t, L) \<in> sp_sent s" "stripped L = L" and F: "sp_log s j = stripped F"
    and k: "0 \<le> k" "nat k \<le> length L" "nat k \<le> length F" "k = 0 \<or> log_term (F ! nat (k - 1)) = log_term (L ! nat (k - 1))"
  shows "stripped (ae_merge F (nat k) (entries_from k L)) = (if take (length L) (sp_log s j) = L then sp_log s j else L)"
proof (cases "take (length L) (sp_log s j) = L")
  case True
  then show ?thesis
    using ae_merge_same [OF k(1,2), of F] sent(2) F by simp
next
  case False
  obtain h where h: "sp_chain s t = Some h" "take (length L) h = L"
    using sent_prefix [OF inv sent(1)] by blast
  have "chain_ok s h" "chain_ok s (stripped F)"
    using inv h(1) F [symmetric] by (auto simp: spec_inv_def inv_logs_def)
  then have ok: "chain_ok s L" "chain_ok s (stripped F)"
    using chain_ok_take [of s h "length L"] h(2) by simp_all
  have "log_matching L F"
    unfolding log_matching_def sent(2) using chain_ok_matching [OF ok] by simp
  then have "caught_up L F (ae_merge F (nat k) (entries_from k L))"
    by (rule ae_merge_caught_up [OF _ k])
  then show ?thesis
    using False sent(2) F by (auto simp: caught_up_def)
qed

text \<open>What the two halves of \<open>AppendEntries\<close> leave behind.\<close>

lemma stored_shape:
  assumes st: "store_entries a (ae_stepdown a now n) = Inr n4" and fc: "follower_commit (ae_leaderCommit a) n4 = Inr n'"
    and idx: "-1 \<le> ae_prevLogIndex a" "ae_prevLogIndex a < int (length (log_of n))" "CurrentTerm n \<le> ae_term a" "-1 \<le> LastApplied n"
    and mem: "member_ok M p n" and pl: "\<forall>e \<in> set (ae_entries a). plain (ale_op e)"
  shows "Role n' = Follower" "CurrentTerm n' = ae_term a" "log_of n' = ae_merge (log_of n) (nat (ae_prevLogIndex a + 1)) (ae_entries a)"
    "CommitIndex n' = (if CommitIndex n < ae_leaderCommit a then min (ae_leaderCommit a) (int (length (log_of n')) - 1) else CommitIndex n)"
    "member_ok M p n'"
proof -
  note sk = store_entries_keeps [OF st] store_entries_plain [OF st pl]
  note fk = follower_commit_keeps [OF fc]
  show role: "Role n' = Follower" "CurrentTerm n' = ae_term a"
    using sk fk ae_stepdown_term [OF idx(3), of now] by simp_all
  have log4: "log_of n4 = ae_merge (log_of n) (nat (ae_prevLogIndex a + 1)) (ae_entries a)"
    using store_entries_log [OF st] idx by simp
  then show log: "log_of n' = ae_merge (log_of n) (nat (ae_prevLogIndex a + 1)) (ae_entries a)"
    using fk by simp
  have "-1 \<le> LastApplied n4" "CommitIndex n4 = CommitIndex n"
    using sk idx by simp_all
  then show "CommitIndex n' = (if CommitIndex n < ae_leaderCommit a then min (ae_leaderCommit a) (int (length (log_of n')) - 1) else CommitIndex n)"
    using fc log log4 by (auto simp: follower_commit_ok Let_def)
  have down: "dispatchOut (ae_stepdown a now n) = dispatchOut n" "raftIn (ae_stepdown a now n) = raftIn n"
    by (simp_all add: ae_stepdown_def Let_def)
  show "member_ok M p n'"
    using mem sk fk log down ae_merge_plain [OF _ pl, of "log_of n"] by (simp add: member_ok_def)
qed

section \<open>Requests arrive\<close>

definition accept_spec :: "int \<Rightarrow> int \<Rightarrow> rlog \<Rightarrow> nat \<Rightarrow> raft_spec \<Rightarrow> raft_spec" where
  "accept_spec j t L d s = (let s1 = advance_spec j t s in
     s1\<lparr>sp_log := (sp_log s1)(j := if take (length L) (sp_log s1 j) = L then sp_log s1 j else L),
        sp_acks := insert (j, t, length L) (sp_acks s1), sp_done := (sp_done s1)(j := d)\<rparr>)"

lemma accept_spec_simps [simp]:
  "sp_term (accept_spec j t L d s) = (sp_term s)(j := max (sp_term s j) t)"
  "sp_log (accept_spec j t L d s) = (sp_log s)(j := if take (length L) (sp_log s j) = L then sp_log s j else L)"
  "sp_acks (accept_spec j t L d s) = insert (j, t, length L) (sp_acks s)" "sp_done (accept_spec j t L d s) = (sp_done s)(j := d)"
  "sp_chain (accept_spec j t L d s) = sp_chain s" "sp_owner (accept_spec j t L d s) = sp_owner s"
  "sp_sent (accept_spec j t L d s) = sp_sent s" "sp_votes (accept_spec j t L d s) = sp_votes s" "sp_committed (accept_spec j t L d s) = sp_committed s"
  by (simp_all add: accept_spec_def Let_def)

text \<open>The specification catches up in term and log; the commit index stays or is covered by the log sent.\<close>

lemma accept_spec_steps:
  assumes sent: "(t, L) \<in> sp_sent s" "sp_owner s t \<noteq> j" "sp_term s j \<le> t"
    and d: "d = sp_done s j \<or> (d \<le> length L \<and> (\<exists>t' m. (t', m) \<in> sp_committed s \<and> t' \<le> t \<and> d \<le> m \<and> take d L = take d (the (sp_chain s t'))))"
  shows "spec_steps M s (accept_spec j t L d s)"
proof -
  define s1 where "s1 = advance_spec j t s"
  define l where "l = (if take (length L) (sp_log s j) = L then sp_log s j else L)"
  define s2 where "s2 = s1\<lparr>sp_log := (sp_log s1)(j := l), sp_acks := insert (j, t, length L) (sp_acks s1)\<rparr>"
  have "spec_step M s1 s2"
    unfolding s2_def by (rule spec_step.accept) (use sent in \<open>auto simp: s1_def l_def\<close>)
  then have steps: "spec_steps M s s2"
    using advance_spec_steps [of M s j t] unfolding s1_def by (meson rtranclp.rtrancl_into_rtrancl)
  have eq: "accept_spec j t L d s = s2\<lparr>sp_done := (sp_done s2)(j := d)\<rparr>"
    by (simp add: accept_spec_def Let_def s2_def s1_def l_def)
  from d show ?thesis
  proof
    assume "d = sp_done s j"
    then have "accept_spec j t L d s = s2"
      unfolding eq by (intro raft_spec.equality) (simp_all add: s2_def s1_def)
    then show ?thesis
      using steps by simp
  next
    assume "d \<le> length L \<and> (\<exists>t' m. (t', m) \<in> sp_committed s \<and> t' \<le> t \<and> d \<le> m \<and> take d L = take d (the (sp_chain s t')))"
    then obtain t' m where t': "d \<le> length L" "(t', m) \<in> sp_committed s" "t' \<le> t" "d \<le> m" "take d L = take d (the (sp_chain s t'))"
      by blast
    have "take d l = take d L"
      using t'(1) take_prefix_eq [of "length L" "sp_log s j" L d] by (auto simp: l_def)
    then have "spec_step M s2 (s2\<lparr>sp_done := (sp_done s2)(j := d)\<rparr>)"
      using t' sent(3) by (intro spec_step.learn [of t' m]) (auto simp: s2_def s1_def)
    then show ?thesis
      using steps eq by (metis rtranclp.rtrancl_into_rtrancl)
  qed
qed

lemma request_simE:
  assumes "request_sim s p t k a" and "-1 \<le> ae_prevLogIndex a"
  obtains L where "(t, L) \<in> sp_sent s" "stripped L = L" "ae_leaderCommit a < int (length L)" "nat k \<le> length L"
    "ae_entries a = entries_from k L" "0 < k \<longrightarrow> ae_prevLogTerm a = log_term (L ! nat (k - 1))"
    "0 \<le> ae_leaderCommit a \<longrightarrow> (\<exists>t' m. (t', m) \<in> sp_committed s \<and> t' \<le> t \<and> nat (ae_leaderCommit a + 1) \<le> m
      \<and> take (nat (ae_leaderCommit a + 1)) L = take (nat (ae_leaderCommit a + 1)) (the (sp_chain s t')))"
  using assms unfolding request_sim_def by force

text \<open>What a follower commits with a request is what it had committed, or is covered by what the leader had.\<close>

lemma stored_commit:
  assumes sh: "CommitIndex n' = (if CommitIndex n < ae_leaderCommit a then min (ae_leaderCommit a) (int (length (log_of n')) - 1) else CommitIndex n)"
    and L: "ae_leaderCommit a < int (length L)" "length L \<le> length (log_of n')" and n: "-1 \<le> CommitIndex n" "sp_done s p = nat (CommitIndex n + 1)"
    and com: "0 \<le> ae_leaderCommit a \<longrightarrow> (\<exists>t' m. (t', m) \<in> sp_committed s \<and> t' \<le> t \<and> nat (ae_leaderCommit a + 1) \<le> m
      \<and> take (nat (ae_leaderCommit a + 1)) L = take (nat (ae_leaderCommit a + 1)) (the (sp_chain s t')))"
    and d: "d = nat (CommitIndex n' + 1)"
  shows "d = sp_done s p \<or> (d \<le> length L \<and> (\<exists>t' m. (t', m) \<in> sp_committed s \<and> t' \<le> t \<and> d \<le> m \<and> take d L = take d (the (sp_chain s t'))))"
proof (cases "CommitIndex n < ae_leaderCommit a")
  case True
  then have "d = nat (ae_leaderCommit a + 1)"
    using sh L by (simp add: d)
  then show ?thesis
    using com True n(1) L(1) by auto
qed (use sh n in \<open>simp add: d\<close>)

lemma sim_stored:
  assumes sim: "cluster_sim dir T M c s" and calls: "calls c = add_mset (AppendSent i p t k a) rest"
    and st: "store_entries a (ae_stepdown a now (reps c p)) = Inr n4" "follower_commit (ae_leaderCommit a) n4 = Inr n'"
    and cur: "CurrentTerm (reps c p) \<le> ae_term a" "-1 \<le> ae_prevLogIndex a" "ae_prevLogIndex a < int (length (log_of (reps c p)))"
      "ae_prevLogIndex a = -1 \<or> ae_prevLogTerm a = log_term (log_of (reps c p) ! nat (ae_prevLogIndex a))"
    and reach: "reach dir p T n'" and inv: "node_inv (reps c p)" and reply: "aer_term reply = ae_term a"
  shows "\<exists>s'. spec_steps M s s'
    \<and> cluster_sim dir T M ((set_rep p n' c)\<lparr>calls := add_mset (AppendDone i p t k (length (ae_entries a)) reply) rest\<rparr>) s'"
proof -
  let ?n = "reps c p"
  let ?c' = "(set_rep p n' c)\<lparr>calls := add_mset (AppendDone i p t k (length (ae_entries a)) reply) rest\<rparr>"
  have m: "i \<in> M" "p \<in> M" "p \<noteq> i" "received a" "\<forall>e \<in> set (ae_entries a). plain (ale_op e)" and req: "request_sim s p t k a"
    using cluster_simD(3) [OF sim, of "AppendSent i p t k a"] calls by auto
  note ok = cluster_simD(2) [OF sim m(2)]
  have la: "-1 \<le> LastApplied ?n" "-1 \<le> CommitIndex ?n"
    using inv by (simp_all add: node_inv_def)
  note sh = stored_shape [OF st cur(2,3,1) la(1) replica_okD(2) [OF ok] m(5)]
  obtain L where L: "(t, L) \<in> sp_sent s" "stripped L = L" "ae_leaderCommit a < int (length L)" "nat k \<le> length L"
      "ae_entries a = entries_from k L" "0 < k \<longrightarrow> ae_prevLogTerm a = log_term (L ! nat (k - 1))"
      "0 \<le> ae_leaderCommit a \<longrightarrow> (\<exists>t' m. (t', m) \<in> sp_committed s \<and> t' \<le> t \<and> nat (ae_leaderCommit a + 1) \<le> m
        \<and> take (nat (ae_leaderCommit a + 1)) L = take (nat (ae_leaderCommit a + 1)) (the (sp_chain s t')))"
    using request_simE [OF req cur(2)] .
  have r: "sp_owner s t \<noteq> p" "ae_term a = t" "ae_prevLogIndex a = k - 1"
    using req by (simp_all add: request_sim_def)
  have k: "0 \<le> k" "nat k \<le> length (log_of ?n)" "k = 0 \<or> log_term (log_of ?n ! nat (k - 1)) = log_term (L ! nat (k - 1))"
    using cur(2-4) L(6) r(3) by auto
  define d where "d = nat (CommitIndex n' + 1)"
  let ?s = "accept_spec p t L d s"
  have log: "stripped (log_of n') = sp_log ?s p"
    using accepted_log [OF cluster_simD(1) [OF sim] L(1,2) replica_okD(4) [OF ok] k(1) L(4) k(2,3)] sh(3) L(5) r(3) by simp
  have len: "length L \<le> length (log_of n')"
    using arg_cong [OF log, of length] take_eq_length [of "length L" "sp_log s p" L] by (auto split: if_splits)
  have steps: "spec_steps M s ?s"
    using stored_commit [OF sh(4) L(3) len la(2) replica_okD(5) [OF ok] L(7) d_def]
    by (intro accept_spec_steps [OF L(1) r(1)]) (use cur(1) r replica_okD(3) [OF ok] in auto)
  have "replica_sim ?s p n'"
    using log sh(2) cur(1) r(2) replica_okD(3) [OF ok] by (simp add: replica_sim_def d_def)
  then have rok: "replica_ok dir T M ?s (vote_keys (calls ?c')) p n'"
    by (rule replica_ok_follower [OF reach sh(5) _ sh(1)])
  have "k + int (length (ae_entries a)) = int (length L)" "i32_ok (ae_term a)"
    using k L(4,5) m(4) by (simp_all add: length_entries_from of_nat_diff received_def ae_ok_def)
  then have "call_sim M ?s (reps ?c') (AppendDone i p t k (length (ae_entries a)) reply)"
    using m reply by auto
  then show ?thesis
    by (intro sim_moved [OF sim steps m(2) rok])
      (use sh cur(1) calls cluster_simD(5) [OF sim] in \<open>auto simp: cand_stable_def set_rep_def\<close>)
qed

lemma sim_deliver:
  assumes sim: "cluster_sim dir T M c s" and calls: "calls c = add_mset (AppendSent i p t k a) rest"
    and ae: "AppendEntries a now (reps c p) = Inr (reply, n')"
    and lay: "object_layout (t_size T) entry_ok (t_enc T) (t_dec T)" "\<forall>i \<in> M. i32_ok i"
  shows "\<exists>s'. spec_steps M s s'
    \<and> cluster_sim dir T M ((set_rep p n' c)\<lparr>calls := add_mset (AppendDone i p t k (length (ae_entries a)) reply) rest\<rparr>) s'"
proof -
  let ?n = "reps c p"
  let ?done = "AppendDone i p t k (length (ae_entries a)) reply"
  let ?c' = "(set_rep p n' c)\<lparr>calls := add_mset ?done rest\<rparr>"
  have m: "i \<in> M" "p \<in> M" "p \<noteq> i" "received a" "\<forall>e \<in> set (ae_entries a). plain (ale_op e)" and req: "request_sim s p t k a"
    using cluster_simD(3) [OF sim, of "AppendSent i p t k a"] calls by auto
  note ok = cluster_simD(2) [OF sim m(2)]
  have inv: "node_inv ?n"
    using reach_inv [OF replica_okD(1) [OF ok] lay(1)] lay(2) m(2) by auto
  have "step_append a now ?n n'" "\<exists>es. raftOut n' = raftOut ?n @ es"
    using ae m(4) AppendEntries_queue [OF ae] inv by (auto simp: step_append_def node_inv_def)
  then have reach: "reach dir p T n'"
    using reach.step [OF replica_okD(1) [OF ok]] node_step.append by blast
  have terms: "i32_ok (CurrentTerm ?n)" "i32_ok (ae_term a)"
    using reach_term_ok [OF replica_okD(1) [OF ok] lay(1)] lay(2) m(2,4) by (auto simp: received_def ae_ok_def)
  have sub: "vote_keys (calls ?c') \<subseteq># vote_keys (calls c)"
    by (simp add: calls)
  show ?thesis
    using ae
  proof (cases rule: AppendEntries_outcome)
    case ignored
    then have "call_sim M s (reps ?c') ?done" "member_ok M p n'" "local_frame ?n n'"
      using m terms replica_okD(2) [OF ok] by (auto simp: local_frame_def i32_ok_def member_ok_def)
    then have "cluster_sim dir T M ?c' s"
      by (intro sim_quiet [OF sim m(2) reach]) (use calls sub in \<open>auto simp: set_rep_def\<close>)
    then show ?thesis by blast
  next
    case refused
    have "member_ok M p n'"
      using replica_okD(2) [OF ok] by (rule member_ok_frame) (simp_all add: refused(3), simp_all add: ae_stepdown_def Let_def)
    then show ?thesis
      by (intro sim_stepdown [OF sim m(2) reach])
        (use refused m terms calls sub ae_stepdown_term [OF refused(2), of now] in \<open>auto simp: set_rep_def\<close>)
  next
    case (stored n4)
    then show ?thesis
      by (intro sim_stored [OF sim calls _ _ _ _ _ _ reach inv])
  qed
qed

section \<open>Answers come back\<close>

lemma reply_outcome:
  assumes r: "leader_reply p t k sent reply now n = Inr n'"
    and idx: "-1 \<le> CommitIndex n" "CommitIndex n < int (length (log_of n))" "LastApplied n = CommitIndex n"
  obtains (stepdown) "t < aer_term reply" "n' = becomeFollower (aer_term reply) now n"
  | (quiet) ni where "n' = n\<lparr>NextIndex := ni\<rparr>"
  | (matched) n3 where "Role n = Leader" "aer_success reply" "scan_frame (leader_matched p (k + int sent) n) n3"
      "CommitIndex n3 = new_commit (leader_matched p (k + int sent) n)"
      "\<exists>out la ready. n' = n3\<lparr>raftOut := raftOut n @ out, LastApplied := la, moreExecJobsReady := ready\<rparr>"
proof (cases "Role n = Leader \<and> aer_term reply = t \<and> aer_success reply")
  case True
  then obtain n3 where n3: "scan_frame (leader_matched p (k + int sent) n) n3" "CommitIndex n3 = new_commit (leader_matched p (k + int sent) n)"
    and n': "n' = (if new_commit (leader_matched p (k + int sent) n) \<noteq> CommitIndex n
       then n3\<lparr>raftOut := raftOut n @ map log_op (segment (LastApplied n + 1) (CommitIndex n3) (log_of n)),
               LastApplied := CommitIndex n3, moreExecJobsReady := tts_signal (moreExecJobsReady n3)\<rparr>
       else n3)"
    using leader_reply_success [of n reply t p k sent now] r idx by auto
  have "raftOut n3 = raftOut n"
    using n3(1) by (auto simp: scan_frame_def)
  then have "n3 = n3\<lparr>raftOut := raftOut n @ [], LastApplied := LastApplied n3, moreExecJobsReady := moreExecJobsReady n3\<rparr>"
    by simp
  then have "\<exists>out la ready. n' = n3\<lparr>raftOut := raftOut n @ out, LastApplied := la, moreExecJobsReady := ready\<rparr>"
    using n' by (metis (full_types))
  then show ?thesis
    using True n3 matched by blast
next
  case False
  have same: thesis if "n' = n"
    using quiet [of "NextIndex n"] that by simp
  show ?thesis
    using r False same stepdown quiet by (auto simp: leader_reply_def split: if_splits)
qed

text \<open>The replicas a leader counts for an index are a majority.\<close>

lemma holders_quorum:
  assumes mem: "member_ok M i n" and i: "i \<in> M" and maj: "length (ClusterConfig n) < 2 * holders n idx"
  shows "quorum M (insert i {p \<in> M - {i}. idx \<le> match_value (MatchIndex n) p})"
proof -
  let ?ps = "filter (\<lambda>p. idx \<le> match_value (MatchIndex n) p) (om_keys (peers n))"
  have keys: "set (om_keys (peers n)) = M - {i}" and dist: "distinct (om_keys (peers n))"
    using mem om_ok_distinct [of "peers n"] by (auto simp: member_ok_def)
  have fin: "finite M"
    using keys by (metis finite.emptyI finite_Diff_insert finite_set Diff_empty)
  have "set ?ps = {p \<in> M - {i}. idx \<le> match_value (MatchIndex n) p}"
    using keys by auto
  moreover have "card (set ?ps) = length ?ps"
    using dist by (intro distinct_card distinct_filter)
  moreover have "i \<in> set (om_keys (ClusterConfig n))" "my_id n = i"
    using mem i by (auto simp: member_ok_def)
  ultimately have "card (insert i {p \<in> M - {i}. idx \<le> match_value (MatchIndex n) p}) = holders n idx"
    using fin om_find_mem_keys [of "ClusterConfig n" i] by (auto simp: holders_def)
  then show ?thesis
    using maj members_le_config [OF mem] i fin by (auto simp: quorum_def)
qed

lemma matched_frame:
  assumes "scan_frame (leader_matched p x n) n3" and "n' = n3\<lparr>raftOut := out, LastApplied := la, moreExecJobsReady := ready\<rparr>"
  shows "Logs n' = Logs n" "CurrentTerm n' = CurrentTerm n" "Role n' = Role n" "CommitIndex n' = CommitIndex n3"
    "match_value (MatchIndex n') = match_value (om_put p (x - 1) (MatchIndex n))" "raftOut n' = out"
    "member_ok M i n \<Longrightarrow> member_ok M i n'" "committable (leader_matched p x n) = committable n'"
proof -
  show "committable (leader_matched p x n) = committable n'"
    unfolding scan_frame_committable [OF assms(1), symmetric] by (simp add: assms(2) committable_def holders_def fun_eq_iff)
qed (use assms in \<open>auto simp: scan_frame_def leader_matched_def fun_eq_iff elim!: member_ok_frame\<close>)

definition commit_spec :: "int \<Rightarrow> int \<Rightarrow> nat \<Rightarrow> raft_spec \<Rightarrow> raft_spec" where
  "commit_spec i t m s = s\<lparr>sp_committed := insert (t, m) (sp_committed s), sp_done := (sp_done s)(i := m)\<rparr>"

lemma leader_chain: "spec_inv M s \<Longrightarrow> sp_chain s t = Some h \<Longrightarrow> sp_owner s t = i \<Longrightarrow> sp_term s i = t \<Longrightarrow> sp_log s i = h"
  using owner_log by blast

lemma commit_spec_steps:
  assumes "spec_inv M s" and "sp_chain s t = Some h" "sp_owner s t = i" "sp_term s i = t" and "0 < m" "m \<le> length h" "log_term (h ! (m - 1)) = t"
    and "quorum M Q" "\<forall>j \<in> Q. \<exists>m1 \<ge> m. (j, t, m1) \<in> sp_acks s"
  shows "spec_steps M s (commit_spec i t m s)"
proof -
  define s1 where "s1 = s\<lparr>sp_committed := insert (t, m) (sp_committed s)\<rparr>"
  have c: "spec_step M s s1"
    unfolding s1_def by (rule spec_step.commit [OF assms(2,5-9)])
  have "sp_log s i = h"
    using leader_chain [OF assms(1-4)] .
  then have "spec_step M s1 (s1\<lparr>sp_done := (sp_done s1)(i := m)\<rparr>)"
    by (intro spec_step.learn [of t m]) (use assms in \<open>simp_all add: s1_def\<close>)
  then show ?thesis
    using c by (simp add: commit_spec_def s1_def)
qed

text \<open>The match indices a leader has after an answer are acknowledged in its term, and so is what it commits.\<close>

lemma match_acked:
  assumes "\<And>q. q \<in> M \<Longrightarrow> q \<noteq> i \<Longrightarrow> 0 \<le> match_value mi q \<Longrightarrow> \<exists>m. (q, t0, m) \<in> sp_acks s \<and> match_value mi q < int m"
    and "\<exists>m. (p, t, m) \<in> sp_acks s \<and> x \<le> int m" and "mi' = match_value mi \<or> (t = t0 \<and> mi' = match_value (om_put p (x - 1) mi))"
    and q: "q \<in> M" "q \<noteq> i" "0 \<le> mi' q"
  shows "\<exists>m. (q, t0, m) \<in> sp_acks s \<and> mi' q < int m"
proof (cases "mi' q = match_value mi q")
  case True
  then show ?thesis
    using assms(1) q by simp
next
  case False
  then have "q = p" "t = t0" "mi' q = x - 1"
    using assms(3) by (auto split: if_splits)
  then show ?thesis
    using assms(2) by fastforce
qed

lemma matched_commit_steps:
  assumes inv: "spec_inv M s" and h: "sp_chain s t = Some (stripped (log_of n))" "sp_owner s t = i" "sp_term s i = t"
    and n: "member_ok M i n" "i \<in> M" "CurrentTerm n = t" "committable n ci" and ci: "ci = CommitIndex n" "0 \<le> ci" "ci < int (length (log_of n))"
    and own: "(i, t, length (log_of n)) \<in> sp_acks s"
    and acked: "\<And>q. q \<in> M \<Longrightarrow> q \<noteq> i \<Longrightarrow> 0 \<le> match_value (MatchIndex n) q \<Longrightarrow> \<exists>m. (q, t, m) \<in> sp_acks s \<and> match_value (MatchIndex n) q < int m"
  shows "spec_steps M s (commit_spec i t (nat (ci + 1)) s)"
proof (rule commit_spec_steps [OF inv h])
  let ?Q = "insert i {q \<in> M - {i}. ci \<le> match_value (MatchIndex n) q}"
  show "quorum M ?Q"
    using holders_quorum [OF n(1,2)] n(4) by (simp add: committable_def)
  show "\<forall>j \<in> ?Q. \<exists>m1 \<ge> nat (ci + 1). (j, t, m1) \<in> sp_acks s"
  proof
    fix j assume j: "j \<in> ?Q"
    show "\<exists>m1 \<ge> nat (ci + 1). (j, t, m1) \<in> sp_acks s"
    proof (cases "j = i")
      case True
      then show ?thesis
        using own ci by (intro exI [of _ "length (log_of n)"]) auto
    next
      case False
      then obtain m1 where "(j, t, m1) \<in> sp_acks s" "match_value (MatchIndex n) j < int m1"
        using acked [of j] j ci by auto
      then show ?thesis
        using j False by (intro exI [of _ m1]) auto
    qed
  qed
  show "log_term (stripped (log_of n) ! (nat (ci + 1) - 1)) = t"
    using n(3,4) ci by (simp add: committable_def nat_add_distrib)
qed (use ci in auto)

lemma sim_matched:
  assumes sim: "cluster_sim dir T M c s" and calls: "calls c = add_mset (AppendDone i p t k sent reply) rest"
    and lead: "Role (reps c i) = Leader" "aer_success reply" and strict: "n' = reps c i \<or> CurrentTerm (reps c i) = t"
    and n3: "scan_frame (leader_matched p (k + int sent) (reps c i)) n3" "CommitIndex n3 = new_commit (leader_matched p (k + int sent) (reps c i))"
    and n': "n' = n3\<lparr>raftOut := out, LastApplied := la, moreExecJobsReady := ready\<rparr>" "reach dir i T n'"
    and idx: "-1 \<le> CommitIndex (reps c i)" "CommitIndex (reps c i) < int (length (log_of (reps c i)))"
  shows "\<exists>s'. spec_steps M s s' \<and> cluster_sim dir T M ((set_rep i n' c)\<lparr>calls := rest\<rparr>) s'"
proof -
  let ?n = "reps c i"
  let ?t = "CurrentTerm ?n"
  let ?c' = "(set_rep i n' c)\<lparr>calls := rest\<rparr>"
  have m: "i \<in> M" and ack: "\<exists>m. (p, t, m) \<in> sp_acks s \<and> k + int sent \<le> int m"
    using cluster_simD(3) [OF sim, of "AppendDone i p t k sent reply"] calls lead(2) by auto
  note ok = cluster_simD(2) [OF sim m] and fr = matched_frame [OF n3(1) n'(1)]
  have mem: "member_ok M i n'"
    using fr(7) replica_okD(2) [OF ok] .
  obtain h where h: "sp_chain s ?t = Some h" "sp_owner s ?t = i" "(i, ?t, length (log_of ?n)) \<in> sp_acks s"
      "\<And>p. p \<in> M \<Longrightarrow> p \<noteq> i \<Longrightarrow> 0 \<le> match_value (MatchIndex ?n) p \<Longrightarrow> \<exists>m. (p, ?t, m) \<in> sp_acks s \<and> match_value (MatchIndex ?n) p < int m"
    using leader_simD [OF replica_okD(6) [OF ok] lead(1)] by blast
  have "match_value (MatchIndex n') = match_value (MatchIndex ?n) \<or> (t = ?t \<and> match_value (MatchIndex n') = match_value (om_put p (k + int sent - 1) (MatchIndex ?n)))"
    using strict fr(5) by auto
  note acked = match_acked [OF h(4) ack this]
  have own: "(i, ?t, length (log_of n')) \<in> sp_acks s"
    using h(3) fr(1) by simp
  have hlog: "h = stripped (log_of n')"
    using leader_chain [OF cluster_simD(1) [OF sim] h(1,2) replica_okD(3) [OF ok]] replica_okD(4) [OF ok] fr(1) by simp
  define s' where "s' = (if CommitIndex n' = CommitIndex ?n then s else commit_spec i ?t (nat (CommitIndex n' + 1)) s)"
  have steps: "spec_steps M s s'"
  proof (cases "CommitIndex n' = CommitIndex ?n")
    case False
    then have ci: "0 \<le> CommitIndex n'" "CommitIndex n' < int (length (log_of n'))" "committable n' (CommitIndex n')"
      using new_commit_bounds [of "leader_matched p (k + int sent) ?n"] idx n3(2) fr(1,4,8) by auto
    have "spec_steps M s (commit_spec i ?t (nat (CommitIndex n' + 1)) s)"
      using matched_commit_steps [OF cluster_simD(1) [OF sim] h(1) [unfolded hlog] h(2) replica_okD(3) [OF ok] mem m fr(2) ci(3) refl ci(1,2) own acked] .
    then show ?thesis
      using False by (simp add: s'_def)
  qed (simp add: s'_def)
  have same: "sp_term s' = sp_term s" "sp_log s' = sp_log s" "sp_chain s' = sp_chain s" "sp_owner s' = sp_owner s" "sp_acks s' = sp_acks s"
      "sp_done s' = (sp_done s)(i := nat (CommitIndex n' + 1))"
    using replica_okD(5) [OF ok] by (auto simp: s'_def commit_spec_def)
  have "leader_sim M s' i n'"
    unfolding leader_sim_def fr(2) same using own acked h(1,2) by auto
  then have "replica_ok dir T M s' (vote_keys (calls ?c')) i n'"
    using n'(2) mem fr(1-3) lead(1) same replica_okD(3,4) [OF ok] by (simp add: replica_ok_def candidate_sim_def replica_sim_def)
  then show ?thesis
    by (rule sim_moved [OF sim steps m])
      (use fr lead(1) same calls cluster_simD(5) [OF sim] in \<open>auto simp: cand_stable_def set_rep_def\<close>)
qed

text \<open>The indices of a replica in a checked run, and its executer queue after an answer.\<close>

lemma sim_commit_bound:
  assumes "cluster_sim dir T M c s" and "i \<in> M" and "-1 \<le> CommitIndex (reps c i)"
  shows "CommitIndex (reps c i) < int (length (log_of (reps c i)))"
  using done_within_log [OF cluster_simD(1) [OF assms(1)], of i] replica_okD(4,5) [OF cluster_simD(2) [OF assms(1,2)]] assms(3)
  by (cases "CommitIndex (reps c i) = -1") auto

lemma sim_indices:
  assumes "cluster_sim dir T M c s" and "i \<in> M"
    and "object_layout (t_size T) entry_ok (t_enc T) (t_dec T)" "\<forall>i \<in> M. i32_ok i"
  shows "node_inv (reps c i)" "-1 \<le> CommitIndex (reps c i)" "LastApplied (reps c i) = CommitIndex (reps c i)"
    "CommitIndex (reps c i) < int (length (log_of (reps c i)))"
proof -
  show inv: "node_inv (reps c i)"
    using reach_inv [OF replica_okD(1) [OF cluster_simD(2) [OF assms(1,2)]] assms(3)] assms(2,4) by simp
  then show idx: "-1 \<le> CommitIndex (reps c i)" "LastApplied (reps c i) = CommitIndex (reps c i)"
    by (simp_all add: node_inv_def)
  show "CommitIndex (reps c i) < int (length (log_of (reps c i)))"
    by (rule sim_commit_bound [OF assms(1,2) idx(1)])
qed

lemma reply_queue:
  assumes sim: "cluster_sim dir T M c s" and sent: "AppendDone i p t k sent ret \<in># calls c"
    and r: "leader_reply p t k sent ret now (reps c i) = Inr n'"
    and lay: "object_layout (t_size T) entry_ok (t_enc T) (t_dec T)" "\<forall>i \<in> M. i32_ok i"
  obtains out where "i \<in> M" "raftOut n' = raftOut (reps c i) @ out" "node_step (reps c i) out n'"
proof -
  have i: "i \<in> M" "i32_ok (aer_term ret)"
    using cluster_simD(3) [OF sim sent] by auto
  note idx = sim_indices [OF sim i(1) lay]
  obtain out where "raftOut n' = raftOut (reps c i) @ out"
    using r idx(2,4,3) by (cases rule: reply_outcome) auto
  then show ?thesis
    using that i(1) node_step.reply [OF i(2) r] by blast
qed

lemma sim_reply:
  assumes sim: "cluster_sim dir T M c s" and calls: "calls c = add_mset (AppendDone i p t k sent reply) rest"
    and lr: "leader_reply p t k sent reply now (reps c i) = Inr n'" and strict: "n' = reps c i \<or> CurrentTerm (reps c i) = t"
    and lay: "object_layout (t_size T) entry_ok (t_enc T) (t_dec T)" "\<forall>i \<in> M. i32_ok i"
  shows "\<exists>s'. spec_steps M s s' \<and> cluster_sim dir T M ((set_rep i n' c)\<lparr>calls := rest\<rparr>) s'"
proof -
  let ?n = "reps c i"
  let ?c' = "(set_rep i n' c)\<lparr>calls := rest\<rparr>"
  have m: "i \<in> M" "p \<in> M" "p \<noteq> i" "i32_ok (aer_term reply)"
    using cluster_simD(3) [OF sim, of "AppendDone i p t k sent reply"] calls by auto
  note ok = cluster_simD(2) [OF sim m(1)]
  note idx = sim_indices(2-4) [OF sim m(1) lay]
  obtain es where "node_step ?n es n'"
    using reply_queue [OF sim _ lr lay] calls by auto
  then have reach: "reach dir i T n'"
    by (rule reach.step [OF replica_okD(1) [OF ok]])
  have sub: "vote_keys (calls ?c') \<subseteq># vote_keys (calls c)" and old: "\<And>x. x \<in># calls ?c' \<Longrightarrow> x \<in># calls c"
    by (simp_all add: calls)
  show ?thesis
    using lr idx(1,3,2)
  proof (cases rule: reply_outcome)
    case stepdown
    have "t = CurrentTerm ?n \<or> n' = ?n"
      using strict by auto
    then show ?thesis
    proof
      assume "n' = ?n"
      then have "cluster_sim dir T M ?c' s"
        using old sub by (intro sim_quiet [OF sim m(1) replica_okD(1,2) [OF ok]]) (auto simp: local_frame_def set_rep_def)
      then show ?thesis by blast
    next
      assume "t = CurrentTerm ?n"
      moreover have "member_ok M i n'"
        using replica_okD(2) [OF ok] by (rule member_ok_frame) (simp_all add: stepdown)
      ultimately show ?thesis
        using stepdown old sub reach by (intro sim_stepdown [OF sim m(1)]) (auto simp: set_rep_def)
    qed
  next
    case (quiet ni)
    have "cluster_sim dir T M ?c' s"
    proof (rule sim_quiet [OF sim m(1)])
      show "member_ok M i n'"
        using replica_okD(2) [OF ok] by (rule member_ok_frame) (simp_all add: quiet)
    qed (use old sub reach in \<open>auto simp: quiet local_frame_def set_rep_def\<close>)
    then show ?thesis by blast
  next
    case (matched n3)
    obtain out la ready where out: "n' = n3\<lparr>raftOut := raftOut ?n @ out, LastApplied := la, moreExecJobsReady := ready\<rparr>"
      using matched(5) by blast
    then show ?thesis
      using reach by (intro sim_matched [OF sim calls matched(1,2) strict matched(3,4)] idx(1,3))
  qed
qed

section \<open>Crashes\<close>

lemma om_ok_foldl_put: "om_ok m \<Longrightarrow> om_ok (foldl (\<lambda>m (k, v). om_put k v m) m kvs)"
  by (induction kvs arbitrary: m) auto

lemma boot_member:
  assumes "om_ok cfg" and "list_all (\<lambda>e. plain (log_op e)) (log_of (boot_node T i b dir cfg sv fs))"
  shows "member_ok (members cfg) i (boot_node T i b dir cfg sv fs)"
proof -
  have "x \<in> set (om_keys (peers (boot_node T i b dir cfg sv fs))) \<longleftrightarrow> x \<in> members cfg - {i}" for x
    using om_find_mem_keys [of cfg x] om_find_mem_keys [of "peers (boot_node T i b dir cfg sv fs)" x]
      boot_node_peers [OF assms(1), of T i b dir sv fs x] by (auto split: if_splits)
  moreover have "om_ok (peers (boot_node T i b dir cfg sv fs))"
    by (simp add: boot_node_def foldl_addPeer om_ok_foldl_put setClusterConfig_def bootstrap_def RaftManager_init_def Let_def case_prod_beta raft_persist_def)
  ultimately show ?thesis
    using assms by (auto simp: member_ok_def boot_node_frame)
qed

lemma sim_crash:
  assumes sim: "cluster_sim dir T (members cfg) c s" and i: "i \<in> members cfg" and cfg: "om_ok cfg" "i32_ok i"
    and lay: "object_layout (t_size T) entry_ok (t_enc T) (t_dec T)"
    and c': "reps c' = (reps c)(i := boot_node T i True dir cfg sv (disk (reps c i)))" "calls c' = calls c" "led c' = led c"
  shows "\<exists>s'. spec_steps (members cfg) s s' \<and> cluster_sim dir T (members cfg) c' s'"
proof -
  let ?n = "reps c i"
  let ?n' = "boot_node T i True dir cfg sv (disk ?n)"
  note ok = cluster_simD(2) [OF sim i]
  have "disk_inv ?n" "at_home dir i T ?n"
    using reach_inv [OF replica_okD(1) [OF ok] lay cfg(2)] by (auto simp: node_inv_def)
  then have b: "log_of ?n' = stripped (log_of ?n)" "CurrentTerm ?n' = CurrentTerm ?n"
    using boot_recovers [of ?n dir i T cfg sv] by auto
  have mem: "member_ok (members cfg) i ?n'"
    using replica_okD(2) [OF ok] b(1) by (intro boot_member [OF cfg(1)]) (auto simp: member_ok_def list_all_iff plain_def)
  define s' where "s' = s\<lparr>sp_done := (sp_done s)(i := 0)\<rparr>"
  have steps: "spec_steps (members cfg) s s'"
    unfolding s'_def by (intro r_into_rtranclp spec_step.restart)
  have "replica_sim s' i ?n'"
    using replica_okD(3,4) [OF ok] b by (simp add: replica_sim_def s'_def boot_node_frame comp_def)
  then have rok: "replica_ok dir T (members cfg) s' (vote_keys (calls c')) i ?n'"
    by (intro replica_ok_follower reach.crash replica_okD(1) [OF ok] mem) (simp_all add: boot_node_frame)
  have "cluster_sim dir T (members cfg) c' s'"
  proof (rule cluster_sim_update [OF sim steps i _ rok _ c'(1)])
    show "keys_ok (members cfg) (reps c') (vote_keys (calls c'))"
      using cluster_simD(4) [OF sim] unfolding c'(2) by (rule keys_ok_mono) (use b c'(1) in simp_all)
    show "sp_chain s' u \<noteq> None \<longleftrightarrow> u \<in> led c'" for u
      using cluster_simD(5) [OF sim] by (simp add: s'_def c'(3))
  qed (use c' b in \<open>auto simp: s'_def cand_stable_def boot_node_frame\<close>)
  then show ?thesis
    using steps by blast
qed

section \<open>The refinement\<close>

text \<open>A cluster whose configuration and storage the model can start from.\<close>

definition sound_setup :: "LogEntry cxx_type \<Rightarrow> (int, ServerInfo) omap \<Rightarrow> bool" where
  "sound_setup T cfg \<longleftrightarrow> object_layout (t_size T) entry_ok (t_enc T) (t_dec T) \<and> om_ok cfg \<and> (\<forall>i \<in> members cfg. i32_ok i)"

lemma setup_indices:
  assumes "cluster_sim dir T (members cfg) c s" and "i \<in> members cfg" and "sound_setup T cfg"
  shows "node_inv (reps c i)" "-1 \<le> CommitIndex (reps c i)" "LastApplied (reps c i) = CommitIndex (reps c i)"
    "CommitIndex (reps c i) < int (length (log_of (reps c i)))"
  using sim_indices [OF assms(1,2)] assms(3) by (simp_all add: sound_setup_def)

lemma sim_init:
  assumes init: "cluster_init dir T cfg c" and ss: "sound_setup T cfg"
  shows "cluster_sim dir T (members cfg) c spec_init"
proof -
  have "replica_ok dir T (members cfg) spec_init {#} i (reps c i)" if i: "i \<in> members cfg" for i
  proof -
    obtain sv fs where b: "reps c i = boot_node T i False dir cfg sv fs"
      using init i by (auto simp: cluster_init_def)
    have "member_ok (members cfg) i (reps c i)"
      unfolding b using ss by (intro boot_member) (simp_all add: sound_setup_def boot_node_new)
    then show ?thesis
      by (intro replica_ok_follower) (simp_all add: b reach.first replica_sim_def spec_init_def boot_node_new boot_node_frame(4,5))
  qed
  then show ?thesis
    using init spec_inv_init by (auto simp: cluster_sim_def cluster_init_def vote_keys_def keys_ok_def spec_init_def)
qed

lemma sim_net:
  assumes sim: "cluster_sim dir T (members cfg) c s" and step: "net_step True cfg c c'" and ss: "sound_setup T cfg"
  shows "\<exists>s'. spec_steps (members cfg) s s' \<and> cluster_sim dir T (members cfg) c' s'"
proof -
  have lay: "object_layout (t_size T) entry_ok (t_enc T) (t_dec T)" "\<forall>i \<in> members cfg. i32_ok i"
    using ss by (simp_all add: sound_setup_def)
  have refl: ?thesis if "cluster_sim dir T (members cfg) c' s"
    using that by blast
  from step show ?thesis
  proof cases
    case (idle i n')
    then show ?thesis
      using refl sim_local [OF sim _ local_step.idle] by blast
  next
    case (timer i tmo now ths n')
    then show ?thesis
      using sim_timer [OF sim] lay by blast
  next
    case (ask i p t rest)
    then show ?thesis
      using refl sim_ask [OF sim] by blast
  next
    case (vote i p t a rest now reply n')
    then show ?thesis
      using sim_vote [OF sim] lay by blast
  next
    case (count i p t reply rest n' now elected)
    then show ?thesis
      using sim_count [OF sim count(2-4)] by simp
  next
    case (prepare i p t rest k a n')
    then show ?thesis
      using sim_prepare [OF sim _ _ _ _ lay(1,2)] by blast
  next
    case (deliver i p t k a rest now reply n')
    then show ?thesis
      using sim_deliver [OF sim _ _ lay(1,2)] by blast
  next
    case (reply i p t k sent rep rest now n')
    then show ?thesis
      using sim_reply [OF sim _ _ _ lay(1,2)] by blast
  next
    case (lose remaining lost)
    then show ?thesis
      using refl sim_lose [OF sim] by blast
  qed
qed

lemma sim_step:
  assumes sim: "cluster_sim dir T (members cfg) c s" and step: "cluster_step True dir T cfg c c'" and ss: "sound_setup T cfg"
  shows "\<exists>s'. spec_steps (members cfg) s s' \<and> cluster_sim dir T (members cfg) c' s'"
  using step
proof cases
  case net
  then show ?thesis
    by (rule sim_net [OF sim _ ss])
next
  case (local i n')
  then show ?thesis
    using sim_local [OF sim] by blast
next
  case (round i ths n')
  then show ?thesis
    using sim_round [OF sim] by blast
next
  case (crash i sv)
  then show ?thesis
    using sim_crash [OF sim crash(2)] ss by (simp add: sound_setup_def)
qed

section \<open>What the executers are handed\<close>

text \<open>The commit index never falls while the log still covers it.\<close>

lemma node_step_mono:
  assumes step: "node_step n es n'" and inv: "node_inv n" and "CommitIndex n < int (length (log_of n))" "CommitIndex n < int (length (log_of n'))"
  shows "CommitIndex n \<le> CommitIndex n'"
  using step
proof cases
  case quiet
  then show ?thesis
    using quiet_step_frame by (force simp: quiet_frame_def)
next
  case (append a now)
  then obtain reply where r: "AppendEntries a now n = Inr (reply, n')"
    by (auto simp: step_append_def)
  then show ?thesis
  proof (cases rule: AppendEntries_cases)
    case (stored n4)
    have "CommitIndex n4 = CommitIndex n" "LastApplied n4 = LastApplied n" "Logs n' = Logs n4"
      using store_entries_keeps [OF stored(5)] follower_commit_keeps [OF stored(6)] by simp_all
    then show ?thesis
      using follower_commit_ok [of n4 "ae_leaderCommit a"] stored(6) inv assms(4) by (auto simp: node_inv_def Let_def)
  qed simp
next
  case (run ths)
  then show ?thesis
    using run_frame by auto
next
  case (reply rep peer saved k sent now)
  have idx: "-1 \<le> CommitIndex n" "LastApplied n = CommitIndex n"
    using inv by (simp_all add: node_inv_def)
  show ?thesis
    using reply(2) idx(1) assms(3) idx(2)
  proof (cases rule: reply_outcome)
    case (matched n3)
    then show ?thesis
      using new_commit_bounds(1) [of "leader_matched peer (k + int sent) n"] assms(3) by auto
  qed simp_all
next
  case execTake
  then show ?thesis
    by (simp add: executer_take_def)
next
  case (execute dbget dbput db db')
  then show ?thesis
    using execute_frame [OF execute(2)] by simp
next
  case (get key ft pc)
  then show ?thesis
    using request_shape [of GET "ArgKey key" "-1" ft n pc n'] by (simp add: get_begin_def local_frame_def)
next
  case (put kvp ft pc)
  then show ?thesis
    using request_shape [of PUT "ArgPair (fst kvp) (snd kvp)" 0 ft n pc n'] by (simp add: put_begin_def local_frame_def)
qed

text \<open>What a step does to the replicas and to what was handed over.\<close>

definition hands_over :: "cluster \<Rightarrow> int \<Rightarrow> node \<Rightarrow> cluster \<Rightarrow> bool" where
  "hands_over c i n' c' \<longleftrightarrow> (\<exists>es. node_step (reps c i) es n' \<and> reps c' = (reps c)(i := n') \<and> fed c' = (fed c)(i := fed c i @ es))"

lemma hands_over_quiet:
  assumes "quiet_step (reps c i) n'"
  shows "hands_over c i n' (set_rep i n' c\<lparr>calls := cs\<rparr>)" "hands_over c i n' (set_rep i n' c\<lparr>calls := cs, led := l\<rparr>)"
  using node_step.quiet [OF assms] quiet_step_frame [OF assms] by (auto simp: hands_over_def set_rep_def quiet_frame_def)

lemma hands_over_step:
  assumes "node_step (reps c i) es n'" and "raftOut n' = raftOut (reps c i) @ es"
  shows "hands_over c i n' (set_rep i n' c\<lparr>calls := cs\<rparr>)"
  using assms by (auto simp: hands_over_def set_rep_def)

lemma hands_over_local: "local_step (reps c i) n' \<Longrightarrow> hands_over c i n' (c\<lparr>reps := (reps c)(i := n')\<rparr>)"
  unfolding hands_over_def by (intro exI [of _ "[]"]) (simp add: local_node_step)

lemma net_outcome:
  assumes sim: "cluster_sim dir T (members cfg) c s" and step: "net_step True cfg c c'" and ss: "sound_setup T cfg"
  obtains (same) "reps c' = reps c" "fed c' = fed c"
  | (moved) i n' where "i \<in> members cfg" "hands_over c i n' c'"
proof -
  have lay: "object_layout (t_size T) entry_ok (t_enc T) (t_dec T)" "\<forall>i \<in> members cfg. i32_ok i"
    using ss by (simp_all add: sound_setup_def)
  from step show ?thesis
  proof cases
    case (idle i n')
    then show ?thesis
      using moved hands_over_local [OF local_step.idle] by blast
  next
    case (timer i tmo now ths n')
    then show ?thesis
      using moved hands_over_quiet(1) [OF quiet_step.election] by blast
  next
    case (vote i p t a rest now reply n')
    have "p \<in> members cfg" "step_vote a now (reps c p) n'"
      using cluster_simD(3) [OF sim, of "VoteSent i p t a"] vote lay(2) by (auto simp: step_vote_def)
    then show ?thesis
      using moved hands_over_quiet(1) [OF quiet_step.vote] vote by blast
  next
    case (count i p t reply rest n' now elected)
    have "i \<in> members cfg" "i32_ok (rvr_term reply)"
      using cluster_simD(3) [OF sim, of "VoteDone i p t reply"] count by auto
    then show ?thesis
      using moved hands_over_quiet(2) [OF quiet_step.voteReply] count by blast
  next
    case (prepare i p t rest k a n')
    have "i \<in> members cfg"
      using cluster_simD(3) [OF sim, of "AppendStart i p t"] prepare by auto
    then show ?thesis
      using moved hands_over_quiet(1) [OF quiet_step.prepare] prepare by blast
  next
    case (deliver i p t k a rest now reply n')
    have p: "p \<in> members cfg" "step_append a now (reps c p) n'"
      using cluster_simD(3) [OF sim, of "AppendSent i p t k a"] deliver by (auto simp: step_append_def)
    obtain es where "raftOut n' = raftOut (reps c p) @ es"
      using AppendEntries_queue [OF deliver(3)] sim_indices(1) [OF sim p(1) lay] by (auto simp: node_inv_def)
    then show ?thesis
      using moved [OF p(1)] hands_over_step [OF node_step.append [OF p(2)]] deliver by blast
  next
    case (reply i p t k sent rep rest now n')
    obtain out where "i \<in> members cfg" "raftOut n' = raftOut (reps c i) @ out" "node_step (reps c i) out n'"
      using reply_queue [OF sim _ reply(3) lay] reply(2) by auto
    then show ?thesis
      using moved hands_over_step reply(1) by blast
  qed (auto intro: same)
qed

lemma step_outcome:
  assumes sim: "cluster_sim dir T (members cfg) c s" and step: "cluster_step True dir T cfg c c'" and ss: "sound_setup T cfg"
  obtains (same) "reps c' = reps c" "fed c' = fed c"
  | (moved) i n' where "i \<in> members cfg" "hands_over c i n' c'"
  | (crashed) i sv where "i \<in> members cfg" "reps c' = (reps c)(i := boot_node T i True dir cfg sv (disk (reps c i)))" "fed c' = (fed c)(i := [])"
  using step
proof cases
  case net
  then show ?thesis
    using net_outcome [OF sim _ ss] same moved by blast
next
  case (local i n')
  then show ?thesis
    using moved hands_over_local by blast
next
  case (round i ths n')
  have "hands_over c i n' c'"
    unfolding round(1) by (rule hands_over_step [OF node_step.run [OF round(3)]]) (simp add: run_frame [OF round(3)])
  then show ?thesis
    using moved [OF round(2)] by blast
next
  case (crash i sv)
  then show ?thesis
    by (intro crashed [of i sv]) simp_all
qed

text \<open>An executer has been handed exactly the operations its replica has committed since it started.\<close>

definition fed_committed :: "int set \<Rightarrow> cluster \<Rightarrow> bool" where
  "fed_committed M c \<longleftrightarrow> (\<forall>i \<in> M. map withoutPromise (fed c i) = map log_op (committed (reps c i)))"

lemma fed_step:
  assumes sim: "cluster_sim dir T (members cfg) c s" and step: "cluster_step True dir T cfg c c'" and ss: "sound_setup T cfg"
    and steps: "spec_steps (members cfg) s s'" and sim': "cluster_sim dir T (members cfg) c' s'" and fed: "fed_committed (members cfg) c"
  shows "fed_committed (members cfg) c'"
  using sim step ss
proof (cases rule: step_outcome)
  case same
  then show ?thesis
    using fed by (simp add: fed_committed_def)
next
  case (crashed i sv)
  then show ?thesis
    using fed by (auto simp: fed_committed_def committed_def boot_node_frame)
next
  case (moved i n')
  let ?n = "reps c i"
  obtain es where es: "node_step ?n es n'" "reps c' = (reps c)(i := n')" "fed c' = (fed c)(i := fed c i @ es)"
    using moved(2) by (auto simp: hands_over_def)
  note ok = cluster_simD(2) [OF sim moved(1)] and ok' = cluster_simD(2) [OF sim' moved(1)]
  note inv = setup_indices(1) [OF sim moved(1) ss] and idx = setup_indices(2-4) [OF sim moved(1) ss]
  have keep: "take (nat (CommitIndex ?n + 1)) (stripped (log_of n')) = committed ?n"
    using spec_steps_keep_prefix [OF steps cluster_simD(1) [OF sim], of i] replica_okD(4,5) [OF ok] replica_okD(4) [OF ok'] es(2)
    by (simp add: committed_def)
  then have "CommitIndex ?n < int (length (log_of n'))"
    using take_eq_length [OF keep [unfolded committed_def]] idx(3,1) by (simp add: nat_le_iff)
  then have "keeps_committed ?n n'"
    using keep node_step_mono [OF es(1) inv idx(3)] by (simp add: keeps_committed_def)
  then have "map log_op (committed n') = map log_op (committed ?n) @ map withoutPromise es"
    using committed_step node_step_commits [OF es(1) inv] idx by blast
  then show ?thesis
    using fed moved(1) es(2,3) by (simp add: fed_committed_def)
qed

lemma reach_sim:
  assumes "cluster_reach True dir T cfg c" and ss: "sound_setup T cfg"
  shows "\<exists>s. spec_reach (members cfg) s \<and> cluster_sim dir T (members cfg) c s \<and> fed_committed (members cfg) c"
  using assms(1)
proof induction
  case (init c)
  then have "fed_committed (members cfg) c"
    by (fastforce simp: cluster_init_def fed_committed_def committed_def boot_node_new)
  then show ?case
    using spec_reach.init sim_init [OF init ss] by blast
next
  case (step c c')
  then obtain s where s: "spec_reach (members cfg) s" "cluster_sim dir T (members cfg) c s" "fed_committed (members cfg) c"
    by blast
  then obtain s' where s': "spec_steps (members cfg) s s'" "cluster_sim dir T (members cfg) c' s'"
    using sim_step [OF _ step.hyps(2) ss] by blast
  then show ?case
    using spec_steps_reach [OF s(1)] fed_step [OF s(2) step.hyps(2) ss s' s(3)] by blast
qed

end
