(* ===== verification/ClusterRuns.thy ===== *)
theory ClusterRuns
  imports ClusterSafety "HOL-Library.Sublist"
begin

text \<open>
  Runs of a cluster of three, from the first start: an election, a write and its commit. They show that
  the machine can do what the theorems on it are about, and how far the unchecked steps of the code
  lead.
\<close>

section \<open>One write, step by step\<close>

definition put_op :: "int \<times> int \<Rightarrow> RaftOp" where
  "put_op kvp = \<lparr>kind = PUT, args = ArgPair (fst kvp) (snd kvp), promiseHandle = None\<rparr>"

definition leads3 :: "int \<Rightarrow> node \<Rightarrow> bool" where
  "leads3 i n \<longleftrightarrow> Role n = Leader \<and> CurrentTerm n = 1 \<and> CommitIndex n = -1 \<and> LastApplied n = -1 \<and> ClusterConfig n = config3 \<and> my_id n = i
     \<and> om_ok (peers n) \<and> set (om_keys (peers n)) = {0, 1, 2} - {i} \<and> (\<forall>p \<in> {0, 1, 2} - {i}. om_find (NextIndex n) p = Some 0)"

text \<open>A leader nobody has asked for anything.\<close>

definition idle_leader :: "int \<Rightarrow> node \<Rightarrow> bool" where
  "idle_leader i n \<longleftrightarrow> leads3 i n \<and> log_of n = [] \<and> dispatchOut n = [] \<and> services n = no_clients \<and> raftOut n = [] \<and> execIn n = []"

lemma idle_leaderD: "idle_leader i n \<Longrightarrow> leads3 i n" "idle_leader i n \<Longrightarrow> log_of n = []" "idle_leader i n \<Longrightarrow> dispatchOut n = []"
  by (simp_all add: idle_leader_def)

definition client_op :: "RaftOp \<Rightarrow> bool" where
  "client_op op \<longleftrightarrow> (kind op = GET \<or> kind op = PUT) \<and> promiseHandle op = None"

lemma client_op:
  assumes "client_op op"
  shows "withoutPromise op = op" "\<lparr>kind = kind op, args = args op, promiseHandle = None\<rparr> = op" "kind op \<noteq> ADD_SERVER" "kind op \<noteq> REMOVE_SERVER"
  using assms by (auto simp: client_op_def withoutPromise_def)

lemma client_op_put [simp]: "client_op (put_op kvp)"
  by (simp add: client_op_def put_op_def)

definition op_entry :: "RaftOp \<Rightarrow> LogEntry" where
  "op_entry op = \<lparr>log_term = 1, log_op = op\<rparr>"

abbreviation write_entry :: "int \<times> int \<Rightarrow> LogEntry" where
  "write_entry kvp \<equiv> op_entry (put_op kvp)"

definition op_request :: "int \<Rightarrow> RaftOp \<Rightarrow> AppendEntriesParams" where
  "op_request i op = \<lparr>ae_term = 1, ae_leaderId = i, ae_prevLogIndex = -1, ae_prevLogTerm = -1,
     ae_entries = [\<lparr>ale_term = 1, ale_index = 0, ale_op = op\<rparr>], ae_leaderCommit = -1\<rparr>"

text \<open>What a round leaves alone, beside the log.\<close>

definition round_kept :: "node \<Rightarrow> node \<Rightarrow> bool" where
  "round_kept n n' \<longleftrightarrow> Role n' = Role n \<and> CurrentTerm n' = CurrentTerm n \<and> CommitIndex n' = CommitIndex n \<and> LastApplied n' = LastApplied n
     \<and> ClusterConfig n' = ClusterConfig n \<and> my_id n' = my_id n \<and> peers n' = peers n \<and> NextIndex n' = NextIndex n \<and> MatchIndex n' = MatchIndex n
     \<and> raftOut n' = raftOut n \<and> execIn n' = execIn n"

lemma empty_round:
  assumes "dispatchOut n = []" "raftIn n = []"
  shows "runLeaderOneIter (raft_take n) = Inr (map (\<lambda>p. (p, CurrentTerm n)) (om_keys (peers n)), persist_logs (raft_take n))"
    "round_kept n (persist_logs (raft_take n))" "services (persist_logs (raft_take n)) = services n"
  using assms by (simp_all add: runLeaderOneIter_def leader_append_def raft_take_def persist_logs_def case_prod_beta round_kept_def)

text \<open>A leader takes an operation of a client over and puts it into its log.\<close>

lemma op_logged:
  assumes "Role n = Leader" "dispatchOut n = []" and op: "client_op op"
  obtains n1 ths n2 q where "request_begin (kind op) (args op) v ft n = Inr (Await ft, n1)" "runLeaderOneIter (raft_take n1) = Inr (ths, n2)"
    "ths = map (\<lambda>p. (p, CurrentTerm n)) (om_keys (peers n))" "round_kept n n2" "Role (raft_take n1) = Leader"
    "log_of n2 = log_of n @ [\<lparr>log_term = CurrentTerm n, log_op = q\<rparr>]" "withoutPromise q = op" "promiseHandle q = Some (next_node (promises (services n)))"
    "services n2 = (services n)\<lparr>promises := snd (ps_insert ft (promises (services n)))\<rparr>" "dispatchOut n2 = raftIn n" "kind q = kind op" "args q = args op"
proof -
  define q where "q = \<lparr>kind = kind op, args = args op, promiseHandle = Some (next_node (promises (services n)))\<rparr>"
  define n1 where "n1 = n\<lparr>services := (services n)\<lparr>promises := snd (ps_insert ft (promises (services n)))\<rparr>,
    dispatchOut := [q], moreInputsReady := tts_signal (moreInputsReady n)\<rparr>"
  define n2 where "n2 = persist_logs ((raft_take n1)\<lparr>Logs := pvec_push_back \<lparr>log_term = CurrentTerm n, log_op = q\<rparr> (Logs n)\<rparr>)"
  have put: "request_begin (kind op) (args op) v ft n = Inr (Await ft, n1)"
    using assms(1,2) by (simp add: request_begin_def submit_def n1_def q_def ps_insert_def)
  have run: "runLeaderOneIter (raft_take n1) = Inr (map (\<lambda>p. (p, CurrentTerm n)) (om_keys (peers n)), n2)"
    using client_op(3,4) [OF op] by (simp add: runLeaderOneIter_def leader_append_def Let_def raft_take_def n1_def n2_def q_def apply_config_plain
        persist_logs_def case_prod_beta)
  show ?thesis
    using that [OF put run refl, of q] assms(1) client_op(2) [OF op]
    by (simp add: n2_def n1_def q_def raft_take_def round_kept_def persist_logs_def case_prod_beta withoutPromise_def)
qed

lemma op_submitted:
  assumes n: "leads3 i n" "log_of n = []" "dispatchOut n = []" and op: "client_op op"
  obtains n1 ths n2 q where "request_begin (kind op) (args op) v ft n = Inr (Await ft, n1)" "runLeaderOneIter (raft_take n1) = Inr (ths, n2)"
    "ths = map (\<lambda>p. (p, 1)) (om_keys (peers n))" "leads3 i n2" "stripped (log_of n2) = [op_entry op]" "Role (raft_take n1) = Leader"
    "log_of n2 = [\<lparr>log_term = 1, log_op = q\<rparr>]" "kind q = kind op" "args q = args op" "promiseHandle q = Some (next_node (promises (services n)))"
    "services n2 = (services n)\<lparr>promises := snd (ps_insert ft (promises (services n)))\<rparr>" "raftOut n2 = raftOut n" "execIn n2 = execIn n"
proof -
  have l: "Role n = Leader" "CurrentTerm n = 1"
    using n(1) by (simp_all add: leads3_def)
  obtain n1 ths n2 q where w: "request_begin (kind op) (args op) v ft n = Inr (Await ft, n1)" "runLeaderOneIter (raft_take n1) = Inr (ths, n2)"
      "ths = map (\<lambda>p. (p, CurrentTerm n)) (om_keys (peers n))" "round_kept n n2" "Role (raft_take n1) = Leader"
      "log_of n2 = log_of n @ [\<lparr>log_term = CurrentTerm n, log_op = q\<rparr>]" "withoutPromise q = op" "promiseHandle q = Some (next_node (promises (services n)))"
      "services n2 = (services n)\<lparr>promises := snd (ps_insert ft (promises (services n)))\<rparr>" "kind q = kind op" "args q = args op"
    by (rule op_logged [OF l(1) n(3) op, of v ft]) (rule that)
  have "leads3 i n2" "raftOut n2 = raftOut n" "execIn n2 = execIn n"
    using n(1) w(4) by (simp_all add: leads3_def round_kept_def)
  moreover have "stripped (log_of n2) = [op_entry op]"
    using n(2) w(6,7) l(2) by (simp add: op_entry_def strip_entry_def)
  ultimately show ?thesis
    using that [OF w(1,2)] w n(2) l(2) by simp
qed

lemma op_prepared:
  assumes "leads3 i n" and "stripped (log_of n) = [op_entry op]" and "p \<in> {0, 1, 2} - {i}" and op: "client_op op"
  shows "leader_prepare p 1 n = Inr ((0, op_request i op), n)"
proof -
  have "entries_from 0 (log_of n) = entries_from 0 [op_entry op]"
    using entries_from_strip [of 0 "log_of n"] assms(2) by simp
  then have "entries_from 0 (log_of n) = [\<lparr>ale_term = 1, ale_index = 0, ale_op = op\<rparr>]"
    using client_op(1) [OF op] by (simp add: entries_from_def op_entry_def)
  then show ?thesis
    using leader_prepare_ok [of n p 0 1] assms(1,3) by (simp add: op_request_def leads3_def)
qed

lemma op_delivered:
  assumes "Role n \<noteq> Dead" "CurrentTerm n \<le> 1" "-1 \<le> CommitIndex n" and log: "log_of n = [] \<or> (\<exists>e. log_of n = [e] \<and> log_term e = 1)" and op: "client_op op"
  obtains n' where "AppendEntries (op_request i op) now n = Inr (\<lparr>aer_term = 1, aer_success = True\<rparr>, n')"
    "log_of n' = (if log_of n = [] then [op_entry op] else log_of n)" "Role n' = Follower" "CurrentTerm n' = 1" "CommitIndex n' = CommitIndex n"
proof -
  let ?a = "op_request i op"
  let ?n = "ae_stepdown ?a now n"
  have t: "CurrentTerm n \<le> ae_term ?a"
    using assms(2) by (simp add: op_request_def)
  have "\<exists>n4. store_entries ?a ?n = Inr n4"
    using log client_op(3,4) [OF op] by (auto simp: store_entries_def match_loop_agree op_request_def apply_config_plain)
  then obtain n4 where n4: "store_entries ?a ?n = Inr n4"
    by blast
  have l: "log_of n4 = ae_merge (log_of n) 0 (ae_entries ?a)"
    using store_entries_log [OF n4] by (simp add: op_request_def)
  then have "log_of n4 = (if log_of n = [] then [op_entry op] else log_of n)"
    using log by (auto simp: ae_merge_def op_request_def op_entry_def entry_of_def)
  moreover have "prev_matches (log_of n) (ae_prevLogIndex ?a) (ae_prevLogTerm ?a) = Inr True"
    by (simp add: op_request_def prev_matches_def)
  moreover have "follower_commit (ae_leaderCommit ?a) n4 = Inr n4"
    using store_entries_keeps [OF n4] assms(3) by (simp add: follower_commit_def op_request_def)
  moreover have "Role n4 = Follower" "CurrentTerm n4 = 1" "CommitIndex n4 = CommitIndex n"
    using store_entries_keeps [OF n4] ae_stepdown_term [OF t, of now] by (simp_all add: op_request_def)
  ultimately show ?thesis
    using that [of n4] n4 by (simp add: AppendEntries_current [OF assms(1) t])
qed

lemma op_answered:
  assumes n: "leads3 i n" and log: "stripped (log_of n) = [op_entry op]" and p: "i \<in> {0, 1, 2}" "p \<in> {0, 1, 2} - {i}"
  obtains n' where "leader_reply p 1 0 1 \<lparr>aer_term = 1, aer_success = True\<rparr> now n = Inr n'" "CommitIndex n' = 0" "Logs n' = Logs n" "CurrentTerm n' = 1"
    "raftOut n' = raftOut n @ map log_op (log_of n)" "services n' = services n" "execIn n' = execIn n"
proof -
  let ?m = "leader_matched p (0 + int 1) n"
  have f: "ClusterConfig n = config3" "my_id n = i"
    using n by (simp_all add: leads3_def)
  obtain e where e: "log_of n = [e]" "log_term e = 1"
    using log by (cases "log_of n") (auto simp: op_entry_def dest: arg_cong [of _ _ log_term])
  then have len: "length (log_of n) = 1" and "log_term (log_of n ! 0) = 1"
    by simp_all
  then have "log_term (log_of ?m ! nat 0) = CurrentTerm ?m"
    using n by (simp add: leads3_def)
  moreover have "p \<in> set (filter (\<lambda>p. 0 \<le> match_value (MatchIndex ?m) p) (om_keys (peers n)))"
    using n p(2) by (simp add: leads3_def leader_matched_def)
  then have "1 \<le> length (filter (\<lambda>p. 0 \<le> match_value (MatchIndex ?m) p) (om_keys (peers n)))"
    by (metis length_pos_if_in_set Suc_leI One_nat_def)
  then have "2 \<le> holders ?m 0"
    using f p(1) by (auto simp: holders_def config3_def simp del: One_nat_def)
  then have "length (ClusterConfig ?m) < 2 * holders ?m 0"
    using f(1) by (simp add: config3_def)
  ultimately have "committable ?m 0"
    by (simp add: committable_def)
  then have "0 \<le> new_commit ?m" "new_commit ?m < 1"
    using new_commit_max [of ?m 0] new_commit_bounds(2) [of ?m] n len by (simp_all add: leads3_def)
  then have nc: "new_commit ?m = 0"
    by simp
  obtain n3 where n3: "leader_reply p 1 0 1 \<lparr>aer_term = 1, aer_success = True\<rparr> now n = Inr
      (n3\<lparr>raftOut := raftOut n @ map log_op (segment (LastApplied n + 1) (CommitIndex n3) (log_of n)),
          LastApplied := CommitIndex n3, moreExecJobsReady := tts_signal (moreExecJobsReady n3)\<rparr>)"
    "scan_frame ?m n3" "CommitIndex n3 = 0"
    using leader_reply_success [of n "\<lparr>aer_term = 1, aer_success = True\<rparr>" 1 p 0 1 now] n len nc by (auto simp: leads3_def)
  moreover have "segment 0 0 (log_of n) = log_of n"
    by (simp add: segment_def e(1))
  ultimately show ?thesis
    using that [OF n3(1)] n by (auto simp: scan_frame_def leads3_def leader_matched_def)
qed

section \<open>Runs of the cluster\<close>

abbreviation net3 :: "bool \<Rightarrow> cluster \<Rightarrow> cluster \<Rightarrow> bool" where
  "net3 strict \<equiv> (net_step strict config3)\<^sup>*\<^sup>*"

abbreviation run3 :: "bool \<Rightarrow> cluster \<Rightarrow> bool" where
  "run3 strict c \<equiv> cluster_reach strict ''d'' flat_entry config3 c"

definition cluster3 :: cluster where
  "cluster3 = \<lparr>reps = replica, calls = {#}, led = {}, fed = (\<lambda>_. [])\<rparr>"

lemma members3: "members config3 = {0, 1, 2}"
  by (auto simp: config3_def om_keys_def)

lemma sound_setup3: "sound_setup flat_entry config3"
  using flat_layout by (auto simp: sound_setup_def config3_def om_keys_def i32_ok_def)

lemma run3_start: "run3 strict cluster3"
  by (intro cluster_reach.init) (auto simp: cluster_init_def cluster3_def replica_def)

lemma net3_steps: "net_step strict config3 c0 c1 \<Longrightarrow> net_step strict config3 c1 c2 \<Longrightarrow> net_step strict config3 c2 c3 \<Longrightarrow> net3 strict c0 c3"
  by (rule rtranclp.rtrancl_into_rtrancl [OF rtranclp.rtrancl_into_rtrancl [OF r_into_rtranclp]])

lemma run3_net:
  assumes "net3 strict c c'" and "run3 strict c"
  shows "run3 strict c'"
  using assms by induction (blast intro: cluster_reach.step cluster_step.net)+

lemma set_rep_simps [simp]: "reps (set_rep i n c) = (reps c)(i := n)" "calls (set_rep i n c) = calls c" "led (set_rep i n c) = led c"
  by (simp_all add: set_rep_def)

lemma run_election:
  assumes c: "reps c i = replica i" "i \<in> {0, 1, 2}" "p \<in> {0, 1, 2} - {i}" "strict \<longrightarrow> 1 \<notin> led c"
    and granted: "RequestVote (vote_prepare 1 (candidate i)) now (reps c p) = (\<lparr>rvr_term = 1, rvr_voteGranted = True\<rparr>, b)"
  obtains c' where "net3 strict c c'" "reps c' = (reps c)(i := becomeLeader now ((candidate i)\<lparr>VotesReceived := 2\<rparr>), p := b)" "led c' = insert 1 (led c)"
proof -
  let ?ok = "\<lparr>rvr_term = 1, rvr_voteGranted = True\<rparr>"
  let ?x = "VoteStart i p 1"
  let ?l = "becomeLeader now ((candidate i)\<lparr>VotesReceived := 2\<rparr>)"
  define c1 where "c1 = (set_rep i (candidate i) c)\<lparr>calls := calls c + mset (map (\<lambda>(p, t). VoteStart i p t) (map (\<lambda>p. (p, 1)) (om_keys (peers (replica i)))))\<rparr>"
  have s1: "net_step strict config3 c c1"
    unfolding c1_def by (rule net_step.timer) (use candidate_starts c in \<open>auto simp: members3\<close>)
  have "p \<in> set (om_keys (peers (replica i)))"
    using replica_peers [of i p] om_find_mem_keys [of "peers (replica i)" p] c(3) by auto
  then have x: "?x \<in># calls c1"
    by (auto simp: c1_def image_iff)
  define rest where "rest = calls c1 - {#?x#}"
  define c2 where "c2 = c1\<lparr>calls := add_mset (VoteSent i p 1 (vote_prepare 1 (candidate i))) rest\<rparr>"
  have s2: "net_step strict config3 c1 c2"
    using net_step.ask [of c1 i p 1 rest strict config3] x by (simp add: c2_def rest_def c1_def)
  define c3 where "c3 = (set_rep p b c2)\<lparr>calls := add_mset (VoteDone i p 1 ?ok) rest\<rparr>"
  have s3: "net_step strict config3 c2 c3"
    unfolding c3_def by (rule net_step.vote) (use granted c in \<open>auto simp: c2_def c1_def\<close>)
  define c4 where "c4 = (set_rep i ?l c3)\<lparr>calls := rest, led := insert 1 (led c3)\<rparr>"
  have l: "Role ?l = Leader" "CurrentTerm ?l = 1"
    by simp_all
  have same: "reps c3 i = candidate i" "led c3 = led c"
    using c by (auto simp: c3_def c2_def c1_def)
  have "net_step strict config3 c3 ((set_rep i ?l c3)\<lparr>calls := rest, led := if True then insert (CurrentTerm ?l) (led c3) else led c3\<rparr>)"
    by (rule net_step.count [where t = 1 and reply = ?ok and p = p and now = now]) (use c(4) same candidate_wins l in \<open>auto simp: c3_def\<close>)
  then have s4: "net_step strict config3 c3 c4"
    using l(2) by (simp add: c4_def)
  have "reps c4 = (reps c)(i := ?l, p := b)"
    using c(3) by (auto simp: c4_def c3_def c2_def c1_def fun_eq_iff)
  moreover have "led c4 = insert 1 (led c)"
    using same(2) by (simp add: c4_def)
  ultimately show ?thesis
    using that net3_steps [OF s1 s2 s3] s4 by (meson rtranclp.rtrancl_into_rtrancl)
qed

lemma run_submit:
  assumes run: "run3 strict c" and i: "i \<in> {0, 1, 2}" and n: "leads3 i (reps c i)" "log_of (reps c i) = []" "dispatchOut (reps c i) = []"
    and v: "i32_ok (fst kvp)" "i32_ok (snd kvp)"
  obtains c' where "run3 strict c'" "leads3 i (reps c' i)" "stripped (log_of (reps c' i)) = [write_entry kvp]" "\<forall>j. j \<noteq> i \<longrightarrow> reps c' j = reps c j"
    "\<forall>p \<in> {0, 1, 2} - {i}. AppendStart i p 1 \<in># calls c'"
proof -
  obtain n1 ths n2 where w: "put_begin kvp 0 (reps c i) = Inr (Await 0, n1)" "runLeaderOneIter (raft_take n1) = Inr (ths, n2)"
      "ths = map (\<lambda>p. (p, 1)) (om_keys (peers (reps c i)))" "leads3 i n2" "stripped (log_of n2) = [write_entry kvp]" "Role (raft_take n1) = Leader"
    by (rule op_submitted [OF n client_op_put, of kvp 0 0]) (use that in \<open>simp add: put_begin_def put_op_def\<close>)
  define c1 where "c1 = c\<lparr>reps := (reps c)(i := n1)\<rparr>"
  have s1: "cluster_step strict ''d'' flat_entry config3 c c1"
    unfolding c1_def by (intro cluster_step.local local_step.put [OF v w(1)]) (use i in \<open>simp add: members3\<close>)
  define c2 where "c2 = c1\<lparr>reps := (reps c1)(i := raft_take n1)\<rparr>"
  have "local_step (reps c1 i) (raft_take n1)"
    using local_step.take [of n1] by (simp add: c1_def)
  then have s2: "cluster_step strict ''d'' flat_entry config3 c1 c2"
    unfolding c2_def by (intro cluster_step.local) (use i in \<open>simp_all add: members3\<close>)
  define c3 where "c3 = (set_rep i n2 c2)\<lparr>calls := calls c2 + mset (map (\<lambda>(p, t). AppendStart i p t) ths)\<rparr>"
  have s3: "cluster_step strict ''d'' flat_entry config3 c2 c3"
    unfolding c3_def by (rule cluster_step.round) (use i w in \<open>auto simp: members3 c2_def\<close>)
  have r: "run3 strict c3"
    using cluster_reach.step [OF cluster_reach.step [OF cluster_reach.step [OF run s1] s2] s3] .
  have "AppendStart i p 1 \<in># calls c3" if "p \<in> {0, 1, 2} - {i}" for p
    using that n(1) by (auto simp: c3_def w(3) leads3_def image_iff)
  then show ?thesis
    using that [OF r] w by (simp add: c3_def c2_def c1_def)
qed

lemma run_commit:
  assumes op: "client_op op" and i: "i \<in> {0, 1, 2}" "p \<in> {0, 1, 2} - {i}" and n: "leads3 i (reps c i)" "stripped (log_of (reps c i)) = [op_entry op]"
    and x: "AppendStart i p 1 \<in># calls c"
    and f: "Role (reps c p) \<noteq> Dead" "CurrentTerm (reps c p) \<le> 1" "-1 \<le> CommitIndex (reps c p)"
      "log_of (reps c p) = [] \<or> (\<exists>e. log_of (reps c p) = [e] \<and> log_term e = 1)"
  obtains c' where "net3 strict c c'" "CommitIndex (reps c' i) = 0" "stripped (log_of (reps c' i)) = [op_entry op]"
    "log_of (reps c' p) = (if log_of (reps c p) = [] then [op_entry op] else log_of (reps c p))" "Role (reps c' p) = Follower" "CurrentTerm (reps c' p) = 1"
    "CommitIndex (reps c' p) = CommitIndex (reps c p)" "\<forall>j. j \<noteq> i \<and> j \<noteq> p \<longrightarrow> reps c' j = reps c j"
    "\<forall>y. y \<in># calls c \<and> y \<noteq> AppendStart i p 1 \<longrightarrow> y \<in># calls c'"
    "raftOut (reps c' i) = raftOut (reps c i) @ map log_op (log_of (reps c i))" "services (reps c' i) = services (reps c i)" "execIn (reps c' i) = execIn (reps c i)"
proof -
  let ?n = "reps c i"
  let ?yes = "\<lparr>aer_term = 1, aer_success = True\<rparr>"
  define rest where "rest = calls c - {#AppendStart i p 1#}"
  have calls: "calls c = add_mset (AppendStart i p 1) rest"
    using x by (simp add: rest_def)
  define c1 where "c1 = (set_rep i ?n c)\<lparr>calls := add_mset (AppendSent i p 1 0 (op_request i op)) rest\<rparr>"
  have s1: "net_step strict config3 c c1"
    unfolding c1_def by (rule net_step.prepare [OF calls op_prepared [OF n i(2) op]]) (use n(1) in \<open>simp add: leads3_def\<close>)
  obtain nf where nf: "AppendEntries (op_request i op) 0 (reps c p) = Inr (?yes, nf)"
      "log_of nf = (if log_of (reps c p) = [] then [op_entry op] else log_of (reps c p))" "Role nf = Follower" "CurrentTerm nf = 1"
      "CommitIndex nf = CommitIndex (reps c p)"
    using op_delivered [OF f op] by blast
  define c2 where "c2 = (set_rep p nf c1)\<lparr>calls := add_mset (AppendDone i p 1 0 (length (ae_entries (op_request i op))) ?yes) rest\<rparr>"
  have s2: "net_step strict config3 c1 c2"
    unfolding c2_def by (rule net_step.deliver) (use nf(1) i in \<open>auto simp: c1_def\<close>)
  obtain nl where nl: "leader_reply p 1 0 1 ?yes 0 ?n = Inr nl" "CommitIndex nl = 0" "Logs nl = Logs ?n" "CurrentTerm nl = 1"
      "raftOut nl = raftOut ?n @ map log_op (log_of ?n)" "services nl = services ?n" "execIn nl = execIn ?n"
    by (rule op_answered [OF n i(1,2), of 0]) (rule that)
  define c3 where "c3 = (set_rep i nl c2)\<lparr>calls := rest\<rparr>"
  have "reps c2 i = ?n" "calls c2 = add_mset (AppendDone i p 1 0 1 ?yes) rest"
    using i by (auto simp: c2_def c1_def op_request_def)
  then have s3: "net_step strict config3 c2 c3"
    unfolding c3_def by (intro net_step.reply) (use nl n(1) in \<open>auto simp: leads3_def\<close>)
  have r: "net3 strict c c3"
    using net3_steps [OF s1 s2 s3] .
  have "y \<in># calls c3" if "y \<in># calls c \<and> y \<noteq> AppendStart i p 1" for y
    using that by (auto simp: c3_def calls)
  then show ?thesis
    using that [OF r] nl nf n(2) i by (auto simp: c3_def c2_def c1_def)
qed

text \<open>A replica with an empty log that has not voted in term 1 votes for a candidate of that term.\<close>

lemma vote_granted:
  assumes "om_find (peers n) i \<noteq> None" "CurrentTerm n \<le> 1" "CurrentTerm n < 1 \<or> VotedFor n = -1" "log_of n = []" "i \<in> {0, 1, 2}"
  obtains n' where "RequestVote (vote_prepare 1 (candidate i)) now n = (\<lparr>rvr_term = 1, rvr_voteGranted = True\<rparr>, n')" "Logs n' = Logs n" "CurrentTerm n' = 1"
    "Role n' = (if CurrentTerm n < 1 then Follower else Role n)" "CommitIndex n' = CommitIndex n" "dispatchOut n' = dispatchOut n"
    "CurrentTerm n = 1 \<Longrightarrow> idle_leader j n \<Longrightarrow> idle_leader j n'"
proof -
  let ?a = "vote_prepare 1 (candidate i)"
  obtain r n' where r: "RequestVote ?a now n = (r, n')"
    by (cases "RequestVote ?a now n")
  have "rvr_voteGranted r"
    using RequestVote_granted_iff [of ?a now n] assms by (auto simp: r vote_prepare_params)
  moreover have t: "CurrentTerm n' = 1" "rvr_term r = 1"
    using RequestVote_state(1,3) [OF r] assms by (simp_all add: vote_prepare_params)
  ultimately have "r = \<lparr>rvr_term = 1, rvr_voteGranted = True\<rparr>"
    by simp
  then have R: "RequestVote ?a now n = (\<lparr>rvr_term = 1, rvr_voteGranted = True\<rparr>, n')"
    using r by simp
  have fr: "peers (snd (RequestVote ?a now n)) = peers n" "ClusterConfig (snd (RequestVote ?a now n)) = ClusterConfig n"
      "NextIndex (snd (RequestVote ?a now n)) = NextIndex n" "services (snd (RequestVote ?a now n)) = services n"
      "raftOut (snd (RequestVote ?a now n)) = raftOut n" "execIn (snd (RequestVote ?a now n)) = execIn n"
    by (simp_all add: RequestVote_def Let_def)
  have "idle_leader j n'" if "CurrentTerm n = 1" "idle_leader j n"
    using that fr t RequestVote_frame(1,2,4,6) [of ?a now n] RequestVote_state(2,5) [OF r] by (simp add: r idle_leader_def leads3_def vote_prepare_params)
  moreover have "CommitIndex n' = CommitIndex n" "dispatchOut n' = dispatchOut n"
    using RequestVote_frame(1,4) [of ?a now n] r by simp_all
  ultimately show ?thesis
    using that [OF R] t RequestVote_state(2,5) [OF r] assms(1) by (auto simp: vote_prepare_params)
qed

lemma replica_idle: "CommitIndex (replica i) = -1" "LastApplied (replica i) = -1" "dispatchOut (replica i) = []" "om_ok (peers (replica i))"
  using boot_member [of config3 flat_entry i False "''d''" no_clients "\<lambda>_. None"] sound_setup3 replica_simps(1) [of i]
  by (simp_all add: replica_def boot_node_frame member_ok_def sound_setup_def)

lemma elected_leads:
  assumes "i \<in> {0, 1, 2}"
  shows "leads3 i (becomeLeader now ((candidate i)\<lparr>VotesReceived := 2\<rparr>))"
proof -
  have keys: "set (om_keys (peers (replica i))) = {0, 1, 2} - {i}"
    using replica_peers [of i] om_find_mem_keys [of "peers (replica i)"] by (auto simp: set_eq_iff)
  show ?thesis
    using replica_idle keys by (simp add: om_find_foldl_put leads3_def becomeLeader_def candidate_def becomeCandidate_def)
qed

lemma elected_idle:
  "log_of (becomeLeader now ((candidate i)\<lparr>VotesReceived := 2\<rparr>)) = []" "dispatchOut (becomeLeader now ((candidate i)\<lparr>VotesReceived := 2\<rparr>)) = []"
  "VotedFor (becomeLeader now ((candidate i)\<lparr>VotesReceived := 2\<rparr>)) = -1"
  by (simp_all add: replica_idle candidate_def becomeCandidate_def)

lemma elected_idle_leader:
  assumes "i \<in> {0, 1, 2}"
  shows "idle_leader i (becomeLeader now ((candidate i)\<lparr>VotesReceived := 2\<rparr>))"
proof -
  have "services (replica i) = no_clients" "raftOut (replica i) = []" "execIn (replica i) = []"
    by (simp_all add: replica_def boot_node_services boot_node_queues)
  then show ?thesis
    using elected_leads [OF assms] elected_idle by (simp add: idle_leader_def candidate_def becomeCandidate_def becomeLeader_def)
qed

text \<open>Replica 0 wins the first election with the vote of replica 1.\<close>

lemma first_leader:
  obtains c where "net3 strict cluster3 c" "idle_leader 0 (reps c 0)" "VotedFor (reps c 0) = -1"
    "Role (reps c 1) = Follower" "CurrentTerm (reps c 1) = 1" "CommitIndex (reps c 1) = -1" "log_of (reps c 1) = []" "reps c 2 = replica 2"
    "om_find (peers (reps c 0)) 2 \<noteq> None"
proof -
  obtain b where b: "RequestVote (vote_prepare 1 (candidate 0)) 0 (replica 1) = (\<lparr>rvr_term = 1, rvr_voteGranted = True\<rparr>, b)" "Logs b = Logs (replica 1)"
      "CurrentTerm b = 1" "Role b = Follower" "CommitIndex b = -1"
    using vote_granted [of "replica 1" 0 0] replica_peers [of 1 0] by (auto simp: replica_idle)
  obtain c where c: "net3 strict cluster3 c" "reps c = (reps cluster3)(0 := becomeLeader 0 ((candidate 0)\<lparr>VotesReceived := 2\<rparr>), 1 := b)"
    using run_election [of cluster3 0 1 strict 0 b] b(1) by (auto simp: cluster3_def)
  show ?thesis
    using that [OF c(1)] c(2) b elected_idle_leader [of 0] elected_idle replica_peers [of 0 2] by (auto simp: cluster3_def)
qed

text \<open>A leader writes and commits with the help of replica 1.\<close>

lemma run_write:
  assumes run: "run3 strict c" and i: "i \<in> {0, 1, 2}" "1 \<in> {0, 1, 2} - {i}" and n: "leads3 i (reps c i)" "log_of (reps c i) = []" "dispatchOut (reps c i) = []"
    and v: "i32_ok (fst kvp)" "i32_ok (snd kvp)"
    and f: "Role (reps c 1) \<noteq> Dead" "CurrentTerm (reps c 1) \<le> 1" "-1 \<le> CommitIndex (reps c 1)"
      "log_of (reps c 1) = [] \<or> (\<exists>e. log_of (reps c 1) = [e] \<and> log_term e = 1)"
  obtains c' where "run3 strict c'" "CommitIndex (reps c' i) = 0" "stripped (log_of (reps c' i)) = [write_entry kvp]"
    "log_of (reps c' 1) = (if log_of (reps c 1) = [] then [write_entry kvp] else log_of (reps c 1))" "Role (reps c' 1) = Follower" "CurrentTerm (reps c' 1) = 1"
    "CommitIndex (reps c' 1) = CommitIndex (reps c 1)" "\<forall>j. j \<noteq> i \<and> j \<noteq> 1 \<longrightarrow> reps c' j = reps c j"
proof -
  obtain c1 where c1: "run3 strict c1" "leads3 i (reps c1 i)" "stripped (log_of (reps c1 i)) = [write_entry kvp]" "\<forall>j. j \<noteq> i \<longrightarrow> reps c1 j = reps c j"
      "\<forall>p \<in> {0, 1, 2} - {i}. AppendStart i p 1 \<in># calls c1"
    using run_submit [OF run i(1) n v] by blast
  have "(1::int) \<noteq> i"
    using i(2) by blast
  then have same: "reps c1 1 = reps c 1"
    using c1(4) by simp
  obtain c2 where c2: "net3 strict c1 c2" "CommitIndex (reps c2 i) = 0" "stripped (log_of (reps c2 i)) = [write_entry kvp]"
      "log_of (reps c2 1) = (if log_of (reps c1 1) = [] then [write_entry kvp] else log_of (reps c1 1))" "Role (reps c2 1) = Follower" "CurrentTerm (reps c2 1) = 1"
      "CommitIndex (reps c2 1) = CommitIndex (reps c1 1)" "\<forall>j. j \<noteq> i \<and> j \<noteq> 1 \<longrightarrow> reps c2 j = reps c1 j"
    using run_commit [OF client_op_put i c1(2,3) bspec [OF c1(5) i(2)] f [folded same]] by metis
  have "run3 strict c2"
    using run3_net [OF c2(1) c1(1)] .
  then show ?thesis
    using that [OF _ c2(2)] c2 c1(4) same by simp
qed

text \<open>A write that is committed, with every check in place.\<close>

lemma committing_cluster:
  assumes "i32_ok (fst kvp)" "i32_ok (snd kvp)"
  obtains c where "run3 strict c" "CommitIndex (reps c 0) = 0" "stripped (log_of (reps c 0)) = [write_entry kvp]" "log_of (reps c 1) = [write_entry kvp]"
proof -
  obtain c where c: "run3 strict c" "idle_leader 0 (reps c 0)"
    and f: "Role (reps c 1) = Follower" "CurrentTerm (reps c 1) = 1" "CommitIndex (reps c 1) = -1" "log_of (reps c 1) = []"
    using first_leader run3_net [OF _ run3_start] by metis
  have ids: "(0::int) \<in> {0, 1, 2}" "(1::int) \<in> {0, 1, 2} - {0}"
    by simp_all
  show ?thesis
    by (rule run_write [OF c(1) ids idle_leaderD [OF c(2)] assms]) (use f that in auto)
qed

lemma committed_write: "\<exists>c. run3 True c \<and> CommitIndex (reps c 0) = 0 \<and> stripped (log_of (reps c 0)) = [write_entry (7, 1)]"
proof -
  have "i32_ok (fst (7, 1))" "i32_ok (snd (7, 1))"
    by (simp_all add: i32_ok_def)
  then show ?thesis
    using committing_cluster by metis
qed

text \<open>
  The run without the checks: replica 2 is elected in term 1 too, with the vote of replica 0, which
  leads in that term and has cleared its own vote.
\<close>

lemma second_leader:
  obtains c where "net3 False cluster3 c" "idle_leader 0 (reps c 0)" "idle_leader 2 (reps c 2)"
    "Role (reps c 1) = Follower" "CurrentTerm (reps c 1) = 1" "CommitIndex (reps c 1) = -1" "log_of (reps c 1) = []"
proof -
  have ids: "(2::int) \<in> {0, 1, 2}" "(0::int) \<in> {0, 1, 2} - {2}"
    by simp_all
  obtain c where c: "net3 False cluster3 c" "idle_leader 0 (reps c 0)" "VotedFor (reps c 0) = -1"
      "Role (reps c 1) = Follower" "CurrentTerm (reps c 1) = 1" "CommitIndex (reps c 1) = -1" "log_of (reps c 1) = []" "reps c 2 = replica 2"
      "om_find (peers (reps c 0)) 2 \<noteq> None"
    by (rule first_leader) (rule that)
  have one: "CurrentTerm (reps c 0) = 1"
    using idle_leaderD(1) [OF c(2)] by (simp add: leads3_def)
  obtain a where a: "RequestVote (vote_prepare 1 (candidate 2)) 0 (reps c 0) = (\<lparr>rvr_term = 1, rvr_voteGranted = True\<rparr>, a)" "idle_leader 0 a"
    using vote_granted [of "reps c 0" 2 0, OF c(9) _ _ idle_leaderD(2) [OF c(2)] ids(1)] one c(2,3) by (metis order_refl)
  obtain c1 where c1: "net3 False c c1" "reps c1 = (reps c)(2 := becomeLeader 0 ((candidate 2)\<lparr>VotesReceived := 2\<rparr>), 0 := a)"
    using run_election [OF c(8) ids(1,2) _ a(1)] by blast
  show ?thesis
    using that [OF rtranclp_trans [OF c(1) c1(1)]] a c(4-7) c1(2) elected_idle_leader [of 2 0] by simp
qed

section \<open>What the specification gives\<close>

lemma committed_length:
  assumes "cluster_sim dir T M c s" and "i \<in> M" and "-1 \<le> CommitIndex (reps c i)"
  shows "length (committed (reps c i)) = nat (CommitIndex (reps c i) + 1)"
  using sim_commit_bound [OF assms] by (simp add: committed_def)

lemma prefix_take_min: "take (min m n) xs = take (min m n) ys \<Longrightarrow> prefix (take m xs) (take n ys) \<or> prefix (take n ys) (take m xs)"
  by (cases "m \<le> n") (metis min.absorb1 min.absorb2 nle_le take_is_prefix take_take)+

lemma committed_prefix:
  assumes "cluster_sim dir T M c s" and "i \<in> M" "j \<in> M"
  shows "prefix (committed (reps c i)) (committed (reps c j)) \<or> prefix (committed (reps c j)) (committed (reps c i))"
  using spec_agreement [OF cluster_simD(1) [OF assms(1)], of i j]
    replica_okD(4,5) [OF cluster_simD(2) [OF assms(1,2)]] replica_okD(4,5) [OF cluster_simD(2) [OF assms(1,3)]]
  by (simp add: committed_def prefix_take_min)

lemma reach_commit_sign:
  assumes "cluster_sim dir T (members cfg) c s" and "i \<in> members cfg" and "sound_setup T cfg"
  shows "-1 \<le> CommitIndex (reps c i)"
  by (rule setup_indices(2) [OF assms])

section \<open>Properties\<close>

text \<open>C4. The runs of the code in which a term gets one leader and a thread acts only in the term it was
  started in implement Raft: for every such state there is a reachable state of the specification with
  the same term, log and number of committed entries at every replica.\<close>

theorem cluster_refines_raft:
  assumes "cluster_reach True dir T cfg c" and "sound_setup T cfg"
  shows "\<exists>s. spec_reach (members cfg) s \<and> (\<forall>i \<in> members cfg. sp_term s i = CurrentTerm (reps c i)
    \<and> sp_log s i = stripped (log_of (reps c i)) \<and> sp_done s i = nat (CommitIndex (reps c i) + 1))"
  using reach_sim [OF assms] cluster_simD(2) replica_okD(3-5) by metis

theorem cluster_refines_raft_witness:
  "\<exists>c s. run3 True c \<and> CommitIndex (reps c 0) = 0 \<and> spec_reach {0, 1, 2} s \<and> sp_log s 0 = [write_entry (7, 1)] \<and> sp_done s 0 = 1"
proof -
  obtain c where c: "run3 True c" "CommitIndex (reps c 0) = 0" "stripped (log_of (reps c 0)) = [write_entry (7, 1)]"
    using committed_write by (elim exE conjE)
  obtain s where s: "spec_reach {0, 1, 2} s" "\<forall>i \<in> {0, 1, 2}. sp_term s i = CurrentTerm (reps c i)
      \<and> sp_log s i = stripped (log_of (reps c i)) \<and> sp_done s i = nat (CommitIndex (reps c i) + 1)"
    using cluster_refines_raft [OF c(1) sound_setup3] unfolding members3 by blast
  then have "sp_log s 0 = [write_entry (7, 1)]" "sp_done s 0 = 1"
    using c by simp_all
  then show ?thesis
    using c s(1) by blast
qed

text \<open>C2. State machine safety: in those runs the committed parts of the logs of two replicas agree, one is
  a prefix of the other, and each has as many entries as the commit index of its replica says.\<close>

theorem state_machine_safety:
  assumes "cluster_reach True dir T cfg c" and "sound_setup T cfg" and "i \<in> members cfg" "j \<in> members cfg"
  shows "(prefix (committed (reps c i)) (committed (reps c j)) \<or> prefix (committed (reps c j)) (committed (reps c i)))
    \<and> int (length (committed (reps c i))) = CommitIndex (reps c i) + 1"
proof -
  obtain s where s: "cluster_sim dir T (members cfg) c s"
    using reach_sim [OF assms(1,2)] by blast
  then show ?thesis
    using committed_prefix [OF s assms(3,4)] committed_length [OF s assms(3)] reach_commit_sign [OF s assms(3,2)] by simp
qed

theorem state_machine_safety_witness:
  "\<exists>c. run3 True c \<and> committed (reps c 0) = [write_entry (7, 1)] \<and> CommitIndex (reps c 0) = 0
    \<and> (prefix (committed (reps c 0)) (committed (reps c 1)) \<or> prefix (committed (reps c 1)) (committed (reps c 0)))"
proof -
  obtain c where c: "run3 True c" "CommitIndex (reps c 0) = 0" "stripped (log_of (reps c 0)) = [write_entry (7, 1)]"
    using committed_write by (elim exE conjE)
  have "prefix (committed (reps c 0)) (committed (reps c 1)) \<or> prefix (committed (reps c 1)) (committed (reps c 0))"
    using state_machine_safety [OF c(1) sound_setup3, of 0 1] by (simp add: members3)
  moreover have "committed (reps c 0) = [write_entry (7, 1)]"
    using c by (simp add: committed_def)
  ultimately show ?thesis
    using c(1,2) by blast
qed

text \<open>C5. The databases see one history: in those runs the executers of two replicas have been handed the
  same operations in the same order, up to the replica that is behind, and each as many as its replica
  has committed since it started.\<close>

theorem executers_agree:
  assumes "cluster_reach True dir T cfg c" and "sound_setup T cfg" and "i \<in> members cfg" "j \<in> members cfg"
  shows "(prefix (map withoutPromise (fed c i)) (map withoutPromise (fed c j)) \<or> prefix (map withoutPromise (fed c j)) (map withoutPromise (fed c i)))
    \<and> int (length (fed c i)) = CommitIndex (reps c i) + 1"
proof -
  obtain s where s: "cluster_sim dir T (members cfg) c s" and f: "fed_committed (members cfg) c"
    using reach_sim [OF assms(1,2)] by blast
  have ops: "map withoutPromise (fed c i) = map log_op (committed (reps c i))" "map withoutPromise (fed c j) = map log_op (committed (reps c j))"
    using f assms(3,4) by (simp_all add: fed_committed_def)
  have "length (fed c i) = nat (CommitIndex (reps c i) + 1)"
    using arg_cong [OF ops(1), of length] committed_length [OF s assms(3) reach_commit_sign [OF s assms(3,2)]] by simp
  then show ?thesis
    unfolding ops using committed_prefix [OF s assms(3,4)] reach_commit_sign [OF s assms(3,2)] by (auto intro: map_mono_prefix)
qed

theorem executers_agree_witness:
  "\<exists>c. run3 True c \<and> length (fed c 0) = 1
    \<and> (prefix (map withoutPromise (fed c 0)) (map withoutPromise (fed c 1)) \<or> prefix (map withoutPromise (fed c 1)) (map withoutPromise (fed c 0)))"
proof -
  obtain c where c: "run3 True c" "CommitIndex (reps c 0) = 0"
    using committed_write by (elim exE conjE)
  then show ?thesis
    using executers_agree [OF c(1) sound_setup3, of 0 1] by (auto simp: members3)
qed

text \<open>C6. Leader completeness: in those runs a leader has in its log everything a replica of its term or a
  lower one has committed.\<close>

theorem leader_has_committed:
  assumes "cluster_reach True dir T cfg c" and "sound_setup T cfg" and "i \<in> members cfg" "j \<in> members cfg"
    and "Role (reps c i) = Leader" "CurrentTerm (reps c j) \<le> CurrentTerm (reps c i)"
  shows "prefix (committed (reps c j)) (stripped (log_of (reps c i)))"
proof (cases "nat (CommitIndex (reps c j) + 1) = 0")
  case False
  obtain s where s: "cluster_sim dir T (members cfg) c s"
    using reach_sim [OF assms(1,2)] by blast
  note inv = cluster_simD(1) [OF s] and oki = replica_okD [OF cluster_simD(2) [OF s assms(3)]] and okj = replica_okD [OF cluster_simD(2) [OF s assms(4)]]
  obtain h where h: "sp_chain s (CurrentTerm (reps c i)) = Some h" "sp_owner s (CurrentTerm (reps c i)) = i"
    using leader_simD [OF oki(6) assms(5)] by metis
  have log: "h = stripped (log_of (reps c i))"
    using leader_chain [OF inv h oki(3)] oki(4) by simp
  obtain t m where t: "(t, m) \<in> sp_committed s" "t \<le> CurrentTerm (reps c j)" "sp_done s j \<le> m"
      "take (sp_done s j) (sp_log s j) = take (sp_done s j) (the (sp_chain s t))"
    using done_within_log [OF inv, of j] okj(3,5) False by auto
  obtain g where g: "sp_chain s t = Some g"
    using inv_commitE [OF _ t(1)] inv unfolding spec_inv_def by blast
  have "take m h = take m g"
  proof (cases "t = CurrentTerm (reps c i)")
    case False
    then show ?thesis
      using leader_completeness [OF inv t(1) g _ h(1)] t(2) assms(6) by simp
  qed (use g h(1) in simp)
  then have "committed (reps c j) = take (sp_done s j) h"
    using t(3,4) g okj(4,5) take_prefix_eq [of m h g "sp_done s j"] by (simp add: committed_def)
  then show ?thesis
    unfolding log by (simp add: take_is_prefix)
qed (simp add: committed_def)

theorem leader_has_committed_witness:
  "\<exists>c. run3 True c \<and> Role (reps c 0) = Leader \<and> prefix (committed (reps c 1)) (stripped (log_of (reps c 0)))"
proof -
  obtain c where c: "run3 True c" "idle_leader 0 (reps c 0)" "CurrentTerm (reps c 1) = 1"
    using first_leader run3_net [OF _ run3_start] by metis
  then show ?thesis
    using leader_has_committed [OF c(1) sound_setup3, of 0 1] by (auto simp: members3 idle_leader_def leads3_def)
qed

text \<open>Without those checks the code is not safe: there is a run of three replicas from their first start, without
  crashes, lost messages or membership changes, in which two replicas lead in term 1 and commit different writes at the same index.\<close>

lemma committed_logs_diverge:
  "\<exists>c. cluster_reach False ''d'' flat_entry config3 c \<and> CommitIndex (reps c 0) = 0 \<and> CommitIndex (reps c 2) = 0
    \<and> committed (reps c 0) = [write_entry (7, 1)] \<and> committed (reps c 2) = [write_entry (7, 2)]"
proof -
  have ids: "(0::int) \<in> {0, 1, 2}" "(1::int) \<in> {0, 1, 2} - {0}" "(2::int) \<in> {0, 1, 2}" "(1::int) \<in> {0, 1, 2} - {2}"
    by simp_all
  have v: "i32_ok (fst (7, 1))" "i32_ok (snd (7, 1))" "i32_ok (fst (7, 2))" "i32_ok (snd (7, 2))"
    by (simp_all add: i32_ok_def)
  obtain c where c: "run3 False c" "idle_leader 0 (reps c 0)" "idle_leader 2 (reps c 2)"
      "Role (reps c 1) = Follower" "CurrentTerm (reps c 1) = 1" "CommitIndex (reps c 1) = -1" "log_of (reps c 1) = []"
    using second_leader run3_net [OF _ run3_start] by metis
  have f: "Role (reps c 1) \<noteq> Dead" "CurrentTerm (reps c 1) \<le> 1" "-1 \<le> CommitIndex (reps c 1)"
      "log_of (reps c 1) = [] \<or> (\<exists>e. log_of (reps c 1) = [e] \<and> log_term e = 1)"
    using c by simp_all
  obtain c1 where c1: "run3 False c1" "CommitIndex (reps c1 0) = 0" "stripped (log_of (reps c1 0)) = [write_entry (7, 1)]"
      "log_of (reps c1 1) = [write_entry (7, 1)]" "Role (reps c1 1) = Follower" "CurrentTerm (reps c1 1) = 1"
      "CommitIndex (reps c1 1) = -1" "reps c1 2 = reps c 2"
    using run_write [OF c(1) ids(1,2) idle_leaderD [OF c(2)] v(1,2) f] c(6,7) by (metis numeral_eq_one_iff semiring_norm(85) zero_neq_numeral)
  have l: "leads3 2 (reps c1 2)" "log_of (reps c1 2) = []" "dispatchOut (reps c1 2) = []"
    and g: "Role (reps c1 1) \<noteq> Dead" "CurrentTerm (reps c1 1) \<le> 1" "-1 \<le> CommitIndex (reps c1 1)"
      "log_of (reps c1 1) = [] \<or> (\<exists>e. log_of (reps c1 1) = [e] \<and> log_term e = 1)"
    using idle_leaderD [OF c(3)] c1 by (simp_all add: op_entry_def)
  obtain c2 where c2: "run3 False c2" "CommitIndex (reps c2 2) = 0" "stripped (log_of (reps c2 2)) = [write_entry (7, 2)]" "reps c2 0 = reps c1 0"
    using run_write [OF c1(1) ids(3,4) l v(3,4) g] by (metis zero_neq_numeral zero_neq_one)
  have "committed (reps c2 0) = [write_entry (7, 1)]" "committed (reps c2 2) = [write_entry (7, 2)]"
    using c1(2,3) c2(2-4) by (simp_all add: committed_def)
  then show ?thesis
    using c1(2) c2(1,2,4) by metis
qed

end
