(* ===== verification/Linearizability.thy ===== *)
theory Linearizability
  imports Executer "HOL-Library.Sublist"
begin

text \<open>
  What the clients of the replicated map may observe. A history is a list of events: a call numbered \<open>ft\<close>
  of a replica begins with an operation, and the future of call \<open>ft\<close> gets a value. It is linearizable
  if some of the calls, among them all that were answered, can be put in one order that explains every
  answer by the reference map and in which a call that was answered before another began comes first.
  The numbers of the calls are those of their futures (\<open>ft\<close> in theory \<open>OhMyReplica\<close>).
\<close>

section \<open>Histories\<close>

datatype event = Invoke nat int RaftOp | Return nat op_res

fun precedes :: "event list \<Rightarrow> nat \<Rightarrow> nat \<Rightarrow> bool" where
  "precedes [] y x = False"
| "precedes (e # es) y x \<longleftrightarrow> ((\<exists>r. e = Return y r) \<and> (\<exists>i op. Invoke x i op \<in> set es)) \<or> precedes es y x"

lemma precedes_append:
  "precedes (es @ fs) y x \<longleftrightarrow> precedes es y x \<or> ((\<exists>r. Return y r \<in> set es) \<and> (\<exists>i op. Invoke x i op \<in> set fs)) \<or> precedes fs y x"
  by (induction es) auto

lemma precedes_events: "precedes es y x \<Longrightarrow> (\<exists>r. Return y r \<in> set es) \<and> (\<exists>i op. Invoke x i op \<in> set es)"
  by (induction es) auto

lemma precedes_returns: "\<forall>e \<in> set fs. \<exists>y r. e = Return y r \<Longrightarrow> precedes (es @ fs) y x \<longleftrightarrow> precedes es y x"
  using precedes_events [of fs y x] by (auto simp: precedes_append)

section \<open>The reference map\<close>

text \<open>The result of the \<open>k\<close>-th operation when all are run on the empty map.\<close>

definition kv_result :: "RaftOp list \<Rightarrow> nat \<Rightarrow> op_res" where
  "kv_result ops k = fst (kv_run ops Map.empty) ! k"

definition linearizes :: "(nat \<times> RaftOp) list \<Rightarrow> event list \<Rightarrow> bool" where
  "linearizes L es \<longleftrightarrow> distinct (map fst L)
     \<and> (\<forall>(ft, op) \<in> set L. \<exists>i. Invoke ft i op \<in> set es)
     \<and> (\<forall>ft r. Return ft r \<in> set es \<longrightarrow> (\<exists>k < length L. fst (L ! k) = ft \<and> r = kv_result (map snd L) k))
     \<and> (\<forall>k < length L. \<forall>k' < length L. precedes es (fst (L ! k)) (fst (L ! k')) \<longrightarrow> k < k')"

lemma length_kv_run [simp]: "length (fst (kv_run ops m)) = length ops"
  by (induction ops arbitrary: m) (simp_all add: case_prod_beta del: kv_step.simps)

lemma kv_run_append:
  "kv_run (xs @ ys) m = (fst (kv_run xs m) @ fst (kv_run ys (snd (kv_run xs m))), snd (kv_run ys (snd (kv_run xs m))))"
  by (induction xs arbitrary: m) (simp_all add: case_prod_beta del: kv_step.simps)

lemma kv_step_strip [simp]: "kv_step (withoutPromise op) = kv_step op"
  by (simp add: fun_eq_iff withoutPromise_def)

lemma kv_run_strip: "kv_run (map withoutPromise ops) m = kv_run ops m"
  by (induction ops arbitrary: m) (simp_all del: kv_step.simps)

lemma kv_run_nth:
  assumes "k < length ops"
  shows "fst (kv_run ops m) ! k = fst (kv_step (ops ! k) (snd (kv_run (take k ops) m)))"
proof -
  have "ops = take k ops @ ops ! k # drop (Suc k) ops"
    using assms by (simp add: id_take_nth_drop)
  then have "fst (kv_run ops m) = fst (kv_run (take k ops) m) @ fst (kv_run (ops ! k # drop (Suc k) ops) (snd (kv_run (take k ops) m)))"
    by (metis kv_run_append fst_conv)
  then show ?thesis
    using assms by (simp add: nth_append case_prod_beta del: kv_step.simps)
qed

lemma kv_result_prefix:
  assumes "prefix A B" and "k < length A"
  shows "kv_result B k = kv_result A k"
  using assms by (auto simp: prefix_def kv_result_def kv_run_append nth_append)

section \<open>Running a log again\<close>

text \<open>
  A replica that restarts runs its log from the beginning, over the database it left. The keys a list of
  operations writes; running a list over a map whose keys it writes is running it over the empty map.
\<close>

definition writes :: "RaftOp list \<Rightarrow> int set" where
  "writes ops = {k. \<exists>op \<in> set ops. kind op = PUT \<and> (\<exists>v. args op = ArgPair k v)}"

lemma writes_append [simp]: "writes (xs @ ys) = writes xs \<union> writes ys"
  by (auto simp: writes_def)

lemma writes_mono: "set xs \<subseteq> set ys \<Longrightarrow> writes xs \<subseteq> writes ys"
  by (auto simp: writes_def)

lemma writes_strip [simp]: "writes (map withoutPromise ops) = writes ops"
  by (auto simp: writes_def withoutPromise_def)

lemma kv_step_state: "snd (kv_step op m) k = (if k \<in> writes [op] then snd (kv_step op m') k else m k)"
  by (auto simp: writes_def split: OpType.split op_args.split)

lemma kv_run_state: "snd (kv_run ops m) k = (if k \<in> writes ops then snd (kv_run ops m') k else m k)"
proof (induction ops arbitrary: m m')
  case Nil
  then show ?case
    by (simp add: writes_def)
next
  case (Cons op ops)
  have w: "writes (op # ops) = writes [op] \<union> writes ops"
    using writes_append [of "[op]" ops] by simp
  show ?case
    using Cons [of "snd (kv_step op m)" "snd (kv_step op m')"] Cons [of "snd (kv_step op m')" "snd (kv_step op m')"] kv_step_state [of op m k m']
    by (auto simp: w case_prod_beta simp del: kv_step.simps)
qed

lemma kv_run_dom: "dom (snd (kv_run ops m)) \<subseteq> dom m \<union> writes ops"
  using kv_run_state [of ops m _ m] by (auto simp: dom_def) (metis option.simps(3))

lemma kv_run_covered:
  assumes "dom m \<subseteq> writes ops"
  shows "snd (kv_run ops m) = snd (kv_run ops Map.empty)"
proof
  fix k
  show "snd (kv_run ops m) k = snd (kv_run ops Map.empty) k"
    using kv_run_state [of ops m k Map.empty] kv_run_state [of ops Map.empty k Map.empty] assms by (auto split: if_splits)
qed

lemma kv_result_covered:
  assumes "k < length ops" and "dom m \<subseteq> writes (take k ops)"
  shows "fst (kv_run ops m) ! k = kv_result ops k"
  using assms kv_run_covered [OF assms(2)] by (simp add: kv_result_def kv_run_nth)

section \<open>Places in a log\<close>

text \<open>
  How a log explains a history. \<open>pl (t, k)\<close> is the call whose operation the leader of term \<open>t\<close> put at index
  \<open>k\<close> of its log, \<open>H\<close> is the log that was committed. A call that began after another was answered
  gets a place behind it, or one at which something else was committed.
\<close>

type_synonym places = "int \<times> nat \<Rightarrow> nat option"

definition entry_placed :: "places \<Rightarrow> event list \<Rightarrow> nat \<Rightarrow> LogEntry \<Rightarrow> bool" where
  "entry_placed pl es k e \<longleftrightarrow> (\<exists>ft i. pl (log_term e, k) = Some ft \<and> Invoke ft i (withoutPromise (log_op e)) \<in> set es)"

definition log_placed :: "places \<Rightarrow> event list \<Rightarrow> nat \<Rightarrow> LogEntry list \<Rightarrow> bool" where
  "log_placed pl es k l \<longleftrightarrow> (\<forall>j < length l. entry_placed pl es (k + j) (l ! j))"

definition places_inj :: "places \<Rightarrow> bool" where
  "places_inj pl \<longleftrightarrow> (\<forall>x y ft. pl x = Some ft \<and> pl y = Some ft \<longrightarrow> x = y)"

lemma places_injD: "places_inj pl \<Longrightarrow> pl x = Some ft \<Longrightarrow> pl y = Some ft \<Longrightarrow> x = y"
  unfolding places_inj_def by blast

definition ordered :: "places \<Rightarrow> event list \<Rightarrow> LogEntry list \<Rightarrow> bool" where
  "ordered pl es H \<longleftrightarrow> (\<forall>y x ty ky t k. precedes es y x \<and> pl (ty, ky) = Some y \<and> pl (t, k) = Some x
     \<longrightarrow> ky < k \<or> (k < length H \<and> log_term (H ! k) \<noteq> t))"

definition answered :: "places \<Rightarrow> event list \<Rightarrow> LogEntry list \<Rightarrow> bool" where
  "answered pl es H \<longleftrightarrow> (\<forall>ft r. Return ft r \<in> set es \<longrightarrow>
     (\<exists>k < length H. pl (log_term (H ! k), k) = Some ft \<and> r = kv_result (map log_op H) k))"

lemma entry_placed_mono: "entry_placed pl es k e \<Longrightarrow> pl \<subseteq>\<^sub>m pl' \<Longrightarrow> set es \<subseteq> set es' \<Longrightarrow> entry_placed pl' es' k e"
  unfolding entry_placed_def map_le_def by (metis domI subsetD)

lemma log_placed_mono: "log_placed pl es k l \<Longrightarrow> pl \<subseteq>\<^sub>m pl' \<Longrightarrow> set es \<subseteq> set es' \<Longrightarrow> log_placed pl' es' k l"
  unfolding log_placed_def using entry_placed_mono by blast

lemma log_placed_take: "log_placed pl es k l \<Longrightarrow> log_placed pl es k (take n l)"
  by (simp add: log_placed_def)

lemma log_placed_append: "log_placed pl es k (xs @ ys) \<longleftrightarrow> log_placed pl es k xs \<and> log_placed pl es (k + length xs) ys"
proof -
  have "(\<forall>j < length xs + length ys. P j) \<longleftrightarrow> (\<forall>j < length xs. P j) \<and> (\<forall>j < length ys. P (length xs + j))" for P
  proof (safe intro!: allI impI)
    fix j assume "\<forall>j < length xs. P j" "\<forall>j < length ys. P (length xs + j)" "j < length xs + length ys"
    then show "P j"
      by (cases "j < length xs") (simp_all, metis add_diff_inverse_nat nat_add_left_cancel_less)
  qed simp_all
  then show ?thesis
    by (simp add: log_placed_def nth_append add.assoc)
qed

lemma entry_placed_strip [simp]: "entry_placed pl es k (strip_entry e) = entry_placed pl es k e"
  by (simp add: entry_placed_def strip_entry_def withoutPromise_def)

lemma log_placed_strip [simp]: "log_placed pl es k (map strip_entry l) = log_placed pl es k l"
  by (simp add: log_placed_def)

text \<open>A history explained by places is linearizable, in the order of the committed log.\<close>

lemma places_linearize:
  assumes inj: "places_inj pl" and H: "log_placed pl es 0 H" "map strip_entry H = H" and o: "ordered pl es H" and a: "answered pl es H"
  shows "linearizes (map (\<lambda>k. (the (pl (log_term (H ! k), k)), log_op (H ! k))) [0..<length H]) es"
proof -
  let ?c = "\<lambda>k. the (pl (log_term (H ! k), k))"
  let ?L = "map (\<lambda>k. (?c k, log_op (H ! k))) [0..<length H]"
  have pl: "pl (log_term (H ! k), k) = Some (?c k)" "\<exists>i. Invoke (?c k) i (log_op (H ! k)) \<in> set es" if k: "k < length H" for k
  proof -
    have "withoutPromise (log_op (H ! k)) = log_op (H ! k)"
      using arg_cong [OF H(2), of "\<lambda>l. log_op (l ! k)"] k by (simp add: strip_entry_def)
    moreover obtain ft i where "pl (log_term (H ! k), k) = Some ft" "Invoke ft i (withoutPromise (log_op (H ! k))) \<in> set es"
      using H(1) k by (auto simp: log_placed_def entry_placed_def)
    ultimately show "pl (log_term (H ! k), k) = Some (?c k)" "\<exists>i. Invoke (?c k) i (log_op (H ! k)) \<in> set es"
      by auto
  qed
  have "inj_on ?c {0..<length H}"
  proof
    fix k k' assume k: "k \<in> {0..<length H}" "k' \<in> {0..<length H}" "?c k = ?c k'"
    have "pl (log_term (H ! k), k) = Some (?c k)"
      using pl(1) [of k] k(1) by simp
    moreover have "pl (log_term (H ! k'), k') = Some (?c k)"
      unfolding k(3) using pl(1) [of k'] k(2) by simp
    ultimately have "(log_term (H ! k), k) = (log_term (H ! k'), k')"
      using inj unfolding places_inj_def by blast
    then show "k = k'" by simp
  qed
  then have d: "distinct (map fst ?L)"
    by (simp add: distinct_map comp_def)
  have ops: "map snd ?L = map log_op H"
    by (rule nth_equalityI) simp_all
  have r: "\<exists>k < length ?L. fst (?L ! k) = ft \<and> r = kv_result (map snd ?L) k" if "Return ft r \<in> set es" for ft r
  proof -
    obtain k where "k < length H" "pl (log_term (H ! k), k) = Some ft" "r = kv_result (map log_op H) k"
      using a \<open>Return ft r \<in> set es\<close> unfolding answered_def by blast
    then show ?thesis
      unfolding ops by (intro exI [of _ k]) simp
  qed
  have "k < k'" if k: "k < length H" "k' < length H" "precedes es (?c k) (?c k')" for k k'
    using o pl(1) [OF k(1)] pl(1) [OF k(2)] k(3) unfolding ordered_def by blast
  then show ?thesis
    unfolding linearizes_def using d r pl(2) by auto
qed

end
