(* ===== verification/ClusterClients.thy ===== *)
theory ClusterClients
  imports ClusterRuns Linearizability
begin

text \<open>
  A cluster with its clients and databases. To the cluster machine a \<open>system\<close> adds the database of every
  replica, which outlives a crash, and the program counter of every Raft loop, so that the operations a loop has
  taken over are appended once: \<open>raftImpl\<close> of \<open>OhMyRaft.H\<close> takes over what was submitted, runs a round if
  the replica leads, and clears its list. The executer runs what was committed, one operation at a time, on
  the database of its replica. A crash may come between any two steps, and a restarted replica begins with
  an empty promise store and the database it left.

  \<open>hist\<close> (the calls clients made and the values their futures got from the executer) and \<open>placed\<close> (which
  call an entry of a log belongs to) are history. Futures of aborted operations are not answers of the
  map; theory \<open>ClientSafety\<close> says what they hold.
\<close>

section \<open>The machine\<close>

datatype loop_pc = Ready | Took | Ran

record system =
  cl :: cluster
  dbs :: "int \<Rightarrow> leveldb"
  loop :: "int \<Rightarrow> loop_pc"
  placed :: places
  hist :: "event list"

abbreviation rep :: "system \<Rightarrow> int \<Rightarrow> node" where
  "rep \<sigma> i \<equiv> reps (cl \<sigma>) i"

definition with_rep :: "int \<Rightarrow> node \<Rightarrow> system \<Rightarrow> system" where
  "with_rep i n \<sigma> = \<sigma>\<lparr>cl := (cl \<sigma>)\<lparr>reps := (reps (cl \<sigma>))(i := n)\<rparr>\<rparr>"

text \<open>The call a submitted operation belongs to, and the places a round gives to calls.\<close>

definition call_of :: "node \<Rightarrow> RaftOp \<Rightarrow> nat option" where
  "call_of n op = Option.bind (promiseHandle op) (ps_live (promises (services n)))"

definition place :: "int \<Rightarrow> nat \<Rightarrow> nat option list \<Rightarrow> places \<Rightarrow> places" where
  "place t k fts pl = (\<lambda>(t', k'). if t' = t \<and> k \<le> k' \<and> k' < k + length fts then fts ! (k' - k) else pl (t', k'))"

definition returns :: "service \<Rightarrow> service \<Rightarrow> event list" where
  "returns sv sv' = map (\<lambda>(ft, r). Return ft r) (rev (take (length (futures sv') - length (futures sv)) (futures sv')))"

fun invoked :: "request_pc \<Rightarrow> int \<Rightarrow> RaftOp \<Rightarrow> event list" where
  "invoked (Await ft) i op = [Invoke ft i op]"
| "invoked (Answered _) i op = []"

definition fresh_call :: "nat \<Rightarrow> event list \<Rightarrow> bool" where
  "fresh_call ft es \<longleftrightarrow> (\<forall>i op. Invoke ft i op \<notin> set es)"

inductive system_work :: "bool \<Rightarrow> (int, ServerInfo) omap \<Rightarrow> (leveldb \<Rightarrow> int \<Rightarrow> int option res) \<Rightarrow> (leveldb \<Rightarrow> int \<times> int \<Rightarrow> bool \<times> leveldb) \<Rightarrow> system \<Rightarrow> system \<Rightarrow> bool"
  for strict cfg dbget dbput where
  net: "net_step strict cfg (cl \<sigma>) c' \<Longrightarrow> system_work strict cfg dbget dbput \<sigma> (\<sigma>\<lparr>cl := c'\<rparr>)"
| get: "i \<in> members cfg \<Longrightarrow> i32_ok key \<Longrightarrow> fresh_call ft (hist \<sigma>) \<Longrightarrow> get_begin key ft (rep \<sigma> i) = Inr (pc, n')
    \<Longrightarrow> system_work strict cfg dbget dbput \<sigma> ((with_rep i n' \<sigma>)\<lparr>hist := hist \<sigma> @ invoked pc i (get_op key)\<rparr>)"
| put: "i \<in> members cfg \<Longrightarrow> i32_ok (fst kvp) \<Longrightarrow> i32_ok (snd kvp) \<Longrightarrow> fresh_call ft (hist \<sigma>) \<Longrightarrow> put_begin kvp ft (rep \<sigma> i) = Inr (pc, n')
    \<Longrightarrow> system_work strict cfg dbget dbput \<sigma> ((with_rep i n' \<sigma>)\<lparr>hist := hist \<sigma> @ invoked pc i (put_op kvp)\<rparr>)"
| take: "i \<in> members cfg \<Longrightarrow> loop \<sigma> i = Ready
    \<Longrightarrow> system_work strict cfg dbget dbput \<sigma> ((with_rep i (raft_take (rep \<sigma> i)) \<sigma>)\<lparr>loop := (loop \<sigma>)(i := Took)\<rparr>)"
| skip: "i \<in> members cfg \<Longrightarrow> loop \<sigma> i = Took \<Longrightarrow> Role (rep \<sigma> i) \<noteq> Leader
    \<Longrightarrow> system_work strict cfg dbget dbput \<sigma> (\<sigma>\<lparr>loop := (loop \<sigma>)(i := Ran)\<rparr>)"
| run: "i \<in> members cfg \<Longrightarrow> loop \<sigma> i = Took \<Longrightarrow> runLeaderOneIter (rep \<sigma> i) = Inr (ths, n') \<Longrightarrow> strict \<longrightarrow> Role (rep \<sigma> i) = Leader
    \<Longrightarrow> system_work strict cfg dbget dbput \<sigma>
          (\<sigma>\<lparr>cl := (set_rep i n' (cl \<sigma>))\<lparr>calls := calls (cl \<sigma>) + mset (map (\<lambda>(p, t). AppendStart i p t) ths)\<rparr>,
             loop := (loop \<sigma>)(i := Ran),
             placed := place (CurrentTerm (rep \<sigma> i)) (length (log_of (rep \<sigma> i))) (map (call_of (rep \<sigma> i)) (raftIn (rep \<sigma> i))) (placed \<sigma>)\<rparr>)"
| clear: "i \<in> members cfg \<Longrightarrow> loop \<sigma> i = Ran
    \<Longrightarrow> system_work strict cfg dbget dbput \<sigma> ((with_rep i (raft_clear (rep \<sigma> i)) \<sigma>)\<lparr>loop := (loop \<sigma>)(i := Ready)\<rparr>)"
| execTake: "i \<in> members cfg \<Longrightarrow> execIn (rep \<sigma> i) = []
    \<Longrightarrow> system_work strict cfg dbget dbput \<sigma> (with_rep i (executer_take (rep \<sigma> i)) \<sigma>)"
| execute: "i \<in> members cfg \<Longrightarrow> executer_one dbget dbput (dbs \<sigma> i) (rep \<sigma> i) = Inr (db', n')
    \<Longrightarrow> system_work strict cfg dbget dbput \<sigma>
          ((with_rep i n' \<sigma>)\<lparr>dbs := (dbs \<sigma>)(i := db'), hist := hist \<sigma> @ returns (services (rep \<sigma> i)) (services n')\<rparr>)"

text \<open>A replica that crashes comes back with its files and its database.\<close>

inductive system_step :: "bool \<Rightarrow> string \<Rightarrow> LogEntry cxx_type \<Rightarrow> (int, ServerInfo) omap
    \<Rightarrow> (leveldb \<Rightarrow> int \<Rightarrow> int option res) \<Rightarrow> (leveldb \<Rightarrow> int \<times> int \<Rightarrow> bool \<times> leveldb) \<Rightarrow> system \<Rightarrow> system \<Rightarrow> bool"
  for strict dir T cfg dbget dbput where
  work: "system_work strict cfg dbget dbput \<sigma> \<sigma>' \<Longrightarrow> system_step strict dir T cfg dbget dbput \<sigma> \<sigma>'"
| crash: "i \<in> members cfg
    \<Longrightarrow> system_step strict dir T cfg dbget dbput \<sigma>
          (\<sigma>\<lparr>cl := (cl \<sigma>)\<lparr>reps := (reps (cl \<sigma>))(i := boot_node T i True dir cfg no_clients (disk (rep \<sigma> i))), fed := (fed (cl \<sigma>))(i := [])\<rparr>,
             loop := (loop \<sigma>)(i := Ready)\<rparr>)"

text \<open>The first start: no files to read, no clients, empty databases.\<close>

definition system_init :: "string \<Rightarrow> LogEntry cxx_type \<Rightarrow> (int, ServerInfo) omap \<Rightarrow> (leveldb \<Rightarrow> int \<Rightarrow> int option res) \<Rightarrow> system \<Rightarrow> bool" where
  "system_init dir T cfg dbget \<sigma> \<longleftrightarrow> cluster_init dir T cfg (cl \<sigma>)
     \<and> (\<forall>i \<in> members cfg. services (rep \<sigma> i) = no_clients \<and> (\<forall>k. i32_ok k \<longrightarrow> dbget (dbs \<sigma> i) k = Inr None) \<and> loop \<sigma> i = Ready)
     \<and> placed \<sigma> = Map.empty \<and> hist \<sigma> = []"

inductive system_reach :: "bool \<Rightarrow> string \<Rightarrow> LogEntry cxx_type \<Rightarrow> (int, ServerInfo) omap
    \<Rightarrow> (leveldb \<Rightarrow> int \<Rightarrow> int option res) \<Rightarrow> (leveldb \<Rightarrow> int \<times> int \<Rightarrow> bool \<times> leveldb) \<Rightarrow> system \<Rightarrow> bool"
  for strict dir T cfg dbget dbput where
  init: "system_init dir T cfg dbget \<sigma> \<Longrightarrow> system_reach strict dir T cfg dbget dbput \<sigma>"
| step: "system_reach strict dir T cfg dbget dbput \<sigma> \<Longrightarrow> system_step strict dir T cfg dbget dbput \<sigma> \<sigma>'
    \<Longrightarrow> system_reach strict dir T cfg dbget dbput \<sigma>'"

section \<open>It runs on the cluster machine\<close>

lemma cl_with_rep [simp]: "cl (with_rep i n \<sigma>) = (cl \<sigma>)\<lparr>reps := (reps (cl \<sigma>))(i := n)\<rparr>"
  by (simp add: with_rep_def)

lemma with_rep_simps [simp]:
  "dbs (with_rep i n \<sigma>) = dbs \<sigma>" "loop (with_rep i n \<sigma>) = loop \<sigma>" "placed (with_rep i n \<sigma>) = placed \<sigma>" "hist (with_rep i n \<sigma>) = hist \<sigma>"
  by (simp_all add: with_rep_def)

lemma system_work_cluster:
  assumes "system_work strict cfg dbget dbput \<sigma> \<sigma>'"
  shows "cl \<sigma>' = cl \<sigma> \<or> cluster_step strict dir T cfg (cl \<sigma>) (cl \<sigma>')"
  using assms
proof cases
  case (net c')
  then show ?thesis
    by (auto intro: cluster_step.net)
next
  case (run i ths n')
  then show ?thesis
    using cluster_step.round [OF run(2,4,5)] by simp
next
  case (get i key ft pc n')
  then show ?thesis
    using cluster_step.local [OF get(2) local_step.get] by simp
next
  case (put i kvp ft pc n')
  then show ?thesis
    using cluster_step.local [OF put(2) local_step.put] by simp
next
  case (execute i db' n')
  then show ?thesis
    using cluster_step.local [OF execute(2) local_step.execute] by simp
next
  case (execTake i)
  then show ?thesis
    using cluster_step.local [OF execTake(2) local_step.execTake] by simp
next
  case (take i)
  then show ?thesis
    using cluster_step.local [OF take(2) local_step.take] by simp
next
  case (clear i)
  then show ?thesis
    using cluster_step.local [OF clear(2) local_step.clear] by simp
qed simp

lemma system_step_cluster:
  assumes "system_step strict dir T cfg dbget dbput \<sigma> \<sigma>'"
  shows "cl \<sigma>' = cl \<sigma> \<or> cluster_step strict dir T cfg (cl \<sigma>) (cl \<sigma>')"
  using assms
proof cases
  case work
  then show ?thesis
    by (rule system_work_cluster)
qed (auto intro: cluster_step.crash)

lemma system_reach_cluster: "system_reach strict dir T cfg dbget dbput \<sigma> \<Longrightarrow> cluster_reach strict dir T cfg (cl \<sigma>)"
proof (induction rule: system_reach.induct)
  case (init \<sigma>)
  then show ?case
    by (intro cluster_reach.init) (simp add: system_init_def)
next
  case (step \<sigma> \<sigma>')
  then show ?case
    using system_step_cluster [OF step.hyps(2)] cluster_reach.step by metis
qed

end
