(* ===== verification/ClientSafety.thy ===== *)
theory ClientSafety
  imports ClusterClients
begin

text \<open>
  The invariant of a system, for the checked runs: the committed log gives every answered call its place
  and its answer. It has four parts: the committed history \<open>H\<close> and the places of calls (\<open>explains\<close>), the requests in
  flight (\<open>call_placed\<close>), the promises and queues of a replica (\<open>served\<close>), and its database (\<open>stored\<close>).
\<close>

section \<open>The committed history\<close>

definition decided :: "raft_spec \<Rightarrow> rlog \<Rightarrow> bool" where
  "decided s H \<longleftrightarrow> H = [] \<or> (\<exists>t m. (t, m) \<in> sp_committed s \<and> length H \<le> m \<and> H = take (length H) (the (sp_chain s t)))"

lemma decided_chain:
  assumes inv: "spec_inv M s" and d: "decided s H" "H \<noteq> []"
  obtains t m h where "(t, m) \<in> sp_committed s" "sp_chain s t = Some h" "length H \<le> m" "m \<le> length h" "H = take (length H) h"
proof -
  obtain t m where t: "(t, m) \<in> sp_committed s" "length H \<le> m" "H = take (length H) (the (sp_chain s t))"
    using d unfolding decided_def by blast
  obtain h where "sp_chain s t = Some h" "m \<le> length h"
    using inv_commitE [OF _ t(1)] inv unfolding spec_inv_def by metis
  then show ?thesis
    using that t by simp
qed

lemma decided_grows:
  assumes inv: "spec_inv M s" and steps: "spec_steps M s s'" and d: "decided s H"
  shows "decided s' H"
proof (cases "H = []")
  case False
  obtain t m h where t: "(t, m) \<in> sp_committed s" "sp_chain s t = Some h" "length H \<le> m" "m \<le> length h" "H = take (length H) h"
    using decided_chain [OF inv d False] .
  have g: "chain_grows s s'" "sp_committed s \<subseteq> sp_committed s'"
    using spec_steps_inv [OF steps inv] by (simp_all add: history_grows_def)
  obtain es where "sp_chain s' t = Some (h @ es)"
    using chain_growsE [OF g(1) t(2)] by blast
  then show ?thesis
    unfolding decided_def using t g(2) by (intro disjI2 exI [of _ t] exI [of _ m]) auto
qed (simp add: decided_def)

lemma decided_agree:
  assumes inv: "spec_inv M s" and d: "decided s A" "decided s B" and len: "length A \<le> length B"
  shows "prefix A B"
proof (cases "A = []")
  case False
  then have "B \<noteq> []"
    using len by auto
  obtain t m where A: "(t, m) \<in> sp_committed s" "length A \<le> m" "A = take (length A) (the (sp_chain s t))"
    using d(1) False unfolding decided_def by blast
  obtain t' m' where B: "(t', m') \<in> sp_committed s" "length B \<le> m'" "B = take (length B) (the (sp_chain s t'))"
    using d(2) \<open>B \<noteq> []\<close> unfolding decided_def by blast
  have "take (length A) (the (sp_chain s t)) = take (length A) (the (sp_chain s t'))"
    using committed_agree [OF inv A(1) B(1) A(2)] B(2) len by simp
  then have "A = take (length A) B"
    using A(3) B(3) len by (metis min.absorb1 take_take)
  then show ?thesis
    by (metis take_is_prefix)
qed simp

lemma decided_done:
  assumes "spec_inv M s"
  shows "decided s (take (sp_done s j) (sp_log s j))"
proof (cases "sp_done s j = 0")
  case False
  then obtain t m where "(t, m) \<in> sp_committed s" "sp_done s j \<le> m" "sp_done s j \<le> length (sp_log s j)"
      "take (sp_done s j) (sp_log s j) = take (sp_done s j) (the (sp_chain s t))"
    using done_within_log [OF assms] by blast
  moreover from this(3) have "length (take (sp_done s j) (sp_log s j)) = sp_done s j"
    by simp
  ultimately show ?thesis
    unfolding decided_def by metis
qed (simp add: decided_def)

text \<open>An entry of the history is on the chain of its term.\<close>

lemma decided_known:
  assumes inv: "spec_inv M s" and d: "decided s H" and k: "k < length H"
  shows "\<exists>g. sp_chain s (log_term (H ! k)) = Some g \<and> k < length g"
proof -
  obtain t m h where t: "sp_chain s t = Some h" "length H \<le> m" "m \<le> length h" "H = take (length H) h"
    using decided_chain [OF inv d] k by (metis length_0_conv less_nat_zero_code)
  have "chain_ok s h"
    using inv t(1) unfolding spec_inv_def inv_logs_def by blast
  then have "chain_ok s H"
    using chain_ok_take [of s h "length H"] t(4) by simp
  then obtain g where g: "sp_chain s (log_term (H ! k)) = Some g" "take (Suc k) H = take (Suc k) g"
    using k unfolding chain_ok_def by blast
  have "Suc k \<le> length g"
    using arg_cong [OF g(2), of length] k by simp
  then show ?thesis
    using g(1) by auto
qed

text \<open>The history grows with the commit index of the replica that moved.\<close>

lemma history_step:
  assumes inv: "spec_inv M s" and steps: "spec_steps M s s'" and d: "decided s H" and rest: "\<forall>j \<in> M. j \<noteq> i \<longrightarrow> sp_done s' j \<le> length H"
  obtains H' where "decided s' H'" "prefix H H'" "\<forall>j \<in> M. sp_done s' j \<le> length H'" "H' = H \<or> H' = take (sp_done s' i) (sp_log s' i)"
proof -
  have inv': "spec_inv M s'"
    using spec_steps_inv [OF steps inv] by simp
  have d': "decided s' H"
    using decided_grows [OF inv steps d] .
  let ?H = "take (sp_done s' i) (sp_log s' i)"
  show ?thesis
  proof (cases "sp_done s' i \<le> length H")
    case True
    then have "\<forall>j \<in> M. sp_done s' j \<le> length H"
      using rest by metis
    then show ?thesis
      using that [of H] d' by blast
  next
    case False
    have len: "length ?H = sp_done s' i"
      using done_within_log [OF inv', of i] by (cases "sp_done s' i = 0") auto
    have "prefix H ?H"
      using decided_agree [OF inv' d' decided_done [OF inv']] False len by simp
    then show ?thesis
      using that [of ?H] decided_done [OF inv', of i] rest False len by fastforce
  qed
qed

section \<open>What the history explains\<close>

definition unique_calls :: "event list \<Rightarrow> bool" where
  "unique_calls es \<longleftrightarrow> (\<forall>ft i j op op'. Invoke ft i op \<in> set es \<and> Invoke ft j op' \<in> set es \<longrightarrow> i = j \<and> op = op')"

definition calls_typed :: "event list \<Rightarrow> bool" where
  "calls_typed es \<longleftrightarrow> (\<forall>ft i op. Invoke ft i op \<in> set es \<longrightarrow> op_typed op \<and> op_ok op \<and> plain op \<and> promiseHandle op = None)"

definition explains :: "int set \<Rightarrow> raft_spec \<Rightarrow> places \<Rightarrow> event list \<Rightarrow> rlog \<Rightarrow> bool" where
  "explains M s pl es H \<longleftrightarrow> decided s H \<and> map strip_entry H = H \<and> (\<forall>j \<in> M. sp_done s j \<le> length H)
     \<and> places_inj pl \<and> (\<forall>t k. pl (t, k) \<noteq> None \<longrightarrow> (\<exists>g. sp_chain s t = Some g \<and> k < length g))
     \<and> (\<forall>x ft. pl x = Some ft \<longrightarrow> (\<exists>i op. Invoke ft i op \<in> set es))
     \<and> log_placed pl es 0 H \<and> ordered pl es H \<and> answered pl es H \<and> unique_calls es \<and> calls_typed es"

lemma explainsD:
  assumes "explains M s pl es H"
  shows "decided s H" "map strip_entry H = H" "\<And>j. j \<in> M \<Longrightarrow> sp_done s j \<le> length H" "places_inj pl"
    "\<And>t k. pl (t, k) \<noteq> None \<Longrightarrow> \<exists>g. sp_chain s t = Some g \<and> k < length g" "\<And>x ft. pl x = Some ft \<Longrightarrow> \<exists>i op. Invoke ft i op \<in> set es"
    "log_placed pl es 0 H" "ordered pl es H" "answered pl es H" "unique_calls es" "calls_typed es"
  using assms unfolding explains_def by blast+

lemma ordered_prefix:
  assumes "ordered pl es H" and p: "prefix H H'"
  shows "ordered pl es H'"
proof -
  have "k < length H \<Longrightarrow> k < length H' \<and> H' ! k = H ! k" for k
    using p by (auto simp: prefix_def nth_append)
  then show ?thesis
    using assms(1) unfolding ordered_def by metis
qed

lemma answered_prefix:
  assumes "answered pl es H" and p: "prefix H H'"
  shows "answered pl es H'"
proof -
  have "k < length H \<Longrightarrow> k < length H' \<and> H' ! k = H ! k \<and> kv_result (map log_op H') k = kv_result (map log_op H) k" for k
    using p kv_result_prefix [OF map_mono_prefix [OF p, of log_op], of k] by (auto simp: prefix_def nth_append)
  then show ?thesis
    using assms(1) unfolding answered_def by metis
qed

text \<open>A step that neither places nor ends calls: the history may grow by what a replica has committed.\<close>

lemma explains_step:
  assumes inv: "spec_inv M s" and e: "explains M s pl es H" and steps: "spec_steps M s s'"
    and rest: "\<forall>j \<in> M. j \<noteq> i \<longrightarrow> sp_done s' j \<le> length H"
    and log: "log_placed pl es 0 (sp_log s' i)" "map strip_entry (sp_log s' i) = sp_log s' i"
  obtains H' where "explains M s' pl es H'" "prefix H H'"
proof -
  note eD = explainsD [OF e]
  obtain H' where H': "decided s' H'" "prefix H H'" "\<forall>j \<in> M. sp_done s' j \<le> length H'" "H' = H \<or> H' = take (sp_done s' i) (sp_log s' i)"
    using history_step [OF inv steps eD(1) rest] .
  have g: "chain_grows s s'"
    using spec_steps_inv [OF steps inv] by (simp add: history_grows_def)
  have "\<exists>g. sp_chain s' t = Some g \<and> k < length g" if tk: "pl (t, k) \<noteq> None" for t k
  proof -
    obtain h where h: "sp_chain s t = Some h" "k < length h"
      using eD(5) [OF tk] by blast
    then show ?thesis
      using chain_growsE [OF g h(1)] by (metis length_append trans_less_add1)
  qed
  moreover have "log_placed pl es 0 H'" "map strip_entry H' = H'"
    using H'(4) eD(2,7) log_placed_take [OF log(1), of "sp_done s' i"] log(2) by (auto simp flip: take_map)
  ultimately have "explains M s' pl es H'"
    unfolding explains_def using eD(4,6,10,11) H'(1,3) ordered_prefix [OF eD(8) H'(2)] answered_prefix [OF eD(9) H'(2)] by blast
  then show ?thesis
    using that H'(2) by blast
qed

text \<open>A call begins.\<close>

lemma explains_invoke:
  assumes e: "explains M s pl es H" and fresh: "fresh_call ft es" and op: "op_typed op" "op_ok op" "plain op" "promiseHandle op = None"
  shows "explains M s pl (es @ [Invoke ft i op]) H"
proof -
  note eD = explainsD [OF e]
  have "pl x \<noteq> Some ft" for x
    using eD(6) [of x ft] fresh by (auto simp: fresh_call_def)
  then have "precedes es y x" if "precedes (es @ [Invoke ft i op]) y x" "pl z = Some x" for y x z
    using that by (cases z) (auto simp: precedes_append)
  then have o: "ordered pl (es @ [Invoke ft i op]) H"
    using eD(8) unfolding ordered_def by blast
  have "log_placed pl (es @ [Invoke ft i op]) 0 H"
    using eD(7) by (rule log_placed_mono) (auto simp: map_le_def)
  moreover have "answered pl (es @ [Invoke ft i op]) H"
    using eD(9) by (auto simp: answered_def)
  moreover have "unique_calls (es @ [Invoke ft i op])" "calls_typed (es @ [Invoke ft i op])"
    using eD(10,11) fresh op by (auto simp: unique_calls_def calls_typed_def fresh_call_def)
  moreover have "\<exists>i' op'. Invoke ft' i' op' \<in> set (es @ [Invoke ft i op])" if "pl x = Some ft'" for x ft'
    using eD(6) [OF that] by auto
  ultimately show ?thesis
    unfolding explains_def using eD(1-5) o by blast
qed

text \<open>Calls are answered with the results of their places.\<close>

lemma explains_return:
  assumes e: "explains M s pl es H" and rs: "\<And>ev. ev \<in> set fs \<Longrightarrow> \<exists>ft k. k < length H \<and> pl (log_term (H ! k), k) = Some ft \<and> ev = Return ft (kv_result (map log_op H) k)"
  shows "explains M s pl (es @ fs) H"
proof -
  note eD = explainsD [OF e]
  have inv: "Invoke ft i op \<in> set (es @ fs) \<longleftrightarrow> Invoke ft i op \<in> set es" for ft i op
    using rs by auto
  have prec: "precedes (es @ fs) y x \<longleftrightarrow> precedes es y x" for x y
    by (rule precedes_returns) (use rs in blast)
  have "log_placed pl (es @ fs) 0 H"
    using eD(7) by (rule log_placed_mono) (auto simp: map_le_def)
  moreover have "answered pl (es @ fs) H"
    unfolding answered_def
  proof (intro allI impI)
    fix ft r assume "Return ft r \<in> set (es @ fs)"
    then consider "Return ft r \<in> set es" | "Return ft r \<in> set fs"
      by auto
    then show "\<exists>k<length H. pl (log_term (H ! k), k) = Some ft \<and> r = kv_result (map log_op H) k"
      using eD(9) rs [of "Return ft r"] by cases (auto simp: answered_def)
  qed
  moreover have "unique_calls (es @ fs)" "calls_typed (es @ fs)" "ordered pl (es @ fs) H"
    using eD(8,10,11) unfolding unique_calls_def calls_typed_def ordered_def inv prec by blast+
  ultimately show ?thesis
    unfolding explains_def inv using eD(1-6) by blast
qed

text \<open>The leader of a term puts new entries at the end of its log, which is the end of the chain of the term.\<close>

lemma place_simps:
  "place t k fts pl (t', k') = (if t' = t \<and> k \<le> k' \<and> k' < k + length fts then fts ! (k' - k) else pl (t', k'))"
  by (simp add: place_def)

lemma place_extends:
  assumes "\<And>k'. k \<le> k' \<Longrightarrow> pl (t, k') = None"
  shows "pl \<subseteq>\<^sub>m place t k fts pl"
  using assms by (auto simp: map_le_def place_simps)

lemma place_new:
  assumes "place t k (map Some cs) pl x = Some ft" and "pl x \<noteq> Some ft"
  obtains j where "x = (t, k + j)" "j < length cs" "cs ! j = ft"
proof -
  obtain t' k' where x: "x = (t', k')"
    by (cases x)
  then have "t' = t" "k \<le> k'" "k' < k + length cs" "cs ! (k' - k) = ft"
    using assms by (auto simp: place_simps split: if_splits)
  then show ?thesis
    using that [of "k' - k"] x by simp
qed

lemma places_inj_place:
  assumes inj: "places_inj pl" and cs: "distinct cs" "\<forall>ft \<in> set cs. ft \<notin> ran pl"
  shows "places_inj (place t k (map Some cs) pl)"
  unfolding places_inj_def
proof (intro allI impI)
  fix x y ft assume xy: "place t k (map Some cs) pl x = Some ft \<and> place t k (map Some cs) pl y = Some ft"
  show "x = y"
  proof (cases "pl x = Some ft \<or> pl y = Some ft")
    case True
    then have "ft \<notin> set cs"
      using cs(2) by (auto intro: ranI)
    then have "pl x = Some ft" "pl y = Some ft"
      using xy place_new [of t k cs pl _ ft] by (metis nth_mem)+
    then show ?thesis
      using inj unfolding places_inj_def by blast
  next
    case False
    then obtain j j' where "x = (t, k + j)" "j < length cs" "cs ! j = ft" "y = (t, k + j')" "j' < length cs" "cs ! j' = ft"
      using xy place_new by metis
    then show ?thesis
      using cs(1) nth_eq_iff_index_eq by blast
  qed
qed

lemma ordered_place:
  assumes inj: "places_inj (place t k (map Some cs) pl)" and ext: "pl \<subseteq>\<^sub>m place t k (map Some cs) pl"
    and o: "ordered pl es H" "answered pl es H" and new: "\<And>k'. k \<le> k' \<Longrightarrow> k' < length H \<Longrightarrow> log_term (H ! k') \<noteq> t"
  shows "ordered (place t k (map Some cs) pl) es H"
  unfolding ordered_def
proof (intro allI impI)
  let ?pl = "place t k (map Some cs) pl"
  fix y x ty ky t' k' assume a: "precedes es y x \<and> ?pl (ty, ky) = Some y \<and> ?pl (t', k') = Some x"
  then obtain r where "Return y r \<in> set es"
    using precedes_events by blast
  then obtain k0 where k0: "k0 < length H" "pl (log_term (H ! k0), k0) = Some y"
    using o(2) unfolding answered_def by blast
  then have "?pl (log_term (H ! k0), k0) = Some y"
    using ext by (metis domI map_le_def)
  then have y: "pl (ty, ky) = Some y" "ky < length H"
    using inj a k0 unfolding places_inj_def by blast+
  show "ky < k' \<or> (k' < length H \<and> log_term (H ! k') \<noteq> t')"
  proof (cases "pl (t', k') = Some x")
    case True
    then show ?thesis
      using o(1) a y(1) unfolding ordered_def by blast
  next
    case False
    then obtain j where "(t', k') = (t, k + j)"
      using place_new a by metis
    then show ?thesis
      using new [of k'] y(2) by (cases "k' < length H") auto
  qed
qed

lemma explains_place:
  assumes inv: "spec_inv M s" and e: "explains M s pl es H" and steps: "spec_steps M s s'" and dn: "\<forall>j \<in> M. sp_done s' j \<le> length H"
    and h: "sp_chain s t = Some h" "length h = k" and h': "sp_chain s' t = Some h'" "k + length cs \<le> length h'"
    and cs: "distinct cs" "\<forall>ft \<in> set cs. ft \<notin> ran pl \<and> (\<exists>i op. Invoke ft i op \<in> set es)"
  shows "explains M s' (place t k (map Some cs) pl) es H" "pl \<subseteq>\<^sub>m place t k (map Some cs) pl"
proof -
  note eD = explainsD [OF e]
  let ?pl = "place t k (map Some cs) pl"
  show ext: "pl \<subseteq>\<^sub>m ?pl"
    using eD(5) [of t] h by (intro place_extends) (metis linorder_not_less option.sel)
  have inj: "places_inj ?pl"
    using places_inj_place [OF eD(4) cs(1)] cs(2) by blast
  have known: "\<exists>g. sp_chain s' t' = Some g \<and> k' < length g" if x: "?pl (t', k') \<noteq> None" for t' k'
  proof (cases "pl (t', k') = None")
    case True
    then have "t' = t" "k' < k + length cs"
      using x by (auto simp: place_simps split: if_splits)
    then show ?thesis
      using h' by auto
  next
    case False
    then obtain g where g: "sp_chain s t' = Some g" "k' < length g"
      using eD(5) by blast
    then show ?thesis
      using spec_steps_inv [OF steps inv] chain_growsE [of s s' t' g] unfolding history_grows_def by (metis length_append trans_less_add1)
  qed
  have called: "\<exists>i op. Invoke ft i op \<in> set es" if "?pl x = Some ft" for x ft
    using that eD(6) [of x ft] cs(2) place_new [of t k cs pl x ft] by (metis nth_mem)
  have "log_term (H ! k') \<noteq> t" if "k \<le> k'" "k' < length H" for k'
    using decided_known [OF inv eD(1) that(2)] h that(1) by auto
  then have o: "ordered ?pl es H"
    using ordered_place [OF inj ext eD(8,9)] by blast
  have "answered ?pl es H"
    using eD(9) ext unfolding answered_def map_le_def by (metis domI)
  then show "explains M s' ?pl es H"
    unfolding explains_def using eD(2,10,11) decided_grows [OF inv steps eD(1)] dn inj known called o log_placed_mono [OF eD(7) ext] by blast
qed

end
