(* ===== verification/ClientQueues.thy ===== *)
theory ClientQueues
  imports ClientSafety
begin

text \<open>
  The promises and queues of one replica, for the checked runs: which operations still wait for their
  answer, where they are, and which call each of them belongs to. \<open>served\<close> is the invariant; the lemmas
  show that the steps of a replica keep it.
\<close>

section \<open>What a replica still has to do\<close>

abbreviation live :: "node \<Rightarrow> handle \<Rightarrow> nat option" where
  "live n \<equiv> ps_live (promises (services n))"

definition commit_len :: "node \<Rightarrow> nat" where
  "commit_len n = nat (CommitIndex n + 1)"

definition todo :: "node \<Rightarrow> RaftOp list" where
  "todo n = execIn n @ raftOut n"

definition executed :: "node \<Rightarrow> nat" where
  "executed n = commit_len n - length (todo n)"

definition todo_ok :: "node \<Rightarrow> bool" where
  "todo_ok n \<longleftrightarrow> length (todo n) \<le> commit_len n \<and> commit_len n \<le> length (log_of n)
     \<and> todo n = map log_op (drop (executed n) (take (commit_len n) (log_of n)))"

text \<open>Submitted operations that are not in the log yet: once a round has run, what the loop took over is.\<close>

definition submitted :: "loop_pc \<Rightarrow> node \<Rightarrow> RaftOp list" where
  "submitted pc n = dispatchOut n @ (if pc = Ran then [] else raftIn n)"

definition promises_ok :: "event list \<Rightarrow> int \<Rightarrow> node \<Rightarrow> bool" where
  "promises_ok es i n \<longleftrightarrow> ps_ok (promises (services n)) \<and> (\<forall>h h' ft. live n h = Some ft \<and> live n h' = Some ft \<longrightarrow> h = h')
     \<and> (\<forall>h ft. live n h = Some ft \<longrightarrow> (\<exists>op. Invoke ft i op \<in> set es))"

definition submitted_ok :: "places \<Rightarrow> event list \<Rightarrow> int \<Rightarrow> loop_pc \<Rightarrow> node \<Rightarrow> bool" where
  "submitted_ok pl es i pc n \<longleftrightarrow> (pc = Ready \<longrightarrow> raftIn n = []) \<and> distinct (op_handles (submitted pc n))
     \<and> (\<forall>op \<in> set (submitted pc n). \<exists>h ft. promiseHandle op = Some h \<and> live n h = Some ft \<and> Invoke ft i (withoutPromise op) \<in> set es \<and> ft \<notin> ran pl)"

text \<open>The operations in the log that were not executed belong to the calls their handles name.\<close>

definition waiting_ok :: "places \<Rightarrow> node \<Rightarrow> bool" where
  "waiting_ok pl n \<longleftrightarrow> set (handles (drop (executed n) (log_of n))) \<subseteq> dom (live n)
     \<and> (\<forall>k h ft. executed n \<le> k \<and> k < length (log_of n) \<and> promiseHandle (log_op (log_of n ! k)) = Some h \<and> live n h = Some ft
          \<longrightarrow> pl (log_term (log_of n ! k), k) = Some ft)"

text \<open>A future that was set holds the answer of the map or says that the operation was given up.\<close>

definition futures_ok :: "event list \<Rightarrow> node \<Rightarrow> bool" where
  "futures_ok es n \<longleftrightarrow> (\<forall>(ft, r) \<in> set (futures (services n)). Return ft r \<in> set es \<or> (\<exists>i op. Invoke ft i op \<in> set es \<and> r = failure op))"

definition served :: "places \<Rightarrow> event list \<Rightarrow> int \<Rightarrow> loop_pc \<Rightarrow> node \<Rightarrow> bool" where
  "served pl es i pc n \<longleftrightarrow> todo_ok n \<and> promises_ok es i n \<and> submitted_ok pl es i pc n \<and> waiting_ok pl n \<and> futures_ok es n
     \<and> log_placed pl es 0 (log_of n)"

lemma servedD:
  assumes "served pl es i pc n"
  shows "todo_ok n" "promises_ok es i n" "submitted_ok pl es i pc n" "waiting_ok pl n" "futures_ok es n" "log_placed pl es 0 (log_of n)"
  using assms by (simp_all add: served_def)

lemma drop_append_le: "k \<le> length xs \<Longrightarrow> drop k (xs @ ys) = drop k xs @ ys"
  by simp

lemma executed_le: "executed n \<le> commit_len n"
  by (simp add: executed_def)

section \<open>Handles\<close>

lemma handles_iff: "h \<in> set (handles l) \<longleftrightarrow> (\<exists>e \<in> set l. promiseHandle (log_op e) = Some h)"
  by (induction l) (auto split: option.splits)

lemma handles_none: "\<forall>e \<in> set l. promiseHandle (log_op e) = None \<Longrightarrow> handles l = []"
  by (induction l) auto

lemma op_handles_iff: "h \<in> set (op_handles ops) \<longleftrightarrow> (\<exists>op \<in> set ops. promiseHandle op = Some h)"
  by (induction ops) (auto simp: map_filter_simps split: option.splits)

lemma op_handles_append: "op_handles (xs @ ys) = op_handles xs @ op_handles ys"
  by (induction xs) (auto simp: map_filter_simps split: option.splits)

lemma op_handles_all: "\<forall>op \<in> set ops. promiseHandle op \<noteq> None \<Longrightarrow> op_handles ops = map (the \<circ> promiseHandle) ops"
  by (induction ops) (auto simp: map_filter_simps)

lemma handles_nth:
  assumes "h \<in> set (handles (drop x l))"
  obtains k where "x \<le> k" "k < length l" "promiseHandle (log_op (l ! k)) = Some h"
proof -
  obtain e where e: "e \<in> set (drop x l)" "promiseHandle (log_op e) = Some h"
    using assms by (auto simp: handles_iff)
  then obtain j where "j < length (drop x l)" "drop x l ! j = e"
    by (auto simp: in_set_conv_nth)
  then show ?thesis
    using that [of "x + j"] e(2) by simp
qed

lemma handles_dropI: "x \<le> k \<Longrightarrow> k < length l \<Longrightarrow> promiseHandle (log_op (l ! k)) = Some h \<Longrightarrow> h \<in> set (handles (drop x l))"
  unfolding handles_iff by (auto simp: in_set_conv_nth intro!: bexI [of _ "l ! k"] exI [of _ "k - x"])

lemma distinct_handles:
  assumes "\<And>k k' h. k < length l \<Longrightarrow> k' < length l \<Longrightarrow> promiseHandle (log_op (l ! k)) = Some h \<Longrightarrow> promiseHandle (log_op (l ! k')) = Some h \<Longrightarrow> k = k'"
  shows "distinct (handles l)"
  using assms
proof (induction l)
  case (Cons e l)
  have "distinct (handles l)"
  proof (rule Cons.IH)
    fix k k' h assume "k < length l" "k' < length l" "promiseHandle (log_op (l ! k)) = Some h" "promiseHandle (log_op (l ! k')) = Some h"
    then show "k = k'"
      using Cons.prems [of "Suc k" "Suc k'" h] by simp
  qed
  moreover have "h \<notin> set (handles l)" if "promiseHandle (log_op e) = Some h" for h
  proof
    assume "h \<in> set (handles l)"
    then obtain k where "k < length l" "promiseHandle (log_op (l ! k)) = Some h"
      using handles_nth [of h 0 l] by auto
    then show False
      using Cons.prems [of 0 "Suc k" h] that by simp
  qed
  ultimately show ?case
    by (simp split: option.split)
qed simp

lemma waiting_okD:
  "waiting_ok pl n \<Longrightarrow> executed n \<le> k \<Longrightarrow> k < length (log_of n) \<Longrightarrow> promiseHandle (log_op (log_of n ! k)) = Some h \<Longrightarrow> live n h = Some ft
    \<Longrightarrow> pl (log_term (log_of n ! k), k) = Some ft"
  unfolding waiting_ok_def by blast

text \<open>Different entries that wait belong to different calls, and not to calls that are still submitted.\<close>

lemma waiting_distinct:
  assumes inj: "places_inj pl" and w: "waiting_ok pl n"
  shows "distinct (handles (drop (executed n) (log_of n)))"
proof (rule distinct_handles)
  let ?l = "drop (executed n) (log_of n)"
  fix k k' h assume k: "k < length ?l" "k' < length ?l" "promiseHandle (log_op (?l ! k)) = Some h" "promiseHandle (log_op (?l ! k')) = Some h"
  have "h \<in> set (handles ?l)"
    unfolding handles_iff using k(1,3) nth_mem by blast
  then obtain ft where "live n h = Some ft"
    using w unfolding waiting_ok_def by auto
  then have "pl (log_term (log_of n ! (executed n + k)), executed n + k) = Some ft" "pl (log_term (log_of n ! (executed n + k')), executed n + k') = Some ft"
    using waiting_okD [OF w, of "executed n + k" h ft] waiting_okD [OF w, of "executed n + k'" h ft] k by simp_all
  then show "k = k'"
    using places_injD [OF inj] by fastforce
qed

lemma submitted_okD:
  assumes "submitted_ok pl es i pc n" and "op \<in> set (submitted pc n)"
  shows "\<exists>h ft. promiseHandle op = Some h \<and> live n h = Some ft \<and> Invoke ft i (withoutPromise op) \<in> set es"
    "promiseHandle op = Some h \<Longrightarrow> live n h = Some ft \<Longrightarrow> ft \<notin> ran pl"
  using assms unfolding submitted_ok_def by (blast, metis option.inject)

lemma waiting_submitted:
  assumes "waiting_ok pl n" and "submitted_ok pl es i pc n" and "h \<in> set (handles (drop (executed n) (log_of n)))" and "op \<in> set (submitted pc n)"
  shows "promiseHandle op \<noteq> Some h"
proof
  assume "promiseHandle op = Some h"
  then obtain ft where ft: "live n h = Some ft" "ft \<notin> ran pl"
    using assms(2,4) unfolding submitted_ok_def by (metis option.inject)
  obtain k where "executed n \<le> k" "k < length (log_of n)" "promiseHandle (log_op (log_of n ! k)) = Some h"
    using handles_nth [OF assms(3)] .
  then have "pl (log_term (log_of n ! k), k) = Some ft"
    using assms(1) ft(1) unfolding waiting_ok_def by blast
  then show False
    using ft(2) by (auto intro: ranI)
qed

section \<open>Giving operations up\<close>

lemma abort_all_futures:
  assumes "abort_all es sv = Inr sv'" and "(ft, r) \<in> set (futures sv')" and "ps_ok (promises sv)"
  shows "(ft, r) \<in> set (futures sv) \<or> (\<exists>e \<in> set es. \<exists>h. promiseHandle (log_op e) = Some h \<and> ps_live (promises sv) h = Some ft \<and> r = failure (log_op e))"
  using assms
proof (induction es arbitrary: sv)
  case (Cons e es)
  obtain op1 sv1 where a: "op_abort (log_op e) sv = Inr (op1, sv1)" "abort_all es sv1 = Inr sv'"
    using Cons.prems(1) by (auto elim!: rbind_Inr_E)
  show ?case
  proof (cases "promiseHandle (log_op e)")
    case None
    then have "sv1 = sv"
      using a(1) by (simp add: op_abort_def)
    then show ?thesis
      using Cons.IH [OF a(2) Cons.prems(2)] Cons.prems(3) by auto
  next
    case (Some h)
    obtain p where p: "ps_live (promises sv) h = Some p"
      using a(1) Some take_promise_dead [of sv h] by (cases "ps_live (promises sv) h") (auto simp: op_abort_def)
    have kn: "known_op (log_op e)"
      using a(1) Some by (cases "kind (log_op e)") (auto simp: op_abort_def known_op_def elim!: rbind_Inr_E)
    obtain sv2 where "op_abort (log_op e) sv = Inr (withoutPromise (log_op e), sv2)" "futures sv2 = (p, failure (log_op e)) # futures sv"
        "ps_ok (promises sv2)" "ps_live (promises sv2) = (ps_live (promises sv))(h := None)"
      using op_abort_live [OF Cons.prems(3) Some p kn] by blast
    then have sv1: "futures sv1 = (p, failure (log_op e)) # futures sv" "ps_ok (promises sv1)" "ps_live (promises sv1) = (ps_live (promises sv))(h := None)"
      using a(1) by auto
    have "(ft, r) \<in> set (futures sv1) \<or> (\<exists>e \<in> set es. \<exists>h. promiseHandle (log_op e) = Some h \<and> ps_live (promises sv1) h = Some ft \<and> r = failure (log_op e))"
      using Cons.IH [OF a(2) Cons.prems(2) sv1(2)] .
    then show ?thesis
      unfolding sv1(1,3) using Some p by (auto split: if_splits)
  qed
qed simp

section \<open>The log moves on\<close>

text \<open>
  What the steps between replicas do to the log and the queues of one of them: the log may be cut behind
  what is committed and continued with entries that carry no handle, whose waiting operations are given
  up, and committed entries go to the executer.
\<close>

definition log_moves :: "node \<Rightarrow> nat \<Rightarrow> LogEntry list \<Rightarrow> node \<Rightarrow> bool" where
  "log_moves n x new n' \<longleftrightarrow> commit_len n \<le> x \<and> x \<le> length (log_of n) \<and> log_of n' = take x (log_of n) @ new
     \<and> (\<forall>e \<in> set new. promiseHandle (log_op e) = None) \<and> commit_len n \<le> commit_len n' \<and> commit_len n' \<le> length (log_of n')
     \<and> raftOut n' = raftOut n @ map log_op (drop (commit_len n) (take (commit_len n') (log_of n'))) \<and> execIn n' = execIn n
     \<and> dispatchOut n' = dispatchOut n \<and> raftIn n' = raftIn n \<and> abort_all (drop x (log_of n)) (services n) = Inr (services n')"

lemma todo_moves:
  assumes t: "todo_ok n" and m: "log_moves n x new n'"
  shows "todo_ok n'" "executed n' = executed n"
proof -
  let ?d = "map log_op (drop (commit_len n) (take (commit_len n') (log_of n')))"
  have len: "commit_len n \<le> commit_len n'" "commit_len n' \<le> length (log_of n')" "length (todo n) \<le> commit_len n"
    using t m unfolding todo_ok_def log_moves_def by blast+
  have td: "todo n' = todo n @ ?d"
    using m by (simp add: todo_def log_moves_def)
  then have "length (todo n') = length (todo n) + (commit_len n' - commit_len n)"
    using len by simp
  then show ex: "executed n' = executed n"
    using len by (simp add: executed_def)
  have "take (commit_len n) (log_of n') = take (commit_len n) (log_of n)"
    using m by (simp add: log_moves_def)
  then have eq: "take (commit_len n') (log_of n') = take (commit_len n) (log_of n) @ drop (commit_len n) (take (commit_len n') (log_of n'))"
    using len(1) by (metis append_take_drop_id min.absorb1 take_take)
  have "drop (executed n) (take (commit_len n') (log_of n'))
      = drop (executed n) (take (commit_len n) (log_of n)) @ drop (commit_len n) (take (commit_len n') (log_of n'))"
    by (subst eq, rule drop_append_le) (use executed_le [of n] t in \<open>simp add: todo_ok_def\<close>)
  then show "todo_ok n'"
    unfolding todo_ok_def ex using td t len by (simp add: todo_ok_def)
qed

lemma failure_strip [simp]: "failure (withoutPromise op) = failure op"
  by (simp add: failure_def withoutPromise_def)

lemma waiting_called:
  assumes s: "served pl es i pc n" and k: "executed n \<le> k" "k < length (log_of n)" "promiseHandle (log_op (log_of n ! k)) = Some h" "live n h = Some ft"
  shows "pl (log_term (log_of n ! k), k) = Some ft" "\<exists>j. Invoke ft j (withoutPromise (log_op (log_of n ! k))) \<in> set es"
proof -
  show pl: "pl (log_term (log_of n ! k), k) = Some ft"
    using servedD(4) [OF s] k unfolding waiting_ok_def by blast
  have "entry_placed pl es k (log_of n ! k)"
    using servedD(6) [OF s] k(2) by (simp add: log_placed_def)
  then show "\<exists>j. Invoke ft j (withoutPromise (log_op (log_of n ! k))) \<in> set es"
    using pl by (auto simp: entry_placed_def)
qed

lemma futures_moves:
  assumes s: "served pl es i pc n" and a: "abort_all (drop x (log_of n)) (services n) = Inr (services n')"
    and x: "executed n \<le> x" and ok: "ps_ok (promises (services n))"
  shows "futures_ok es n'"
  unfolding futures_ok_def
proof clarify
  fix ft r assume r: "(ft, r) \<in> set (futures (services n'))" and none: "\<nexists>i op. Invoke ft i op \<in> set es \<and> r = failure op"
  have "r \<noteq> failure (log_op e)" if e: "e \<in> set (drop x (log_of n))" "promiseHandle (log_op e) = Some h" "live n h = Some ft" for e h
  proof -
    obtain j where "j < length (log_of n) - x" "e = log_of n ! (x + j)"
      using e(1) by (auto simp: in_set_conv_nth)
    then show ?thesis
      using waiting_called(2) [OF s, of "x + j" h ft] e(2,3) x none by (metis add_lessD1 failure_strip less_diff_conv add.commute trans_le_add1)
  qed
  then have "(ft, r) \<in> set (futures (services n))"
    using abort_all_futures [OF a r ok] by blast
  then show "Return ft r \<in> set es"
    using servedD(5) [OF s] none unfolding futures_ok_def by fastforce
qed

lemma served_moves:
  assumes s: "served pl es i pc n" and m: "log_moves n x new n'" and inj: "places_inj pl" and new: "log_placed pl es x new"
    and typed: "\<forall>e \<in> set (log_of n). known_op (log_op e)"
  shows "served pl es i pc n'"
proof -
  note sD = servedD [OF s]
  note todo = todo_moves [OF sD(1) m]
  have mv: "commit_len n \<le> x" "x \<le> length (log_of n)" "log_of n' = take x (log_of n) @ new" "\<forall>e \<in> set new. promiseHandle (log_op e) = None"
      "dispatchOut n' = dispatchOut n" "raftIn n' = raftIn n" "abort_all (drop x (log_of n)) (services n) = Inr (services n')"
    using m by (simp_all add: log_moves_def)
  have ex: "executed n \<le> x"
    using executed_le [of n] mv(1) by simp
  let ?w = "drop (executed n) (log_of n)"
  have split: "handles ?w = handles (drop (executed n) (take x (log_of n))) @ handles (drop x (log_of n))"
    using ex mv(2) by (metis append_take_drop_id drop_append_le handles_append length_take min.absorb2)
  have dist: "distinct (handles ?w)" and dom: "set (handles ?w) \<subseteq> dom (live n)" and ok: "ps_ok (promises (services n))"
    using waiting_distinct [OF inj sD(4)] sD(2,4) by (auto simp: waiting_ok_def promises_ok_def)
  have "list_all (\<lambda>e. known_op (log_op e)) (drop x (log_of n))"
    using typed by (auto simp: list_all_iff dest: in_set_dropD)
  then obtain sv' where "abort_all (drop x (log_of n)) (services n) = Inr sv'" "ps_ok (promises sv')"
      "ps_live (promises sv') = live n |` (- set (handles (drop x (log_of n))))"
    using abort_all_ok [OF ok, of "drop x (log_of n)"] dist dom split by auto
  then have ok': "ps_ok (promises (services n'))" and lv: "live n' = live n |` (- set (handles (drop x (log_of n))))"
    using mv(7) by auto
  have "promises_ok es i n'"
    using sD(2) ok' unfolding promises_ok_def lv restrict_map_def by (auto split: if_splits)
  moreover have sub: "submitted pc n' = submitted pc n"
    using mv(5,6) by (simp add: submitted_def)
  have "live n' h = live n h" if "op \<in> set (submitted pc n)" "promiseHandle op = Some h" for op h
    using waiting_submitted [OF sD(4,3) _ that(1), of h] that(2) split by (auto simp: lv restrict_map_def)
  then have "submitted_ok pl es i pc n'"
    using sD(3) unfolding submitted_ok_def sub mv(6) by metis
  moreover have "handles (drop (executed n) (log_of n')) = handles (drop (executed n) (take x (log_of n)))"
    using ex mv(2,3) handles_none [OF mv(4)] by (simp add: handles_append)
  then have "set (handles (drop (executed n') (log_of n'))) \<subseteq> dom (live n')"
    unfolding todo(2) lv using dom dist split by auto
  then have "waiting_ok pl n'"
    using sD(4) mv(2-4) unfolding waiting_ok_def todo(2) lv restrict_map_def
    by (auto simp: nth_append min_def split: if_splits)
  moreover have "futures_ok es n'"
    by (rule futures_moves [OF s mv(7) _ ok]) (use ex in simp)
  moreover have "log_placed pl es 0 (log_of n')"
    using log_placed_take [OF sD(6)] new mv(2,3) by (simp add: log_placed_append)
  ultimately show ?thesis
    using todo(1) by (simp add: served_def)
qed

lemma served_calm:
  assumes "served pl es i pc n" and "Logs n' = Logs n" "CommitIndex n' = CommitIndex n" "todo n' = todo n" "submitted pc' n' = submitted pc n"
    and "pc' = Ready \<longrightarrow> raftIn n' = []" and "live n' = live n" "ps_ok (promises (services n'))" "futures (services n') = futures (services n)"
  shows "served pl es i pc' n'"
proof -
  have eqs: "commit_len n' = commit_len n" "executed n' = executed n"
    using assms(3,4) by (simp_all add: executed_def commit_len_def)
  show ?thesis
    using assms(1,6,8)
    unfolding served_def todo_ok_def promises_ok_def submitted_ok_def waiting_ok_def futures_ok_def eqs assms(2,4,5,7,9) by blast
qed

lemma served_mono:
  assumes s: "served pl es i pc n" and pl: "pl \<subseteq>\<^sub>m pl'" and es: "set es \<subseteq> set es'"
    and new: "\<And>op h ft. op \<in> set (submitted pc n) \<Longrightarrow> promiseHandle op = Some h \<Longrightarrow> live n h = Some ft \<Longrightarrow> ft \<notin> ran pl'"
  shows "served pl' es' i pc n"
proof -
  note sD = servedD [OF s]
  have "promises_ok es' i n"
    using sD(2) es unfolding promises_ok_def by blast
  moreover have "submitted_ok pl' es' i pc n"
    using sD(3) es new unfolding submitted_ok_def by (metis subsetD)
  moreover have "waiting_ok pl' n"
    using sD(4) pl unfolding waiting_ok_def map_le_def by (metis domI)
  moreover have "futures_ok es' n"
    using sD(5) es unfolding futures_ok_def by fast
  ultimately show ?thesis
    using sD(1) log_placed_mono [OF sD(6) pl es] by (simp add: served_def)
qed

section \<open>The Raft loop\<close>

lemma served_take:
  assumes s: "served pl es i Ready n"
  shows "served pl es i Took (raft_take n)"
  using s by (rule served_calm) (use servedD(2,3) [OF s] in \<open>auto simp: raft_take_def todo_def submitted_def submitted_ok_def promises_ok_def\<close>)

lemma served_skip: "served pl es i Took n \<Longrightarrow> served pl es i Ran n"
  by (auto simp: served_def submitted_ok_def submitted_def op_handles_append)

lemma served_clear:
  assumes s: "served pl es i Ran n"
  shows "served pl es i Ready (raft_clear n)"
  using s by (rule served_calm) (use servedD(2) [OF s] in \<open>auto simp: raft_clear_def todo_def submitted_def promises_ok_def\<close>)

text \<open>The calls whose operations a round puts into the log.\<close>

definition taken_calls :: "node \<Rightarrow> nat list" where
  "taken_calls n = map (the \<circ> call_of n) (raftIn n)"

lemma taken_calls:
  assumes s: "served pl es i Took n"
  shows "map (call_of n) (raftIn n) = map Some (taken_calls n)" "distinct (taken_calls n)"
    "\<forall>ft \<in> set (taken_calls n). ft \<notin> ran pl \<and> (\<exists>i op. Invoke ft i op \<in> set es)"
proof -
  note sub = servedD(3) [OF s, unfolded submitted_ok_def]
  have each: "\<exists>h ft. promiseHandle op = Some h \<and> live n h = Some ft \<and> Invoke ft i (withoutPromise op) \<in> set es \<and> ft \<notin> ran pl" if "op \<in> set (raftIn n)" for op
    using sub that by (auto simp: submitted_def)
  then show eq: "map (call_of n) (raftIn n) = map Some (taken_calls n)"
    by (fastforce simp: taken_calls_def call_of_def)
  show "\<forall>ft \<in> set (taken_calls n). ft \<notin> ran pl \<and> (\<exists>i op. Invoke ft i op \<in> set es)"
    using each by (fastforce simp: taken_calls_def call_of_def)
  have inj: "live n h = Some ft \<Longrightarrow> live n h' = Some ft \<Longrightarrow> h = h'" for h h' ft
    using servedD(2) [OF s] unfolding promises_ok_def by blast
  have "op_handles (raftIn n) = map (the \<circ> promiseHandle) (raftIn n)"
    using each by (intro op_handles_all) auto
  moreover have "the (call_of n op) = the (live n (the (promiseHandle op)))" if "op \<in> set (raftIn n)" for op
    using each [OF that] by (auto simp: call_of_def)
  ultimately have "taken_calls n = map (the \<circ> live n) (op_handles (raftIn n))"
    by (simp add: taken_calls_def)
  moreover have "inj_on (the \<circ> live n) (set (op_handles (raftIn n)))"
  proof (rule inj_onI)
    fix h h' assume h: "h \<in> set (op_handles (raftIn n))" "h' \<in> set (op_handles (raftIn n))" "(the \<circ> live n) h = (the \<circ> live n) h'"
    obtain ft ft' where "live n h = Some ft" "live n h' = Some ft'"
      using h(1,2) each unfolding op_handles_iff by fastforce
    then show "h = h'"
      using h(3) inj by simp
  qed
  moreover have "distinct (op_handles (raftIn n))"
    using sub by (simp add: submitted_def op_handles_append)
  ultimately show "distinct (taken_calls n)"
    by (simp add: distinct_map)
qed

lemma taken_nth:
  assumes s: "served pl es i Took n" and j: "j < length (raftIn n)"
  obtains h where "promiseHandle (raftIn n ! j) = Some h" "live n h = Some (taken_calls n ! j)"
    "Invoke (taken_calls n ! j) i (withoutPromise (raftIn n ! j)) \<in> set es"
proof -
  have "raftIn n ! j \<in> set (submitted Took n)"
    using j by (simp add: submitted_def)
  then obtain h ft where h: "promiseHandle (raftIn n ! j) = Some h" "live n h = Some ft" "Invoke ft i (withoutPromise (raftIn n ! j)) \<in> set es"
    using servedD(3) [OF s] unfolding submitted_ok_def by blast
  then have "taken_calls n ! j = ft"
    using j by (simp add: taken_calls_def call_of_def)
  then show ?thesis
    using that h by blast
qed

text \<open>What is submitted after the loop took over its list belongs to other calls.\<close>

lemma dispatched_others:
  assumes s: "served pl es i Took n" and op: "op \<in> set (dispatchOut n)" "promiseHandle op = Some h" "live n h = Some ft"
  shows "ft \<notin> set (taken_calls n)"
proof
  assume "ft \<in> set (taken_calls n)"
  then obtain j where j: "j < length (raftIn n)" "ft = taken_calls n ! j"
    by (auto simp: taken_calls_def in_set_conv_nth)
  obtain h' where h': "promiseHandle (raftIn n ! j) = Some h'" "live n h' = Some ft"
    using taken_nth [OF s j(1)] j(2) by metis
  have "h' = h"
    using servedD(2) [OF s] h'(2) op(3) unfolding promises_ok_def by blast
  then have "h \<in> set (op_handles (dispatchOut n))" "h \<in> set (op_handles (raftIn n))"
    using op h'(1) j(1) nth_mem unfolding op_handles_iff by blast+
  then show False
    using servedD(3) [OF s] by (auto simp: submitted_ok_def submitted_def op_handles_append)
qed

text \<open>The calls of the round have their places, those submitted behind it have none.\<close>

lemma submitted_run:
  assumes s: "served pl es i Took n" and same: "dispatchOut n' = dispatchOut n" "services n' = services n"
  shows "submitted_ok (place t k (map Some (taken_calls n)) pl) es i Ran n'" (is "submitted_ok ?pl es i Ran n'")
proof -
  note sD = servedD [OF s]
  have "ft \<notin> ran ?pl" if o: "op \<in> set (dispatchOut n)" "promiseHandle op = Some h" "live n h = Some ft" for op h ft
  proof
    assume "ft \<in> ran ?pl"
    then obtain x where "?pl x = Some ft"
      by (auto simp: ran_def)
    moreover have "ft \<notin> ran pl"
      using submitted_okD(2) [OF sD(3), of op h ft] o by (simp add: submitted_def)
    ultimately obtain j where "j < length (taken_calls n)" "taken_calls n ! j = ft"
      using place_new [of t k "taken_calls n" pl x ft] by (metis ranI)
    then show False
      using dispatched_others [OF s o] by auto
  qed
  then show ?thesis
    using sD(3) same by (fastforce simp: submitted_ok_def submitted_def op_handles_append)
qed

lemma waiting_run:
  assumes s: "served pl es i Took n" and sub: "pl \<subseteq>\<^sub>m pl'" and new: "\<And>j. j < length (raftIn n) \<Longrightarrow> pl' (t, length (log_of n) + j) = Some (taken_calls n ! j)"
    and log: "log_of n' = log_of n @ map (\<lambda>op. \<lparr>log_term = t, log_op = op\<rparr>) (raftIn n)" and same: "executed n' = executed n" "services n' = services n"
  shows "waiting_ok pl' n'"
proof -
  note sD = servedD [OF s]
  let ?k = "length (log_of n)"
  have ex: "executed n \<le> ?k"
    using sD(1) executed_le [of n] by (simp add: todo_ok_def)
  have "set (handles (map (\<lambda>op. \<lparr>log_term = t, log_op = op\<rparr>) (raftIn n))) \<subseteq> dom (live n)"
    using submitted_okD(1) [OF sD(3)] by (fastforce simp: handles_iff submitted_def)
  moreover have "pl' (log_term (log_of n' ! k), k) = Some ft"
    if k: "executed n \<le> k" "k < length (log_of n')" "promiseHandle (log_op (log_of n' ! k)) = Some h" "live n h = Some ft" for k h ft
  proof (cases "k < ?k")
    case True
    then have "pl (log_term (log_of n ! k), k) = Some ft"
      using waiting_okD [OF sD(4) k(1) True] k(3,4) log by (simp add: nth_append)
    then show ?thesis
      using True log sub by (metis domI map_le_def nth_append)
  next
    case False
    then obtain j where j: "k = ?k + j" "j < length (raftIn n)"
      using k(2) log by (metis add_diff_inverse_nat length_append length_map nat_add_left_cancel_less)
    then have "taken_calls n ! j = ft"
      using taken_nth [OF s j(2)] k(3,4) log by (metis (no_types, lifting) LogEntry.select_convs(2) length_map nth_append_length_plus nth_map option.inject)
    then show ?thesis
      using new [OF j(2)] j log by (simp add: nth_append)
  qed
  ultimately show ?thesis
    using sD(4) ex log unfolding waiting_ok_def same by (simp add: handles_append)
qed

lemma served_run:
  assumes s: "served pl es i Took n" and pl': "pl' = place t (length (log_of n)) (map Some (taken_calls n)) pl" "pl \<subseteq>\<^sub>m pl'"
    and log: "log_of n' = log_of n @ map (\<lambda>op. \<lparr>log_term = t, log_op = op\<rparr>) (raftIn n)"
    and same: "CommitIndex n' = CommitIndex n" "raftOut n' = raftOut n" "execIn n' = execIn n" "dispatchOut n' = dispatchOut n" "services n' = services n"
  shows "served pl' es i Ran n'"
proof -
  note sD = servedD [OF s]
  have new: "pl' (t, length (log_of n) + j) = Some (taken_calls n ! j)" if "j < length (raftIn n)" for j
    using that by (simp add: pl'(1) place_simps taken_calls_def)
  have eqs: "todo n' = todo n" "commit_len n' = commit_len n" "executed n' = executed n"
    using same by (simp_all add: todo_def commit_len_def executed_def)
  have "todo_ok n'"
    using sD(1) log unfolding todo_ok_def eqs by simp
  moreover have "promises_ok es i n'" "futures_ok es n'"
    using sD(2,5) same(5) by (simp_all add: promises_ok_def futures_ok_def)
  moreover have "submitted_ok pl' es i Ran n'"
    unfolding pl'(1) by (rule submitted_run [OF s same(4,5)])
  moreover have "waiting_ok pl' n'"
    by (rule waiting_run [OF s pl'(2) new log eqs(3) same(5)])
  moreover have "entry_placed pl' es (length (log_of n) + j) \<lparr>log_term = t, log_op = raftIn n ! j\<rparr>" if "j < length (raftIn n)" for j
    using taken_nth [OF s that] new [OF that] by (auto simp: entry_placed_def)
  then have "log_placed pl' es 0 (log_of n')"
    using log_placed_mono [OF sD(6) pl'(2)] log by (simp add: log_placed_append) (simp add: log_placed_def)
  ultimately show ?thesis
    by (simp add: served_def)
qed

section \<open>Clients\<close>

lemma request_cases:
  assumes r: "request_begin k a v ft n = Inr (pc, n')" and k: "k = GET \<or> k = PUT" and ok: "ps_ok (promises (services n))"
  obtains (refused) ret where "pc = Answered ret" "dispatchOut n' = dispatchOut n" "live n' = live n"
  | (accepted) it where "pc = Await ft" "dispatchOut n' = dispatchOut n @ [\<lparr>kind = k, args = a, promiseHandle = Some it\<rparr>]"
      "live n it = None" "live n' = (live n)(it \<mapsto> ft)"
proof (cases "Role n = Leader")
  case True
  then show ?thesis
    using request_accepted [OF True ok, of k a v ft] r accepted by auto
next
  case False
  then show ?thesis
    using request_refused [OF k False ok, of a v ft] r refused by auto
qed

lemma request_rest:
  assumes r: "request_begin k a v ft n = Inr (pc, n')" and ok: "ps_ok (promises (services n))"
  shows "Logs n' = Logs n" "CommitIndex n' = CommitIndex n" "raftOut n' = raftOut n" "execIn n' = execIn n" "raftIn n' = raftIn n"
    "futures (services n') = futures (services n)" "ps_ok (promises (services n'))"
proof -
  obtain it ps where i: "ps_insert ft (promises (services n)) = (it, ps)"
    by (cases "ps_insert ft (promises (services n))")
  show "Logs n' = Logs n" "CommitIndex n' = CommitIndex n" "raftOut n' = raftOut n" "execIn n' = execIn n" "raftIn n' = raftIn n"
    "futures (services n') = futures (services n)" "ps_ok (promises (services n'))"
    using r ps.invar_insert [OF ok i] ps.invar_remove [OF ps.invar_insert [OF ok i]]
    by (auto simp: request_unfold i elim!: rbind_Inr_E split: if_splits)
qed

text \<open>A new promise does not touch what waits, and its operation is the last one submitted.\<close>

lemma waiting_more_live:
  assumes w: "waiting_ok pl n" and keep: "\<And>h. live n h \<noteq> None \<Longrightarrow> live n' h = live n h" and same: "log_of n' = log_of n" "executed n' = executed n"
  shows "waiting_ok pl n'"
proof -
  have "set (handles (drop (executed n) (log_of n))) \<subseteq> dom (live n')"
    using w keep unfolding waiting_ok_def by (metis (no_types, lifting) domIff subset_iff)
  moreover have "pl (log_term (log_of n ! j), j) = Some ft"
    if j: "executed n \<le> j" "j < length (log_of n)" "promiseHandle (log_op (log_of n ! j)) = Some h" "live n' h = Some ft" for j h ft
  proof -
    have "live n h \<noteq> None"
      using handles_dropI [OF j(1-3)] w unfolding waiting_ok_def by blast
    then show ?thesis
      using waiting_okD [OF w j(1-3)] j(4) keep by simp
  qed
  ultimately show ?thesis
    unfolding waiting_ok_def same by simp
qed

lemma submitted_more:
  assumes s: "submitted_ok pl es i pc n" and q: "promiseHandle q = Some it" "Invoke ft i (withoutPromise q) \<in> set es" "ft \<notin> ran pl"
    and new: "live n it = None" "live n' = (live n)(it \<mapsto> ft)" and same: "dispatchOut n' = dispatchOut n @ [q]" "raftIn n' = raftIn n"
  shows "submitted_ok pl es i pc n'"
proof -
  have "set (submitted pc n') = insert q (set (submitted pc n))"
    using same by (auto simp: submitted_def)
  moreover have "it \<notin> set (op_handles (submitted pc n))"
    using s new(1) by (auto simp: op_handles_iff submitted_ok_def)
  then have "distinct (op_handles (submitted pc n'))"
    using s same q(1) by (auto simp: submitted_ok_def submitted_def op_handles_append map_filter_simps)
  moreover have "\<exists>h ft'. promiseHandle p = Some h \<and> live n' h = Some ft' \<and> Invoke ft' i (withoutPromise p) \<in> set es \<and> ft' \<notin> ran pl"
    if "p \<in> set (submitted pc n)" for p
    using s that new unfolding submitted_ok_def by (metis fun_upd_other option.distinct(1))
  ultimately show ?thesis
    using s q new(2) same(2) unfolding submitted_ok_def by (simp del: set_append)
qed

lemma served_request:
  assumes s: "served pl es i pc n" and r: "request_begin k a v ft n = Inr (rpc, n')" and k: "k = GET \<or> k = PUT" and fresh: "fresh_call ft es"
    and unplaced: "ft \<notin> ran pl" and op: "op = \<lparr>kind = k, args = a, promiseHandle = None\<rparr>"
  shows "served pl (es @ invoked rpc i op) i pc n'"
proof -
  note sD = servedD [OF s]
  have ok: "ps_ok (promises (services n))"
    using sD(2) by (simp add: promises_ok_def)
  note rest = request_rest [OF r ok]
  from r k ok show ?thesis
  proof (cases rule: request_cases)
    case refused
    have "served pl es i pc n'"
      using s by (rule served_calm) (use rest refused sD(3) in \<open>auto simp: todo_def submitted_def submitted_ok_def\<close>)
    then show ?thesis
      using refused(1) by simp
  next
    case (accepted it)
    let ?es = "es @ [Invoke ft i op]"
    let ?op = "\<lparr>kind = k, args = a, promiseHandle = Some it\<rparr>"
    have s': "served pl ?es i pc n"
      by (rule served_mono [OF s]) (use submitted_okD(2) [OF sD(3)] in auto)
    note sD' = servedD [OF s']
    have eqs: "todo n' = todo n" "commit_len n' = commit_len n" "executed n' = executed n"
      using rest by (simp_all add: todo_def commit_len_def executed_def)
    have "live n h \<noteq> Some ft" for h
      using sD(2) fresh unfolding promises_ok_def fresh_call_def by blast
    then have "promises_ok ?es i n'"
      using sD'(2) rest(7) unfolding promises_ok_def accepted(4) by auto
    moreover have "submitted_ok pl ?es i pc n'"
      by (rule submitted_more [OF sD'(3), of ?op it ft]) (use accepted(2-4) rest(5) unplaced in \<open>simp_all add: op withoutPromise_def\<close>)
    moreover have "waiting_ok pl n'"
      by (rule waiting_more_live [OF sD(4) _ _ eqs(3)]) (use accepted(3,4) rest(1) in auto)
    ultimately have "served pl ?es i pc n'"
      using sD' eqs rest by (simp add: served_def todo_ok_def futures_ok_def)
    then show ?thesis
      using accepted(1) by simp
  qed
qed

section \<open>The executer\<close>

lemma served_execTake: "served pl es i pc n \<Longrightarrow> execIn n = [] \<Longrightarrow> served pl es i pc (executer_take n)"
  by (rule served_calm) (auto simp: executer_take_def todo_def submitted_def served_def submitted_ok_def promises_ok_def)

lemma op_execute_fulfils:
  assumes "op_execute dbget dbput op db sv = Inr (op', db', sv')" and "op_typed op"
  shows "\<exists>r. op_fulfil op r sv = Inr (op', sv')"
  using assms by (auto simp: op_execute_def Let_def elim!: rbind_Inr_E split: OpType.splits prod.splits)

lemma fulfilled:
  assumes "op_fulfil op r sv = Inr (op', sv')" and ok: "ps_ok (promises sv)"
  shows "ps_ok (promises sv')"
    "promiseHandle op = None \<Longrightarrow> sv' = sv"
    "promiseHandle op = Some h \<Longrightarrow> \<exists>ft. ps_live (promises sv) h = Some ft \<and> ps_live (promises sv') = (ps_live (promises sv))(h := None)
       \<and> futures sv' = (ft, r) # futures sv"
proof -
  show "promiseHandle op = None \<Longrightarrow> sv' = sv"
    using assms by (simp add: op_fulfil_def)
  have some: "\<exists>ft. ps_live (promises sv) h = Some ft \<and> ps_live (promises sv') = (ps_live (promises sv))(h := None) \<and> futures sv' = (ft, r) # futures sv
      \<and> ps_ok (promises sv')" if h: "promiseHandle op = Some h" for h
  proof (cases "ps_live (promises sv) h")
    case None
    then show ?thesis
      using assms h take_promise_dead [OF None] by (simp add: op_fulfil_def)
  next
    case (Some ft)
    then show ?thesis
      using take_promise_live [OF ok Some] assms h by (auto simp: op_fulfil_def set_value_def)
  qed
  then show "promiseHandle op = Some h \<Longrightarrow> \<exists>ft. ps_live (promises sv) h = Some ft \<and> ps_live (promises sv') = (ps_live (promises sv))(h := None)
       \<and> futures sv' = (ft, r) # futures sv"
    by blast
  show "ps_ok (promises sv')"
    using some assms by (cases "promiseHandle op") (auto simp: op_fulfil_def)
qed

text \<open>The operation the executer runs next is at the index behind what it has run.\<close>

lemma next_executed:
  assumes t: "todo_ok n" and e: "execIn n = op # ops"
  shows "executed n < commit_len n" "commit_len n \<le> length (log_of n)" "op = log_op (log_of n ! executed n)"
proof -
  have td: "todo n = op # ops @ raftOut n" "length (todo n) \<le> commit_len n"
    using t e by (simp_all add: todo_def todo_ok_def)
  then show x: "executed n < commit_len n"
    by (simp add: executed_def)
  show len: "commit_len n \<le> length (log_of n)"
    using t by (simp add: todo_ok_def)
  have "todo n ! 0 = log_op (drop (executed n) (take (commit_len n) (log_of n)) ! 0)"
    using t x len by (simp add: todo_ok_def)
  then show "op = log_op (log_of n ! executed n)"
    using td x len by simp
qed

text \<open>The first operation to do is taken off.\<close>

lemma todo_executed:
  assumes td: "todo_ok n" and e: "execIn n = op # ops" and m: "m = n\<lparr>services := sv, execIn := ops\<rparr>"
  shows "executed m = Suc (executed n)" "commit_len m = commit_len n" "todo_ok m"
proof -
  note nx = next_executed [OF td e]
  have tl: "todo n = op # todo m"
    using e by (simp add: todo_def m)
  have "length (todo n) \<le> commit_len n"
    using td by (simp add: todo_ok_def)
  then show ex: "executed m = Suc (executed n)" and cl: "commit_len m = commit_len n"
    using tl by (simp_all add: executed_def commit_len_def m)
  have dr: "drop (executed n) (take (commit_len n) (log_of n)) = log_of n ! executed n # drop (Suc (executed n)) (take (commit_len n) (log_of n))"
    using nx by (simp add: Cons_nth_drop_Suc [symmetric])
  have "log_of m = log_of n"
    by (simp add: m)
  then show "todo_ok m"
    using td dr tl unfolding todo_ok_def ex cl by simp
qed

lemma promises_less_live:
  assumes "promises_ok es i n" and "ps_ok (promises (services n'))" and "\<And>h ft. live n' h = Some ft \<Longrightarrow> live n h = Some ft"
    and "\<And>ft j q. Invoke ft j q \<in> set es \<Longrightarrow> Invoke ft j q \<in> set es'"
  shows "promises_ok es' i n'"
  using assms unfolding promises_ok_def by (metis (no_types, lifting))

lemma served_execute:
  assumes s: "served pl es i pc n" and e: "execIn n = op # ops" and f: "op_fulfil op r (services n) = Inr (op', sv')" and inj: "places_inj pl"
  shows "served pl (es @ returns (services n) sv') i pc (n\<lparr>services := sv', execIn := ops\<rparr>)" (is "served pl ?es i pc ?n")
proof -
  note sD = servedD [OF s]
  note nx = next_executed [OF sD(1) e] and ex = todo_executed [OF sD(1) e refl, of sv']
  have ok: "ps_ok (promises (services n))"
    using sD(2) by (simp add: promises_ok_def)
  note ff = fulfilled [OF f ok]
  have w: "handles (drop (executed n) (log_of n)) = (case promiseHandle op of None \<Rightarrow> [] | Some h \<Rightarrow> [h]) @ handles (drop (Suc (executed n)) (log_of n))"
    using nx by (simp add: Cons_nth_drop_Suc [symmetric] split: option.split)
  have dist: "distinct (handles (drop (executed n) (log_of n)))"
    using waiting_distinct [OF inj sD(4)] .
  have lv: "live ?n h = (if promiseHandle op = Some h then None else live n h)" for h
    using ff(2,3) by (cases "promiseHandle op") auto
  have own: "promiseHandle q \<noteq> Some h" if "q \<in> set (submitted pc n)" "promiseHandle op = Some h" for q h
    using waiting_submitted [OF sD(4,3) _ that(1), of h] w that(2) by simp
  have sub: "submitted pc ?n = submitted pc n"
    by (simp add: submitted_def)
  have "promises_ok ?es i ?n"
    by (rule promises_less_live [OF sD(2)]) (use ff(1) lv in \<open>auto split: if_splits\<close>)
  moreover have "submitted_ok pl ?es i pc ?n"
    using sD(3) own lv unfolding submitted_ok_def sub by fastforce
  moreover have "set (handles (drop (Suc (executed n)) (log_of n))) \<subseteq> dom (live ?n)"
    using sD(4) dist w lv unfolding waiting_ok_def by (auto simp: domIff split: option.splits)
  then have "waiting_ok pl ?n"
    using waiting_okD [OF sD(4)] lv unfolding waiting_ok_def ex by (auto split: if_splits)
  moreover have "futures_ok ?es ?n"
    using sD(5) ff(2,3) by (cases "promiseHandle op") (fastforce simp: futures_ok_def returns_def)+
  moreover have "log_placed pl ?es 0 (log_of ?n)"
    using log_placed_mono [OF sD(6)] by auto
  ultimately show ?thesis
    using ex(3) by (simp add: served_def)
qed

end
