(* ===== verification/ClientSteps.thy ===== *)
theory ClientSteps
  imports ClientQueues
begin

text \<open>
  What the steps between the replicas of a cluster do to the log and the queues of a replica: each is a
  \<open>log_moves\<close> of at most one replica, with entries whose calls are known. The requests in flight carry
  entries of calls that are known (\<open>call_placed\<close>).
\<close>

section \<open>Steps that leave log and queues alone\<close>

definition calm :: "node \<Rightarrow> node \<Rightarrow> bool" where
  "calm n n' \<longleftrightarrow> Logs n' = Logs n \<and> CommitIndex n' = CommitIndex n \<and> raftOut n' = raftOut n \<and> execIn n' = execIn n
     \<and> dispatchOut n' = dispatchOut n \<and> raftIn n' = raftIn n \<and> services n' = services n"

lemma calm_moves: "calm n n' \<Longrightarrow> commit_len n \<le> length (log_of n) \<Longrightarrow> log_moves n (length (log_of n)) [] n'"
  by (simp add: calm_def log_moves_def commit_len_def)

lemma calm_NetworkUpdate: "calm n (NetworkUpdate es n)"
proof (induction es arbitrary: n)
  case (Cons e es)
  then show ?case
    by (cases "om_find (peers n) (pn_peerId e)") (auto simp: calm_def)
qed (simp add: calm_def)

lemma calm_idle: "idle_step n n' \<Longrightarrow> calm n n'"
proof (induction rule: idle_step.induct)
  case (network n es)
  then show ?case
    by (rule calm_NetworkUpdate)
qed (auto simp: calm_def getLastKnownLeaderDBAddr_def executer_wait_def start_def stop_def case_prod_beta)

lemma calm_becomeFollower: "calm n (becomeFollower t now n)"
  by (simp add: calm_def)

lemma calm_election: "electionImpl_body tmo now n = Inr (ths, n') \<Longrightarrow> calm n n'"
  by (auto simp: calm_def electionImpl_body_def startElection_def Let_def i32_add_def split: RaftRole.splits if_splits)

lemma calm_vote: "RequestVote a now n = (reply, n') \<Longrightarrow> calm n n'"
  by (auto simp: calm_def RequestVote_def Let_def split: if_splits)

lemma calm_vote_reply: "calm n (vote_reply t reply now n)"
  by (simp add: calm_def vote_reply_def Let_def)

lemma calm_prepare: "leader_prepare p t n = Inr ((k, a), n') \<Longrightarrow> calm n n'"
  using leader_prepare_shape [of p t n k a n'] by (auto simp: calm_def)

section \<open>Steps that commit\<close>

lemma log_movesI:
  assumes c: "commits n es n'" and idx: "LastApplied n = CommitIndex n" "-1 \<le> CommitIndex n" "CommitIndex n \<le> CommitIndex n'"
    and x: "commit_len n \<le> x" "x \<le> length (log_of n)" "log_of n' = take x (log_of n) @ new" "\<forall>e \<in> set new. promiseHandle (log_op e) = None"
    and out: "raftOut n' = raftOut n @ es" and same: "execIn n' = execIn n" "dispatchOut n' = dispatchOut n" "raftIn n' = raftIn n"
    and ab: "abort_all (drop x (log_of n)) (services n) = Inr (services n')"
  shows "log_moves n x new n'"
proof -
  have le: "commit_len n \<le> commit_len n'"
    using idx by (simp add: commit_len_def)
  have "commit_len n' \<le> length (log_of n') \<and> es = map log_op (drop (commit_len n) (take (commit_len n') (log_of n')))"
  proof (cases "CommitIndex n' = CommitIndex n")
    case True
    then have "es = []"
      using c idx by (auto simp: commits_def)
    then show ?thesis
      using True x by (simp add: commit_len_def)
  next
    case False
    then have "CommitIndex n' < int (length (log_of n'))" "es = map log_op (segment (CommitIndex n + 1) (CommitIndex n') (log_of n'))"
      using c idx by (auto simp: commits_def)
    then show ?thesis
      by (simp add: commit_len_def segment_def drop_take nat_le_iff)
  qed
  then show ?thesis
    using le x out same ab by (simp add: log_moves_def)
qed

lemma agree_len_stop: "agree_len ls es < length ls \<Longrightarrow> agree_len ls es < length es \<Longrightarrow> log_term (ls ! agree_len ls es) \<noteq> ale_term (es ! agree_len ls es)"
  by (induction ls es rule: agree_len.induct) auto

text \<open>A log that keeps what is committed is cut behind it.\<close>

lemma cut_behind:
  assumes keep: "take c (stripped (take x l @ new)) = take c (stripped l)" and c: "c \<le> length l"
    and diff: "x < length l \<Longrightarrow> new \<noteq> [] \<and> log_term (new ! 0) \<noteq> log_term (l ! x)"
  shows "c \<le> x"
proof (rule ccontr)
  assume "\<not> c \<le> x"
  then have x: "x < c" "x < length l"
    using c by simp_all
  have "stripped (take x l @ new) ! x = stripped l ! x"
    using keep x(1) by (metis nth_take)
  then have "log_term (strip_entry (new ! 0)) = log_term (strip_entry (l ! x))"
    using x(2) diff [OF x(2)] by (simp add: nth_append)
  then show False
    using diff [OF x(2)] by (simp add: strip_entry_def)
qed

text \<open>What a commit keeps, seen from the cluster.\<close>

lemma setup_commit_len:
  assumes "cluster_sim dir T (members cfg) c s" and "i \<in> members cfg" and "sound_setup T cfg"
  shows "commit_len (reps c i) \<le> length (log_of (reps c i))"
  using setup_indices(4) [OF assms] by (simp add: commit_len_def nat_le_iff)

lemma moved_keeps:
  assumes sim: "cluster_sim dir T (members cfg) c s" and sim': "cluster_sim dir T (members cfg) c' s'" and steps: "spec_steps (members cfg) s s'"
    and ss: "sound_setup T cfg" and i: "i \<in> members cfg" and step: "node_step (reps c i) es n'" and c': "reps c' = (reps c)(i := n')"
  shows "take (commit_len (reps c i)) (stripped (log_of n')) = take (commit_len (reps c i)) (stripped (log_of (reps c i)))"
    "CommitIndex (reps c i) \<le> CommitIndex n'" "commits (reps c i) es n'" "LastApplied (reps c i) = CommitIndex (reps c i)" "-1 \<le> CommitIndex (reps c i)"
    "commit_len (reps c i) \<le> length (log_of (reps c i))"
proof -
  let ?n = "reps c i"
  note ok = cluster_simD(2) [OF sim i] and ok' = cluster_simD(2) [OF sim' i]
  note inv = setup_indices(1) [OF sim i ss]
  show idx: "LastApplied ?n = CommitIndex ?n" "-1 \<le> CommitIndex ?n"
    and bound: "commit_len ?n \<le> length (log_of ?n)"
    using setup_indices [OF sim i ss] setup_commit_len [OF sim i ss] by simp_all
  show keep: "take (commit_len ?n) (stripped (log_of n')) = take (commit_len ?n) (stripped (log_of ?n))"
    using spec_steps_keep_prefix [OF steps cluster_simD(1) [OF sim], of i] replica_okD(4,5) [OF ok] replica_okD(4) [OF ok'] c'
    by (simp add: commit_len_def)
  have "commit_len ?n \<le> length (log_of n')"
    using take_eq_length [OF keep] bound by simp
  then have "CommitIndex ?n < int (length (log_of n'))"
    by (simp add: commit_len_def nat_le_iff)
  then show "CommitIndex ?n \<le> CommitIndex n'"
    using node_step_mono [OF step inv setup_indices(4) [OF sim i ss]] by simp
  show "commits ?n es n'"
    using node_step_commits [OF step inv] by simp
qed

lemma follower_commit_frame:
  "follower_commit c n = Inr n' \<Longrightarrow> services n' = services n \<and> execIn n' = execIn n \<and> dispatchOut n' = dispatchOut n \<and> raftIn n' = raftIn n \<and> Logs n' = Logs n"
  by (auto simp: follower_commit_def queue_committed_def elim!: rbind_Inr_E split: if_splits)

text \<open>What an accepted call does to the log: the entries from the first disagreement on replace what stood there, or nothing changes.\<close>

lemma stored_outcome:
  fixes a :: AppendEntriesParams
  defines "k \<equiv> nat (ae_prevLogIndex a + 1)"
  assumes prev: "-1 \<le> ae_prevLogIndex a" "ae_prevLogIndex a < int (length (log_of n))"
    and store: "store_entries a (ae_stepdown a now n) = Inr n4" "follower_commit c n4 = Inr n'"
  obtains (cut) m where "k + m \<le> length (log_of n)" "log_of n' = take (k + m) (log_of n) @ map entry_of (drop m (ae_entries a))"
      "m < length (ae_entries a)" "k + m < length (log_of n) \<Longrightarrow> log_term (map entry_of (drop m (ae_entries a)) ! 0) \<noteq> log_term (log_of n ! (k + m))"
      "abort_all (drop (k + m) (log_of n)) (services n) = Inr (services n')"
  | (kept) "log_of n' = log_of n" "services n' = services n"
proof -
  define m where "m = agree_len (drop k (log_of n)) (ae_entries a)"
  have fc: "services n' = services n4" "Logs n' = Logs n4"
    using follower_commit_frame [OF store(2)] by simp_all
  have log: "log_of n' = ae_merge (log_of n) k (ae_entries a)"
    using store_entries_log [OF store(1)] prev fc(2) by (simp add: k_def)
  show ?thesis
  proof (cases "m < length (ae_entries a)")
    case True
    have x: "k + m \<le> length (log_of n)"
      using agree_len_le(1) [of "drop k (log_of n)" "ae_entries a"] prev by (simp add: m_def k_def)
    have l: "log_of n' = take (k + m) (log_of n) @ map entry_of (drop m (ae_entries a))"
      using log True by (simp add: ae_merge_def m_def [symmetric])
    have "log_term (map entry_of (drop m (ae_entries a)) ! 0) \<noteq> log_term (log_of n ! (k + m))" if "k + m < length (log_of n)"
    proof -
      have "m < length (drop k (log_of n))"
        using that by simp
      then have "log_term (drop k (log_of n) ! m) \<noteq> ale_term (ae_entries a ! m)"
        using agree_len_stop [of "drop k (log_of n)" "ae_entries a"] True unfolding m_def [symmetric] by blast
      then show ?thesis
        using True that by (auto simp: entry_of_def)
    qed
    moreover have "abort_all (drop (k + m) (log_of n)) (services n) = Inr (services n')"
      using store_entries_aborts [OF store(1)] prev(1) True fc(1) by (simp add: m_def k_def)
    ultimately show ?thesis
      using cut [OF x l True] by blast
  next
    case False
    have "match_loop (log_of n) (ae_entries a) (ae_prevLogIndex a + 1) 0 = Inr (ae_prevLogIndex a + 1 + int m, int m)"
      using match_loop_agree [of "ae_prevLogIndex a + 1" 0] prev(1) by (simp add: Let_def m_def k_def)
    then have "n4 = ae_stepdown a now n"
      using store(1) False by (simp add: store_entries_def)
    then show ?thesis
      using kept fc by simp
  qed
qed

lemma AppendEntries_moves:
  assumes ae: "AppendEntries a now n = Inr (reply, n')" and c: "commits n es n'" and out: "raftOut n' = raftOut n @ es"
    and idx: "LastApplied n = CommitIndex n" "-1 \<le> CommitIndex n" "CommitIndex n \<le> CommitIndex n'" "commit_len n \<le> length (log_of n)"
    and keep: "take (commit_len n) (stripped (log_of n')) = take (commit_len n) (stripped (log_of n))"
    and free: "\<forall>e \<in> set (ae_entries a). promiseHandle (ale_op e) = None"
  obtains x new where "log_moves n x new n'" "new = [] \<or> (\<exists>m. x = nat (ae_prevLogIndex a + 1) + m \<and> new = map entry_of (drop m (ae_entries a)) \<and> -1 \<le> ae_prevLogIndex a)"
  using ae
proof (cases rule: AppendEntries_outcome)
  case ignored
  then have "calm n n'"
    by (auto simp: calm_def)
  then show ?thesis
    using that calm_moves idx(4) by blast
next
  case refused
  then have "calm n n'"
    by (simp add: calm_def ae_stepdown_def Let_def)
  then show ?thesis
    using that calm_moves idx(4) by blast
next
  case (stored n4)
  have same: "execIn n' = execIn n" "dispatchOut n' = dispatchOut n" "raftIn n' = raftIn n"
    using AppendEntries_execIn [OF ae] follower_commit_frame [OF stored(8)] store_entries_keeps [OF stored(7)]
    by (simp_all add: ae_stepdown_def Let_def)
  from stored(4,5,7,8) show ?thesis
  proof (cases rule: stored_outcome)
    case (cut m)
    let ?x = "nat (ae_prevLogIndex a + 1) + m" and ?new = "map entry_of (drop m (ae_entries a))"
    have le: "commit_len n \<le> ?x"
      by (rule cut_behind [OF keep [unfolded cut(2)] idx(4)]) (use cut(3,4) in auto)
    have "\<forall>e \<in> set ?new. promiseHandle (log_op e) = None"
      using free by (auto simp: entry_of_def dest: in_set_dropD)
    then have "log_moves n ?x ?new n'"
      using log_movesI [OF c idx(1-3) le cut(1,2) _ out same cut(5)] by blast
    then show ?thesis
      using that stored(4) by blast
  next
    case kept
    have "log_moves n (length (log_of n)) [] n'"
      by (rule log_movesI [OF c idx _ _ _ out same]) (use kept in simp_all)
    then show ?thesis
      using that by blast
  qed
qed

lemma leader_reply_moves:
  assumes r: "leader_reply p t k sent reply now n = Inr n'" and c: "commits n es n'" and out: "raftOut n' = raftOut n @ es"
    and idx: "LastApplied n = CommitIndex n" "-1 \<le> CommitIndex n" "CommitIndex n \<le> CommitIndex n'" "commit_len n \<le> length (log_of n)"
  shows "log_moves n (length (log_of n)) [] n'"
proof -
  have bound: "CommitIndex n < int (length (log_of n))"
    using idx(4) by (simp add: commit_len_def nat_le_iff)
  have "Logs n' = Logs n \<and> execIn n' = execIn n \<and> dispatchOut n' = dispatchOut n \<and> raftIn n' = raftIn n \<and> services n' = services n"
    using r idx(2) bound idx(1) by (cases rule: reply_outcome) (auto simp: scan_frame_def leader_matched_def)
  then show ?thesis
    using log_movesI [OF c idx(1-3) idx(4), of "[]"] out by simp
qed

section \<open>Steps between replicas\<close>

fun call_placed :: "places \<Rightarrow> event list \<Rightarrow> call \<Rightarrow> bool" where
  "call_placed pl es (AppendSent i p t k a) \<longleftrightarrow> (\<forall>e \<in> set (ae_entries a). promiseHandle (ale_op e) = None)
     \<and> (0 \<le> k \<longrightarrow> log_placed pl es (nat k) (map entry_of (ae_entries a)))"
| "call_placed pl es _ \<longleftrightarrow> True"

lemma log_placed_drop: "log_placed pl es k l \<Longrightarrow> log_placed pl es (k + m) (drop m l)"
  by (auto simp: log_placed_def add.assoc)

lemma call_placed_mono: "call_placed pl es x \<Longrightarrow> pl \<subseteq>\<^sub>m pl' \<Longrightarrow> set es \<subseteq> set es' \<Longrightarrow> call_placed pl' es' x"
  by (cases x) (auto intro: log_placed_mono)

lemma prepared_placed:
  assumes r: "leader_prepare p t n = Inr ((k, a), n')" and l: "log_placed pl es 0 (log_of n)"
  shows "call_placed pl es (AppendSent i p t k a)"
proof -
  have e: "ae_entries a = entries_from k (log_of n)"
    using leader_prepare_shape [OF r] by simp
  have "map entry_of (entries_from k (log_of n)) = stripped (drop (nat k) (log_of n))" if "0 \<le> k"
    using that by (intro nth_equalityI) (simp_all add: entries_from_def entry_of_def strip_entry_def)
  then show ?thesis
    using log_placed_drop [OF l, of "nat k"] by (simp add: e) (auto simp: entries_from_def withoutPromise_def)
qed

lemma deliver_moves:
  assumes sim: "cluster_sim dir T (members cfg) c s" and sim': "cluster_sim dir T (members cfg) c' s'" and steps: "spec_steps (members cfg) s s'"
    and ss: "sound_setup T cfg" and sent: "AppendSent i p t k a \<in># calls c" and pl: "call_placed pl es (AppendSent i p t k a)"
    and ae: "AppendEntries a now (reps c p) = Inr (reply, n')" and c': "reps c' = (reps c)(p := n')"
  obtains x new where "p \<in> members cfg" "log_moves (reps c p) x new n'" "log_placed pl es x new"
proof -
  have p: "p \<in> members cfg" "step_append a now (reps c p) n'" "ae_prevLogIndex a = k - 1"
    using cluster_simD(3) [OF sim sent] ae by (auto simp: step_append_def request_sim_def)
  have pl: "\<forall>e \<in> set (ae_entries a). promiseHandle (ale_op e) = None" "0 \<le> k \<longrightarrow> log_placed pl es (nat k) (map entry_of (ae_entries a))"
    using pl by simp_all
  obtain out where out: "raftOut n' = raftOut (reps c p) @ out"
    using AppendEntries_queue [OF ae] setup_indices(1) [OF sim p(1) ss] by (auto simp: node_inv_def)
  note k = moved_keeps [OF sim sim' steps ss p(1) node_step.append [OF p(2) out] c']
  from ae k(3) out k(4,5,2,6,1) pl(1) show ?thesis
  proof (cases rule: AppendEntries_moves)
    case (1 x new)
    have "log_placed pl es x new"
      using 1(2)
    proof
      assume "\<exists>m. x = nat (ae_prevLogIndex a + 1) + m \<and> new = map entry_of (drop m (ae_entries a)) \<and> - 1 \<le> ae_prevLogIndex a"
      then obtain m where "x = nat k + m" "new = drop m (map entry_of (ae_entries a))" "0 \<le> k"
        using p(3) by (auto simp: drop_map)
      then show ?thesis
        using pl(2) log_placed_drop by blast
    qed (simp add: log_placed_def)
    then show ?thesis
      using that p(1) 1(1) by blast
  qed
qed

lemma reply_moves:
  assumes sim: "cluster_sim dir T (members cfg) c s" and sim': "cluster_sim dir T (members cfg) c' s'" and steps: "spec_steps (members cfg) s s'"
    and ss: "sound_setup T cfg" and sent: "AppendDone i p t k sent ret \<in># calls c"
    and r: "leader_reply p t k sent ret now (reps c i) = Inr n'" and c': "reps c' = (reps c)(i := n')"
  shows "i \<in> members cfg \<and> log_moves (reps c i) (length (log_of (reps c i))) [] n'"
proof -
  obtain out where i: "i \<in> members cfg" and out: "raftOut n' = raftOut (reps c i) @ out" "node_step (reps c i) out n'"
    using reply_queue [OF sim sent r] ss by (auto simp: sound_setup_def)
  note k = moved_keeps [OF sim sim' steps ss i out(2) c']
  show ?thesis
    using i leader_reply_moves [OF r k(3) out(1) k(4,5,2,6)] by blast
qed

text \<open>What is in flight stays placed: a new request comes from a placed log, everything else carries no entries.\<close>

lemma net_calls_placed:
  assumes sim: "cluster_sim dir T (members cfg) c s" and step: "net_step True cfg c c'"
    and logs: "\<And>i. i \<in> members cfg \<Longrightarrow> log_placed pl es 0 (log_of (reps c i))" and calls: "\<And>x. x \<in># calls c \<Longrightarrow> call_placed pl es x"
    and x: "x \<in># calls c'"
  shows "call_placed pl es x"
  using step
proof cases
  case (prepare i p t rest k a n')
  then have "i \<in> members cfg"
    using cluster_simD(3) [OF sim, of "AppendStart i p t"] by auto
  then show ?thesis
    using x calls prepare(1,2) prepared_placed [OF prepare(3) logs, of i] by auto
qed (use x in \<open>auto intro: calls\<close>)

lemma net_moves:
  assumes sim: "cluster_sim dir T (members cfg) c s" and step: "net_step True cfg c c'" and sim': "cluster_sim dir T (members cfg) c' s'"
    and steps: "spec_steps (members cfg) s s'" and ss: "sound_setup T cfg"
    and logs: "\<And>i. i \<in> members cfg \<Longrightarrow> log_placed pl es 0 (log_of (reps c i))" and calls: "\<And>x. x \<in># calls c \<Longrightarrow> call_placed pl es x"
  obtains (same) "\<And>x. x \<in># calls c' \<Longrightarrow> call_placed pl es x" "reps c' = reps c"
  | (moved) i n' x new where "\<And>x. x \<in># calls c' \<Longrightarrow> call_placed pl es x" "i \<in> members cfg" "reps c' = (reps c)(i := n')"
      "log_moves (reps c i) x new n'" "log_placed pl es x new"
proof -
  note placed = net_calls_placed [OF sim step logs calls]
  have calm: thesis if "i \<in> members cfg" and "reps c' = (reps c)(i := n')" "calm (reps c i) n'" for i n'
    using that by (intro moved [OF placed that(1,2) calm_moves [OF that(3)]]) (simp_all add: log_placed_def setup_commit_len [OF sim _ ss])
  from step show ?thesis
  proof cases
    case (timer i tmo now ths n')
    then show ?thesis
      using calm [of i n'] calm_election by (simp add: set_rep_def)
  next
    case (vote i p t a rest now reply n')
    then show ?thesis
      using calm [of p n'] calm_vote cluster_simD(3) [OF sim, of "VoteSent i p t a"] by (simp add: set_rep_def)
  next
    case (count i p t reply rest n' now elected)
    then show ?thesis
      using calm [of i n'] calm_vote_reply cluster_simD(3) [OF sim, of "VoteDone i p t reply"] by (simp add: set_rep_def)
  next
    case (prepare i p t rest k a n')
    then show ?thesis
      using calm [of i n'] calm_prepare [OF prepare(3)] cluster_simD(3) [OF sim, of "AppendStart i p t"] by (simp add: set_rep_def)
  next
    case (deliver i p t k a rest now reply n')
    then have sent: "AppendSent i p t k a \<in># calls c" and c': "reps c' = (reps c)(p := n')"
      by (simp_all add: set_rep_def)
    then show ?thesis
      using deliver_moves [OF sim sim' steps ss sent calls [OF sent] deliver(3) c'] moved [OF placed] by metis
  next
    case (reply i p t k sent ret rest now n')
    then have sent: "AppendDone i p t k sent ret \<in># calls c" and c': "reps c' = (reps c)(i := n')"
      by (simp_all add: set_rep_def)
    then show ?thesis
      using reply_moves [OF sim sim' steps ss sent reply(3) c'] moved [OF placed, of i n' "length (log_of (reps c i))" "[]"] by (simp add: log_placed_def)
  qed (use same [OF placed] calm calm_idle in auto)
qed

section \<open>Rounds and restarts\<close>

lemma run_served:
  assumes r: "runLeaderOneIter n = Inr (ths, n')" and s: "served pl es i Took n"
    and pl': "pl' = place (CurrentTerm n) (length (log_of n)) (map Some (taken_calls n)) pl" "pl \<subseteq>\<^sub>m pl'"
  shows "served pl' es i Ran n'"
  using served_run [OF s pl'] run_frame [OF r] round_services [OF r] by simp

lemma idle_served:
  assumes "CommitIndex n = -1" "raftOut n = []" "execIn n = []" "dispatchOut n = []" "raftIn n = []" "services n = no_clients"
    and "log_placed pl es 0 (log_of n)" "\<forall>e \<in> set (log_of n). promiseHandle (log_op e) = None"
  shows "served pl es i Ready n"
proof -
  have "todo n = []" "commit_len n = 0" "executed n = 0"
    using assms(1-3) by (simp_all add: todo_def commit_len_def executed_def)
  moreover have "handles (log_of n) = []"
    using handles_none [OF assms(8)] .
  ultimately show ?thesis
    using assms(4-7) by (simp add: served_def todo_ok_def promises_ok_def submitted_ok_def submitted_def waiting_ok_def futures_ok_def map_filter_simps)
qed

lemma served_boot:
  assumes "disk_inv n" "at_home dir i T n" and s: "served pl es i pc n"
  shows "served pl es i Ready (boot_node T i True dir cfg no_clients (disk n))" (is "served pl es i Ready ?n")
proof -
  have l: "log_of ?n = stripped (log_of n)"
    using boot_recovers [OF assms(1,2)] by blast
  show ?thesis
    by (rule idle_served) (use servedD(6) [OF s] l in \<open>auto simp: boot_node_frame(5-8) boot_node_queues boot_node_services\<close>)
qed

end
