(* ===== verification/ClientStore.thy ===== *)
theory ClientStore
  imports ClientSteps
begin

text \<open>
  The database of a replica, for the checked runs: it is what the operations executed since the last start
  make of the database the replica started with (\<open>stored\<close>). That one holds only keys that some committed
  operation among the first \<open>E\<close> writes, and an operation whose client still waits comes behind these: so
  running the log again over the old database gives every client the answer of the reference map.
\<close>

section \<open>What a database holds\<close>

definition holds_prefix :: "raft_spec \<Rightarrow> int \<Rightarrow> nat \<Rightarrow> bool" where
  "holds_prefix s i d \<longleftrightarrow> d = 0 \<or> (\<exists>t m. holds_committed s i d t m)"

lemma holds_prefix_grows: "spec_steps M s s' \<Longrightarrow> spec_inv M s \<Longrightarrow> holds_prefix s i d \<Longrightarrow> holds_prefix s' i d"
  using spec_steps_inv [of M s s'] unfolding holds_prefix_def by blast

lemma holds_prefix_less:
  assumes "holds_prefix s i d" and "d' \<le> d"
  shows "holds_prefix s i d'"
proof (cases "d = 0")
  case False
  then obtain t m where "holds_committed s i d t m"
    using assms(1) by (auto simp: holds_prefix_def)
  then have "holds_committed s i d' t m"
    using assms(2) take_prefix_eq [of d "sp_log s i" "the (sp_chain s t)" d'] by (auto simp: holds_committed_def)
  then show ?thesis
    unfolding holds_prefix_def by blast
qed (use assms in \<open>simp add: holds_prefix_def\<close>)

lemma holds_prefix_length:
  assumes inv: "spec_inv M s" and "holds_prefix s i d"
  shows "d \<le> length (sp_log s i)"
proof (cases "d = 0")
  case False
  then obtain t m where h: "holds_committed s i d t m"
    using assms(2) by (auto simp: holds_prefix_def)
  then obtain g where "sp_chain s t = Some g" "m \<le> length g"
    using inv_commitE [of M s t m] inv unfolding spec_inv_def holds_committed_def by blast
  then show ?thesis
    using h take_eq_length [of d "sp_log s i" g] by (simp add: holds_committed_def)
qed simp

definition stored :: "('d \<Rightarrow> kv) \<Rightarrow> ('d \<Rightarrow> bool) \<Rightarrow> raft_spec \<Rightarrow> rlog \<Rightarrow> int \<Rightarrow> node \<Rightarrow> 'd \<Rightarrow> bool" where
  "stored view good s H i n db \<longleftrightarrow> good db \<and> executed n \<le> length H \<and> (\<exists>E base. E \<le> length H \<and> holds_prefix s i E
     \<and> dom base \<subseteq> writes (take E (map log_op H))
     \<and> (\<forall>k. i32_ok k \<longrightarrow> view db k = snd (kv_run (take (executed n) (map log_op H)) base) k)
     \<and> (\<forall>k < E. k < length (log_of n) \<longrightarrow> promiseHandle (log_op (log_of n ! k)) = None))"

lemma take_prefix_map:
  assumes "prefix H H'" and "k \<le> length H"
  shows "take k (map f H') = take k (map f H)"
  using assms by (auto simp: prefix_def)

text \<open>A step that executes nothing.\<close>

lemma stored_keep:
  assumes st: "stored view good s H i n db" and inv: "spec_inv M s" and steps: "spec_steps M s s'" and H: "prefix H H'" and ex: "executed n' = executed n"
    and log: "\<And>k. k < length (sp_log s i) \<Longrightarrow> k < length (log_of n') \<Longrightarrow> promiseHandle (log_op (log_of n' ! k)) \<noteq> None
      \<Longrightarrow> k < length (log_of n) \<and> promiseHandle (log_op (log_of n ! k)) \<noteq> None"
  shows "stored view good s' H' i n' db"
proof -
  obtain E base where E: "good db" "executed n \<le> length H" "E \<le> length H" "holds_prefix s i E" "dom base \<subseteq> writes (take E (map log_op H))"
      "\<forall>k. i32_ok k \<longrightarrow> view db k = snd (kv_run (take (executed n) (map log_op H)) base) k"
      "\<forall>k < E. k < length (log_of n) \<longrightarrow> promiseHandle (log_op (log_of n ! k)) = None"
    using st unfolding stored_def by blast
  have "E \<le> length H'" "executed n' \<le> length H'"
    using E(2,3) H ex prefix_length_le [of H H'] by simp_all
  moreover have "\<forall>k < E. k < length (log_of n') \<longrightarrow> promiseHandle (log_op (log_of n' ! k)) = None"
    using log E(7) holds_prefix_length [OF inv E(4)] by (meson less_le_trans)
  ultimately show ?thesis
    unfolding stored_def ex using E(1,2,5,6) holds_prefix_grows [OF steps inv E(4)] take_prefix_map [OF H E(3), of log_op] take_prefix_map [OF H E(2), of log_op]
    by (intro conjI exI [of _ E] exI [of _ base]) simp_all
qed

text \<open>A restart: the database becomes the one the replica starts with.\<close>

lemma stored_boot:
  assumes st: "stored view good s H i n db" and inv: "spec_inv M s" and steps: "spec_steps M s s'"
    and ex: "holds_prefix s i (executed n)" and n': "executed n' = 0" "\<forall>e \<in> set (log_of n'). promiseHandle (log_op e) = None"
  shows "stored view good s' H i n' db"
proof -
  let ?ops = "map log_op H"
  obtain E base where E: "good db" "executed n \<le> length H" "E \<le> length H" "holds_prefix s i E" "dom base \<subseteq> writes (take E ?ops)"
      "\<forall>k. i32_ok k \<longrightarrow> view db k = snd (kv_run (take (executed n) ?ops) base) k"
    using st unfolding stored_def by blast
  let ?E = "max E (executed n)"
  let ?base = "snd (kv_run (take (executed n) ?ops) base)"
  have "writes (take d ?ops) \<subseteq> writes (take ?E ?ops)" if "d \<le> ?E" for d
    using that by (intro writes_mono set_take_subset_set_take)
  then have "dom ?base \<subseteq> writes (take ?E ?ops)"
    using kv_run_dom [of "take (executed n) ?ops" base] E(5) by (meson Un_least max.cobounded1 max.cobounded2 order_trans)
  moreover have "holds_prefix s i ?E"
    using E(4) ex by (simp add: max_def)
  ultimately show ?thesis
    unfolding stored_def using E(1-3,6) holds_prefix_grows [OF steps inv] n'
    by (intro conjI exI [of _ ?E] exI [of _ ?base]) (auto simp: n'(1))
qed

section \<open>The executer\<close>

context kv_total
begin

lemma stored_execute:
  assumes st: "stored view good s H i n db" and e: "execIn n = op # ops" and len: "executed n < length H" and ex: "executed n' = Suc (executed n)"
    and op: "op_typed op" "op_ok op" "withoutPromise op = log_op (H ! executed n)" "op = log_op (log_of n ! executed n)" "executed n < length (log_of n)"
    and ok: "ps_ok (promises (services n))" and lv: "\<forall>h. promiseHandle op = Some h \<longrightarrow> ps_live (promises (services n)) h \<noteq> None"
    and n': "Logs n' = Logs n"
  shows "\<exists>op' db' sv'. op_execute get put op db (services n) = Inr (op', db', sv') \<and> stored view good s H i n' db'
    \<and> futures sv' = answer (ps_live (promises (services n))) op (kv_result (map log_op H) (executed n)) @ futures (services n)"
proof -
  let ?ops = "map log_op H" and ?k = "executed n"
  obtain E base where E: "good db" "E \<le> length H" "holds_prefix s i E" "dom base \<subseteq> writes (take E ?ops)"
      "\<forall>k. i32_ok k \<longrightarrow> view db k = snd (kv_run (take ?k ?ops) base) k"
      "\<forall>k < E. k < length (log_of n) \<longrightarrow> promiseHandle (log_op (log_of n ! k)) = None"
    using st unfolding stored_def by blast
  let ?m = "snd (kv_run (take ?k ?ops) base)"
  have step: "kv_step op = kv_step (?ops ! ?k)"
    using op(3) len kv_step_strip [of op] by simp
  obtain op' db' sv' where x: "op_execute get put op db (services n) = Inr (op', db', sv')" "\<forall>k. i32_ok k \<longrightarrow> view db' k = snd (kv_step op ?m) k" "good db'"
      "futures sv' = answer (ps_live (promises (services n))) op (fst (kv_step op ?m)) @ futures (services n)"
    using execute_refines [OF op(1,2) E(1) ok E(5) lv] by blast
  have "take (Suc ?k) ?ops = take ?k ?ops @ [?ops ! ?k]"
    using len by (simp add: take_Suc_conv_app_nth)
  then have "snd (kv_run (take (Suc ?k) ?ops) base) = snd (kv_step op ?m)"
    by (simp add: kv_run_append step case_prod_beta del: kv_step.simps)
  then have "stored view good s H i n' db'"
    unfolding stored_def ex n' using E(2-4,6) x(2,3) len by (intro conjI exI [of _ E] exI [of _ base]) simp_all
  moreover have "fst (kv_step op ?m) = kv_result ?ops ?k" if h: "promiseHandle op = Some h" for h
  proof -
    have "E \<le> ?k"
      using E(6) op(4,5) h by (metis linorder_not_less option.distinct(1))
    then have "dom base \<subseteq> writes (take ?k ?ops)"
      using E(4) writes_mono [OF set_take_subset_set_take] by (meson order_trans)
    then show ?thesis
      using kv_result_covered [of ?k ?ops base] kv_run_nth [of ?k ?ops base] len step by simp
  qed
  then have "answer (ps_live (promises (services n))) op (fst (kv_step op ?m)) = answer (ps_live (promises (services n))) op (kv_result ?ops ?k)"
    by (cases "promiseHandle op") (simp_all add: answer_def del: kv_step.simps)
  ultimately show ?thesis
    using x(1,4) by (simp del: kv_step.simps)
qed

end

end
