(* ===== verification/ClientInvariant.thy ===== *)
theory ClientInvariant
  imports ClientStore
begin

text \<open>
  The invariant of a system of replicas, databases and clients, put together from its four parts, and
  the proof that every step of a checked run keeps it.
\<close>

section \<open>The invariant\<close>

definition system_inv :: "(leveldb \<Rightarrow> kv) \<Rightarrow> (leveldb \<Rightarrow> bool) \<Rightarrow> string \<Rightarrow> LogEntry cxx_type \<Rightarrow> (int, ServerInfo) omap \<Rightarrow> raft_spec \<Rightarrow> rlog \<Rightarrow> system \<Rightarrow> bool" where
  "system_inv view good dir T cfg s H \<sigma> \<longleftrightarrow> cluster_sim dir T (members cfg) (cl \<sigma>) s
     \<and> explains (members cfg) s (placed \<sigma>) (hist \<sigma>) H
     \<and> (\<forall>x. x \<in># calls (cl \<sigma>) \<longrightarrow> call_placed (placed \<sigma>) (hist \<sigma>) x)
     \<and> (\<forall>i \<in> members cfg. served (placed \<sigma>) (hist \<sigma>) i (loop \<sigma> i) (rep \<sigma> i))
     \<and> (\<forall>i \<in> members cfg. stored view good s H i (rep \<sigma> i) (dbs \<sigma> i))"

lemma system_invD:
  assumes "system_inv view good dir T cfg s H \<sigma>"
  shows "cluster_sim dir T (members cfg) (cl \<sigma>) s" "explains (members cfg) s (placed \<sigma>) (hist \<sigma>) H"
    "\<And>x. x \<in># calls (cl \<sigma>) \<Longrightarrow> call_placed (placed \<sigma>) (hist \<sigma>) x"
    "\<And>i. i \<in> members cfg \<Longrightarrow> served (placed \<sigma>) (hist \<sigma>) i (loop \<sigma> i) (rep \<sigma> i)"
    "\<And>i. i \<in> members cfg \<Longrightarrow> stored view good s H i (rep \<sigma> i) (dbs \<sigma> i)" "spec_inv (members cfg) s"
  using assms cluster_simD(1) unfolding system_inv_def by blast+

text \<open>Only one replica moves.\<close>

definition only_moves :: "int \<Rightarrow> system \<Rightarrow> system \<Rightarrow> bool" where
  "only_moves i \<sigma> \<sigma>' \<longleftrightarrow> (\<forall>j. j \<noteq> i \<longrightarrow> rep \<sigma>' j = rep \<sigma> j \<and> dbs \<sigma>' j = dbs \<sigma> j \<and> loop \<sigma>' j = loop \<sigma> j)"

lemma stored_same:
  assumes "stored view good s H i n db" and "spec_inv M s" "spec_steps M s s'" "prefix H H'"
  shows "stored view good s' H' i n db"
  using assms by (rule stored_keep) simp_all

lemma inv_update:
  assumes inv: "system_inv view good dir T cfg s H \<sigma>" and steps: "spec_steps (members cfg) s s'" and sim': "cluster_sim dir T (members cfg) (cl \<sigma>') s'"
    and e': "explains (members cfg) s' (placed \<sigma>') (hist \<sigma>') H'" "prefix H H'" and grow: "placed \<sigma> \<subseteq>\<^sub>m placed \<sigma>'" "set (hist \<sigma>) \<subseteq> set (hist \<sigma>')"
    and only: "only_moves i \<sigma> \<sigma>'"
    and calls: "\<And>x. x \<in># calls (cl \<sigma>') \<Longrightarrow> x \<in># calls (cl \<sigma>) \<or> call_placed (placed \<sigma>') (hist \<sigma>') x"
    and new: "\<And>j op h ft. j \<in> members cfg \<Longrightarrow> j \<noteq> i \<Longrightarrow> op \<in> set (submitted (loop \<sigma> j) (rep \<sigma> j)) \<Longrightarrow> promiseHandle op = Some h
      \<Longrightarrow> live (rep \<sigma> j) h = Some ft \<Longrightarrow> ft \<notin> ran (placed \<sigma>')"
    and mine: "served (placed \<sigma>') (hist \<sigma>') i (loop \<sigma>' i) (rep \<sigma>' i)" "stored view good s' H' i (rep \<sigma>' i) (dbs \<sigma>' i)"
  shows "system_inv view good dir T cfg s' H' \<sigma>'"
proof -
  note iD = system_invD [OF inv]
  have "call_placed (placed \<sigma>') (hist \<sigma>') x" if "x \<in># calls (cl \<sigma>')" for x
    using calls [OF that] call_placed_mono [OF iD(3) grow] by blast
  moreover have "served (placed \<sigma>') (hist \<sigma>') j (loop \<sigma>' j) (rep \<sigma>' j) \<and> stored view good s' H' j (rep \<sigma>' j) (dbs \<sigma>' j)" if j: "j \<in> members cfg" for j
  proof (cases "j = i")
    case False
    have "served (placed \<sigma>') (hist \<sigma>') j (loop \<sigma> j) (rep \<sigma> j)"
      using iD(4) [OF j] grow by (rule served_mono) (rule new [OF j False])
    then show ?thesis
      using stored_same [OF iD(5) [OF j] iD(6) steps e'(2)] only False by (simp add: only_moves_def)
  qed (use mine in simp)
  ultimately show ?thesis
    unfolding system_inv_def using sim' e'(1) by blast
qed

text \<open>Steps that give no call a place.\<close>

lemma inv_quiet:
  assumes inv: "system_inv view good dir T cfg s H \<sigma>" and steps: "spec_steps (members cfg) s s'" and sim': "cluster_sim dir T (members cfg) (cl \<sigma>') s'"
    and pl: "placed \<sigma>' = placed \<sigma>" and e0: "explains (members cfg) s (placed \<sigma>) (hist \<sigma>') H" and sub: "set (hist \<sigma>) \<subseteq> set (hist \<sigma>')"
    and i: "i \<in> members cfg" and only: "only_moves i \<sigma> \<sigma>'"
    and calls: "\<And>x. x \<in># calls (cl \<sigma>') \<Longrightarrow> x \<in># calls (cl \<sigma>) \<or> call_placed (placed \<sigma>) (hist \<sigma>') x"
    and mine: "served (placed \<sigma>) (hist \<sigma>') i (loop \<sigma>' i) (rep \<sigma>' i)" "\<And>H'. prefix H H' \<Longrightarrow> stored view good s' H' i (rep \<sigma>' i) (dbs \<sigma>' i)"
  shows "\<exists>H'. system_inv view good dir T cfg s' H' \<sigma>'"
proof -
  note iD = system_invD [OF inv]
  have "sp_done s' j \<le> length H" if j: "j \<in> members cfg" "j \<noteq> i" for j
  proof -
    have "sp_done s' j = sp_done s j"
      using replica_okD(5) [OF cluster_simD(2) [OF iD(1) j(1)]] replica_okD(5) [OF cluster_simD(2) [OF sim' j(1)]] only j(2)
      by (simp add: only_moves_def)
    then show ?thesis
      using explainsD(3) [OF iD(2) j(1)] by simp
  qed
  then have rest: "\<forall>j \<in> members cfg. j \<noteq> i \<longrightarrow> sp_done s' j \<le> length H"
    by blast
  have log: "log_placed (placed \<sigma>) (hist \<sigma>') 0 (sp_log s' i)" "map strip_entry (sp_log s' i) = sp_log s' i"
    using servedD(6) [OF mine(1)] replica_okD(4) [OF cluster_simD(2) [OF sim' i]] by (simp_all add: comp_def)
  obtain H' where H': "explains (members cfg) s' (placed \<sigma>) (hist \<sigma>') H'" "prefix H H'"
    using explains_step [OF iD(6) e0 steps rest log] .
  have "system_inv view good dir T cfg s' H' \<sigma>'"
  proof (rule inv_update [OF inv steps sim' _ H'(2) _ sub only])
    show "ft \<notin> ran (placed \<sigma>')" if "j \<in> members cfg" "j \<noteq> i" "op \<in> set (submitted (loop \<sigma> j) (rep \<sigma> j))" "promiseHandle op = Some h" "live (rep \<sigma> j) h = Some ft" for j op h ft
      using submitted_okD(2) [OF servedD(3) [OF iD(4) [OF that(1)]] that(3-5)] pl by simp
  qed (use H' calls mine pl in auto)
  then show ?thesis
    by blast
qed

section \<open>Steps between replicas\<close>

lemma placed_known:
  assumes "log_placed pl es 0 l" and "calls_typed es" and "k < length l"
  shows "op_typed (log_op (l ! k))" "op_ok (log_op (l ! k))" "known_op (log_op (l ! k))"
proof -
  obtain ft j where "Invoke ft j (withoutPromise (log_op (l ! k))) \<in> set es"
    using assms(1,3) by (auto simp: log_placed_def entry_placed_def)
  then have "op_typed (withoutPromise (log_op (l ! k)))" "op_ok (withoutPromise (log_op (l ! k)))"
    using assms(2) unfolding calls_typed_def by blast+
  then show "op_typed (log_op (l ! k))" "op_ok (log_op (l ! k))"
    by (simp_all add: withoutPromise_def op_ok_def)
  then show "known_op (log_op (l ! k))"
    by (cases "kind (log_op (l ! k))") (simp_all add: known_op_def)
qed

lemma log_moves_handles:
  assumes m: "log_moves n x new n'" and k: "k < length (log_of n')" "promiseHandle (log_op (log_of n' ! k)) \<noteq> None"
  shows "k < length (log_of n) \<and> promiseHandle (log_op (log_of n ! k)) \<noteq> None"
proof -
  have l: "log_of n' = take x (log_of n) @ new" "x \<le> length (log_of n)" "\<forall>e \<in> set new. promiseHandle (log_op e) = None"
    using m by (simp_all add: log_moves_def)
  have "k < x"
    using k l by (cases "k < x") (auto simp: nth_append)
  then show ?thesis
    using k l by (simp add: nth_append)
qed

lemma explains_same:
  assumes inv: "spec_inv M s" and e: "explains M s pl es H" and steps: "spec_steps M s s'" and dn: "\<And>j. j \<in> M \<Longrightarrow> sp_done s' j \<le> length H"
  shows "explains M s' pl es H"
proof -
  note eD = explainsD [OF e]
  have "\<exists>g. sp_chain s' t = Some g \<and> k < length g" if tk: "pl (t, k) \<noteq> None" for t k
  proof -
    obtain g where g: "sp_chain s t = Some g" "k < length g"
      using eD(5) [OF tk] by blast
    then show ?thesis
      using spec_steps_inv [OF steps inv] chain_growsE [of s s' t g] unfolding history_grows_def by (metis length_append trans_less_add1)
  qed
  then show ?thesis
    unfolding explains_def using eD(2,4,6-11) decided_grows [OF inv steps eD(1)] dn by blast
qed

lemma inv_net:
  assumes inv: "system_inv view good dir T cfg s H \<sigma>" and step: "net_step True cfg (cl \<sigma>) c'" and ss: "sound_setup T cfg"
  shows "\<exists>s' H'. system_inv view good dir T cfg s' H' (\<sigma>\<lparr>cl := c'\<rparr>)"
proof -
  note iD = system_invD [OF inv]
  obtain s' where s': "spec_steps (members cfg) s s'" "cluster_sim dir T (members cfg) c' s'"
    using sim_net [OF iD(1) step ss] by blast
  have logs: "log_placed (placed \<sigma>) (hist \<sigma>) 0 (log_of (rep \<sigma> i))" if "i \<in> members cfg" for i
    using servedD(6) [OF iD(4) [OF that]] .
  consider (same) "\<forall>x. x \<in># calls c' \<longrightarrow> call_placed (placed \<sigma>) (hist \<sigma>) x" "reps c' = reps (cl \<sigma>)"
    | (moved) i n' x new where "\<forall>x. x \<in># calls c' \<longrightarrow> call_placed (placed \<sigma>) (hist \<sigma>) x" "i \<in> members cfg" "reps c' = (reps (cl \<sigma>))(i := n')"
      "log_moves (rep \<sigma> i) x new n'" "log_placed (placed \<sigma>) (hist \<sigma>) x new"
    using net_moves [OF iD(1) step s'(2,1) ss logs iD(3)] by metis
  then show ?thesis
  proof cases
    case same
    have "sp_done s' j \<le> length H" if j: "j \<in> members cfg" for j
      using explainsD(3) [OF iD(2) j] replica_okD(5) [OF cluster_simD(2) [OF iD(1) j]] replica_okD(5) [OF cluster_simD(2) [OF s'(2) j]] same by simp
    then have "explains (members cfg) s' (placed \<sigma>) (hist \<sigma>) H"
      using explains_same [OF iD(6,2) s'(1)] by blast
    then have "system_inv view good dir T cfg s' H (\<sigma>\<lparr>cl := c'\<rparr>)"
      using s'(2) same iD(4) stored_same [OF iD(5) iD(6) s'(1), of _ H] by (simp add: system_inv_def)
    then show ?thesis
      by blast
  next
    case (moved i n' x new)
    have known: "\<forall>e \<in> set (log_of (rep \<sigma> i)). known_op (log_op e)"
      using placed_known(3) [OF logs [OF moved(2)] explainsD(11) [OF iD(2)]] by (metis in_set_conv_nth)
    have served: "served (placed \<sigma>) (hist \<sigma>) i (loop \<sigma> i) n'"
      using served_moves [OF iD(4) [OF moved(2)] moved(4) explainsD(4) [OF iD(2)] moved(5) known] .
    have ex: "executed n' = executed (rep \<sigma> i)"
      using todo_moves(2) [OF servedD(1) [OF iD(4) [OF moved(2)]] moved(4)] .
    have stored: "stored view good s' H' i n' (dbs \<sigma> i)" if "prefix H H'" for H'
      using iD(5) [OF moved(2)] iD(6) s'(1) that ex by (rule stored_keep) (use log_moves_handles [OF moved(4)] in blast)
    have "\<exists>H'. system_inv view good dir T cfg s' H' (\<sigma>\<lparr>cl := c'\<rparr>)"
      by (rule inv_quiet [OF inv s'(1) _ _ _ _ moved(2)])
         (use s'(2) moved(1,3) iD(2) served stored in \<open>auto simp: only_moves_def\<close>)
    then show ?thesis
      by blast
  qed
qed

section \<open>Steps of a replica\<close>

text \<open>A replica moves, and neither its log nor what it executed changes.\<close>

lemma inv_local:
  assumes inv: "system_inv view good dir T cfg s H \<sigma>" and ss: "sound_setup T cfg" and i: "i \<in> members cfg"
    and step: "cl \<sigma>' = cl \<sigma> \<or> cluster_step True dir T cfg (cl \<sigma>) (cl \<sigma>')" and \<sigma>': "placed \<sigma>' = placed \<sigma>" "calls (cl \<sigma>') = calls (cl \<sigma>)" "only_moves i \<sigma> \<sigma>'"
    and e0: "explains (members cfg) s (placed \<sigma>) (hist \<sigma>') H" "set (hist \<sigma>) \<subseteq> set (hist \<sigma>')"
    and served: "served (placed \<sigma>) (hist \<sigma>') i (loop \<sigma>' i) (rep \<sigma>' i)" and stored: "stored view good s H i (rep \<sigma>' i) (dbs \<sigma>' i)"
  shows "\<exists>s' H'. system_inv view good dir T cfg s' H' \<sigma>'"
proof -
  note iD = system_invD [OF inv]
  obtain s' where s': "spec_steps (members cfg) s s'" "cluster_sim dir T (members cfg) (cl \<sigma>') s'"
    using step sim_step [OF iD(1) _ ss] iD(1) by (metis rtranclp.rtrancl_refl)
  have "\<exists>H'. system_inv view good dir T cfg s' H' \<sigma>'"
    by (rule inv_quiet [OF inv s' \<sigma>'(1) e0 i \<sigma>'(3) _ served]) (use \<sigma>'(2) stored_same [OF stored iD(6) s'(1)] in auto)
  then show ?thesis
    by blast
qed

lemma stored_frame:
  assumes "stored view good s H i n db" and "Logs n' = Logs n" "CommitIndex n' = CommitIndex n" "length (todo n') = length (todo n)"
  shows "stored view good s H i n' db"
proof -
  have "executed n' = executed n"
    using assms(3,4) by (simp add: executed_def commit_len_def)
  then show ?thesis
    using assms(1,2) by (simp add: stored_def)
qed

lemma inv_loop:
  assumes inv: "system_inv view good dir T cfg s H \<sigma>" and ss: "sound_setup T cfg" and i: "i \<in> members cfg" and step: "local_step (rep \<sigma> i) n'"
    and s: "served (placed \<sigma>) (hist \<sigma>) i pc n'" and n': "Logs n' = Logs (rep \<sigma> i)" "CommitIndex n' = CommitIndex (rep \<sigma> i)" "length (todo n') = length (todo (rep \<sigma> i))"
  shows "\<exists>s' H'. system_inv view good dir T cfg s' H' ((with_rep i n' \<sigma>)\<lparr>loop := (loop \<sigma>)(i := pc)\<rparr>)"
proof (rule inv_local [OF inv ss i])
  note iD = system_invD [OF inv]
  show "stored view good s H i (rep (with_rep i n' \<sigma>\<lparr>loop := (loop \<sigma>)(i := pc)\<rparr>) i) (dbs (with_rep i n' \<sigma>\<lparr>loop := (loop \<sigma>)(i := pc)\<rparr>) i)"
    using stored_frame [OF iD(5) [OF i] n'] by simp
qed (use s system_invD(2) [OF inv] cluster_step.local [OF i step] in \<open>simp_all add: only_moves_def\<close>)

lemma with_rep_loop: "with_rep i n \<sigma>\<lparr>loop := loop \<sigma>\<rparr> = with_rep i n \<sigma>"
  by (simp add: with_rep_def)

lemma inv_request:
  assumes inv: "system_inv view good dir T cfg s H \<sigma>" and ss: "sound_setup T cfg" and i: "i \<in> members cfg" and fresh: "fresh_call ft (hist \<sigma>)"
    and r: "request_begin k a v ft (rep \<sigma> i) = Inr (pc, n')" and k: "k = GET \<or> k = PUT" and step: "local_step (rep \<sigma> i) n'"
    and op: "op = \<lparr>kind = k, args = a, promiseHandle = None\<rparr>" "op_typed op" "op_ok op"
  shows "\<exists>s' H'. system_inv view good dir T cfg s' H' ((with_rep i n' \<sigma>)\<lparr>hist := hist \<sigma> @ invoked pc i op\<rparr>)" (is "\<exists>s' H'. system_inv _ _ _ _ _ _ _ ?\<sigma>")
proof (rule inv_local [OF inv ss i])
  note iD = system_invD [OF inv]
  have un: "ft \<notin> ran (placed \<sigma>)"
    using explainsD(6) [OF iD(2)] fresh unfolding fresh_call_def ran_def by blast
  have ok: "ps_ok (promises (services (rep \<sigma> i)))"
    using servedD(2) [OF iD(4) [OF i]] by (simp add: promises_ok_def)
  note rest = request_rest [OF r ok]
  show "served (placed \<sigma>) (hist ?\<sigma>) i (loop ?\<sigma> i) (rep ?\<sigma> i)"
    using served_request [OF iD(4) [OF i] r k fresh un op(1)] by simp
  show "stored view good s H i (rep ?\<sigma> i) (dbs ?\<sigma> i)"
    using stored_frame [OF iD(5) [OF i] rest(1,2)] rest(3,4) by (simp add: todo_def)
  have "plain op" "promiseHandle op = None"
    using op(1) k by (auto simp: plain_def)
  then show "explains (members cfg) s (placed \<sigma>) (hist ?\<sigma>) H"
    using iD(2) explains_invoke [OF iD(2) fresh op(2,3)] r k
    by (cases pc) (auto simp: request_begin_def case_prod_beta Let_def elim!: rbind_Inr_E split: if_splits)
qed (use cluster_step.local [OF i step] in \<open>simp_all add: only_moves_def\<close>)

text \<open>A round: the operations the loop took over get their places.\<close>

lemma round_places:
  assumes inv: "system_inv view good dir T cfg s H \<sigma>" and i: "i \<in> members cfg" and role: "Role (rep \<sigma> i) = Leader"
    and run: "runLeaderOneIter (rep \<sigma> i) = Inr (ths, n')" and pc: "loop \<sigma> i = Took"
    and s': "spec_steps (members cfg) s s'" "cluster_sim dir T (members cfg) c' s'" and c': "reps c' = (reps (cl \<sigma>))(i := n')"
    and pl': "pl' = place (CurrentTerm (rep \<sigma> i)) (length (log_of (rep \<sigma> i))) (map Some (taken_calls (rep \<sigma> i))) (placed \<sigma>)"
  shows "explains (members cfg) s' pl' (hist \<sigma>) H" "placed \<sigma> \<subseteq>\<^sub>m pl'"
proof -
  note iD = system_invD [OF inv]
  let ?n = "rep \<sigma> i"
  let ?t = "CurrentTerm ?n"
  note ok = cluster_simD(2) [OF iD(1) i] and ok' = cluster_simD(2) [OF s'(2) i]
  note shape = round_shape [OF run replica_okD(2) [OF ok]]
  have served: "served (placed \<sigma>) (hist \<sigma>) i Took ?n"
    using iD(4) [OF i] pc by simp
  obtain h where h: "sp_chain s ?t = Some h" "sp_owner s ?t = i"
    using leader_simD [OF replica_okD(6) [OF ok] role] .
  have "sp_log s i = h"
    using leader_chain [OF iD(6) h] replica_okD(3) [OF ok] by simp
  then have len: "length h = length (log_of ?n)"
    using replica_okD(4) [OF ok] by auto
  have n': "reps c' i = n'" "Role n' = Leader" "CurrentTerm n' = ?t"
    using c' shape role by simp_all
  obtain h' where h': "sp_chain s' ?t = Some h'" "sp_owner s' ?t = i"
    using leader_simD [OF replica_okD(6) [OF ok']] n' by metis
  have "sp_log s' i = h'"
    using leader_chain [OF cluster_simD(1) [OF s'(2)] h'] replica_okD(3) [OF ok'] n' by simp
  then have len': "length (log_of ?n) + length (taken_calls ?n) \<le> length h'"
    using replica_okD(4) [OF ok'] n'(1) run_frame [OF run] by (auto simp: taken_calls_def)
  have dn: "\<forall>j \<in> members cfg. sp_done s' j \<le> length H"
  proof
    fix j assume j: "j \<in> members cfg"
    have "CommitIndex (reps c' j) = CommitIndex (rep \<sigma> j)"
      using c' run_frame [OF run] by simp
    then show "sp_done s' j \<le> length H"
      using explainsD(3) [OF iD(2) j] replica_okD(5) [OF cluster_simD(2) [OF iD(1) j]] replica_okD(5) [OF cluster_simD(2) [OF s'(2) j]] by simp
  qed
  show "explains (members cfg) s' pl' (hist \<sigma>) H" "placed \<sigma> \<subseteq>\<^sub>m pl'"
    unfolding pl' using explains_place [OF iD(6,2) s'(1) dn h(1) len h'(1) len' taken_calls(2,3) [OF served]] .
qed

lemma inv_run:
  assumes inv: "system_inv view good dir T cfg s H \<sigma>" and ss: "sound_setup T cfg" and i: "i \<in> members cfg" and pc: "loop \<sigma> i = Took"
    and run: "runLeaderOneIter (rep \<sigma> i) = Inr (ths, n')" and role: "Role (rep \<sigma> i) = Leader"
    and \<sigma>': "cl \<sigma>' = (set_rep i n' (cl \<sigma>))\<lparr>calls := calls (cl \<sigma>) + mset (map (\<lambda>(p, t). AppendStart i p t) ths)\<rparr>" "dbs \<sigma>' = dbs \<sigma>" "loop \<sigma>' = (loop \<sigma>)(i := Ran)"
      "placed \<sigma>' = place (CurrentTerm (rep \<sigma> i)) (length (log_of (rep \<sigma> i))) (map (call_of (rep \<sigma> i)) (raftIn (rep \<sigma> i))) (placed \<sigma>)" "hist \<sigma>' = hist \<sigma>"
  shows "\<exists>s' H'. system_inv view good dir T cfg s' H' \<sigma>'"
proof -
  note iD = system_invD [OF inv]
  let ?n = "rep \<sigma> i"
  have served: "served (placed \<sigma>) (hist \<sigma>) i Took ?n"
    using iD(4) [OF i] pc by simp
  obtain s' where s': "spec_steps (members cfg) s s'" "cluster_sim dir T (members cfg) (cl \<sigma>') s'"
    using sim_round [OF iD(1) i run role] \<sigma>'(1) by auto
  have reps: "reps (cl \<sigma>') = (reps (cl \<sigma>))(i := n')"
    by (simp add: \<sigma>'(1) set_rep_def)
  have pl': "placed \<sigma>' = place (CurrentTerm ?n) (length (log_of ?n)) (map Some (taken_calls ?n)) (placed \<sigma>)"
    using taken_calls(1) [OF served] \<sigma>'(4) by simp
  note pl = round_places [OF inv i role run pc s' reps pl']
  have "system_inv view good dir T cfg s' H \<sigma>'"
  proof (rule inv_update [OF inv s' _ _ pl(2)])
    show "served (placed \<sigma>') (hist \<sigma>') i (loop \<sigma>' i) (rep \<sigma>' i)"
      using run_served [OF run served pl' pl(2)] reps \<sigma>'(3,5) by simp
    have l: "log_of n' = log_of ?n @ map (\<lambda>op. \<lparr>log_term = CurrentTerm ?n, log_op = op\<rparr>) (raftIn ?n)"
      using run_frame [OF run] by simp
    have "executed n' = executed ?n"
      using servedD(1) [OF run_served [OF run served pl' pl(2)]] run_frame [OF run] round_services [OF run] by (simp add: executed_def commit_len_def todo_def)
    then show "stored view good s' H i (rep \<sigma>' i) (dbs \<sigma>' i)"
      using stored_keep [OF iD(5) [OF i] iD(6) s'(1), of H n'] l replica_okD(4) [OF cluster_simD(2) [OF iD(1) i]] reps \<sigma>'(2)
      by (simp add: nth_append)
    show "ft \<notin> ran (placed \<sigma>')" if j: "j \<in> members cfg" "j \<noteq> i" "op \<in> set (submitted (loop \<sigma> j) (rep \<sigma> j))" "promiseHandle op = Some h" "live (rep \<sigma> j) h = Some ft" for j op h ft
    proof
      assume "ft \<in> ran (placed \<sigma>')"
      then obtain x where x: "placed \<sigma>' x = Some ft"
        by (auto simp: ran_def)
      have "ft \<notin> ran (placed \<sigma>)"
        using submitted_okD(2) [OF servedD(3) [OF iD(4) [OF j(1)]] j(3-5)] .
      then obtain k where k: "k < length (taken_calls ?n)" "taken_calls ?n ! k = ft"
        using place_new x unfolding pl' by (metis ranI)
      then have "k < length (raftIn ?n)"
        by (simp add: taken_calls_def)
      then obtain op' where "Invoke ft i op' \<in> set (hist \<sigma>)"
        using taken_nth [OF served] k(2) by metis
      moreover obtain op'' where "Invoke ft j op'' \<in> set (hist \<sigma>)"
        using servedD(2) [OF iD(4) [OF j(1)]] j(5) unfolding promises_ok_def by blast
      ultimately show False
        using explainsD(10) [OF iD(2)] j(2) unfolding unique_calls_def by blast
    qed
  qed (use pl(1) \<sigma>' reps in \<open>auto simp: only_moves_def\<close>)
  then show ?thesis
    by blast
qed

text \<open>A restart.\<close>

lemma inv_crash:
  assumes inv: "system_inv view good dir T cfg s H \<sigma>" and ss: "sound_setup T cfg" and i: "i \<in> members cfg"
    and \<sigma>': "cl \<sigma>' = (cl \<sigma>)\<lparr>reps := (reps (cl \<sigma>))(i := boot_node T i True dir cfg no_clients (disk (rep \<sigma> i))), fed := (fed (cl \<sigma>))(i := [])\<rparr>"
      "dbs \<sigma>' = dbs \<sigma>" "loop \<sigma>' = (loop \<sigma>)(i := Ready)" "placed \<sigma>' = placed \<sigma>" "hist \<sigma>' = hist \<sigma>"
  shows "\<exists>s' H'. system_inv view good dir T cfg s' H' \<sigma>'"
proof -
  note iD = system_invD [OF inv]
  let ?n = "rep \<sigma> i"
  let ?n' = "boot_node T i True dir cfg no_clients (disk ?n)"
  note ok = cluster_simD(2) [OF iD(1) i]
  have "node_inv ?n \<and> at_home dir i T ?n"
    using reach_inv [OF replica_okD(1) [OF ok]] ss i by (simp add: sound_setup_def)
  then have d: "disk_inv ?n" "at_home dir i T ?n"
    by (simp_all add: node_inv_def)
  have l: "log_of ?n' = stripped (log_of ?n)"
    using boot_recovers [OF d] by blast
  have "holds_prefix s i (sp_done s i)"
    using done_committed [OF iD(6)] unfolding holds_prefix_def by blast
  then have ex: "holds_prefix s i (executed ?n)"
    using holds_prefix_less executed_le [of ?n] replica_okD(5) [OF ok] by (simp add: commit_len_def)
  show ?thesis
  proof (rule inv_local [OF inv ss i])
    show "served (placed \<sigma>) (hist \<sigma>') i (loop \<sigma>' i) (rep \<sigma>' i)"
      using served_boot [OF d iD(4) [OF i]] \<sigma>' by simp
    show "stored view good s H i (rep \<sigma>' i) (dbs \<sigma>' i)"
      using stored_boot [OF iD(5) [OF i] iD(6) _ ex, of s ?n'] l \<sigma>'(1,2)
      by (auto simp: executed_def commit_len_def boot_node_frame(5))
    show "cl \<sigma>' = cl \<sigma> \<or> cluster_step True dir T cfg (cl \<sigma>) (cl \<sigma>')"
      unfolding \<sigma>'(1) by (intro disjI2 cluster_step.crash i)
  qed (use \<sigma>' iD(2) in \<open>simp_all add: only_moves_def\<close>)
qed

section \<open>The executer\<close>

text \<open>What a replica has committed is what the history has there.\<close>

lemma committed_history:
  assumes inv: "system_inv view good dir T cfg s H \<sigma>" and i: "i \<in> members cfg" and k: "k < commit_len (rep \<sigma> i)"
  shows "k < length H" "H ! k = strip_entry (log_of (rep \<sigma> i) ! k)" "k < length (log_of (rep \<sigma> i))"
proof -
  note iD = system_invD [OF inv]
  let ?n = "rep \<sigma> i"
  note ok = cluster_simD(2) [OF iD(1) i]
  have dn: "sp_done s i = commit_len ?n" "sp_done s i \<le> length H"
    using replica_okD(5) [OF ok] explainsD(3) [OF iD(2) i] by (simp_all add: commit_len_def)
  have len: "commit_len ?n \<le> length (log_of ?n)"
    using servedD(1) [OF iD(4) [OF i]] by (simp add: todo_ok_def)
  have "prefix (take (commit_len ?n) (stripped (log_of ?n))) H"
    using decided_agree [OF iD(6) decided_done [OF iD(6), of i] explainsD(1) [OF iD(2)]] dn replica_okD(4) [OF ok] len by simp
  then have "H ! k = take (commit_len ?n) (stripped (log_of ?n)) ! k"
    using k len by (auto simp: prefix_def nth_append)
  then show "H ! k = strip_entry (log_of ?n ! k)" "k < length H" "k < length (log_of ?n)"
    using k len dn by simp_all
qed

text \<open>The operation it runs next does not fail and gives its client the answer of the reference map.\<close>

context kv_total
begin

lemma runs_next:
  assumes inv: "system_inv view' good' dir T cfg s H \<sigma>" and i: "i \<in> members cfg" and op: "execIn (rep \<sigma> i) = op # ops"
    and db: "stored view good s H i (rep \<sigma> i) db"
  obtains op' db' sv' r where "op_execute get put op db (services (rep \<sigma> i)) = Inr (op', db', sv')"
    "stored view good s H i ((rep \<sigma> i)\<lparr>services := sv', execIn := ops\<rparr>) db'" "op_fulfil op r (services (rep \<sigma> i)) = Inr (op', sv')"
    "\<forall>ev \<in> set (returns (services (rep \<sigma> i)) sv'). \<exists>ft k. k < length H \<and> placed \<sigma> (log_term (H ! k), k) = Some ft \<and> ev = Return ft (kv_result (map log_op H) k)"
proof -
  note iD = system_invD [OF inv]
  let ?n = "rep \<sigma> i"
  let ?k = "executed ?n"
  note s = iD(4) [OF i]
  note sD = servedD [OF s]
  note nx = next_executed [OF sD(1) op]
  note H = committed_history [OF inv i nx(1)]
  have typed: "op_typed op" "op_ok op"
    using placed_known(1,2) [OF sD(6) explainsD(11) [OF iD(2)] H(3)] nx(3) by simp_all
  have ok: "ps_ok (promises (services ?n))"
    using sD(2) by (simp add: promises_ok_def)
  have lv: "\<forall>h. promiseHandle op = Some h \<longrightarrow> live ?n h \<noteq> None"
    using handles_dropI [of ?k ?k "log_of ?n"] H(3) nx(3) sD(4) unfolding waiting_ok_def by (metis domIff order_refl subsetD)
  have strip: "withoutPromise op = log_op (H ! ?k)"
    using H(2) nx(3) by (simp add: strip_entry_def)
  have "length (todo ?n) \<le> commit_len ?n"
    using sD(1) by (simp add: todo_ok_def)
  then have ex: "executed (?n\<lparr>execIn := ops\<rparr>) = Suc ?k"
    using op by (simp add: executed_def commit_len_def todo_def)
  obtain op' db' sv' where x: "op_execute get put op db (services ?n) = Inr (op', db', sv')" "stored view good s H i (?n\<lparr>execIn := ops\<rparr>) db'"
      "futures sv' = answer (live ?n) op (kv_result (map log_op H) ?k) @ futures (services ?n)"
    using stored_execute [OF db op H(1) ex typed strip nx(3) H(3) ok lv] by auto
  have st: "stored view good s H i (?n\<lparr>services := sv', execIn := ops\<rparr>) db'"
    using x(2) by (rule stored_frame) (simp_all add: todo_def)
  obtain r where r: "op_fulfil op r (services ?n) = Inr (op', sv')"
    using op_execute_fulfils [OF x(1) typed(1)] by blast
  have ret: "\<exists>ft k. k < length H \<and> placed \<sigma> (log_term (H ! k), k) = Some ft \<and> ev = Return ft (kv_result (map log_op H) k)"
    if ev: "ev \<in> set (returns (services ?n) sv')" for ev
  proof -
    obtain h ft where h: "promiseHandle op = Some h" "live ?n h = Some ft" "ev = Return ft (kv_result (map log_op H) ?k)"
      using ev x(3) by (auto simp: returns_def answer_def split: option.splits)
    moreover have "placed \<sigma> (log_term (H ! ?k), ?k) = Some ft"
      using waiting_okD [OF sD(4) order_refl H(3)] h(1,2) nx(3) H(2) by (simp add: strip_entry_def)
    ultimately show ?thesis
      using H(1) by blast
  qed
  show ?thesis
    using that x(1) st r ret by blast
qed

end

text \<open>A replica starts with an empty database, which is one the store can read.\<close>

locale kv_fresh = kv_total get put view good
  for get :: "leveldb \<Rightarrow> int \<Rightarrow> int option res" and put :: "leveldb \<Rightarrow> int \<times> int \<Rightarrow> bool \<times> leveldb" and view :: "leveldb \<Rightarrow> kv" and good :: "leveldb \<Rightarrow> bool" +
  assumes empty_good: "\<forall>k. i32_ok k \<longrightarrow> get d k = Inr None \<Longrightarrow> good d"
begin

lemma inv_execute:
  assumes inv: "system_inv view good dir T cfg s H \<sigma>" and ss: "sound_setup T cfg" and i: "i \<in> members cfg"
    and x: "executer_one get put (dbs \<sigma> i) (rep \<sigma> i) = Inr (db', n')" and step: "local_step (rep \<sigma> i) n'"
  shows "\<exists>s' H'. system_inv view good dir T cfg s' H' ((with_rep i n' \<sigma>)\<lparr>dbs := (dbs \<sigma>)(i := db'), hist := hist \<sigma> @ returns (services (rep \<sigma> i)) (services n')\<rparr>)"
  (is "\<exists>s' H'. system_inv _ _ _ _ _ _ _ ?\<sigma>")
proof -
  note iD = system_invD [OF inv]
  have "served (placed \<sigma>) (hist ?\<sigma>) i (loop \<sigma> i) n' \<and> stored view good s H i n' db' \<and> explains (members cfg) s (placed \<sigma>) (hist ?\<sigma>) H"
  proof (cases "execIn (rep \<sigma> i)")
    case Nil
    then show ?thesis
      using x iD(2) iD(4,5) [OF i] by (auto simp: executer_one_def returns_def)
  next
    case (Cons op ops)
    obtain op' db1 sv' r where op: "op_execute get put op (dbs \<sigma> i) (services (rep \<sigma> i)) = Inr (op', db1, sv')"
        "stored view good s H i ((rep \<sigma> i)\<lparr>services := sv', execIn := ops\<rparr>) db1" "op_fulfil op r (services (rep \<sigma> i)) = Inr (op', sv')"
        "\<forall>ev \<in> set (returns (services (rep \<sigma> i)) sv'). \<exists>ft k. k < length H \<and> placed \<sigma> (log_term (H ! k), k) = Some ft \<and> ev = Return ft (kv_result (map log_op H) k)"
      using runs_next [OF inv i Cons iD(5) [OF i]] .
    have n': "n' = (rep \<sigma> i)\<lparr>services := sv', execIn := ops\<rparr>" "db' = db1"
      using x Cons op(1) by (simp_all add: executer_one_def)
    show ?thesis
      using served_execute [OF iD(4) [OF i] Cons op(3) explainsD(4) [OF iD(2)]] op(2) explains_return [OF iD(2), OF bspec [OF op(4)]] by (simp add: n')
  qed
  then show ?thesis
    by (intro inv_local [OF inv ss i]) (use cluster_step.local [OF i step] in \<open>simp_all add: only_moves_def\<close>)
qed

lemma inv_init:
  assumes init: "system_init dir T cfg get \<sigma>" and ss: "sound_setup T cfg"
  shows "system_inv view good dir T cfg spec_init [] \<sigma>"
proof -
  have ci: "cluster_init dir T cfg (cl \<sigma>)" and h: "placed \<sigma> = Map.empty" "hist \<sigma> = []"
    and each: "\<And>i. i \<in> members cfg \<Longrightarrow> services (rep \<sigma> i) = no_clients \<and> (\<forall>k. i32_ok k \<longrightarrow> get (dbs \<sigma> i) k = Inr None) \<and> loop \<sigma> i = Ready"
    using init by (auto simp: system_init_def)
  have boot: "\<exists>sv fs. rep \<sigma> i = boot_node T i False dir cfg sv fs" if "i \<in> members cfg" for i
    using ci that by (simp add: cluster_init_def)
  have "served Map.empty [] i Ready (rep \<sigma> i)" if i: "i \<in> members cfg" for i
    using boot [OF i] each [OF i]
    by (intro idle_served) (auto simp: boot_node_frame(5-8) boot_node_queues boot_node_new(1) log_placed_def)
  moreover have "stored view good spec_init [] i (rep \<sigma> i) (dbs \<sigma> i)" if i: "i \<in> members cfg" for i
  proof -
    have "good (dbs \<sigma> i)"
      using empty_good each [OF i] by blast
    then have "view (dbs \<sigma> i) k = None" if "i32_ok k" for k
      using get_view [of "dbs \<sigma> i" k] each [OF i] that by simp
    moreover have "executed (rep \<sigma> i) = 0"
      using boot [OF i] by (auto simp: executed_def commit_len_def boot_node_frame(5))
    ultimately show ?thesis
      using \<open>good (dbs \<sigma> i)\<close> by (auto simp: stored_def holds_prefix_def intro!: exI [of _ 0] exI [of _ Map.empty])
  qed
  moreover have "explains (members cfg) spec_init Map.empty [] []"
    by (simp add: explains_def decided_def spec_init_def places_inj_def log_placed_def ordered_def answered_def unique_calls_def calls_typed_def)
  ultimately show ?thesis
    using sim_init [OF ci ss] each ci h by (simp add: system_inv_def cluster_init_def)
qed

lemma inv_work:
  assumes inv: "system_inv view good dir T cfg s H \<sigma>" and ss: "sound_setup T cfg" and step: "system_work True cfg get put \<sigma> \<sigma>'"
  shows "\<exists>s' H'. system_inv view good dir T cfg s' H' \<sigma>'"
  using step
proof cases
  case (net c')
  then show ?thesis
    using inv_net [OF inv net(2) ss] by simp
next
  case (get i key ft pc n')
  have "op_typed (get_op key)" "op_ok (get_op key)"
    using get(3) by (simp_all add: get_op_def op_ok_def)
  then show ?thesis
    using inv_request [OF inv ss get(2,4) get(5) [unfolded get_begin_def] _ local_step.get [OF get(3,5)]] get(1) by (simp add: get_op_def)
next
  case (put i kvp ft pc n')
  have "op_typed (put_op kvp)" "op_ok (put_op kvp)"
    using put(3,4) by (simp_all add: put_op_def op_ok_def)
  then show ?thesis
    using inv_request [OF inv ss put(2,5) put(6) [unfolded put_begin_def] _ local_step.put [OF put(3,4,6)]] put(1) by (simp add: put_op_def)
next
  case (take i)
  then show ?thesis
    using inv_loop [OF inv ss take(2) local_step.take, of Took] served_take system_invD(4) [OF inv take(2)]
    by (simp add: raft_take_def todo_def)
next
  case (skip i)
  have "served (placed \<sigma>) (hist \<sigma>) i Ran (rep \<sigma> i)"
    using served_skip system_invD(4) [OF inv skip(2)] skip(3) by simp
  then show ?thesis
    using inv_local [OF inv ss skip(2), of \<sigma>'] skip(1) system_invD(2,5) [OF inv] skip(2) by (simp add: only_moves_def)
next
  case (run i ths n')
  then show ?thesis
    using inv_run [OF inv ss run(2-4), of \<sigma>'] by simp
next
  case (clear i)
  then show ?thesis
    using inv_loop [OF inv ss clear(2) local_step.clear, of Ready] served_clear system_invD(4) [OF inv clear(2)]
    by (simp add: raft_clear_def todo_def)
next
  case (execTake i)
  have "served (placed \<sigma>) (hist \<sigma>) i (loop \<sigma> i) (executer_take (rep \<sigma> i))"
    using served_execTake [OF system_invD(4) [OF inv execTake(2)] execTake(3)] .
  then show ?thesis
    using inv_loop [OF inv ss execTake(2) local_step.execTake [OF execTake(3)], of "loop \<sigma> i"] execTake(1,3)
    by (simp add: with_rep_loop executer_take_def todo_def)
next
  case (execute i db' n')
  then show ?thesis
    using inv_execute [OF inv ss execute(2,3) local_step.execute [OF execute(3)]] by simp
qed

lemma inv_step:
  assumes inv: "system_inv view good dir T cfg s H \<sigma>" and ss: "sound_setup T cfg" and step: "system_step True dir T cfg get put \<sigma> \<sigma>'"
  shows "\<exists>s' H'. system_inv view good dir T cfg s' H' \<sigma>'"
  using step
proof cases
  case work
  then show ?thesis
    by (rule inv_work [OF inv ss])
next
  case (crash i)
  then show ?thesis
    using inv_crash [OF inv ss crash(2), of \<sigma>'] by simp
qed

lemma inv_reach:
  assumes "system_reach True dir T cfg get put \<sigma>" and ss: "sound_setup T cfg"
  shows "\<exists>s H. system_inv view good dir T cfg s H \<sigma>"
  using assms(1)
proof induction
  case (init \<sigma>)
  then show ?case
    using inv_init [OF _ ss] by blast
next
  case (step \<sigma> \<sigma>')
  then show ?case
    using inv_step [OF _ ss] by blast
qed

text \<open>What the clients may rely on.\<close>

lemma history_linearizable:
  assumes "system_reach True dir T cfg get put \<sigma>" and "sound_setup T cfg"
  shows "\<exists>L. linearizes L (hist \<sigma>)"
proof -
  obtain s H where "system_inv view good dir T cfg s H \<sigma>"
    using inv_reach [OF assms] by blast
  then have e: "explains (members cfg) s (placed \<sigma>) (hist \<sigma>) H"
    by (rule system_invD(2))
  show ?thesis
    using places_linearize [OF explainsD(4,7,2,8,9) [OF e]] by blast
qed

lemma executer_never_fails:
  assumes "system_reach True dir T cfg get put \<sigma>" and "sound_setup T cfg" and i: "i \<in> members cfg"
  shows "\<exists>db' n'. executer_one get put (dbs \<sigma> i) (rep \<sigma> i) = Inr (db', n')"
proof -
  obtain s H where inv: "system_inv view good dir T cfg s H \<sigma>"
    using inv_reach [OF assms(1,2)] by blast
  show ?thesis
  proof (cases "execIn (rep \<sigma> i)")
    case (Cons op ops)
    then show ?thesis
      using runs_next [OF inv i Cons system_invD(5) [OF inv i]] by (metis (no_types, lifting) executer_one_def list.simps(5) rbind_Inr split_conv)
  qed (simp add: executer_one_def)
qed

lemma futures_explained:
  assumes "system_reach True dir T cfg get put \<sigma>" and "sound_setup T cfg" and i: "i \<in> members cfg" and "(ft, r) \<in> set (futures (services (rep \<sigma> i)))"
  shows "Return ft r \<in> set (hist \<sigma>) \<or> (\<exists>j op. Invoke ft j op \<in> set (hist \<sigma>) \<and> r = failure op)"
proof -
  obtain s H where "system_inv view good dir T cfg s H \<sigma>"
    using inv_reach [OF assms(1,2)] by blast
  then show ?thesis
    using servedD(5) system_invD(4) [OF _ i] assms(4) unfolding futures_ok_def by fast
qed

end

text \<open>The code over a LevelDB that keeps what is put.\<close>

lemma real_fresh:
  assumes same: "\<And>d k v d'. dbPut d k v = (True, d') \<Longrightarrow> dbGet d' k = Some v"
    and other: "\<And>d k v d' k'. dbPut d k v = (True, d') \<Longrightarrow> k' \<noteq> k \<Longrightarrow> dbGet d' k' = dbGet d k'"
    and ok: "\<And>d k v. fst (dbPut d k v)"
  shows "kv_fresh (LevelDBReal_get dbGet) (LevelDBReal_put dbPut) (real_view dbGet) (real_good dbGet)"
proof (intro kv_fresh.intro kv_fresh_axioms.intro real_total same other ok)
  fix d assume e: "\<forall>k. i32_ok k \<longrightarrow> LevelDBReal_get dbGet d k = Inr None"
  have "s = []" if "i32_ok k" "dbGet d (to_string k) = Some s" for k s
    using e that by (auto simp: LevelDBReal_get_def rbind_eq_Inr_iff split: if_splits)
  then show "real_good dbGet d"
    by (auto simp: real_good_def)
qed

text \<open>The simplest such LevelDB is a map.\<close>

definition map_get :: "leveldb \<Rightarrow> string \<Rightarrow> string option" where
  "map_get d k = d k"

definition map_put :: "leveldb \<Rightarrow> string \<Rightarrow> string \<Rightarrow> bool \<times> leveldb" where
  "map_put d k v = (True, d(k \<mapsto> v))"

interpretation map_db: kv_fresh "LevelDBReal_get map_get" "LevelDBReal_put map_put" "real_view map_get" "real_good map_get"
  by (rule real_fresh) (auto simp: map_get_def map_put_def)

end
