(* ===== verification/ClientRuns.thy ===== *)
theory ClientRuns
  imports ClientInvariant
begin

text \<open>
  What the clients of a cluster may rely on, over LevelDB as the code uses it, and a run in which a client
  writes and gets its answer.
\<close>

section \<open>A client writes\<close>

abbreviation system3 :: "bool \<Rightarrow> system \<Rightarrow> bool" where
  "system3 strict \<equiv> system_reach strict ''d'' flat_entry config3 (LevelDBReal_get map_get) (LevelDBReal_put map_put)"

abbreviation work3 :: "bool \<Rightarrow> system \<Rightarrow> system \<Rightarrow> bool" where
  "work3 strict \<equiv> system_work strict config3 (LevelDBReal_get map_get) (LevelDBReal_put map_put)"

lemmas system3_step = system_reach.step [OF _ system_step.work]

definition fresh_system :: system where
  "fresh_system = \<lparr>cl = cluster3, dbs = (\<lambda>_. Map.empty), loop = (\<lambda>_. Ready), placed = Map.empty, hist = []\<rparr>"

lemma system3_start: "system3 strict fresh_system"
proof -
  have "cluster_init ''d'' flat_entry config3 cluster3"
    by (auto simp: cluster_init_def cluster3_def replica_def)
  then show ?thesis
    by (intro system_reach.init)
       (simp add: system_init_def fresh_system_def LevelDBReal_get_def map_get_def cluster3_def replica_def boot_node_services)
qed

lemma system3_net:
  assumes "net3 strict (cl \<sigma>) c" and "system3 strict \<sigma>"
  shows "system3 strict (\<sigma>\<lparr>cl := c\<rparr>)"
  using assms
proof (induction rule: rtranclp_induct)
  case (step c c')
  have "work3 strict (\<sigma>\<lparr>cl := c\<rparr>) ((\<sigma>\<lparr>cl := c\<rparr>)\<lparr>cl := c'\<rparr>)"
    by (rule system_work.net) (use step.hyps(2) in simp)
  then show ?case
    using system3_step [OF step.IH [OF step.prems]] by simp
qed simp

text \<open>
  A call of replica \<open>i\<close>, a leader nobody has asked for anything. The client submits, and the leader puts the
  operation into its log.
\<close>

definition voter1 :: "node \<Rightarrow> bool" where
  "voter1 n \<longleftrightarrow> Role n \<noteq> Dead \<and> CurrentTerm n \<le> 1 \<and> -1 \<le> CommitIndex n \<and> (log_of n = [] \<or> (\<exists>e. log_of n = [e] \<and> log_term e = 1))"

definition apart :: "int \<Rightarrow> system \<Rightarrow> system \<Rightarrow> bool" where
  "apart i \<sigma> \<sigma>' \<longleftrightarrow> (\<forall>j. j \<noteq> i \<and> j \<noteq> 1 \<longrightarrow> rep \<sigma>' j = rep \<sigma> j \<and> loop \<sigma>' j = loop \<sigma> j \<and> dbs \<sigma>' j = dbs \<sigma> j)"

lemma call_submitted:
  assumes run: "system3 strict \<sigma>" and i: "i \<in> {0, 1, 2}" "1 \<in> {0, 1, 2} - {i}" and n: "idle_leader i (rep \<sigma> i)" and pc: "loop \<sigma> i = Ready" and op: "client_op op"
    and step: "\<And>n'. request_begin (kind op) (args op) v ft (rep \<sigma> i) = Inr (Await ft, n')
      \<Longrightarrow> work3 strict \<sigma> ((with_rep i n' \<sigma>)\<lparr>hist := hist \<sigma> @ [Invoke ft i op]\<rparr>)"
  obtains \<sigma>' q where "system3 strict \<sigma>'" "leads3 i (rep \<sigma>' i)" "stripped (log_of (rep \<sigma>' i)) = [op_entry op]" "AppendStart i 1 1 \<in># calls (cl \<sigma>')"
    "log_of (rep \<sigma>' i) = [\<lparr>log_term = 1, log_op = q\<rparr>]" "kind q = kind op" "args q = args op" "promiseHandle q = Some 0"
    "live (rep \<sigma>' i) 0 = Some ft" "ps_ok (promises (services (rep \<sigma>' i)))" "futures (services (rep \<sigma>' i)) = []"
    "raftOut (rep \<sigma>' i) = []" "execIn (rep \<sigma>' i) = []" "hist \<sigma>' = hist \<sigma> @ [Invoke ft i op]" "dbs \<sigma>' = dbs \<sigma>" "apart i \<sigma> \<sigma>'" "rep \<sigma>' 1 = rep \<sigma> 1"
proof -
  have idle: "services (rep \<sigma> i) = no_clients" "raftOut (rep \<sigma> i) = []" "execIn (rep \<sigma> i) = []"
    using n by (simp_all add: idle_leader_def)
  obtain n1 ths n2 q where w: "request_begin (kind op) (args op) v ft (rep \<sigma> i) = Inr (Await ft, n1)" "runLeaderOneIter (raft_take n1) = Inr (ths, n2)"
      "ths = map (\<lambda>p. (p, 1)) (om_keys (peers (rep \<sigma> i)))" "leads3 i n2" "stripped (log_of n2) = [op_entry op]" "Role (raft_take n1) = Leader"
      "log_of n2 = [\<lparr>log_term = 1, log_op = q\<rparr>]" "kind q = kind op" "args q = args op" "promiseHandle q = Some (next_node (promises (services (rep \<sigma> i))))"
      "services n2 = (services (rep \<sigma> i))\<lparr>promises := snd (ps_insert ft (promises (services (rep \<sigma> i))))\<rparr>" "raftOut n2 = raftOut (rep \<sigma> i)" "execIn n2 = execIn (rep \<sigma> i)"
    by (rule op_submitted [OF idle_leaderD [OF n] op, of v ft]) (rule that)
  define \<sigma>2 where "\<sigma>2 = (with_rep i n1 \<sigma>)\<lparr>hist := hist \<sigma> @ [Invoke ft i op]\<rparr>"
  define \<sigma>3 where "\<sigma>3 = (with_rep i (raft_take (rep \<sigma>2 i)) \<sigma>2)\<lparr>loop := (loop \<sigma>2)(i := Took)\<rparr>"
  define \<sigma>4 where "\<sigma>4 = \<sigma>3\<lparr>cl := (set_rep i n2 (cl \<sigma>3))\<lparr>calls := calls (cl \<sigma>3) + mset (map (\<lambda>(p, t). AppendStart i p t) ths)\<rparr>, loop := (loop \<sigma>3)(i := Ran),
    placed := place (CurrentTerm (rep \<sigma>3 i)) (length (log_of (rep \<sigma>3 i))) (map (call_of (rep \<sigma>3 i)) (raftIn (rep \<sigma>3 i))) (placed \<sigma>3)\<rparr>"
  note defs = \<sigma>4_def \<sigma>3_def \<sigma>2_def
  have m: "i \<in> members config3"
    using i by (simp add: members3)
  have s2: "work3 strict \<sigma> \<sigma>2"
    unfolding \<sigma>2_def by (rule step [OF w(1)])
  have s3: "work3 strict \<sigma>2 \<sigma>3"
    unfolding \<sigma>3_def by (rule system_work.take [OF m]) (simp add: \<sigma>2_def pc)
  have s4: "work3 strict \<sigma>3 \<sigma>4"
    unfolding \<sigma>4_def by (rule system_work.run [OF m]) (use w in \<open>simp_all add: \<sigma>3_def \<sigma>2_def\<close>)
  have r: "system3 strict \<sigma>4"
    using system3_step [OF system3_step [OF system3_step [OF run s2] s3] s4] .
  have "AppendStart i 1 1 \<in># calls (cl \<sigma>4)"
    using idle_leaderD(1) [OF n] i(2) by (auto simp: \<sigma>4_def w(3) leads3_def image_iff)
  moreover have "live n2 0 = Some ft" "ps_ok (promises (services n2))" "futures (services n2) = []" "promiseHandle q = Some 0"
    using w(10,11) idle(1) by (simp_all add: no_clients_def promise_store_init_def ps_insert_def ps_live_def ps_ok_def)
  moreover have "i \<noteq> 1"
    using i(2) by auto
  ultimately show ?thesis
    using that [OF r, of q] w idle by (simp add: defs apart_def)
qed

text \<open>Replica 1 stores it, the leader commits and executes it, and the client has its answer.\<close>

lemma call_answered:
  assumes run: "system3 strict \<sigma>" and i: "i \<in> {0, 1, 2}" "1 \<in> {0, 1, 2} - {i}" and n: "idle_leader i (rep \<sigma> i)" and pc: "loop \<sigma> i = Ready"
    and op: "client_op op" "op_typed op" "op_ok op" and db: "dbs \<sigma> i = Map.empty" and f: "voter1 (rep \<sigma> 1)"
    and step: "\<And>n'. request_begin (kind op) (args op) v ft (rep \<sigma> i) = Inr (Await ft, n')
      \<Longrightarrow> work3 strict \<sigma> ((with_rep i n' \<sigma>)\<lparr>hist := hist \<sigma> @ [Invoke ft i op]\<rparr>)"
  obtains \<sigma>' where "system3 strict \<sigma>'" "hist \<sigma>' = hist \<sigma> @ [Invoke ft i op, Return ft (fst (kv_step op Map.empty))]" "apart i \<sigma> \<sigma>'" "voter1 (rep \<sigma>' 1)"
    "futures (services (rep \<sigma>' i)) = [(ft, fst (kv_step op Map.empty))]"
proof -
  obtain \<sigma>0 q where s: "system3 strict \<sigma>0" "leads3 i (rep \<sigma>0 i)" "stripped (log_of (rep \<sigma>0 i)) = [op_entry op]" "AppendStart i 1 1 \<in># calls (cl \<sigma>0)"
    and q: "log_of (rep \<sigma>0 i) = [\<lparr>log_term = 1, log_op = q\<rparr>]" "kind q = kind op" "args q = args op" "promiseHandle q = Some 0"
    and sv: "live (rep \<sigma>0 i) 0 = Some ft" "ps_ok (promises (services (rep \<sigma>0 i)))" "futures (services (rep \<sigma>0 i)) = []"
    and idle: "raftOut (rep \<sigma>0 i) = []" "execIn (rep \<sigma>0 i) = []" "hist \<sigma>0 = hist \<sigma> @ [Invoke ft i op]" "dbs \<sigma>0 = dbs \<sigma>" "apart i \<sigma> \<sigma>0" "rep \<sigma>0 1 = rep \<sigma> 1"
    by (rule call_submitted [OF run i n pc op(1) step]) (assumption, rule that)
  have f0: "Role (rep \<sigma>0 1) \<noteq> Dead" "CurrentTerm (rep \<sigma>0 1) \<le> 1" "-1 \<le> CommitIndex (rep \<sigma>0 1)" "log_of (rep \<sigma>0 1) = [] \<or> (\<exists>e. log_of (rep \<sigma>0 1) = [e] \<and> log_term e = 1)"
    using f idle(6) by (simp_all add: voter1_def)
  obtain c where c: "net3 strict (cl \<sigma>0) c" "raftOut (reps c i) = [q]" "services (reps c i) = services (rep \<sigma>0 i)" "execIn (reps c i) = []"
      "voter1 (reps c 1)" "\<forall>j. j \<noteq> i \<and> j \<noteq> 1 \<longrightarrow> reps c j = rep \<sigma>0 j"
    by (rule run_commit [OF op(1) i s(2-4) f0, of strict]) (use f0 q(1) idle that in \<open>auto simp: voter1_def op_entry_def\<close>)
  define \<sigma>1 where "\<sigma>1 = \<sigma>0\<lparr>cl := c\<rparr>"
  define \<sigma>2 where "\<sigma>2 = with_rep i (executer_take (rep \<sigma>1 i)) \<sigma>1"
  have m: "i \<in> members config3"
    using i by (simp add: members3)
  have s1: "system3 strict \<sigma>1"
    unfolding \<sigma>1_def by (rule system3_net [OF c(1) s(1)])
  have s2: "work3 strict \<sigma>1 \<sigma>2"
    unfolding \<sigma>2_def by (rule system_work.execTake [OF m]) (simp add: \<sigma>1_def c(4))
  have n2: "execIn (rep \<sigma>2 i) = [q]" "services (rep \<sigma>2 i) = services (rep \<sigma>0 i)" "dbs \<sigma>2 i = Map.empty" "hist \<sigma>2 = hist \<sigma>0"
    using c idle db by (simp_all add: \<sigma>2_def \<sigma>1_def executer_take_def)
  have g: "real_good map_get Map.empty" "\<forall>k. i32_ok k \<longrightarrow> real_view map_get Map.empty k = None"
    by (simp_all add: real_good_def real_view_def map_get_def)
  have q': "op_typed q" "op_ok q" "kv_step q = kv_step op"
    using op q by (simp_all add: op_ok_def fun_eq_iff)
  obtain op' db' sv' where x: "op_execute (LevelDBReal_get map_get) (LevelDBReal_put map_put) q Map.empty (services (rep \<sigma>0 i)) = Inr (op', db', sv')"
      "futures sv' = answer (live (rep \<sigma>0 i)) q (fst (kv_step q Map.empty)) @ futures (services (rep \<sigma>0 i))"
    using map_db.execute_refines [OF q'(1,2) g(1) sv(2) g(2)] q(4) sv(1) by auto
  have fs: "futures sv' = [(ft, fst (kv_step op Map.empty))]"
    using x(2) q(4) sv by (simp add: answer_def q'(3) del: kv_step.simps)
  define n3 where "n3 = (rep \<sigma>2 i)\<lparr>services := sv', execIn := []\<rparr>"
  define \<sigma>3 where "\<sigma>3 = (with_rep i n3 \<sigma>2)\<lparr>dbs := (dbs \<sigma>2)(i := db'), hist := hist \<sigma>2 @ returns (services (rep \<sigma>2 i)) (services n3)\<rparr>"
  have s3: "work3 strict \<sigma>2 \<sigma>3"
    unfolding \<sigma>3_def by (rule system_work.execute [OF m]) (simp add: executer_one_def n2 x(1) n3_def)
  have "system3 strict \<sigma>3"
    using system3_step [OF system3_step [OF s1 s2] s3] .
  moreover have "hist \<sigma>3 = hist \<sigma> @ [Invoke ft i op, Return ft (fst (kv_step op Map.empty))]" "futures (services (rep \<sigma>3 i)) = [(ft, fst (kv_step op Map.empty))]"
    using idle(3) sv(3) fs n2 by (simp_all add: \<sigma>3_def n3_def returns_def del: kv_step.simps)
  moreover have "apart i \<sigma> \<sigma>3" "voter1 (rep \<sigma>3 1)"
    using c(5,6) idle(4,5) i(2) by (auto simp: apart_def \<sigma>3_def \<sigma>2_def \<sigma>1_def)
  ultimately show ?thesis
    using that by blast
qed

lemma put_answered:
  assumes run: "system3 strict \<sigma>" and i: "i \<in> {0, 1, 2}" "1 \<in> {0, 1, 2} - {i}" and n: "idle_leader i (rep \<sigma> i)" "loop \<sigma> i = Ready" "dbs \<sigma> i = Map.empty"
    and f: "voter1 (rep \<sigma> 1)" and ft: "fresh_call ft (hist \<sigma>)" and v: "i32_ok (fst kvp)" "i32_ok (snd kvp)"
  obtains \<sigma>' where "system3 strict \<sigma>'" "hist \<sigma>' = hist \<sigma> @ [Invoke ft i (put_op kvp), Return ft (ResBool True)]" "apart i \<sigma> \<sigma>'" "voter1 (rep \<sigma>' 1)"
    "futures (services (rep \<sigma>' i)) = [(ft, ResBool True)]"
proof (rule call_answered [OF run i n(1,2) client_op_put _ _ n(3) f, of kvp 0 ft])
  fix n' assume "request_begin (kind (put_op kvp)) (args (put_op kvp)) 0 ft (rep \<sigma> i) = Inr (Await ft, n')"
  then have "put_begin kvp ft (rep \<sigma> i) = Inr (Await ft, n')"
    by (simp add: put_begin_def put_op_def)
  moreover have "i \<in> members config3"
    using i by (simp add: members3)
  ultimately show "work3 strict \<sigma> (with_rep i n' \<sigma>\<lparr>hist := hist \<sigma> @ [Invoke ft i (put_op kvp)]\<rparr>)"
    using system_work.put [of i config3 kvp ft \<sigma> "Await ft" n'] v ft by simp
qed (use v that in \<open>simp_all add: put_op_def op_ok_def\<close>)

lemma get_answered:
  assumes run: "system3 strict \<sigma>" and i: "i \<in> {0, 1, 2}" "1 \<in> {0, 1, 2} - {i}" and n: "idle_leader i (rep \<sigma> i)" "loop \<sigma> i = Ready" "dbs \<sigma> i = Map.empty"
    and f: "voter1 (rep \<sigma> 1)" and ft: "fresh_call ft (hist \<sigma>)" and v: "i32_ok key"
  obtains \<sigma>' where "system3 strict \<sigma>'" "hist \<sigma>' = hist \<sigma> @ [Invoke ft i (get_op key), Return ft (ResGet None)]"
proof (rule call_answered [OF run i n(1,2) _ _ _ n(3) f, of "get_op key" "-1" ft])
  fix n' assume "request_begin (kind (get_op key)) (args (get_op key)) (-1) ft (rep \<sigma> i) = Inr (Await ft, n')"
  then have "get_begin key ft (rep \<sigma> i) = Inr (Await ft, n')"
    by (simp add: get_begin_def get_op_def)
  moreover have "i \<in> members config3"
    using i by (simp add: members3)
  ultimately show "work3 strict \<sigma> (with_rep i n' \<sigma>\<lparr>hist := hist \<sigma> @ [Invoke ft i (get_op key)]\<rparr>)"
    using system_work.get [of i config3 key ft \<sigma> "Await ft" n'] v ft by simp
qed (use v that in \<open>simp_all add: get_op_def op_ok_def client_op_def\<close>)

lemma client_answered:
  assumes v: "i32_ok (fst kvp)" "i32_ok (snd kvp)"
  obtains \<sigma> where "system3 strict \<sigma>" "hist \<sigma> = [Invoke 0 0 (put_op kvp), Return 0 (ResBool True)]" "futures (services (rep \<sigma> 0)) = [(0, ResBool True)]"
proof -
  obtain c where c: "net3 strict cluster3 c" "idle_leader 0 (reps c 0)" "Role (reps c 1) = Follower" "CurrentTerm (reps c 1) = 1" "CommitIndex (reps c 1) = -1" "log_of (reps c 1) = []"
    by (rule first_leader) (rule that)
  have r: "system3 strict (fresh_system\<lparr>cl := c\<rparr>)"
    by (rule system3_net [OF _ system3_start]) (use c(1) in \<open>simp add: fresh_system_def\<close>)
  show ?thesis
    by (rule put_answered [OF r, of 0 0 kvp]) (use c v that in \<open>simp_all add: fresh_system_def voter1_def fresh_call_def\<close>)
qed

text \<open>
  The run without the checks: replicas 0 and 2 both lead in term 1. Replica 0 answers a write, then replica 2 answers a
  read: replica 1 takes the read for the entry it has, because both are of term 1.
\<close>

definition stale_read :: "event list" where
  "stale_read = [Invoke 0 0 (put_op (7, 1)), Return 0 (ResBool True), Invoke 1 2 (get_op 7), Return 1 (ResGet None)]"

lemma stale_read_run: "\<exists>\<sigma>. system3 False \<sigma> \<and> hist \<sigma> = stale_read"
proof -
  obtain c where c: "net3 False cluster3 c" "idle_leader 0 (reps c 0)" "idle_leader 2 (reps c 2)"
      "Role (reps c 1) = Follower" "CurrentTerm (reps c 1) = 1" "CommitIndex (reps c 1) = -1" "log_of (reps c 1) = []"
    by (rule second_leader) (rule that)
  have r: "system3 False (fresh_system\<lparr>cl := c\<rparr>)"
    by (rule system3_net [OF _ system3_start]) (use c(1) in \<open>simp add: fresh_system_def\<close>)
  obtain \<sigma> where \<sigma>: "system3 False \<sigma>" "hist \<sigma> = [Invoke 0 0 (put_op (7, 1)), Return 0 (ResBool True)]" "apart 0 (fresh_system\<lparr>cl := c\<rparr>) \<sigma>" "voter1 (rep \<sigma> 1)"
    by (rule put_answered [OF r, of 0 0 "(7, 1)"]) (use c that in \<open>simp_all add: fresh_system_def voter1_def fresh_call_def i32_ok_def\<close>)
  have l: "idle_leader 2 (rep \<sigma> 2)" "loop \<sigma> 2 = Ready" "dbs \<sigma> 2 = Map.empty"
    using \<sigma>(3) c(3) by (simp_all add: apart_def fresh_system_def)
  have pre: "(2::int) \<in> {0, 1, 2}" "(1::int) \<in> {0, 1, 2} - {2}" "fresh_call 1 (hist \<sigma>)" "i32_ok 7"
    by (simp_all add: \<sigma>(2) fresh_call_def i32_ok_def)
  obtain \<sigma>' where "system3 False \<sigma>'" "hist \<sigma>' = hist \<sigma> @ [Invoke 1 2 (get_op 7), Return 1 (ResGet None)]"
    using get_answered [OF \<sigma>(1) pre(1,2) l \<sigma>(4) pre(3,4)] .
  then show ?thesis
    using \<sigma>(2) by (intro exI [of _ \<sigma>']) (simp add: stale_read_def)
qed

lemma stale_read_wrong: "\<not> linearizes L stale_read"
proof
  assume lin: "linearizes L stale_read"
  have ret: "\<exists>k < length L. fst (L ! k) = ft \<and> r = kv_result (map snd L) k" if "Return ft r \<in> set stale_read" for ft r
    using lin that unfolding linearizes_def by blast
  obtain k where k: "k < length L" "fst (L ! k) = 0"
    using ret [of 0 "ResBool True"] by (auto simp: stale_read_def)
  obtain k' where k': "k' < length L" "fst (L ! k') = 1" "kv_result (map snd L) k' = ResGet None"
    using ret [of 1 "ResGet None"] by (auto simp: stale_read_def)
  have "\<forall>(ft, op) \<in> set L. \<exists>i. Invoke ft i op \<in> set stale_read"
    using lin by (simp add: linearizes_def)
  then have ops: "set L \<subseteq> {(0, put_op (7, 1)), (1, get_op 7)}"
    by (auto simp: stale_read_def)
  have "distinct (map fst L)"
    using lin by (simp add: linearizes_def)
  moreover have "card (set (map fst L)) \<le> card {0, 1 :: nat}"
    by (rule card_mono) (use ops in auto)
  ultimately have len: "length L \<le> 2"
    using distinct_card [of "map fst L"] by simp
  have "precedes stale_read (fst (L ! k)) (fst (L ! k'))"
    using k(2) k'(2) by (simp add: stale_read_def)
  then have "k < k'"
    using lin k(1) k'(1) unfolding linearizes_def by blast
  then have eqs: "k = 0" "k' = 1" "length L = 2"
    using k'(1) len by simp_all
  obtain x y where L: "L = [x, y]"
    using eqs(3) by (auto simp: numeral_2_eq_2 length_Suc_conv)
  then have "L = [(0, put_op (7, 1)), (1, get_op 7)]"
    using ops k(2) k'(2) eqs by auto
  then show False
    using k'(3) eqs(2) by (simp add: kv_result_def put_op_def get_op_def)
qed

text \<open>
  What a client of the code makes of a failure: a read that was given up is answered like one of a key nobody wrote.
\<close>

lemma aborted_get_not_found: "get_finish (failure (get_op key)) = Inr \<lparr>db_errorCode = DB_KEY_NOT_FOUND, db_leaderAddr = [], db_value = -1\<rparr>"
  by (simp add: failure_def get_op_def)

section \<open>Properties\<close>

text \<open>C1. Clients see one map: in the runs of a cluster in which a term gets one leader and a thread acts only in
  the term it was started in, with any number of clients, lost and delayed messages, crashes between any two steps
  and restarts over the old log and the old database, the calls and the answers of the executers are linearizable.
  There is one order of calls, among them all that were answered, in which every call has the answer the reference
  map gives it, and a call that was answered before another began comes first.\<close>

theorem cluster_linearizable:
  assumes same: "\<And>d k v d'. dbPut d k v = (True, d') \<Longrightarrow> dbGet d' k = Some v"
    and other: "\<And>d k v d' k'. dbPut d k v = (True, d') \<Longrightarrow> k' \<noteq> k \<Longrightarrow> dbGet d' k' = dbGet d k'"
    and ok: "\<And>d k v. fst (dbPut d k v)"
    and run: "system_reach True dir T cfg (LevelDBReal_get dbGet) (LevelDBReal_put dbPut) \<sigma>" and "sound_setup T cfg"
  shows "\<exists>L. linearizes L (hist \<sigma>)"
  using kv_fresh.history_linearizable [OF real_fresh [OF same other ok] run assms(5)] .

theorem cluster_linearizable_witness:
  "\<exists>\<sigma> L. system3 True \<sigma> \<and> hist \<sigma> = [Invoke 0 0 (put_op (7, 1)), Return 0 (ResBool True)] \<and> linearizes L (hist \<sigma>)"
proof -
  have "i32_ok (fst (7, 1))" "i32_ok (snd (7, 1))"
    by (simp_all add: i32_ok_def)
  then obtain \<sigma> where s: "system3 True \<sigma>" "hist \<sigma> = [Invoke 0 0 (put_op (7, 1)), Return 0 (ResBool True)]"
    using client_answered by metis
  have "\<exists>L. linearizes L (hist \<sigma>)"
    by (rule cluster_linearizable [OF _ _ _ s(1) sound_setup3]) (auto simp: map_get_def map_put_def)
  then show ?thesis
    using s by blast
qed


text \<open>C11. In the checked runs the executer never fails: whatever operation is next, its handle names a live promise, its
  arguments are of the right kind and the database can be read, so the step ends with a result. A crash
  does not change that: a restarted replica runs its log again without the handles it had.\<close>

theorem executer_total:
  assumes same: "\<And>d k v d'. dbPut d k v = (True, d') \<Longrightarrow> dbGet d' k = Some v"
    and other: "\<And>d k v d' k'. dbPut d k v = (True, d') \<Longrightarrow> k' \<noteq> k \<Longrightarrow> dbGet d' k' = dbGet d k'"
    and ok: "\<And>d k v. fst (dbPut d k v)"
    and run: "system_reach True dir T cfg (LevelDBReal_get dbGet) (LevelDBReal_put dbPut) \<sigma>" and "sound_setup T cfg" and i: "i \<in> members cfg"
  shows "\<exists>db' n'. executer_one (LevelDBReal_get dbGet) (LevelDBReal_put dbPut) (dbs \<sigma> i) (rep \<sigma> i) = Inr (db', n') \<and> execIn n' = tl (execIn (rep \<sigma> i))"
proof -
  have db: "kv_fresh (LevelDBReal_get dbGet) (LevelDBReal_put dbPut) (real_view dbGet) (real_good dbGet)"
    by (rule real_fresh [OF same other ok])
  obtain db' n' where x: "executer_one (LevelDBReal_get dbGet) (LevelDBReal_put dbPut) (dbs \<sigma> i) (rep \<sigma> i) = Inr (db', n')"
    using kv_fresh.executer_never_fails [OF db run assms(5) i] by blast
  then have "execIn n' = tl (execIn (rep \<sigma> i))"
    by (auto simp: executer_one_def elim!: rbind_Inr_E split: list.splits)
  then show ?thesis
    using x by blast
qed

theorem executer_total_witness:
  "\<exists>\<sigma> db' n'. system3 True \<sigma> \<and> hist \<sigma> = [Invoke 0 0 (put_op (7, 1)), Return 0 (ResBool True)]
    \<and> executer_one (LevelDBReal_get map_get) (LevelDBReal_put map_put) (dbs \<sigma> 0) (rep \<sigma> 0) = Inr (db', n')"
proof -
  have "i32_ok (fst (7, 1))" "i32_ok (snd (7, 1))"
    by (simp_all add: i32_ok_def)
  then obtain \<sigma> where s: "system3 True \<sigma>" "hist \<sigma> = [Invoke 0 0 (put_op (7, 1)), Return 0 (ResBool True)]"
    using client_answered by metis
  have "\<exists>db' n'. executer_one (LevelDBReal_get map_get) (LevelDBReal_put map_put) (dbs \<sigma> 0) (rep \<sigma> 0) = Inr (db', n') \<and> execIn n' = tl (execIn (rep \<sigma> 0))"
    by (rule executer_total [OF _ _ _ s(1) sound_setup3]) (auto simp: map_get_def map_put_def members3)
  then show ?thesis
    using s by blast
qed

text \<open>C12. In the checked runs a future that was set holds the answer the executer gave to that call, one the linearization
  explains, or the failure value of the operation of that call, which a replica sets when the entry of a waiting
  client is overwritten.\<close>

theorem futures_hold_answers:
  assumes same: "\<And>d k v d'. dbPut d k v = (True, d') \<Longrightarrow> dbGet d' k = Some v"
    and other: "\<And>d k v d' k'. dbPut d k v = (True, d') \<Longrightarrow> k' \<noteq> k \<Longrightarrow> dbGet d' k' = dbGet d k'"
    and ok: "\<And>d k v. fst (dbPut d k v)"
    and run: "system_reach True dir T cfg (LevelDBReal_get dbGet) (LevelDBReal_put dbPut) \<sigma>" and "sound_setup T cfg" and i: "i \<in> members cfg"
    and ft: "(ft, r) \<in> set (futures (services (rep \<sigma> i)))"
  shows "Return ft r \<in> set (hist \<sigma>) \<or> (\<exists>j op. Invoke ft j op \<in> set (hist \<sigma>) \<and> r = failure op)"
  using kv_fresh.futures_explained [OF real_fresh [OF same other ok] run assms(5) i ft] .

theorem futures_hold_answers_witness:
  "\<exists>\<sigma>. system3 True \<sigma> \<and> (0, ResBool True) \<in> set (futures (services (rep \<sigma> 0)))
    \<and> (Return 0 (ResBool True) \<in> set (hist \<sigma>) \<or> (\<exists>j op. Invoke 0 j op \<in> set (hist \<sigma>) \<and> ResBool True = failure op))"
proof -
  have "i32_ok (fst (7, 1))" "i32_ok (snd (7, 1))"
    by (simp_all add: i32_ok_def)
  then obtain \<sigma> where s: "system3 True \<sigma>" "futures (services (rep \<sigma> 0)) = [(0, ResBool True)]"
    using client_answered by metis
  have "Return 0 (ResBool True) \<in> set (hist \<sigma>) \<or> (\<exists>j op. Invoke 0 j op \<in> set (hist \<sigma>) \<and> ResBool True = failure op)"
    by (rule futures_hold_answers [OF _ _ _ s(1) sound_setup3, of 0]) (auto simp: map_get_def map_put_def members3 s(2))
  then show ?thesis
    using s by (metis list.set_intros(1))
qed

end
