(* ===== verification/Restart.thy ===== *)
theory Restart
  imports ClientRuns
begin

text \<open>
  A cluster that is restarted: all replicas come back as followers with their files, and the calls in
  flight are lost. The replica whose log is most up to date raises its term above all others, asks for votes and is
  elected. Since a candidate never starts a second election, it raises its term by restarts.
\<close>

abbreviation sys_run :: "string \<Rightarrow> LogEntry cxx_type \<Rightarrow> (int, ServerInfo) omap
    \<Rightarrow> (leveldb \<Rightarrow> int \<Rightarrow> int option res) \<Rightarrow> (leveldb \<Rightarrow> int \<times> int \<Rightarrow> bool \<times> leveldb) \<Rightarrow> system \<Rightarrow> system \<Rightarrow> bool" where
  "sys_run dir T cfg dbget dbput \<equiv> (system_step True dir T cfg dbget dbput)\<^sup>*\<^sup>*"

lemma sys_run_reach:
  assumes "sys_run dir T cfg dbget dbput \<sigma> \<sigma>'" and "system_reach True dir T cfg dbget dbput \<sigma>"
  shows "system_reach True dir T cfg dbget dbput \<sigma>'"
  using assms by induction (auto intro: system_reach.step)

lemma sys_run_net:
  assumes "(net_step True cfg)\<^sup>*\<^sup>* (cl \<sigma>) c"
  shows "sys_run dir T cfg dbget dbput \<sigma> (\<sigma>\<lparr>cl := c\<rparr>)"
  using assms
proof induction
  case (step c c')
  have "system_work True cfg dbget dbput (\<sigma>\<lparr>cl := c\<rparr>) ((\<sigma>\<lparr>cl := c\<rparr>)\<lparr>cl := c'\<rparr>)"
    by (rule system_work.net) (use step.hyps(2) in simp)
  then show ?case
    using rtranclp.rtrancl_into_rtrancl [OF step.IH] system_step.work by simp
qed simp

lemma sys_run_work: "system_work True cfg dbget dbput \<sigma> \<sigma>' \<Longrightarrow> sys_run dir T cfg dbget dbput \<sigma> \<sigma>'"
  by (intro r_into_rtranclp system_step.work)

text \<open>What is known of a replica in a checked run.\<close>

lemma run_replica:
  assumes "system_reach True dir T cfg dbget dbput \<sigma>" and ss: "sound_setup T cfg" and i: "i \<in> members cfg"
  shows "reach dir i T (rep \<sigma> i)" "node_inv (rep \<sigma> i)" "at_home dir i T (rep \<sigma> i)" "member_ok (members cfg) i (rep \<sigma> i)" "ops_typed (rep \<sigma> i)"
proof -
  obtain s where s: "cluster_sim dir T (members cfg) (cl \<sigma>) s"
    using reach_sim [OF system_reach_cluster [OF assms(1)] ss] by blast
  note ok = replica_okD [OF cluster_simD(2) [OF s i]]
  show "reach dir i T (rep \<sigma> i)" "member_ok (members cfg) i (rep \<sigma> i)"
    using ok(1,2) by simp_all
  then show "node_inv (rep \<sigma> i)" "at_home dir i T (rep \<sigma> i)" "ops_typed (rep \<sigma> i)"
    using reach_inv reach_typed ss i unfolding sound_setup_def by blast+
qed

lemma member_peers:
  assumes m: "member_ok (members cfg) i n" and cfg: "om_ok cfg" and i: "i \<in> members cfg"
  shows "set (om_keys (peers n)) = members cfg - {i}" "distinct (om_keys (peers n))" "length cfg = Suc (length (om_keys (peers n)))"
proof -
  show k: "set (om_keys (peers n)) = members cfg - {i}" "distinct (om_keys (peers n))"
    using m om_ok_distinct by (auto simp: member_ok_def)
  have "length cfg = card (members cfg)" "length (om_keys (peers n)) = card (members cfg - {i})"
    using k distinct_card [OF om_ok_distinct [OF cfg]] distinct_card [OF k(2)] by (simp_all add: om_keys_def)
  moreover have "card (members cfg) = Suc (card (members cfg - {i}))"
    by (rule card.remove) (use i in simp_all)
  ultimately show "length cfg = Suc (length (om_keys (peers n)))"
    by linarith
qed

section \<open>Everybody restarts\<close>

definition rested :: "(int, ServerInfo) omap \<Rightarrow> node \<Rightarrow> bool" where
  "rested cfg n \<longleftrightarrow> Role n = Follower \<and> CommitIndex n = -1 \<and> dispatchOut n = [] \<and> raftIn n = [] \<and> raftOut n = [] \<and> execIn n = []
     \<and> services n = no_clients \<and> ClusterConfig n = cfg \<and> stripped (log_of n) = log_of n"

definition at_rest :: "(int, ServerInfo) omap \<Rightarrow> system \<Rightarrow> bool" where
  "at_rest cfg \<sigma> \<longleftrightarrow> (\<forall>i \<in> members cfg. rested cfg (rep \<sigma> i) \<and> loop \<sigma> i = Ready) \<and> calls (cl \<sigma>) = {#}"

text \<open>What stays while replicas restart: terms that had a leader, databases and the history.\<close>

definition same_world :: "system \<Rightarrow> system \<Rightarrow> bool" where
  "same_world \<sigma> \<sigma>' \<longleftrightarrow> led (cl \<sigma>') = led (cl \<sigma>) \<and> hist \<sigma>' = hist \<sigma>"

lemma same_world_trans: "same_world \<sigma> \<sigma>1 \<Longrightarrow> same_world \<sigma>1 \<sigma>2 \<Longrightarrow> same_world \<sigma> \<sigma>2"
  by (simp add: same_world_def)

lemma boot_rested:
  assumes "node_inv n" and "at_home dir i T n"
  shows "rested cfg (boot_node T i True dir cfg no_clients (disk n))"
    "log_of (boot_node T i True dir cfg no_clients (disk n)) = stripped (log_of n)"
    "CurrentTerm (boot_node T i True dir cfg no_clients (disk n)) = CurrentTerm n"
  using boot_recovers [of n dir i T cfg no_clients] assms
  by (simp_all add: rested_def node_inv_def boot_node_frame(4,5,7,8,9) boot_node_queues boot_node_services comp_def)

lemma restart_one:
  assumes r: "system_reach True dir T cfg dbget dbput \<sigma>" and ss: "sound_setup T cfg" and i: "i \<in> members cfg"
  obtains \<sigma>' where "sys_run dir T cfg dbget dbput \<sigma> \<sigma>'" "same_world \<sigma> \<sigma>'" "calls (cl \<sigma>') = {#}"
    "rested cfg (rep \<sigma>' i)" "loop \<sigma>' i = Ready" "log_of (rep \<sigma>' i) = stripped (log_of (rep \<sigma> i))" "CurrentTerm (rep \<sigma>' i) = CurrentTerm (rep \<sigma> i)"
    "\<forall>j. j \<noteq> i \<longrightarrow> rep \<sigma>' j = rep \<sigma> j \<and> loop \<sigma>' j = loop \<sigma> j"
proof -
  note n = run_replica [OF r ss i]
  define \<sigma>1 where "\<sigma>1 = \<sigma>\<lparr>cl := (cl \<sigma>)\<lparr>reps := (reps (cl \<sigma>))(i := boot_node T i True dir cfg no_clients (disk (rep \<sigma> i))), fed := (fed (cl \<sigma>))(i := [])\<rparr>,
    loop := (loop \<sigma>)(i := Ready)\<rparr>"
  define \<sigma>2 where "\<sigma>2 = \<sigma>1\<lparr>cl := (cl \<sigma>1)\<lparr>calls := {#}\<rparr>\<rparr>"
  have "system_step True dir T cfg dbget dbput \<sigma> \<sigma>1"
    unfolding \<sigma>1_def by (rule system_step.crash [OF i])
  moreover have "net_step True cfg (cl \<sigma>1) ((cl \<sigma>1)\<lparr>calls := {#}\<rparr>)"
    by (rule net_step.lose [where lost = "calls (cl \<sigma>1)"]) simp
  then have "system_work True cfg dbget dbput \<sigma>1 \<sigma>2"
    unfolding \<sigma>2_def by (rule system_work.net)
  ultimately have "sys_run dir T cfg dbget dbput \<sigma> \<sigma>2"
    using sys_run_work by (meson converse_rtranclp_into_rtranclp)
  then show ?thesis
    using that boot_rested [OF n(2,3)] by (simp add: \<sigma>2_def \<sigma>1_def same_world_def)
qed

lemma restart_list:
  assumes "system_reach True dir T cfg dbget dbput \<sigma>" and ss: "sound_setup T cfg" and "set is \<subseteq> members cfg"
  shows "\<exists>\<sigma>'. sys_run dir T cfg dbget dbput \<sigma> \<sigma>' \<and> same_world \<sigma> \<sigma>' \<and> (is \<noteq> [] \<longrightarrow> calls (cl \<sigma>') = {#})
    \<and> (\<forall>i \<in> set is. rested cfg (rep \<sigma>' i) \<and> loop \<sigma>' i = Ready) \<and> (\<forall>i. CurrentTerm (rep \<sigma>' i) = CurrentTerm (rep \<sigma> i))"
  using assms(1,3)
proof (induction "is" arbitrary: \<sigma>)
  case Nil
  then show ?case
    by (intro exI [of _ \<sigma>]) (simp add: same_world_def)
next
  case (Cons i "is")
  obtain \<sigma>1 where s1: "sys_run dir T cfg dbget dbput \<sigma> \<sigma>1" "same_world \<sigma> \<sigma>1" "\<forall>i \<in> set is. rested cfg (rep \<sigma>1 i) \<and> loop \<sigma>1 i = Ready"
      "\<forall>i. CurrentTerm (rep \<sigma>1 i) = CurrentTerm (rep \<sigma> i)"
    using Cons.IH [OF Cons.prems(1)] Cons.prems(2) by auto
  have i: "i \<in> members cfg"
    using Cons.prems(2) by simp
  obtain \<sigma>2 where s2: "sys_run dir T cfg dbget dbput \<sigma>1 \<sigma>2" "same_world \<sigma>1 \<sigma>2" "calls (cl \<sigma>2) = {#}"
      "rested cfg (rep \<sigma>2 i)" "loop \<sigma>2 i = Ready" "CurrentTerm (rep \<sigma>2 i) = CurrentTerm (rep \<sigma>1 i)"
      "\<forall>j. j \<noteq> i \<longrightarrow> rep \<sigma>2 j = rep \<sigma>1 j \<and> loop \<sigma>2 j = loop \<sigma>1 j"
    by (rule restart_one [OF sys_run_reach [OF s1(1) Cons.prems(1)] ss i]) (rule that)
  have "rested cfg (rep \<sigma>2 j) \<and> loop \<sigma>2 j = Ready" if "j \<in> set (i # is)" for j
    using that s1(3) s2(4,5,7) by (cases "j = i") auto
  moreover have "CurrentTerm (rep \<sigma>2 j) = CurrentTerm (rep \<sigma> j)" for j
    using s1(4) s2(6,7) by (cases "j = i") auto
  ultimately show ?case
    using rtranclp_trans [OF s1(1) s2(1)] same_world_trans [OF s1(2) s2(2)] s2(3) by blast
qed

lemma restart_all:
  assumes "system_reach True dir T cfg dbget dbput \<sigma>" and "sound_setup T cfg" and "members cfg \<noteq> {}"
  obtains \<sigma>' where "sys_run dir T cfg dbget dbput \<sigma> \<sigma>'" "same_world \<sigma> \<sigma>'" "at_rest cfg \<sigma>'" "\<forall>i. CurrentTerm (rep \<sigma>' i) = CurrentTerm (rep \<sigma> i)"
  using restart_list [OF assms(1,2), of "om_keys cfg"] assms(3) that by (fastforce simp: at_rest_def)

section \<open>A term nobody has seen\<close>

definition campaigner :: "int \<Rightarrow> node \<Rightarrow> node" where
  "campaigner now n = (becomeCandidate (CurrentTerm n + 1) now n)\<lparr>VotesReceived := 1\<rparr>"

lemma campaigner_simps [simp]:
  "Role (campaigner now n) = Candidate" "CurrentTerm (campaigner now n) = CurrentTerm n + 1" "VotesReceived (campaigner now n) = 1"
  "Logs (campaigner now n) = Logs n" "peers (campaigner now n) = peers n" "ClusterConfig (campaigner now n) = ClusterConfig n" "my_id (campaigner now n) = my_id n"
  by (simp_all add: campaigner_def)

lemma timer_fires:
  assumes i: "i \<in> members cfg" and n: "Role (reps c i) = Follower" and t: "i32_ok (CurrentTerm (reps c i) + 1)"
  obtains c' now where "net_step True cfg c c'" "reps c' = (reps c)(i := campaigner now (reps c i))" "led c' = led c"
    "calls c' = calls c + mset (map (\<lambda>p. VoteStart i p (CurrentTerm (reps c i) + 1)) (om_keys (peers (reps c i))))"
proof -
  let ?n = "reps c i"
  let ?now = "ElectionResetEvent ?n + 1"
  let ?ths = "map (\<lambda>p. (p, CurrentTerm ?n + 1)) (om_keys (peers ?n))"
  have "electionImpl_body 0 ?now ?n = Inr (?ths, campaigner ?now ?n)"
    using n startElection_ok [OF t, of ?now] by (simp add: electionImpl_body_def campaigner_def)
  from net_step.timer [OF i this, of True] show ?thesis
    by (rule that) (simp_all add: comp_def)
qed

lemma campaign:
  assumes "at_rest cfg \<sigma>" and i: "i \<in> members cfg" and t: "i32_ok (CurrentTerm (rep \<sigma> i) + 1)"
  obtains c now where "net_step True cfg (cl \<sigma>) c" "reps c = (reps (cl \<sigma>))(i := campaigner now (rep \<sigma> i))" "led c = led (cl \<sigma>)"
    "calls c = mset (map (\<lambda>p. VoteStart i p (CurrentTerm (rep \<sigma> i) + 1)) (om_keys (peers (rep \<sigma> i))))"
  by (rule timer_fires [OF i _ t]) (use assms(1) i that in \<open>auto simp: at_rest_def rested_def\<close>)

lemma raise_term:
  assumes "system_reach True dir T cfg dbget dbput \<sigma>" and ss: "sound_setup T cfg" and i: "i \<in> members cfg"
    and "at_rest cfg \<sigma>" and "CurrentTerm (rep \<sigma> i) \<le> t" and "i32_ok t"
  shows "\<exists>\<sigma>'. sys_run dir T cfg dbget dbput \<sigma> \<sigma>' \<and> same_world \<sigma> \<sigma>' \<and> at_rest cfg \<sigma>' \<and> CurrentTerm (rep \<sigma>' i) = t
    \<and> log_of (rep \<sigma>' i) = log_of (rep \<sigma> i) \<and> (\<forall>j. j \<noteq> i \<longrightarrow> rep \<sigma>' j = rep \<sigma> j)"
  using assms(1,4,5)
proof (induction "nat (t - CurrentTerm (rep \<sigma> i))" arbitrary: \<sigma>)
  case 0
  then show ?case
    by (intro exI [of _ \<sigma>]) (simp add: same_world_def)
next
  case (Suc d)
  let ?n = "rep \<sigma> i"
  have lt: "CurrentTerm ?n < t"
    using Suc.hyps(2) by simp
  have "i32_ok (CurrentTerm ?n)"
    using run_replica(2) [OF Suc.prems(1) ss i] by (simp add: node_inv_def disk_inv_def meta_inv_def)
  then have "i32_ok (CurrentTerm ?n + 1)"
    using lt assms(6) by (simp add: i32_ok_def)
  then obtain c now where c: "net_step True cfg (cl \<sigma>) c" "reps c = (reps (cl \<sigma>))(i := campaigner now ?n)" "led c = led (cl \<sigma>)"
    using campaign [OF Suc.prems(2) i] by metis
  have s1: "sys_run dir T cfg dbget dbput \<sigma> (\<sigma>\<lparr>cl := c\<rparr>)"
    by (rule sys_run_net) (use c(1) in blast)
  obtain \<sigma>2 where s2: "sys_run dir T cfg dbget dbput (\<sigma>\<lparr>cl := c\<rparr>) \<sigma>2" "same_world (\<sigma>\<lparr>cl := c\<rparr>) \<sigma>2" "calls (cl \<sigma>2) = {#}"
      "rested cfg (rep \<sigma>2 i)" "loop \<sigma>2 i = Ready" "log_of (rep \<sigma>2 i) = stripped (log_of (rep (\<sigma>\<lparr>cl := c\<rparr>) i))"
      "CurrentTerm (rep \<sigma>2 i) = CurrentTerm (rep (\<sigma>\<lparr>cl := c\<rparr>) i)"
      "\<forall>j. j \<noteq> i \<longrightarrow> rep \<sigma>2 j = rep (\<sigma>\<lparr>cl := c\<rparr>) j \<and> loop \<sigma>2 j = loop (\<sigma>\<lparr>cl := c\<rparr>) j"
    by (rule restart_one [OF sys_run_reach [OF s1 Suc.prems(1)] ss i]) (rule that)
  have n2: "CurrentTerm (rep \<sigma>2 i) = CurrentTerm ?n + 1" "log_of (rep \<sigma>2 i) = log_of ?n" "same_world \<sigma> \<sigma>2"
    "\<forall>j. j \<noteq> i \<longrightarrow> rep \<sigma>2 j = rep \<sigma> j \<and> loop \<sigma>2 j = loop \<sigma> j"
    using s2(2,6-8) c(2,3) Suc.prems(2) i by (simp_all add: same_world_def at_rest_def rested_def)
  have rest: "at_rest cfg \<sigma>2"
    using Suc.prems(2) s2(3-5) n2(4) unfolding at_rest_def by metis
  have d: "d = nat (t - CurrentTerm (rep \<sigma>2 i))" "CurrentTerm (rep \<sigma>2 i) \<le> t"
    using Suc.hyps(2) lt n2(1) by simp_all
  have r2: "system_reach True dir T cfg dbget dbput \<sigma>2"
    using sys_run_reach [OF rtranclp_trans [OF s1 s2(1)] Suc.prems(1)] .
  obtain \<sigma>3 where s3: "sys_run dir T cfg dbget dbput \<sigma>2 \<sigma>3" "same_world \<sigma>2 \<sigma>3" "at_rest cfg \<sigma>3" "CurrentTerm (rep \<sigma>3 i) = t"
      "log_of (rep \<sigma>3 i) = log_of (rep \<sigma>2 i)" "\<forall>j. j \<noteq> i \<longrightarrow> rep \<sigma>3 j = rep \<sigma>2 j"
    using Suc.hyps(1) [OF d(1) r2 rest d(2)] by blast
  show ?case
    using rtranclp_trans [OF rtranclp_trans [OF s1 s2(1)] s3(1)] same_world_trans [OF n2(3) s3(2)] s3(3-6) n2(2,4)
    by (intro exI [of _ \<sigma>3]) simp
qed

section \<open>Votes\<close>

lemma vote_given:
  assumes "om_find (peers n) (my_id m) \<noteq> None" and "CurrentTerm n < t" and "up_to_date (log_of m) (log_of n)"
  obtains n' where "RequestVote (vote_prepare t m) now n = (\<lparr>rvr_term = t, rvr_voteGranted = True\<rparr>, n')"
proof -
  let ?a = "vote_prepare t m"
  obtain r n' where r: "RequestVote ?a now n = (r, n')"
    by (cases "RequestVote ?a now n")
  have "rvr_voteGranted r"
    using RequestVote_granted_iff [of ?a now n] assms by (auto simp: r vote_prepare_params up_to_date_def)
  moreover have "rvr_term r = t"
    using RequestVote_state(1,3) [OF r] assms(1,2) by (auto simp: vote_prepare_params)
  ultimately have "r = \<lparr>rvr_term = t, rvr_voteGranted = True\<rparr>"
    by simp
  then show ?thesis
    using that r by blast
qed

lemma vote_cast:
  assumes calls: "calls c = add_mset (VoteStart i p t) rest" and n: "reps c i = n\<lparr>VotesReceived := v\<rparr>" "my_id n = i" and p: "p \<noteq> i"
    and voter: "om_find (peers (reps c p)) i \<noteq> None" "CurrentTerm (reps c p) < t" "up_to_date (log_of n) (log_of (reps c p))"
  obtains c' where "(net_step True cfg)\<^sup>*\<^sup>* c c'" "reps c' = (reps c)(p := snd (RequestVote (vote_prepare t n) now (reps c p)))" "led c' = led c"
    "calls c' = add_mset (VoteDone i p t \<lparr>rvr_term = t, rvr_voteGranted = True\<rparr>) rest"
proof -
  let ?ok = "\<lparr>rvr_term = t, rvr_voteGranted = True\<rparr>" and ?a = "vote_prepare t n"
  obtain b where b: "RequestVote ?a now (reps c p) = (?ok, b)"
    by (rule vote_given [of "reps c p" n t now]) (use voter n(2) in auto)
  define c1 where "c1 = c\<lparr>calls := add_mset (VoteSent i p t ?a) rest\<rparr>"
  define c2 where "c2 = (set_rep p b c1)\<lparr>calls := add_mset (VoteDone i p t ?ok) rest\<rparr>"
  have "vote_prepare t (n\<lparr>VotesReceived := v\<rparr>) = ?a"
    by (simp add: vote_prepare_def)
  then have s1: "net_step True cfg c c1"
    using net_step.ask [OF calls, of True cfg] n(1) by (simp add: c1_def)
  have s2: "net_step True cfg c1 c2"
    unfolding c2_def by (rule net_step.vote) (use b in \<open>simp_all add: c1_def\<close>)
  have "(net_step True cfg)\<^sup>*\<^sup>* c c2"
    using rtranclp.rtrancl_into_rtrancl [OF r_into_rtranclp [of "net_step True cfg", OF s1] s2] .
  then show ?thesis
    using that [of c2] b by (simp add: c2_def c1_def)
qed

lemma vote_counted:
  assumes calls: "calls c = add_mset (VoteDone i p t r) rest" and n: "CurrentTerm (reps c i) = t" "Role (reps c i) = Candidate" "t \<notin> led c"
    and n': "n' = vote_reply t r now (reps c i)"
  obtains c' where "net_step True cfg c c'" "reps c' = (reps c)(i := n')" "calls c' = rest"
    "led c' = (if Role n' = Leader then insert (CurrentTerm n') (led c) else led c)"
proof -
  define elected where "elected = (Role n' = Leader \<and> Role (reps c i) \<noteq> Leader)"
  let ?c = "(set_rep i n' c)\<lparr>calls := rest, led := if elected then insert (CurrentTerm n') (led c) else led c\<rparr>"
  have "True \<longrightarrow> (n' = reps c i \<or> CurrentTerm (reps c i) = t) \<and> (elected \<longrightarrow> t \<notin> led c)"
    using n by simp
  then have "net_step True cfg c ?c"
    by (rule net_step.count [OF calls n' elected_def])
  then show ?thesis
    by (rule that) (simp_all add: elected_def n(2))
qed

text \<open>The call of one voter, from its start to its count.\<close>

lemma vote_won:
  assumes calls: "calls c = add_mset (VoteStart i p t) rest" and n: "reps c i = n\<lparr>VotesReceived := v\<rparr>" "Role n = Candidate" "CurrentTerm n = t" "my_id n = i"
    and p: "p \<noteq> i" and t: "t \<notin> led c"
    and voter: "om_find (peers (reps c p)) i \<noteq> None" "CurrentTerm (reps c p) < t" "up_to_date (log_of n) (log_of (reps c p))"
    and n': "n' = vote_reply t \<lparr>rvr_term = t, rvr_voteGranted = True\<rparr> now (n\<lparr>VotesReceived := v\<rparr>)"
  obtains c' where "(net_step True cfg)\<^sup>*\<^sup>* c c'" "reps c' = (reps c)(p := snd (RequestVote (vote_prepare t n) now (reps c p)), i := n')" "calls c' = rest"
    "led c' = (if Role n' = Leader then insert (CurrentTerm n') (led c) else led c)"
proof -
  obtain c2 where c2: "(net_step True cfg)\<^sup>*\<^sup>* c c2" "reps c2 = (reps c)(p := snd (RequestVote (vote_prepare t n) now (reps c p)))" "led c2 = led c"
      "calls c2 = add_mset (VoteDone i p t \<lparr>rvr_term = t, rvr_voteGranted = True\<rparr>) rest"
    by (rule vote_cast [OF calls n(1,4) p voter]) (rule that)
  then have i2: "CurrentTerm (reps c2 i) = t" "Role (reps c2 i) = Candidate" "t \<notin> led c2"
    using n(1-3) p t by simp_all
  obtain c3 where "net_step True cfg c2 c3" "reps c3 = (reps c2)(i := n')" "calls c3 = rest"
      "led c3 = (if Role n' = Leader then insert (CurrentTerm n') (led c2) else led c2)"
    by (rule vote_counted [OF c2(4) i2, of n' now]) (use c2(2) p n(1) n' that in simp_all)
  then show ?thesis
    using that [of c3] c2 by (simp add: rtranclp.rtrancl_into_rtrancl)
qed

text \<open>One vote after the other, until there are enough.\<close>

definition votes_or_not :: "int \<Rightarrow> int set \<Rightarrow> RequestVoteParams \<Rightarrow> int \<Rightarrow> cluster \<Rightarrow> cluster \<Rightarrow> bool" where
  "votes_or_not i P a now c c' \<longleftrightarrow> (\<forall>j. j \<noteq> i \<longrightarrow> reps c' j = reps c j \<or> (j \<in> P \<and> reps c' j = snd (RequestVote a now (reps c j))))"

lemma election_won:
  assumes "calls c = mset (map (\<lambda>p. VoteStart i p t) ps)" and "distinct ps" "i \<notin> set ps" "t \<notin> led c"
    and "reps c i = n\<lparr>VotesReceived := v\<rparr>" and n: "Role n = Candidate" "CurrentTerm n = t" "my_id n = i"
    and "2 * v \<le> int (length (ClusterConfig n))" "int (length (ClusterConfig n)) < 2 * (v + int (length ps))"
    and "\<forall>p \<in> set ps. om_find (peers (reps c p)) i \<noteq> None \<and> CurrentTerm (reps c p) < t \<and> up_to_date (log_of n) (log_of (reps c p))"
  shows "\<exists>c' m. (net_step True cfg)\<^sup>*\<^sup>* c c' \<and> reps c' i = becomeLeader now (n\<lparr>VotesReceived := m\<rparr>) \<and> votes_or_not i (set ps) (vote_prepare t n) now c c'"
  using assms(1-5,9-)
proof (induction ps arbitrary: c v)
  case Nil
  then show ?case
    by simp
next
  case (Cons p ps)
  let ?m = "n\<lparr>VotesReceived := v\<rparr>" and ?n' = "n\<lparr>VotesReceived := v + 1\<rparr>"
  have p: "p \<noteq> i" "p \<notin> set ps" "distinct ps" "i \<notin> set ps"
    using Cons.prems(2,3) by auto
  have calls: "calls c = add_mset (VoteStart i p t) (mset (map (\<lambda>p. VoteStart i p t) ps))"
    using Cons.prems(1) by simp
  have voter: "om_find (peers (reps c p)) i \<noteq> None" "CurrentTerm (reps c p) < t" "up_to_date (log_of n) (log_of (reps c p))"
    using Cons.prems(8) by simp_all
  let ?now' = "vote_reply t \<lparr>rvr_term = t, rvr_voteGranted = True\<rparr> now ?m"
  obtain c3 where c3: "(net_step True cfg)\<^sup>*\<^sup>* c c3" "reps c3 = (reps c)(p := snd (RequestVote (vote_prepare t n) now (reps c p)), i := ?now')"
      "calls c3 = mset (map (\<lambda>p. VoteStart i p t) ps)" "led c3 = (if Role ?now' = Leader then insert (CurrentTerm ?now') (led c) else led c)"
    by (rule vote_won [OF calls Cons.prems(5) n p(1) Cons.prems(4) voter refl]) (rule that)
  show ?case
  proof (cases "int (length (ClusterConfig n)) < 2 * (v + 1)")
    case True
    then have "?now' = becomeLeader now ?n'"
      using n(1,2) by (simp add: vote_reply_def Let_def)
    then have "reps c3 i = becomeLeader now ?n'" "votes_or_not i (set (p # ps)) (vote_prepare t n) now c c3"
      using c3(2) by (simp_all add: votes_or_not_def)
    then show ?thesis
      using c3(1) by blast
  next
    case False
    then have n': "?now' = ?n'"
      using n(1,2) by (simp add: vote_reply_def Let_def)
    have r3: "reps c3 i = ?n'" "led c3 = led c" "\<And>j. j \<noteq> i \<Longrightarrow> j \<noteq> p \<Longrightarrow> reps c3 j = reps c j"
        "reps c3 p = snd (RequestVote (vote_prepare t n) now (reps c p))"
      using p(1) n n' c3(2,4) by simp_all
    have "\<forall>q \<in> set ps. om_find (peers (reps c3 q)) i \<noteq> None \<and> CurrentTerm (reps c3 q) < t \<and> up_to_date (log_of n) (log_of (reps c3 q))"
      using Cons.prems(8) r3(3) p by (metis list.set_intros(2))
    moreover have "2 * (v + 1) \<le> int (length (ClusterConfig n))" "int (length (ClusterConfig n)) < 2 * (v + 1 + int (length ps))"
      using False Cons.prems(7) by simp_all
    ultimately obtain c' m where r: "(net_step True cfg)\<^sup>*\<^sup>* c3 c'" "reps c' i = becomeLeader now (n\<lparr>VotesReceived := m\<rparr>)" "votes_or_not i (set ps) (vote_prepare t n) now c3 c'"
      using Cons.IH [OF c3(3) p(3,4) _ r3(1)] Cons.prems(4) r3(2) by metis
    have "reps c' p = reps c3 p"
      using r(3) p(1,2) unfolding votes_or_not_def by blast
    then have "votes_or_not i (set (p # ps)) (vote_prepare t n) now c c'"
      using r(3) r3(3,4) unfolding votes_or_not_def by (metis list.set_intros)
    then show ?thesis
      using rtranclp_trans [OF c3(1) r(1)] r(2) by blast
  qed
qed

section \<open>A leader\<close>

lemma best_log:
  assumes "finite M" and "M \<noteq> {}"
  shows "\<exists>i \<in> M. \<forall>j \<in> M. up_to_date (f i) (f j)"
  using assms
proof (induction rule: finite_ne_induct)
  case (insert x M)
  then obtain i where i: "i \<in> M" "\<forall>j \<in> M. up_to_date (f i) (f j)"
    by blast
  show ?case
  proof (cases "up_to_date (f i) (f x)")
    case False
    then have "\<forall>j \<in> insert x M. up_to_date (f x) (f j)"
      using i(2) by (auto simp: up_to_date_def)
    then show ?thesis
      by blast
  qed (use i in blast)
qed (simp add: up_to_date_def)

lemma led_term:
  assumes sim: "cluster_sim dir T M c s" and t: "t \<in> led c"
  shows "\<exists>v \<in> M. t \<le> CurrentTerm (reps c v)"
proof -
  have inv: "inv_elect M s" "inv_votes s"
    using cluster_simD(1) [OF sim] by (simp_all add: spec_inv_def)
  obtain h where "sp_chain s t = Some h"
    using sim t unfolding cluster_sim_def by blast
  then obtain Q n where Q: "quorum M Q" "\<forall>v \<in> Q. \<exists>l. (v, t, sp_owner s t, l) \<in> sp_votes s \<and> up_to_date (take n h) l"
    using inv_electE [OF inv(1)] by metis
  then have "Q \<noteq> {}" "Q \<subseteq> M"
    by (auto simp: quorum_def)
  then obtain v where v: "v \<in> Q" "v \<in> M"
    by blast
  then have "t \<le> sp_term s v"
    using Q(2) inv_votesD(1) [OF inv(2)] by blast
  then show ?thesis
    using replica_okD(3) [OF cluster_simD(2) [OF sim v(2)]] v(2) by auto
qed

definition new_leader :: "(int, ServerInfo) omap \<Rightarrow> int \<Rightarrow> node \<Rightarrow> bool" where
  "new_leader cfg t n \<longleftrightarrow> Role n = Leader \<and> CurrentTerm n = t \<and> CommitIndex n = -1 \<and> dispatchOut n = [] \<and> raftIn n = [] \<and> raftOut n = [] \<and> execIn n = []
     \<and> services n = no_clients \<and> ClusterConfig n = cfg \<and> stripped (log_of n) = log_of n
     \<and> (\<forall>p \<in> set (om_keys (peers n)). om_find (NextIndex n) p = Some (int (length (log_of n))))"

lemma becomeLeader_new:
  assumes "rested cfg n"
  shows "new_leader cfg (CurrentTerm n + 1) (becomeLeader now (campaigner now' n\<lparr>VotesReceived := m\<rparr>))"
  using assms by (simp add: new_leader_def rested_def becomeLeader_def campaigner_def becomeCandidate_def om_find_foldl_put raft_persist_def)

lemma stripped_ops: "stripped es = es \<Longrightarrow> e \<in> set es \<Longrightarrow> promiseHandle (log_op e) = None"
  by (metis in_set_conv_nth nth_map strip_entry_simps(2) withoutPromise_simps(3))

lemma stripped_handles: "stripped es = es \<Longrightarrow> handles es = []"
  by (rule handles_none) (blast intro: stripped_ops)

lemma rested_follows:
  assumes "rested cfg n" and "\<forall>e \<in> set (log_of n). known_op (log_op e)" and "node_inv n" and "CurrentTerm n \<le> t"
  shows "can_follow t n"
  using assms stripped_handles [of "log_of n"]
  by (auto simp: can_follow_def rested_def node_inv_def list_all_iff no_clients_def promise_store_init_def ps_ok_def ps_live_def)

lemma voter_follows:
  assumes "can_follow t n" and "rv_term a \<le> t"
  shows "can_follow t (snd (RequestVote a now n))"
  using assms by (auto simp: can_follow_def RequestVote_def Let_def)

text \<open>A restarted cluster of two or more elects a leader.\<close>

context kv_fresh
begin

lemma run_known:
  assumes "system_reach True dir T cfg get put \<sigma>" and "sound_setup T cfg" and "i \<in> members cfg"
  shows "\<forall>e \<in> set (log_of (rep \<sigma> i)). known_op (log_op e)"
proof -
  obtain s H where inv: "system_inv view good dir T cfg s H \<sigma>"
    using inv_reach [OF assms(1,2)] by blast
  show ?thesis
    using placed_known(3) [OF servedD(6) [OF system_invD(4) [OF inv assms(3)]] explainsD(11) [OF system_invD(2) [OF inv]]] by (metis in_set_conv_nth)
qed

lemma next_term_unled:
  assumes r: "system_reach True dir T cfg get put \<sigma>" and ss: "sound_setup T cfg" and t: "\<forall>j \<in> members cfg. CurrentTerm (rep \<sigma> j) \<le> t"
  shows "t + 1 \<notin> led (cl \<sigma>)"
proof
  assume "t + 1 \<in> led (cl \<sigma>)"
  then obtain j where "j \<in> members cfg" "t + 1 \<le> CurrentTerm (rep \<sigma> j)"
    using reach_sim [OF system_reach_cluster [OF r] ss] led_term by metis
  then show False
    using t by fastforce
qed

lemma rest_elects:
  assumes r: "system_reach True dir T cfg get put \<sigma>" and ss: "sound_setup T cfg" and two: "2 \<le> length cfg"
    and rest: "at_rest cfg \<sigma>" and i: "i \<in> members cfg" "\<forall>j \<in> members cfg. up_to_date (log_of (rep \<sigma> i)) (log_of (rep \<sigma> j))"
    and t: "\<forall>j \<in> members cfg. CurrentTerm (rep \<sigma> j) \<le> CurrentTerm (rep \<sigma> i)" "i32_ok (CurrentTerm (rep \<sigma> i) + 1)"
  obtains c where "(net_step True cfg)\<^sup>*\<^sup>* (cl \<sigma>) c" "new_leader cfg (CurrentTerm (rep \<sigma> i) + 1) (reps c i)"
    "\<forall>p \<in> members cfg - {i}. can_follow (CurrentTerm (rep \<sigma> i) + 1) (reps c p)"
proof -
  let ?n = "rep \<sigma> i"
  let ?t = "CurrentTerm ?n + 1"
  note m = run_replica(4) [OF r ss]
  have rested: "rested cfg (rep \<sigma> j)" if "j \<in> members cfg" for j
    using rest that by (simp add: at_rest_def)
  have peers: "set (om_keys (peers ?n)) = members cfg - {i}" "distinct (om_keys (peers ?n))" "length cfg = Suc (length (om_keys (peers ?n)))"
    using member_peers [OF m [OF i(1)] _ i(1)] ss by (simp_all add: sound_setup_def)
  obtain c now where c: "net_step True cfg (cl \<sigma>) c" "reps c = (reps (cl \<sigma>))(i := campaigner now ?n)" "led c = led (cl \<sigma>)"
      "calls c = mset (map (\<lambda>p. VoteStart i p ?t) (om_keys (peers ?n)))"
    by (rule campaign [OF rest i(1) t(2)]) (rule that)
  have unled: "?t \<notin> led c"
    using next_term_unled [OF r ss t(1)] c(3) by simp
  have n: "reps c i = campaigner now ?n\<lparr>VotesReceived := 1\<rparr>" "ClusterConfig (campaigner now ?n) = cfg" "my_id (campaigner now ?n) = i"
    using c(2) rested [OF i(1)] m [OF i(1)] by (simp_all add: campaigner_def rested_def member_ok_def)
  have votes: "2 * 1 \<le> int (length (ClusterConfig (campaigner now ?n)))"
      "int (length (ClusterConfig (campaigner now ?n))) < 2 * (1 + int (length (om_keys (peers ?n))))"
    using two n(2) peers(3) by simp_all
  have voters: "\<forall>p \<in> set (om_keys (peers ?n)). om_find (peers (reps c p)) i \<noteq> None \<and> CurrentTerm (reps c p) < ?t
      \<and> up_to_date (log_of (campaigner now ?n)) (log_of (reps c p))"
  proof
    fix p assume "p \<in> set (om_keys (peers ?n))"
    then have p: "p \<in> members cfg" "p \<noteq> i"
      using peers(1) by auto
    then have "i \<in> set (om_keys (peers (rep \<sigma> p)))"
      using m [OF p(1)] i(1) by (simp add: member_ok_def)
    then show "om_find (peers (reps c p)) i \<noteq> None \<and> CurrentTerm (reps c p) < ?t \<and> up_to_date (log_of (campaigner now ?n)) (log_of (reps c p))"
      using p c(2) t(1) i(2) om_find_mem_keys [of "peers (rep \<sigma> p)" i] by auto
  qed
  have cand: "i \<notin> set (om_keys (peers ?n))" "Role (campaigner now ?n) = Candidate" "CurrentTerm (campaigner now ?n) = ?t"
    using peers(1) by simp_all
  obtain c' k where c': "(net_step True cfg)\<^sup>*\<^sup>* c c'" "reps c' i = becomeLeader now (campaigner now ?n\<lparr>VotesReceived := k\<rparr>)"
      "votes_or_not i (set (om_keys (peers ?n))) (vote_prepare ?t (campaigner now ?n)) now c c'"
    using election_won [OF c(4) peers(2) cand(1) unled n(1) cand(2,3) n(3) votes voters, of cfg now] by (elim exE conjE) (rule that)
  have "can_follow ?t (reps c' p)" if p: "p \<in> members cfg - {i}" for p
  proof -
    have "can_follow ?t (rep \<sigma> p)"
      using rested_follows [OF rested run_known [OF r ss] run_replica(2) [OF r ss]] p t(1) by fastforce
    then show ?thesis
      using c'(3) c(2) p voter_follows [of ?t "rep \<sigma> p" "vote_prepare ?t (campaigner now ?n)" now]
      unfolding votes_or_not_def by (auto simp: vote_prepare_def)
  qed
  then show ?thesis
    using that [of c'] converse_rtranclp_into_rtranclp [OF c(1) c'(1)] becomeLeader_new [OF rested [OF i(1)], of now k now] c'(2) by simp
qed

text \<open>The latest term of the members, which any replica can reach.\<close>

lemma latest_term:
  assumes r: "system_reach True dir T cfg get put \<sigma>" and ss: "sound_setup T cfg" and ne: "members cfg \<noteq> {}"
    and low: "\<forall>i \<in> members cfg. CurrentTerm (rep \<sigma> i) < 2147483647"
  obtains t where "\<forall>i \<in> members cfg. CurrentTerm (rep \<sigma> i) \<le> t" "i32_ok t" "i32_ok (t + 1)"
proof -
  let ?t = "Max ((\<lambda>i. CurrentTerm (rep \<sigma> i)) ` members cfg)"
  have "?t \<in> (\<lambda>i. CurrentTerm (rep \<sigma> i)) ` members cfg"
    by (rule Max_in) (use ne in simp_all)
  then obtain j where j: "j \<in> members cfg" "?t = CurrentTerm (rep \<sigma> j)"
    by blast
  then have "i32_ok ?t" "i32_ok (?t + 1)"
    using run_replica(2) [OF r ss j(1)] low by (auto simp: node_inv_def disk_inv_def meta_inv_def i32_ok_def)
  moreover have "\<forall>i \<in> members cfg. CurrentTerm (rep \<sigma> i) \<le> ?t"
    by simp
  ultimately show ?thesis
    using that by blast
qed

lemma leader_elected:
  assumes r: "system_reach True dir T cfg get put \<sigma>" and ss: "sound_setup T cfg" and two: "2 \<le> length cfg"
    and low: "\<forall>i \<in> members cfg. CurrentTerm (rep \<sigma> i) < 2147483647"
  obtains \<sigma>' i t where "sys_run dir T cfg get put \<sigma> \<sigma>'" "hist \<sigma>' = hist \<sigma>" "i \<in> members cfg" "new_leader cfg t (rep \<sigma>' i)" "loop \<sigma>' i = Ready"
    "\<forall>p \<in> members cfg - {i}. can_follow t (rep \<sigma>' p)"
proof -
  have ne: "members cfg \<noteq> {}"
    using two by (cases cfg) (auto simp: om_keys_def)
  obtain \<sigma>1 where s1: "sys_run dir T cfg get put \<sigma> \<sigma>1" "same_world \<sigma> \<sigma>1" "at_rest cfg \<sigma>1" "\<forall>i. CurrentTerm (rep \<sigma>1 i) = CurrentTerm (rep \<sigma> i)"
    by (rule restart_all [OF r ss ne]) (rule that)
  note r1 = sys_run_reach [OF s1(1) r]
  obtain t where t: "\<forall>i \<in> members cfg. CurrentTerm (rep \<sigma>1 i) \<le> t" "i32_ok t" "i32_ok (t + 1)"
    by (rule latest_term [OF r1 ss ne]) (use low s1(4) that in auto)
  obtain i where i: "i \<in> members cfg" "\<forall>j \<in> members cfg. up_to_date (log_of (rep \<sigma>1 i)) (log_of (rep \<sigma>1 j))"
    using best_log [of "members cfg" "\<lambda>j. log_of (rep \<sigma>1 j)"] ne by auto
  obtain \<sigma>2 where s2: "sys_run dir T cfg get put \<sigma>1 \<sigma>2" "same_world \<sigma>1 \<sigma>2" "at_rest cfg \<sigma>2" "CurrentTerm (rep \<sigma>2 i) = t"
      "log_of (rep \<sigma>2 i) = log_of (rep \<sigma>1 i)" "\<forall>j. j \<noteq> i \<longrightarrow> rep \<sigma>2 j = rep \<sigma>1 j"
    using raise_term [OF r1 ss i(1) s1(3) _ t(2)] t(1) i(1) by blast
  have "\<forall>j \<in> members cfg. log_of (rep \<sigma>2 j) = log_of (rep \<sigma>1 j) \<and> CurrentTerm (rep \<sigma>2 j) \<le> CurrentTerm (rep \<sigma>2 i)"
    using s2(4-6) t(1) by (metis order_refl)
  then have "\<forall>j \<in> members cfg. up_to_date (log_of (rep \<sigma>2 i)) (log_of (rep \<sigma>2 j))" "\<forall>j \<in> members cfg. CurrentTerm (rep \<sigma>2 j) \<le> CurrentTerm (rep \<sigma>2 i)"
    using i by simp_all
  then obtain c where c: "(net_step True cfg)\<^sup>*\<^sup>* (cl \<sigma>2) c" "new_leader cfg (t + 1) (reps c i)" "\<forall>p \<in> members cfg - {i}. can_follow (t + 1) (reps c p)"
    using rest_elects [OF sys_run_reach [OF s2(1) r1] ss two s2(3) i(1)] t(3) s2(4) by metis
  have "sys_run dir T cfg get put \<sigma> (\<sigma>2\<lparr>cl := c\<rparr>)"
    using rtranclp_trans [OF rtranclp_trans [OF s1(1) s2(1)] sys_run_net [OF c(1)]] .
  then show ?thesis
    by (rule that [OF _ _ i(1), of "\<sigma>2\<lparr>cl := c\<rparr>" "t + 1"]) (use s1(2) s2(2,3) c(2,3) i(1) in \<open>simp_all add: same_world_def at_rest_def\<close>)
qed

end

end
