(* ===== verification/SplitVote.thy ===== *)
theory SplitVote
  imports ClientRuns
begin

text \<open>
  A split vote. \<open>electionImpl\<close> starts an election from the role of a follower only, so a candidate that is not
  elected and hears of no later term stays a candidate. If the timers of all replicas run out before a vote
  request arrives, all of them are candidates of one term that have voted for themselves, and the cluster
  has no leader until somebody restarts a replica.
\<close>

section \<open>A cluster of candidates\<close>

definition split_node :: "int \<Rightarrow> int \<Rightarrow> node \<Rightarrow> bool" where
  "split_node t i n \<longleftrightarrow> Role n = Candidate \<and> CurrentTerm n = t \<and> VotedFor n = i \<and> my_id n = i \<and> i \<noteq> -1"

text \<open>The calls in flight are vote requests of that term and refusals.\<close>

fun split_call :: "int set \<Rightarrow> int \<Rightarrow> call \<Rightarrow> bool" where
  "split_call M t (VoteStart i p u) \<longleftrightarrow> i \<in> M \<and> p \<in> M \<and> p \<noteq> i \<and> u = t"
| "split_call M t (VoteSent i p u a) \<longleftrightarrow> i \<in> M \<and> p \<in> M \<and> p \<noteq> i \<and> u = t \<and> rv_term a = t \<and> rv_candidateId a = i"
| "split_call M t (VoteDone i p u r) \<longleftrightarrow> i \<in> M \<and> u = t \<and> rvr_term r = t \<and> \<not> rvr_voteGranted r"
| "split_call M t _ \<longleftrightarrow> False"

definition split_cluster :: "int set \<Rightarrow> int \<Rightarrow> cluster \<Rightarrow> bool" where
  "split_cluster M t c \<longleftrightarrow> (\<forall>i \<in> M. split_node t i (reps c i)) \<and> (\<forall>x \<in># calls c. split_call M t x)"

lemma split_clusterD:
  "split_cluster M t c \<Longrightarrow> i \<in> M \<Longrightarrow> split_node t i (reps c i)"
  "split_cluster M t c \<Longrightarrow> calls c = add_mset x rest \<Longrightarrow> split_call M t x \<and> (\<forall>y \<in># rest. split_call M t y)"
  by (simp_all add: split_cluster_def)

lemma split_cluster_update:
  assumes "split_cluster M t c" and "reps c' = (reps c)(i := n)" and "split_node t i n" and "\<forall>x \<in># calls c'. split_call M t x"
  shows "split_cluster M t c'"
  using assms by (simp add: split_cluster_def)

text \<open>No step of a candidate changes that.\<close>

lemma split_node_frame:
  "split_node t i n \<Longrightarrow> Role n' = Role n \<Longrightarrow> CurrentTerm n' = CurrentTerm n \<Longrightarrow> VotedFor n' = VotedFor n \<Longrightarrow> my_id n' = my_id n \<Longrightarrow> split_node t i n'"
  by (simp add: split_node_def)

lemma NetworkUpdate_vote: "VotedFor (NetworkUpdate es n) = VotedFor n"
  by (induction es arbitrary: n) (auto split: option.splits)

lemma split_idle: "idle_step n n' \<Longrightarrow> split_node t i n \<Longrightarrow> split_node t i n'"
proof (induction rule: idle_step.induct)
  case (network n es)
  then show ?case
    using NetworkUpdate_frame [of es n] by (auto simp: local_frame_def NetworkUpdate_vote intro: split_node_frame)
qed (auto simp: split_node_def getLastKnownLeaderDBAddr_def start_def stop_def executer_wait_def case_prod_beta)

lemma split_request:
  assumes "request_begin k a v ft n = Inr (pc, n')" and "k = GET \<or> k = PUT" and "split_node t i n"
  shows "invoked pc j op = []" "split_node t i n'"
  using assms by (auto simp: request_unfold split_node_def elim!: rbind_Inr_E)

lemma split_queues: "split_node t i n \<Longrightarrow> split_node t i (raft_take n) \<and> split_node t i (raft_clear n) \<and> split_node t i (executer_take n)"
  by (simp add: split_node_def raft_take_def raft_clear_def executer_take_def)

lemma split_execute: "executer_one dbget dbput db n = Inr (db', n') \<Longrightarrow> split_node t i n \<Longrightarrow> split_node t i n'"
  by (auto simp: executer_one_def split_node_def elim!: rbind_Inr_E split: list.splits)

lemma split_vote:
  assumes "RequestVote a now n = (reply, n')" and "split_node t p n" and "rv_term a = t" "rv_candidateId a \<noteq> p"
  shows "split_node t p n' \<and> rvr_term reply = t \<and> \<not> rvr_voteGranted reply"
proof -
  have "\<not> rvr_voteGranted reply"
    using RequestVote_granted_iff [of a now n] assms by (auto simp: split_node_def)
  moreover have "my_id n' = my_id n"
    using RequestVote_frame(6) [of a now n] assms(1) by simp
  ultimately show ?thesis
    using RequestVote_state [OF assms(1)] assms(2,3) by (auto simp: split_node_def)
qed

lemma split_net:
  assumes "net_step True cfg c c'" and split: "split_cluster (members cfg) t c"
  shows "split_cluster (members cfg) t c'"
  using assms(1)
proof cases
  case (idle i n')
  then show ?thesis
    using split split_idle [OF idle(3) split_clusterD(1) [OF split idle(2)]] by (auto intro: split_cluster_update simp: split_cluster_def)
next
  case (timer i tmo now ths n')
  then have "ths = []" "n' = reps c i"
    using candidate_timer split_clusterD(1) [OF split timer(2)] by (auto simp: split_node_def)
  then show ?thesis
    using split timer(1) by (simp add: split_cluster_def)
next
  case (ask i p u rest)
  then show ?thesis
    using split split_clusterD(2) [OF split ask(2)] by (auto simp: split_cluster_def vote_prepare_def split_node_def)
next
  case (vote i p u a rest now reply n')
  note call = split_clusterD(2) [OF split vote(2)]
  then have "split_node u p n' \<and> rvr_term reply = u \<and> \<not> rvr_voteGranted reply"
    using split_vote [OF vote(3)] split_clusterD(1) [OF split] by auto
  then show ?thesis
    using call vote(1) by (intro split_cluster_update [OF split, where i = p]) auto
next
  case (count i p u reply rest n' now elected)
  note call = split_clusterD(2) [OF split count(2)]
  then have "n' = reps c i"
    using count(3) by (simp add: vote_reply_def)
  then show ?thesis
    using call count(1) split by (simp add: split_cluster_def)
next
  case (lose remaining lost)
  then show ?thesis
    using split by (simp add: split_cluster_def)
qed (use split in \<open>auto simp: split_cluster_def\<close>)

lemma split_work:
  assumes "system_work True cfg dbget dbput \<sigma> \<sigma>'" and split: "split_cluster (members cfg) t (cl \<sigma>)"
  shows "split_cluster (members cfg) t (cl \<sigma>') \<and> (\<forall>ft i op. Invoke ft i op \<in> set (hist \<sigma>') \<longrightarrow> Invoke ft i op \<in> set (hist \<sigma>))"
proof -
  have one: "split_cluster (members cfg) t ((cl \<sigma>)\<lparr>reps := (reps (cl \<sigma>))(i := n')\<rparr>)" if "split_node t i n'" for i n'
    using split that by (intro split_cluster_update [OF split]) (auto simp: split_cluster_def)
  note node = split_clusterD(1) [OF split]
  from assms(1) show ?thesis
  proof cases
    case (net c')
    then show ?thesis
      using split_net [OF net(2) split] by simp
  next
    case (get i key ft pc n')
    then show ?thesis
      using one split_request [OF get(5) [unfolded get_begin_def] _ node [OF get(2)]] by simp
  next
    case (put i kvp ft pc n')
    then show ?thesis
      using one split_request [OF put(6) [unfolded put_begin_def] _ node [OF put(2)]] by simp
  next
    case (run i ths n')
    then show ?thesis
      using node [OF run(2)] by (simp add: split_node_def)
  next
    case (execute i db' n')
    then show ?thesis
      using one split_execute [OF execute(3) node [OF execute(2)]] by (auto simp: returns_def)
  qed (use split one split_queues node in simp_all)
qed

lemma split_stays:
  assumes "(system_work True cfg dbget dbput)\<^sup>*\<^sup>* \<sigma> \<sigma>'" and "split_cluster (members cfg) t (cl \<sigma>)"
  shows "split_cluster (members cfg) t (cl \<sigma>') \<and> (\<forall>ft i op. Invoke ft i op \<in> set (hist \<sigma>') \<longrightarrow> Invoke ft i op \<in> set (hist \<sigma>))"
  using assms
proof induction
  case (step \<sigma>1 \<sigma>2)
  then show ?case
    using split_work [OF step.hyps(2)] by blast
qed simp

section \<open>How it comes to that\<close>

text \<open>The timers of the three replicas of a new cluster run out one after the other.\<close>

definition time_out :: "int \<Rightarrow> cluster \<Rightarrow> cluster" where
  "time_out i c = (set_rep i (candidate i) c)\<lparr>calls := calls c + mset (map (\<lambda>(p, t). VoteStart i p t) (map (\<lambda>p. (p, 1)) (om_keys (peers (replica i)))))\<rparr>"

lemma time_out_step: "reps c i = replica i \<Longrightarrow> i \<in> {0, 1, 2} \<Longrightarrow> net_step strict config3 c (time_out i c)"
  unfolding time_out_def by (rule net_step.timer) (use candidate_starts in \<open>auto simp: members3\<close>)

lemma split_vote_run:
  obtains c where "net3 strict cluster3 c" "split_cluster (members config3) 1 c"
proof
  let ?c = "time_out 2 (time_out 1 (time_out 0 cluster3))"
  have "net_step strict config3 cluster3 (time_out 0 cluster3)"
    by (rule time_out_step) (simp_all add: cluster3_def)
  moreover have "net_step strict config3 (time_out 0 cluster3) (time_out 1 (time_out 0 cluster3))"
    by (rule time_out_step) (simp_all add: cluster3_def time_out_def)
  moreover have "net_step strict config3 (time_out 1 (time_out 0 cluster3)) ?c"
    by (rule time_out_step) (simp_all add: cluster3_def time_out_def)
  ultimately show "net3 strict cluster3 ?c"
    by (rule net3_steps)
  have peers: "set (om_keys (peers (replica i))) \<subseteq> {0, 1, 2} - {i}" for i
    using replica_peers [of i] om_find_mem_keys [of "peers (replica i)"] by fastforce
  show "split_cluster (members config3) 1 ?c"
    by (auto simp: split_cluster_def members3 time_out_def cluster3_def split_node_def dest!: subsetD [OF peers])
qed

section \<open>Property\<close>

text \<open>C8. A split vote is for ever: the timers of a new cluster of three can run out so that, whatever is delivered or lost
  afterwards and whatever clients ask, as long as no replica is restarted all three stay candidates of term 1
  and no call of a client is taken.\<close>

theorem split_vote_wedges:
  "\<exists>\<sigma>. system_reach True ''d'' flat_entry config3 (LevelDBReal_get map_get) (LevelDBReal_put map_put) \<sigma>
    \<and> (\<forall>\<sigma>'. (system_work True config3 (LevelDBReal_get map_get) (LevelDBReal_put map_put))\<^sup>*\<^sup>* \<sigma> \<sigma>'
        \<longrightarrow> (\<forall>i \<in> {0, 1, 2}. Role (rep \<sigma>' i) = Candidate \<and> CurrentTerm (rep \<sigma>' i) = 1) \<and> (\<forall>ft i op. Invoke ft i op \<notin> set (hist \<sigma>')))"
proof -
  obtain c where c: "net3 True cluster3 c" "split_cluster (members config3) 1 c"
    by (rule split_vote_run)
  let ?\<sigma> = "fresh_system\<lparr>cl := c\<rparr>"
  have "system3 True ?\<sigma>"
    by (rule system3_net [OF _ system3_start]) (use c(1) in \<open>simp add: fresh_system_def\<close>)
  moreover have "(\<forall>i \<in> {0, 1, 2}. Role (rep \<sigma>' i) = Candidate \<and> CurrentTerm (rep \<sigma>' i) = 1) \<and> (\<forall>ft i op. Invoke ft i op \<notin> set (hist \<sigma>'))"
    if "(work3 True)\<^sup>*\<^sup>* ?\<sigma> \<sigma>'" for \<sigma>'
    using split_stays [OF that, of 1] c(2) by (auto simp: split_cluster_def members3 split_node_def fresh_system_def)
  ultimately show ?thesis
    by blast
qed

text \<open>At once, for example.\<close>

theorem split_vote_wedges_witness:
  "\<exists>\<sigma>. system3 True \<sigma> \<and> Role (rep \<sigma> 0) = Candidate \<and> Role (rep \<sigma> 1) = Candidate \<and> Role (rep \<sigma> 2) = Candidate"
proof -
  obtain \<sigma> where "system3 True \<sigma>" "\<forall>\<sigma>'. (work3 True)\<^sup>*\<^sup>* \<sigma> \<sigma>' \<longrightarrow> (\<forall>i \<in> {0, 1, 2}. Role (rep \<sigma>' i) = Candidate \<and> CurrentTerm (rep \<sigma>' i) = 1)"
    using split_vote_wedges by blast
  then show ?thesis
    by (intro exI [of _ \<sigma>]) auto
qed

end
