(* ===== verification/Recovery.thy ===== *)
theory Recovery
  imports Restart SplitVote
begin

text \<open>
  A new leader serves a client: it takes the operation into its log, brings every peer up to date, commits and
  executes. Together with theory \<open>Restart\<close>: whatever happened to a cluster, after a restart there is a run
  in which it elects a leader and answers.
\<close>

section \<open>A peer is brought up to date\<close>

text \<open>The three steps of a replication thread, with nothing in between.\<close>

text \<open>What happens between a leader \<open>i\<close> and its peer \<open>p\<close> leaves the others, and the threads for them, alone.\<close>

definition talks :: "int \<Rightarrow> int \<Rightarrow> int \<Rightarrow> cluster \<Rightarrow> cluster \<Rightarrow> bool" where
  "talks i p t c c' \<longleftrightarrow> leader_kept {p} (reps c i) (reps c' i) \<and> (\<forall>j. j \<notin> {i, p} \<longrightarrow> reps c' j = reps c j) \<and> led c' = led c
     \<and> (\<forall>q. q \<noteq> p \<longrightarrow> count (calls c') (AppendStart i q t) = count (calls c) (AppendStart i q t))"

lemma talks_trans: "talks i p t c c1 \<Longrightarrow> talks i p t c1 c2 \<Longrightarrow> talks i p t c c2"
  unfolding talks_def using leader_kept_trans [of "{p}" "reps c i" "reps c1 i" "{p}" "reps c2 i"] by simp

lemma talksD:
  assumes "talks i p t c c'"
  shows "leader_kept {p} (reps c i) (reps c' i)" "j \<notin> {i, p} \<Longrightarrow> reps c' j = reps c j" "led c' = led c"
    "q \<noteq> p \<Longrightarrow> count (calls c') (AppendStart i q t) = count (calls c) (AppendStart i q t)"
  using assms by (simp_all add: talks_def)

lemma sync_steps:
  assumes x: "AppendStart i p t \<in># calls c" "p \<noteq> i" and lead: "can_lead p k (reps c i)" "CurrentTerm (reps c i) = t"
    and r: "sync_round p now (reps c i, reps c p) = Inr (nl', nf')" "leader_kept {p} (reps c i) nl'"
  obtains c' where "(net_step True cfg)\<^sup>*\<^sup>* c c'" "talks i p t c c'" "reps c' i = nl'" "reps c' p = nf'"
    "count (calls c') (AppendStart i p t) = count (calls c) (AppendStart i p t) - 1"
proof -
  let ?n = "reps c i"
  define rest where "rest = calls c - {#AppendStart i p t#}"
  obtain a where prep: "leader_prepare p t ?n = Inr ((k, a), ?n)"
    using leader_prepare_ok [of ?n p k t] lead(1) by (auto simp: can_lead_def)
  then obtain reply where ae: "AppendEntries a now (reps c p) = Inr (reply, nf')"
      and lr: "leader_reply p t k (length (ae_entries a)) reply now ?n = Inr nl'"
    using r(1) lead(2) by (auto simp: sync_round_def Let_def elim!: rbind_Inr_E)
  define c1 where "c1 = (set_rep i ?n c)\<lparr>calls := add_mset (AppendSent i p t k a) rest\<rparr>"
  define c2 where "c2 = (set_rep p nf' c1)\<lparr>calls := add_mset (AppendDone i p t k (length (ae_entries a)) reply) rest\<rparr>"
  define c3 where "c3 = (set_rep i nl' c2)\<lparr>calls := rest\<rparr>"
  have s1: "net_step True cfg c c1"
    unfolding c1_def by (rule net_step.prepare) (use x(1) prep lead in \<open>simp_all add: rest_def can_lead_def\<close>)
  have s2: "net_step True cfg c1 c2"
    unfolding c2_def by (rule net_step.deliver) (use x(2) ae in \<open>simp_all add: c1_def\<close>)
  have "reps c2 i = ?n"
    using x(2) by (simp add: c2_def c1_def)
  then have s3: "net_step True cfg c2 c3"
    unfolding c3_def by (intro net_step.reply [where p = p and t = t and k = k and now = now]) (use lr lead(2) in \<open>auto simp: c2_def\<close>)
  have "(net_step True cfg)\<^sup>*\<^sup>* c c3"
    using rtranclp.rtrancl_into_rtrancl [OF rtranclp.rtrancl_into_rtrancl [OF r_into_rtranclp [of "net_step True cfg", OF s1] s2] s3] .
  then show ?thesis
    by (rule that) (use x(2) r(2) in \<open>auto simp: talks_def c3_def c2_def c1_def rest_def\<close>)
qed

text \<open>Round after round, as many as the leader is ahead of the peer, and one more.\<close>

lemma peer_synced:
  assumes "can_lead p k (reps c i)" and "CurrentTerm (reps c i) = t" and "can_follow t (reps c p)"
    and "log_matching (log_of (reps c i)) (log_of (reps c p))" and p: "p \<noteq> i" and "nat k < count (calls c) (AppendStart i p t)"
  shows "\<exists>c'. (net_step True cfg)\<^sup>*\<^sup>* c c' \<and> talks i p t c c' \<and> scanned (reps c' i)
    \<and> match_value (MatchIndex (reps c' i)) p = int (length (log_of (reps c' i))) - 1"
  using assms(1-4,6)
proof (induction "nat k" arbitrary: k c rule: less_induct)
  case less
  let ?nl = "reps c i" and ?nf = "reps c p"
  let ?prev = "k = 0 \<or> (nat k \<le> length (log_of ?nf) \<and> log_term (log_of ?nf ! nat (k - 1)) = log_term (log_of ?nl ! nat (k - 1)))"
  have x: "AppendStart i p t \<in># calls c" and follow: "can_follow (CurrentTerm ?nl) ?nf"
    using less.prems(2,3,5) gr_implies_not0 not_in_iff by (metis, simp)
  show ?case
  proof (cases ?prev)
    case True
    obtain nl' nf' where r: "sync_round p 0 (?nl, ?nf) = Inr (nl', nf')" "leader_kept {p} ?nl nl'" "scanned nl'"
        "match_value (MatchIndex nl') p = int (length (log_of ?nl)) - 1"
      using round_match [OF less.prems(1) follow less.prems(4) True, of 0] by (elim exE conjE) (rule that)
    show ?thesis
      by (rule sync_steps [OF x p less.prems(1,2) r(1,2)]) (use r in \<open>auto simp: leader_kept_def\<close>)
  next
    case False
    obtain nl1 nf1 where r: "sync_round p 0 (?nl, ?nf) = Inr (nl1, nf1)" "leader_kept {p} ?nl nl1" "Logs nf1 = Logs ?nf"
        "can_lead p (k - 1) nl1" "can_follow (CurrentTerm ?nl) nf1"
      using round_back_up [OF less.prems(1) follow False, of 0] by (elim exE conjE) (rule that)
    obtain c1 where c1: "(net_step True cfg)\<^sup>*\<^sup>* c c1" "talks i p t c c1" "reps c1 i = nl1" "reps c1 p = nf1"
        "count (calls c1) (AppendStart i p t) = count (calls c) (AppendStart i p t) - 1"
      by (rule sync_steps [OF x p less.prems(1,2) r(1,2)]) (rule that)
    have k: "nat (k - 1) < nat k" "nat (k - 1) < count (calls c1) (AppendStart i p t)"
      using False less.prems(1,5) c1(5) by (auto simp: can_lead_def)
    have lead: "can_lead p (k - 1) (reps c1 i)" "CurrentTerm (reps c1 i) = t" "can_follow t (reps c1 p)" "log_matching (log_of (reps c1 i)) (log_of (reps c1 p))"
      using r(2-5) c1(3,4) less.prems(2,4) by (simp_all add: leader_kept_def)
    show ?thesis
      using less.hyps [OF k(1) lead k(2)] rtranclp_trans [OF c1(1)] talks_trans [OF c1(2)] by blast
  qed
qed

section \<open>All peers\<close>

lemma kept_can_lead: "leader_kept P n n' \<Longrightarrow> q \<notin> P \<Longrightarrow> can_lead q k n \<Longrightarrow> can_lead q k n'"
  by (auto simp: leader_kept_def can_lead_def commit_bounds_def)

lemma all_synced:
  assumes "distinct ps" and "i \<notin> set ps" and "CurrentTerm (reps c i) = t"
    and "\<forall>p \<in> set ps. \<exists>k. can_lead p k (reps c i) \<and> can_follow t (reps c p) \<and> log_matching (log_of (reps c i)) (log_of (reps c p))
      \<and> nat k < count (calls c) (AppendStart i p t)"
  shows "\<exists>c'. (net_step True cfg)\<^sup>*\<^sup>* c c' \<and> leader_kept (set ps) (reps c i) (reps c' i) \<and> (scanned (reps c i) \<or> ps \<noteq> [] \<longrightarrow> scanned (reps c' i))
    \<and> (\<forall>p \<in> set ps. match_value (MatchIndex (reps c' i)) p = int (length (log_of (reps c' i))) - 1)"
  using assms
proof (induction ps arbitrary: c)
  case Nil
  then show ?case
    by (intro exI [of _ c]) (simp add: leader_kept_refl)
next
  case (Cons p ps)
  obtain k where k: "can_lead p k (reps c i)" "can_follow t (reps c p)" "log_matching (log_of (reps c i)) (log_of (reps c p))"
      "nat k < count (calls c) (AppendStart i p t)"
    using Cons.prems(4) by auto
  have p: "p \<noteq> i" "p \<notin> set ps" "distinct ps" "i \<notin> set ps"
    using Cons.prems(1,2) by auto
  obtain c1 where c1: "(net_step True cfg)\<^sup>*\<^sup>* c c1" "talks i p t c c1" "scanned (reps c1 i)"
      "match_value (MatchIndex (reps c1 i)) p = int (length (log_of (reps c1 i))) - 1"
    using peer_synced [OF k(1) Cons.prems(3) k(2,3) p(1) k(4), of cfg] by (elim exE conjE) (rule that)
  note talk = talksD [OF c1(2)]
  have i1: "CurrentTerm (reps c1 i) = t" "Logs (reps c1 i) = Logs (reps c i)"
    using talk(1) Cons.prems(3) by (simp_all add: leader_kept_def)
  have "\<exists>k. can_lead q k (reps c1 i) \<and> can_follow t (reps c1 q) \<and> log_matching (log_of (reps c1 i)) (log_of (reps c1 q))
      \<and> nat k < count (calls c1) (AppendStart i q t)" if q: "q \<in> set ps" for q
  proof -
    have "q \<notin> {i, p}" "q \<noteq> p" "q \<in> set (p # ps)"
      using q p by auto
    then show ?thesis
      using Cons.prems(4) talk(2,4) kept_can_lead [OF talk(1), of q] i1(2) by (metis empty_iff insert_iff)
  qed
  then obtain c' where c': "(net_step True cfg)\<^sup>*\<^sup>* c1 c'" "leader_kept (set ps) (reps c1 i) (reps c' i)" "scanned (reps c1 i) \<or> ps \<noteq> [] \<longrightarrow> scanned (reps c' i)"
      "\<forall>p \<in> set ps. match_value (MatchIndex (reps c' i)) p = int (length (log_of (reps c' i))) - 1"
    using Cons.IH [OF p(3,4) i1(1)] by metis
  show ?case
    using rtranclp_trans [OF c1(1) c'(1)] leader_kept_trans [OF talk(1) c'(2)] c'(2-4) c1(3,4) p(2)
    by (intro exI [of _ c']) (auto simp: leader_kept_def)
qed

text \<open>When all of them have the last entry, and it is of the leader's term, it is committed and queued.\<close>

lemma all_committable:
  assumes m: "member_ok (members cfg) i n" and "i \<in> members cfg" "om_ok cfg" "ClusterConfig n = cfg" and "log_term (last (log_of n)) = CurrentTerm n" "log_of n \<noteq> []"
    and match: "\<forall>p \<in> set (om_keys (peers n)). match_value (MatchIndex n) p = int (length (log_of n)) - 1"
  shows "committable n (int (length (log_of n)) - 1)"
proof -
  note k = member_peers [OF m assms(3,2)]
  have id: "my_id n = i"
    using m by (simp add: member_ok_def)
  have "filter (\<lambda>p. int (length (log_of n)) - 1 \<le> match_value (MatchIndex n) p) (om_keys (peers n)) = om_keys (peers n)"
    by (rule filter_True) (use match in simp)
  then have "holders n (int (length (log_of n)) - 1) = length cfg"
    using id assms(2,4) k(3) om_find_mem_keys [of cfg i] by (simp add: holders_def)
  moreover have "nat (int (length (log_of n)) - 1) = length (log_of n) - 1"
    by linarith
  then have "log_of n ! nat (int (length (log_of n)) - 1) = last (log_of n)"
    using assms(6) by (simp add: last_conv_nth)
  ultimately show ?thesis
    using assms(4,5) k(3) by (simp add: committable_def)
qed

section \<open>Rounds of the Raft loop\<close>

definition steady :: "int \<Rightarrow> system \<Rightarrow> system \<Rightarrow> bool" where
  "steady i \<sigma> \<sigma>' \<longleftrightarrow> hist \<sigma>' = hist \<sigma> \<and> loop \<sigma>' = loop \<sigma> \<and> (\<forall>j. j \<noteq> i \<longrightarrow> rep \<sigma>' j = rep \<sigma> j)"

lemma loop_round:
  assumes i: "i \<in> members cfg" and pc: "loop \<sigma> i = Ready" and role: "Role (rep \<sigma> i) = Leader"
    and run: "runLeaderOneIter (raft_take (rep \<sigma> i)) = Inr (ths, n')"
  obtains \<sigma>' where "sys_run dir T cfg dbget dbput \<sigma> \<sigma>'" "steady i \<sigma> \<sigma>'" "rep \<sigma>' i = raft_clear n'"
    "calls (cl \<sigma>') = calls (cl \<sigma>) + mset (map (\<lambda>(p, t). AppendStart i p t) ths)"
proof -
  define \<sigma>1 where "\<sigma>1 = (with_rep i (raft_take (rep \<sigma> i)) \<sigma>)\<lparr>loop := (loop \<sigma>)(i := Took)\<rparr>"
  define \<sigma>2 where "\<sigma>2 = \<sigma>1\<lparr>cl := (set_rep i n' (cl \<sigma>1))\<lparr>calls := calls (cl \<sigma>1) + mset (map (\<lambda>(p, t). AppendStart i p t) ths)\<rparr>, loop := (loop \<sigma>1)(i := Ran),
    placed := place (CurrentTerm (rep \<sigma>1 i)) (length (log_of (rep \<sigma>1 i))) (map (call_of (rep \<sigma>1 i)) (raftIn (rep \<sigma>1 i))) (placed \<sigma>1)\<rparr>"
  define \<sigma>3 where "\<sigma>3 = (with_rep i (raft_clear (rep \<sigma>2 i)) \<sigma>2)\<lparr>loop := (loop \<sigma>2)(i := Ready)\<rparr>"
  have s1: "system_work True cfg dbget dbput \<sigma> \<sigma>1"
    unfolding \<sigma>1_def by (rule system_work.take [OF i pc])
  have s2: "system_work True cfg dbget dbput \<sigma>1 \<sigma>2"
    unfolding \<sigma>2_def by (rule system_work.run [OF i]) (use run role in \<open>simp_all add: \<sigma>1_def raft_take_def\<close>)
  have s3: "system_work True cfg dbget dbput \<sigma>2 \<sigma>3"
    unfolding \<sigma>3_def by (rule system_work.clear [OF i]) (simp add: \<sigma>2_def)
  have "sys_run dir T cfg dbget dbput \<sigma> \<sigma>3"
    using rtranclp_trans [OF rtranclp_trans [OF sys_run_work [OF s1] sys_run_work [OF s2]] sys_run_work [OF s3]] .
  then show ?thesis
    by (rule that) (use pc in \<open>auto simp: \<sigma>3_def \<sigma>2_def \<sigma>1_def steady_def\<close>)
qed

text \<open>Rounds without operations start as many replication threads as are needed.\<close>

definition waits :: "node \<Rightarrow> bool" where
  "waits n \<longleftrightarrow> Role n = Leader \<and> dispatchOut n = [] \<and> raftIn n = []"

lemma steady_trans: "steady i \<sigma> \<sigma>1 \<Longrightarrow> steady i \<sigma>1 \<sigma>2 \<Longrightarrow> steady i \<sigma> \<sigma>2"
  by (simp add: steady_def)

lemma threads_started:
  assumes i: "i \<in> members cfg" and "loop \<sigma> i = Ready" and "waits (rep \<sigma> i)"
  shows "\<exists>\<sigma>'. sys_run dir T cfg dbget dbput \<sigma> \<sigma>' \<and> steady i \<sigma> \<sigma>' \<and> round_kept (rep \<sigma> i) (rep \<sigma>' i) \<and> waits (rep \<sigma>' i)
    \<and> log_of (rep \<sigma>' i) = log_of (rep \<sigma> i) \<and> services (rep \<sigma>' i) = services (rep \<sigma> i)
    \<and> (\<forall>p \<in> set (om_keys (peers (rep \<sigma> i))). K \<le> count (calls (cl \<sigma>')) (AppendStart i p (CurrentTerm (rep \<sigma> i))))"
proof (induction K)
  case 0
  show ?case
    using assms(3) by (intro exI [of _ \<sigma>]) (simp add: steady_def round_kept_def)
next
  case (Suc K)
  then obtain \<sigma>1 where s1: "sys_run dir T cfg dbget dbput \<sigma> \<sigma>1" "steady i \<sigma> \<sigma>1" "round_kept (rep \<sigma> i) (rep \<sigma>1 i)" "waits (rep \<sigma>1 i)"
      "log_of (rep \<sigma>1 i) = log_of (rep \<sigma> i)" "services (rep \<sigma>1 i) = services (rep \<sigma> i)"
      "\<forall>p \<in> set (om_keys (peers (rep \<sigma> i))). K \<le> count (calls (cl \<sigma>1)) (AppendStart i p (CurrentTerm (rep \<sigma> i)))"
    by (elim exE conjE) (rule that)
  let ?n = "rep \<sigma>1 i"
  have w: "dispatchOut ?n = []" "raftIn ?n = []" "Role ?n = Leader" "loop \<sigma>1 i = Ready"
    using s1(2,4) assms(2) by (simp_all add: waits_def steady_def)
  obtain \<sigma>2 where s2: "sys_run dir T cfg dbget dbput \<sigma>1 \<sigma>2" "steady i \<sigma>1 \<sigma>2" "rep \<sigma>2 i = raft_clear (persist_logs (raft_take ?n))"
      "calls (cl \<sigma>2) = calls (cl \<sigma>1) + mset (map (\<lambda>(p, t). AppendStart i p t) (map (\<lambda>p. (p, CurrentTerm ?n)) (om_keys (peers ?n))))"
    by (rule loop_round [OF i w(4,3) empty_round(1) [OF w(1,2)]]) (rule that)
  have kept: "round_kept (rep \<sigma> i) (rep \<sigma>2 i)" "waits (rep \<sigma>2 i)" "log_of (rep \<sigma>2 i) = log_of (rep \<sigma> i)" "services (rep \<sigma>2 i) = services (rep \<sigma> i)"
    using s1(3-6) empty_round(2,3) [OF w(1,2)] w by (simp_all add: s2(3) round_kept_def waits_def raft_clear_def raft_take_def persist_logs_def case_prod_beta)
  have "CurrentTerm ?n = CurrentTerm (rep \<sigma> i)" "peers ?n = peers (rep \<sigma> i)"
    using s1(3) by (simp_all add: round_kept_def)
  then have "AppendStart i p (CurrentTerm (rep \<sigma> i)) \<in> set (map (\<lambda>(p, t). AppendStart i p t) (map (\<lambda>p. (p, CurrentTerm ?n)) (om_keys (peers ?n))))"
    if "p \<in> set (om_keys (peers (rep \<sigma> i)))" for p
    using that by force
  then have "Suc K \<le> count (calls (cl \<sigma>2)) (AppendStart i p (CurrentTerm (rep \<sigma> i)))" if "p \<in> set (om_keys (peers (rep \<sigma> i)))" for p
    using that s1(7) count_greater_zero_iff [of "mset (map (\<lambda>(p, t). AppendStart i p t) (map (\<lambda>p. (p, CurrentTerm ?n)) (om_keys (peers ?n))))"]
    unfolding s2(4) count_union set_mset_mset by (metis add_mono plus_1_eq_Suc Suc_leI add.commute One_nat_def)
  then show ?case
    using rtranclp_trans [OF s1(1) s2(1)] steady_trans [OF s1(2) s2(2)] kept by blast
qed

section \<open>A client's operation\<close>

lemma op_taken:
  assumes i: "i \<in> members cfg" and n: "new_leader cfg t (rep \<sigma> i)" and pc: "loop \<sigma> i = Ready" and op: "client_op op"
    and step: "\<And>n'. request_begin (kind op) (args op) v ft (rep \<sigma> i) = Inr (Await ft, n')
      \<Longrightarrow> system_work True cfg dbget dbput \<sigma> ((with_rep i n' \<sigma>)\<lparr>hist := hist \<sigma> @ [Invoke ft i op]\<rparr>)"
  obtains \<sigma>' q where "sys_run dir T cfg dbget dbput \<sigma> \<sigma>'" "hist \<sigma>' = hist \<sigma> @ [Invoke ft i op]" "loop \<sigma>' i = Ready" "\<forall>j. j \<noteq> i \<longrightarrow> rep \<sigma>' j = rep \<sigma> j"
    "round_kept (rep \<sigma> i) (rep \<sigma>' i)" "waits (rep \<sigma>' i)" "log_of (rep \<sigma>' i) = log_of (rep \<sigma> i) @ [\<lparr>log_term = t, log_op = q\<rparr>]"
    "kind q = kind op" "args q = args op" "promiseHandle q = Some 0" "live (rep \<sigma>' i) 0 = Some ft"
proof -
  have l: "Role (rep \<sigma> i) = Leader" "dispatchOut (rep \<sigma> i) = []" "raftIn (rep \<sigma> i) = []" "CurrentTerm (rep \<sigma> i) = t" "services (rep \<sigma> i) = no_clients"
    using n by (simp_all add: new_leader_def)
  obtain n1 ths n2 q where w: "request_begin (kind op) (args op) v ft (rep \<sigma> i) = Inr (Await ft, n1)" "runLeaderOneIter (raft_take n1) = Inr (ths, n2)"
      "round_kept (rep \<sigma> i) n2" "Role (raft_take n1) = Leader" "log_of n2 = log_of (rep \<sigma> i) @ [\<lparr>log_term = CurrentTerm (rep \<sigma> i), log_op = q\<rparr>]"
      "promiseHandle q = Some (next_node (promises (services (rep \<sigma> i))))"
      "services n2 = (services (rep \<sigma> i))\<lparr>promises := snd (ps_insert ft (promises (services (rep \<sigma> i))))\<rparr>" "dispatchOut n2 = raftIn (rep \<sigma> i)"
      "kind q = kind op" "args q = args op"
    by (rule op_logged [OF l(1,2) op, of v ft]) (rule that)
  define \<sigma>1 where "\<sigma>1 = (with_rep i n1 \<sigma>)\<lparr>hist := hist \<sigma> @ [Invoke ft i op]\<rparr>"
  have "loop \<sigma>1 i = Ready" "rep \<sigma>1 i = n1" "Role (rep \<sigma>1 i) = Leader"
    using pc w(4) by (simp_all add: \<sigma>1_def raft_take_def)
  then obtain \<sigma>2 where s2: "sys_run dir T cfg dbget dbput \<sigma>1 \<sigma>2" "steady i \<sigma>1 \<sigma>2" "rep \<sigma>2 i = raft_clear n2"
    using loop_round [OF i, of \<sigma>1 ths n2 dir T dbget dbput] w(2) by metis
  have "system_work True cfg dbget dbput \<sigma> \<sigma>1"
    unfolding \<sigma>1_def by (rule step [OF w(1)])
  then have "sys_run dir T cfg dbget dbput \<sigma> \<sigma>2"
    using rtranclp_trans [OF sys_run_work s2(1)] by blast
  moreover have "round_kept (rep \<sigma> i) (rep \<sigma>2 i)" "waits (rep \<sigma>2 i)" "promiseHandle q = Some 0" "live (rep \<sigma>2 i) 0 = Some ft"
    using w(3,6-8) l by (simp_all add: s2(3) round_kept_def waits_def raft_clear_def no_clients_def promise_store_init_def ps_insert_def ps_live_def)
  ultimately show ?thesis
    using s2(2) pc w(5,9,10) l(4) by (intro that [of \<sigma>2 q]) (simp_all add: steady_def \<sigma>1_def s2(3) raft_clear_def)
qed

lemma run_matching:
  assumes "system_reach True dir T cfg dbget dbput \<sigma>" and ss: "sound_setup T cfg" and "i \<in> members cfg" "j \<in> members cfg"
  shows "log_matching (log_of (rep \<sigma> i)) (log_of (rep \<sigma> j))"
proof -
  obtain s where s: "cluster_sim dir T (members cfg) (cl \<sigma>) s"
    using reach_sim [OF system_reach_cluster [OF assms(1)] ss] by blast
  have "chain_ok s (stripped (log_of (rep \<sigma> p)))" if "p \<in> members cfg" for p
    using cluster_simD(1) [OF s] replica_okD(4) [OF cluster_simD(2) [OF s that]] unfolding spec_inv_def inv_logs_def by metis
  then show ?thesis
    using chain_ok_matching [of s "stripped (log_of (rep \<sigma> i))" "stripped (log_of (rep \<sigma> j))"] assms(3,4) by (simp add: log_matching_def)
qed

lemma op_committed:
  assumes r: "system_reach True dir T cfg dbget dbput \<sigma>" and ss: "sound_setup T cfg" and two: "2 \<le> length cfg" and i: "i \<in> members cfg" and pc: "loop \<sigma> i = Ready"
    and n: "waits (rep \<sigma> i)" "CurrentTerm (rep \<sigma> i) = t" "ClusterConfig (rep \<sigma> i) = cfg" "log_of (rep \<sigma> i) = es @ [e]" "log_term e = t"
      "\<forall>p \<in> members cfg - {i}. om_find (NextIndex (rep \<sigma> i)) p = Some (int (length es))" "queued (rep \<sigma> i)" "CommitIndex (rep \<sigma> i) = -1"
    and follow: "\<forall>p \<in> members cfg - {i}. can_follow t (rep \<sigma> p)"
  obtains \<sigma>' where "sys_run dir T cfg dbget dbput \<sigma> \<sigma>'" "hist \<sigma>' = hist \<sigma>" "log_of (rep \<sigma>' i) = es @ [e]" "raftOut (rep \<sigma>' i) = map log_op (es @ [e])"
    "execIn (rep \<sigma>' i) = execIn (rep \<sigma> i)" "services (rep \<sigma>' i) = services (rep \<sigma> i)"
proof -
  let ?ps = "om_keys (peers (rep \<sigma> i))"
  have ps: "set ?ps = members cfg - {i}" "distinct ?ps" "?ps \<noteq> []"
    using member_peers [OF run_replica(4) [OF r ss i] _ i] ss two by (auto simp: sound_setup_def)
  obtain \<sigma>1 where s1: "sys_run dir T cfg dbget dbput \<sigma> \<sigma>1" "steady i \<sigma> \<sigma>1" "round_kept (rep \<sigma> i) (rep \<sigma>1 i)" "waits (rep \<sigma>1 i)"
      "log_of (rep \<sigma>1 i) = log_of (rep \<sigma> i)" "services (rep \<sigma>1 i) = services (rep \<sigma> i)"
      "\<forall>p \<in> set ?ps. Suc (length es) \<le> count (calls (cl \<sigma>1)) (AppendStart i p (CurrentTerm (rep \<sigma> i)))"
    using threads_started [OF i pc n(1), of dir T dbget dbput "Suc (length es)"] by (elim exE conjE) (rule that)
  note r1 = sys_run_reach [OF s1(1) r]
  have kept: "CurrentTerm (rep \<sigma>1 i) = t" "ClusterConfig (rep \<sigma>1 i) = cfg" "NextIndex (rep \<sigma>1 i) = NextIndex (rep \<sigma> i)" "peers (rep \<sigma>1 i) = peers (rep \<sigma> i)"
      "CommitIndex (rep \<sigma>1 i) = -1" "queued (rep \<sigma>1 i)" "execIn (rep \<sigma>1 i) = execIn (rep \<sigma> i)" "LastApplied (rep \<sigma>1 i) = -1"
    using s1(3,5) n by (auto simp: round_kept_def queued_def)
  have lead: "can_lead p (int (length es)) (rep \<sigma>1 i)" if "p \<in> set ?ps" for p
    using that s1(4,5) n(4,6) kept ps(1) run_replica(5) [OF r1 ss i] op_prints_config by (auto simp: can_lead_def waits_def ops_typed_def list_all_iff)
  have "\<exists>k. can_lead p k (rep \<sigma>1 i) \<and> can_follow t (rep \<sigma>1 p) \<and> log_matching (log_of (rep \<sigma>1 i)) (log_of (rep \<sigma>1 p))
      \<and> nat k < count (calls (cl \<sigma>1)) (AppendStart i p t)" if "p \<in> set ?ps" for p
    using lead [OF that] that follow s1(2,7) ps(1) n(2) run_matching [OF r1 ss i, of p] by (intro exI [of _ "int (length es)"]) (auto simp: steady_def Suc_le_eq)
  then obtain c where c: "(net_step True cfg)\<^sup>*\<^sup>* (cl \<sigma>1) c" "leader_kept (set ?ps) (rep \<sigma>1 i) (reps c i)" "scanned (reps c i)"
      "\<forall>p \<in> set ?ps. match_value (MatchIndex (reps c i)) p = int (length (log_of (reps c i))) - 1"
    using all_synced [OF ps(2) _ kept(1)] ps(1,3) by blast
  let ?\<sigma> = "\<sigma>1\<lparr>cl := c\<rparr>"
  have s2: "sys_run dir T cfg dbget dbput \<sigma> ?\<sigma>"
    using rtranclp_trans [OF s1(1) sys_run_net [OF c(1)]] .
  have same: "log_of (reps c i) = es @ [e]" "CurrentTerm (reps c i) = t" "ClusterConfig (reps c i) = cfg" "peers (reps c i) = peers (rep \<sigma> i)"
      "queued (reps c i)" "execIn (reps c i) = execIn (rep \<sigma> i)" "services (reps c i) = services (rep \<sigma> i)"
    using c(2) s1(5,6) kept n(4) by (auto simp: leader_kept_def)
  have "committable (reps c i) (int (length (log_of (reps c i))) - 1)"
    by (rule all_committable [OF _ i]) (use run_replica(4) [OF sys_run_reach [OF s2 r] ss i] ss same c(4) n(5) in \<open>auto simp: sound_setup_def\<close>)
  then have "CommitIndex (reps c i) = int (length (es @ [e])) - 1"
    using c(3) same(1) by (simp add: scanned_def)
  then have "raftOut (reps c i) = map log_op (es @ [e])"
    using same(1,5) by (simp add: queued_def)
  then show ?thesis
    using that [OF s2] s1(2) same by (simp add: steady_def)
qed

section \<open>The executer catches up and answers\<close>

lemma execute_unasked:
  assumes "op_execute get put op db sv = Inr (op', db', sv')" and "promiseHandle op = None"
  shows "sv' = sv"
  using assms by (cases "kind op") (auto simp: op_execute_def op_fulfil_def op_abort_def Let_def case_prod_beta elim!: rbind_Inr_E)

context kv_fresh
begin

lemma execute_next:
  assumes r: "system_reach True dir T cfg get put \<sigma>" and ss: "sound_setup T cfg" and i: "i \<in> members cfg" and op: "execIn (rep \<sigma> i) = op # ops"
  obtains \<sigma>' op' sv' where "sys_run dir T cfg get put \<sigma> \<sigma>'" "op_execute get put op (dbs \<sigma> i) (services (rep \<sigma> i)) = Inr (op', dbs \<sigma>' i, sv')"
    "rep \<sigma>' i = (rep \<sigma> i)\<lparr>services := sv', execIn := ops\<rparr>" "hist \<sigma>' = hist \<sigma> @ returns (services (rep \<sigma> i)) sv'"
proof -
  obtain db' n' where x: "executer_one get put (dbs \<sigma> i) (rep \<sigma> i) = Inr (db', n')"
    using executer_never_fails [OF r ss i] by blast
  then obtain op' sv' where e: "op_execute get put op (dbs \<sigma> i) (services (rep \<sigma> i)) = Inr (op', db', sv')" "n' = (rep \<sigma> i)\<lparr>services := sv', execIn := ops\<rparr>"
    using op by (auto simp: executer_one_def elim!: rbind_Inr_E)
  define \<sigma>' where "\<sigma>' = (with_rep i n' \<sigma>)\<lparr>dbs := (dbs \<sigma>)(i := db'), hist := hist \<sigma> @ returns (services (rep \<sigma> i)) (services n')\<rparr>"
  have "sys_run dir T cfg get put \<sigma> \<sigma>'"
    unfolding \<sigma>'_def by (rule sys_run_work [OF system_work.execute [OF i x]])
  then show ?thesis
    by (rule that) (use e in \<open>simp_all add: \<sigma>'_def\<close>)
qed

text \<open>Operations nobody waits for leave promises and history alone.\<close>

lemma old_executed:
  assumes "system_reach True dir T cfg get put \<sigma>" and ss: "sound_setup T cfg" and i: "i \<in> members cfg"
    and "execIn (rep \<sigma> i) = old @ ops" and "\<forall>op \<in> set old. promiseHandle op = None"
  shows "\<exists>\<sigma>'. sys_run dir T cfg get put \<sigma> \<sigma>' \<and> hist \<sigma>' = hist \<sigma> \<and> execIn (rep \<sigma>' i) = ops \<and> services (rep \<sigma>' i) = services (rep \<sigma> i)"
  using assms(1,4,5)
proof (induction old arbitrary: \<sigma>)
  case (Cons op old)
  obtain \<sigma>1 op' sv' where s1: "sys_run dir T cfg get put \<sigma> \<sigma>1" "op_execute get put op (dbs \<sigma> i) (services (rep \<sigma> i)) = Inr (op', dbs \<sigma>1 i, sv')"
      "rep \<sigma>1 i = (rep \<sigma> i)\<lparr>services := sv', execIn := old @ ops\<rparr>" "hist \<sigma>1 = hist \<sigma> @ returns (services (rep \<sigma> i)) sv'"
    by (rule execute_next [OF Cons.prems(1) ss i, of op "old @ ops"]) (use Cons.prems(2) that in simp_all)
  have "sv' = services (rep \<sigma> i)"
    using execute_unasked [OF s1(2)] Cons.prems(3) by simp
  then have same: "hist \<sigma>1 = hist \<sigma>" "services (rep \<sigma>1 i) = services (rep \<sigma> i)" "execIn (rep \<sigma>1 i) = old @ ops"
    using s1(3,4) by (simp_all add: returns_def)
  obtain \<sigma>2 where "sys_run dir T cfg get put \<sigma>1 \<sigma>2" "hist \<sigma>2 = hist \<sigma>1" "execIn (rep \<sigma>2 i) = ops" "services (rep \<sigma>2 i) = services (rep \<sigma>1 i)"
    using Cons.IH [OF sys_run_reach [OF s1(1) Cons.prems(1)] same(3)] Cons.prems(3) by auto
  then show ?case
    using rtranclp_trans [OF s1(1)] same by metis
qed auto

lemma put_executed:
  assumes r: "system_reach True dir T cfg get put \<sigma>" and ss: "sound_setup T cfg" and i: "i \<in> members cfg"
    and q: "execIn (rep \<sigma> i) = [q]" "kind q = PUT" "args q = ArgPair (fst kvp) (snd kvp)" "promiseHandle q = Some h" "live (rep \<sigma> i) h = Some ft"
    and v: "i32_ok (fst kvp)" "i32_ok (snd kvp)"
  obtains \<sigma>' where "sys_run dir T cfg get put \<sigma> \<sigma>'" "hist \<sigma>' = hist \<sigma> @ [Return ft (ResBool True)]"
proof -
  obtain \<sigma>' op' sv' where s: "sys_run dir T cfg get put \<sigma> \<sigma>'" "op_execute get put q (dbs \<sigma> i) (services (rep \<sigma> i)) = Inr (op', dbs \<sigma>' i, sv')"
      "hist \<sigma>' = hist \<sigma> @ returns (services (rep \<sigma> i)) sv'"
    by (rule execute_next [OF r ss i q(1)]) (rule that)
  obtain s H where inv: "system_inv view good dir T cfg s H \<sigma>"
    using inv_reach [OF r ss] by blast
  have ok: "ps_ok (promises (services (rep \<sigma> i)))"
    using servedD(2) [OF system_invD(4) [OF inv i]] by (simp add: promises_ok_def)
  have "op_fulfil q (ResBool True) (services (rep \<sigma> i)) = Inr (op', sv')"
    using s(2) q(2,3) put_ok [OF v, of "dbs \<sigma> i"] by (auto simp: op_execute_def Let_def case_prod_beta elim!: rbind_Inr_E)
  then have "futures sv' = (ft, ResBool True) # futures (services (rep \<sigma> i))"
    using take_promise_live [OF ok q(5)] q(4) by (auto simp: op_fulfil_def set_value_def)
  then show ?thesis
    using that [OF s(1)] s(3) by (simp add: returns_def)
qed

lemma queue_answered:
  assumes r: "system_reach True dir T cfg get put \<sigma>" and ss: "sound_setup T cfg" and i: "i \<in> members cfg"
    and out: "execIn (rep \<sigma> i) = []" "raftOut (rep \<sigma> i) = old @ [q]" "\<forall>op \<in> set old. promiseHandle op = None"
    and q: "kind q = PUT" "args q = ArgPair (fst kvp) (snd kvp)" "promiseHandle q = Some h" "live (rep \<sigma> i) h = Some ft"
    and v: "i32_ok (fst kvp)" "i32_ok (snd kvp)"
  obtains \<sigma>' where "sys_run dir T cfg get put \<sigma> \<sigma>'" "hist \<sigma>' = hist \<sigma> @ [Return ft (ResBool True)]"
proof -
  let ?\<sigma> = "with_rep i (executer_take (rep \<sigma> i)) \<sigma>"
  have s1: "sys_run dir T cfg get put \<sigma> ?\<sigma>"
    by (rule sys_run_work [OF system_work.execTake [OF i out(1)]])
  obtain \<sigma>1 where s2: "sys_run dir T cfg get put ?\<sigma> \<sigma>1" "hist \<sigma>1 = hist \<sigma>" "execIn (rep \<sigma>1 i) = [q]" "services (rep \<sigma>1 i) = services (rep \<sigma> i)"
    using old_executed [OF sys_run_reach [OF s1 r] ss i _ out(3), of "[q]"] out(2) by (auto simp: executer_take_def)
  note s12 = rtranclp_trans [OF s1 s2(1)]
  have "live (rep \<sigma>1 i) h = Some ft"
    using q(4) s2(4) by simp
  then obtain \<sigma>2 where s3: "sys_run dir T cfg get put \<sigma>1 \<sigma>2" "hist \<sigma>2 = hist \<sigma>1 @ [Return ft (ResBool True)]"
    using put_executed [OF sys_run_reach [OF s12 r] ss i s2(3) q(1-3) _ v] by metis
  show ?thesis
    by (rule that [OF rtranclp_trans [OF s12 s3(1)]]) (use s2(2) s3(2) in simp)
qed

section \<open>From any state to an answer\<close>

lemma write_recovers:
  assumes r: "system_reach True dir T cfg get put \<sigma>" and ss: "sound_setup T cfg" and two: "2 \<le> length cfg"
    and low: "\<forall>i \<in> members cfg. CurrentTerm (rep \<sigma> i) < 2147483647" and ft: "fresh_call ft (hist \<sigma>)" and v: "i32_ok (fst kvp)" "i32_ok (snd kvp)"
  obtains \<sigma>' i where "sys_run dir T cfg get put \<sigma> \<sigma>'" "i \<in> members cfg" "hist \<sigma>' = hist \<sigma> @ [Invoke ft i (put_op kvp), Return ft (ResBool True)]"
proof -
  obtain \<sigma>1 i t where s1: "sys_run dir T cfg get put \<sigma> \<sigma>1" "hist \<sigma>1 = hist \<sigma>" "i \<in> members cfg" "new_leader cfg t (rep \<sigma>1 i)" "loop \<sigma>1 i = Ready"
      "\<forall>p \<in> members cfg - {i}. can_follow t (rep \<sigma>1 p)"
    by (rule leader_elected [OF r ss two low]) (rule that)
  note r1 = sys_run_reach [OF s1(1) r] and i = s1(3)
  let ?old = "log_of (rep \<sigma>1 i)"
  have step: "system_work True cfg get put \<sigma>1 ((with_rep i n' \<sigma>1)\<lparr>hist := hist \<sigma>1 @ [Invoke ft i (put_op kvp)]\<rparr>)"
    if "request_begin (kind (put_op kvp)) (args (put_op kvp)) 0 ft (rep \<sigma>1 i) = Inr (Await ft, n')" for n'
    using system_work.put [OF i v, of ft \<sigma>1 "Await ft" n' True get put] that ft s1(2) by (simp add: put_begin_def put_op_def)
  obtain \<sigma>2 q where s2: "sys_run dir T cfg get put \<sigma>1 \<sigma>2" "hist \<sigma>2 = hist \<sigma>1 @ [Invoke ft i (put_op kvp)]" "loop \<sigma>2 i = Ready" "\<forall>j. j \<noteq> i \<longrightarrow> rep \<sigma>2 j = rep \<sigma>1 j"
      "round_kept (rep \<sigma>1 i) (rep \<sigma>2 i)" "waits (rep \<sigma>2 i)" "log_of (rep \<sigma>2 i) = ?old @ [\<lparr>log_term = t, log_op = q\<rparr>]"
    and q: "kind q = kind (put_op kvp)" "args q = args (put_op kvp)" "promiseHandle q = Some 0" "live (rep \<sigma>2 i) 0 = Some ft"
    by (rule op_taken [OF i s1(4,5) client_op_put step]) (assumption, rule that)
  note r2 = sys_run_reach [OF s2(1) r1]
  have "set (om_keys (peers (rep \<sigma>1 i))) = members cfg - {i}"
    using member_peers(1) [OF run_replica(4) [OF r1 ss i] _ i] ss by (simp add: sound_setup_def)
  then have n: "CurrentTerm (rep \<sigma>2 i) = t" "ClusterConfig (rep \<sigma>2 i) = cfg" "\<forall>p \<in> members cfg - {i}. om_find (NextIndex (rep \<sigma>2 i)) p = Some (int (length ?old))"
      "CommitIndex (rep \<sigma>2 i) = -1" "execIn (rep \<sigma>2 i) = []" "raftOut (rep \<sigma>2 i) = []"
    using s1(4) s2(5) by (auto simp: new_leader_def round_kept_def)
  then have "queued (rep \<sigma>2 i)"
    using run_replica(2) [OF r2 ss i] by (simp add: queued_def node_inv_def)
  moreover have "\<forall>p \<in> members cfg - {i}. can_follow t (rep \<sigma>2 p)"
    using s1(6) s2(4) by simp
  ultimately obtain \<sigma>3 where s3: "sys_run dir T cfg get put \<sigma>2 \<sigma>3" "hist \<sigma>3 = hist \<sigma>2"
      "raftOut (rep \<sigma>3 i) = map log_op (?old @ [\<lparr>log_term = t, log_op = q\<rparr>])" "execIn (rep \<sigma>3 i) = []" "services (rep \<sigma>3 i) = services (rep \<sigma>2 i)"
    using op_committed [OF r2 ss two i s2(3,6) n(1,2) s2(7) _ n(3) _ n(4)] n(5) by (metis LogEntry.select_convs(1))
  have out: "raftOut (rep \<sigma>3 i) = map log_op ?old @ [q]" "\<forall>op \<in> set (map log_op ?old). promiseHandle op = None" "kind q = PUT" "args q = ArgPair (fst kvp) (snd kvp)"
      "live (rep \<sigma>3 i) 0 = Some ft"
    using s1(4) s3(3,5) q stripped_ops by (auto simp: new_leader_def put_op_def)
  obtain \<sigma>4 where s4: "sys_run dir T cfg get put \<sigma>3 \<sigma>4" "hist \<sigma>4 = hist \<sigma>3 @ [Return ft (ResBool True)]"
    by (rule queue_answered [OF sys_run_reach [OF s3(1) r2] ss i s3(4) out(1-4) q(3) out(5) v]) (rule that)
  show ?thesis
    by (rule that [OF rtranclp_trans [OF rtranclp_trans [OF rtranclp_trans [OF s1(1) s2(1)] s3(1)] s4(1)] i]) (use s1(2) s2(2) s3(2) s4(2) in simp)
qed

end

section \<open>Property\<close>

text \<open>C9. No run wedges a cluster for good: from every state of a checked run of two or more replicas whose terms are not
  exhausted, whatever calls are in flight and whoever leads, votes or is stuck in a split vote, there is a run, through a restart of
  the replicas, in which a leader is elected, brings its peers up to date, and a new write of a client is
  committed, executed and answered as done.\<close>

theorem cluster_recovers:
  assumes same: "\<And>d k v d'. dbPut d k v = (True, d') \<Longrightarrow> dbGet d' k = Some v"
    and other: "\<And>d k v d' k'. dbPut d k v = (True, d') \<Longrightarrow> k' \<noteq> k \<Longrightarrow> dbGet d' k' = dbGet d k'"
    and ok: "\<And>d k v. fst (dbPut d k v)"
    and run: "system_reach True dir T cfg (LevelDBReal_get dbGet) (LevelDBReal_put dbPut) \<sigma>" and "sound_setup T cfg" and "2 \<le> length cfg"
    and "\<forall>i \<in> members cfg. CurrentTerm (rep \<sigma> i) < 2147483647" and "fresh_call ft (hist \<sigma>)" and "i32_ok (fst kvp)" "i32_ok (snd kvp)"
  shows "\<exists>\<sigma>' i. (system_step True dir T cfg (LevelDBReal_get dbGet) (LevelDBReal_put dbPut))\<^sup>*\<^sup>* \<sigma> \<sigma>' \<and> i \<in> members cfg
    \<and> hist \<sigma>' = hist \<sigma> @ [Invoke ft i (put_op kvp), Return ft (ResBool True)]"
  by (rule kv_fresh.write_recovers [OF real_fresh [OF same other ok] run assms(5-)]) (assumption | blast)+

text \<open>After a split vote, for example.\<close>

theorem cluster_recovers_witness:
  "\<exists>\<sigma> \<sigma>' i. system3 True \<sigma> \<and> split_cluster {0, 1, 2} 1 (cl \<sigma>) \<and> system3 True \<sigma>'
    \<and> hist \<sigma>' = [Invoke 0 i (put_op (7, 1)), Return 0 (ResBool True)]"
proof -
  obtain c where c: "net3 True cluster3 c" "split_cluster (members config3) 1 c"
    by (rule split_vote_run)
  let ?\<sigma> = "fresh_system\<lparr>cl := c\<rparr>"
  have r: "system3 True ?\<sigma>"
    by (rule system3_net [OF _ system3_start]) (use c(1) in \<open>simp add: fresh_system_def\<close>)
  have low: "\<forall>i \<in> members config3. CurrentTerm (rep ?\<sigma> i) < 2147483647"
    using c(2) by (auto simp: split_cluster_def split_node_def)
  have "\<exists>\<sigma>' i. sys_run ''d'' flat_entry config3 (LevelDBReal_get map_get) (LevelDBReal_put map_put) ?\<sigma> \<sigma>' \<and> i \<in> members config3
      \<and> hist \<sigma>' = hist ?\<sigma> @ [Invoke 0 i (put_op (7, 1)), Return 0 (ResBool True)]"
    by (rule cluster_recovers [OF _ _ _ r sound_setup3 _ low]) (auto simp: map_get_def map_put_def config3_def fresh_call_def fresh_system_def i32_ok_def)
  then obtain \<sigma>' i where "sys_run ''d'' flat_entry config3 (LevelDBReal_get map_get) (LevelDBReal_put map_put) ?\<sigma> \<sigma>'"
      "hist \<sigma>' = [Invoke 0 i (put_op (7, 1)), Return 0 (ResBool True)]"
    by (auto simp: fresh_system_def)
  then show ?thesis
    using sys_run_reach [OF _ r] c(2) r by (intro exI [of _ ?\<sigma>] exI [of _ \<sigma>'] exI [of _ i]) (simp add: members3)
qed

end
