(* ===== verification/Membership.thy ===== *)
theory Membership
  imports Recovery
begin

text \<open>
  A cluster whose membership changes. \<open>member_step\<close> adds the calls \<open>AddServer\<close> and \<open>RemoveServer\<close> to the
  cluster machine, any number of them at a time, each a program counter that looks at its replica whenever it
  wants to. \<open>everyone\<close> lists all replicas that run, members or not; each has started with the configuration \<open>cfg\<close>
  of its file, as \<open>replica.cpp\<close> does with and without \<open>--addedNode\<close>.

  One change at a time is safe as far as majorities go: those before and after it overlap. \<open>AddServer\<close> waits for
  the previous change to be committed, but it releases the mutex before it submits its own, so two calls can pass
  the wait together. The example run has no step that the checks of \<open>ClusterMachine\<close> exclude.
\<close>

section \<open>The machine\<close>

type_synonym change_pc = "ServerInfo ms_pc + int ms_pc"

record group =
  cluster_of :: cluster
  asked :: "nat \<Rightarrow> (int \<times> change_pc) option"

abbreviation node_of :: "group \<Rightarrow> int \<Rightarrow> node" where
  "node_of s i \<equiv> reps (cluster_of s) i"

definition with_node :: "int \<Rightarrow> node \<Rightarrow> group \<Rightarrow> group" where
  "with_node i n s = s\<lparr>cluster_of := (cluster_of s)\<lparr>reps := (reps (cluster_of s))(i := n)\<rparr>\<rparr>"

definition asks :: "nat \<Rightarrow> int \<Rightarrow> change_pc \<Rightarrow> group \<Rightarrow> group" where
  "asks k i pc s = s\<lparr>asked := (asked s)(k \<mapsto> (i, pc))\<rparr>"

inductive member_step :: "bool \<Rightarrow> string \<Rightarrow> LogEntry cxx_type \<Rightarrow> (int, ServerInfo) omap \<Rightarrow> (int, ServerInfo) omap \<Rightarrow> group \<Rightarrow> group \<Rightarrow> bool"
  for strict dir T cfg everyone where
  net: "net_step strict everyone (cluster_of s) c \<Longrightarrow> member_step strict dir T cfg everyone s (s\<lparr>cluster_of := c\<rparr>)"
| local: "i \<in> members everyone \<Longrightarrow> local_step (node_of s i) n'
    \<Longrightarrow> member_step strict dir T cfg everyone s (with_node i n' s)"
| round: "i \<in> members everyone \<Longrightarrow> runLeaderOneIter (node_of s i) = Inr (ths, n') \<Longrightarrow> strict \<longrightarrow> Role (node_of s i) = Leader
    \<Longrightarrow> member_step strict dir T cfg everyone s
          (s\<lparr>cluster_of := (set_rep i n' (cluster_of s))\<lparr>calls := calls (cluster_of s) + mset (map (\<lambda>(p, t). AppendStart i p t) ths)\<rparr>\<rparr>)"
| add: "i \<in> members everyone \<Longrightarrow> asked s k = None \<Longrightarrow> AddServer_begin a (node_of s i) = Inr (pc, n')
    \<Longrightarrow> member_step strict dir T cfg everyone s (asks k i (Inl pc) (with_node i n' s))"
| addLook: "asked s k = Some (i, Inl pc) \<Longrightarrow> AddServer_step pc (node_of s i) = (pc', n')
    \<Longrightarrow> member_step strict dir T cfg everyone s (asks k i (Inl pc') (with_node i n' s))"
| remove: "i \<in> members everyone \<Longrightarrow> asked s k = None \<Longrightarrow> RemoveServer_begin b (node_of s i) = (qc, n')
    \<Longrightarrow> member_step strict dir T cfg everyone s (asks k i (Inr qc) (with_node i n' s))"
| removeLook: "asked s k = Some (i, Inr qc) \<Longrightarrow> RemoveServer_step now qc (node_of s i) = (qc', n')
    \<Longrightarrow> member_step strict dir T cfg everyone s (asks k i (Inr qc') (with_node i n' s))"
| crash: "i \<in> members everyone
    \<Longrightarrow> member_step strict dir T cfg everyone s
          (s\<lparr>cluster_of := (cluster_of s)\<lparr>reps := (reps (cluster_of s))(i := boot_node T i True dir cfg sv (disk (node_of s i))), fed := (fed (cluster_of s))(i := [])\<rparr>,
             asked := (\<lambda>k. case asked s k of Some (j, pc) \<Rightarrow> if j = i then None else Some (j, pc) | None \<Rightarrow> None)\<rparr>)"

definition member_init :: "string \<Rightarrow> LogEntry cxx_type \<Rightarrow> (int, ServerInfo) omap \<Rightarrow> (int, ServerInfo) omap \<Rightarrow> group \<Rightarrow> bool" where
  "member_init dir T cfg everyone s \<longleftrightarrow> (\<forall>i \<in> members everyone. \<exists>sv fs. node_of s i = boot_node T i False dir cfg sv fs)
     \<and> calls (cluster_of s) = {#} \<and> led (cluster_of s) = {} \<and> (\<forall>i. fed (cluster_of s) i = []) \<and> asked s = Map.empty"

inductive member_reach :: "bool \<Rightarrow> string \<Rightarrow> LogEntry cxx_type \<Rightarrow> (int, ServerInfo) omap \<Rightarrow> (int, ServerInfo) omap \<Rightarrow> group \<Rightarrow> bool"
  for strict dir T cfg everyone where
  init: "member_init dir T cfg everyone s \<Longrightarrow> member_reach strict dir T cfg everyone s"
| step: "member_reach strict dir T cfg everyone s \<Longrightarrow> member_step strict dir T cfg everyone s s' \<Longrightarrow> member_reach strict dir T cfg everyone s'"

section \<open>One change at a time\<close>

lemma members_put: "set (om_keys (om_put k v m)) = insert k (set (om_keys m))"
  by (simp add: om_keys_def om_keys_put)

lemma members_erase: "set (om_keys (om_erase k m)) = set (om_keys m) - {k}"
  by (auto simp: om_keys_def om_erase_def)

lemma length_config: "om_ok m \<Longrightarrow> length m = card (members m)"
  using distinct_card [of "om_keys m"] om_ok_distinct [of m] by (simp add: om_keys_def)

lemma majorities_meet:
  assumes "finite B" and "A \<subseteq> B" "card B \<le> Suc (card A)" and "Q \<subseteq> A" "card A < 2 * card Q" and "R \<subseteq> B" "card B < 2 * card R"
  shows "Q \<inter> R \<noteq> {}"
proof
  assume "Q \<inter> R = {}"
  moreover have "Q \<union> R \<subseteq> B"
    using assms(2,4,6) by blast
  moreover from this have "finite Q" "finite R"
    using assms(1) by (meson finite_subset le_supE)+
  ultimately have "card Q + card R \<le> card B"
    using card_Un_disjoint [of Q R] card_mono [OF assms(1), of "Q \<union> R"] by simp
  then show False
    using assms(3,5,7) by linarith
qed

text \<open>A majority of the members before a change and one of those after it have a replica in common.\<close>

lemma one_change_overlap:
  assumes ok: "om_ok (ClusterConfig n)" and n': "n' = ApplyAddServer info n \<or> n' = ApplyRemoveServer sid n"
    and Q: "Q \<subseteq> members (ClusterConfig n)" "length (ClusterConfig n) < 2 * card Q"
    and R: "R \<subseteq> members (ClusterConfig n')" "length (ClusterConfig n') < 2 * card R"
  shows "Q \<inter> R \<noteq> {}"
proof -
  have len: "length (ClusterConfig n) = card (members (ClusterConfig n))" "length (ClusterConfig n') = card (members (ClusterConfig n'))"
    using ok n' by (auto intro!: length_config)
  from n' show ?thesis
  proof
    assume "n' = ApplyAddServer info n"
    then have "members (ClusterConfig n') = insert (si_id info) (members (ClusterConfig n))"
      by (simp add: members_put)
    then show ?thesis
      using majorities_meet [of "members (ClusterConfig n')" "members (ClusterConfig n)" Q R] Q R len by (simp add: card_insert_if subset_insertI)
  next
    assume "n' = ApplyRemoveServer sid n"
    then have "members (ClusterConfig n') = members (ClusterConfig n) - {sid}"
      by (simp add: members_erase)
    then have "R \<inter> Q \<noteq> {}"
      using Q R len by (intro majorities_meet [of "members (ClusterConfig n)" "members (ClusterConfig n')"]) (auto simp: card_Diff_singleton_if)
    then show ?thesis
      by blast
  qed
qed

section \<open>Two changes at a time\<close>

text \<open>Runs without crashes from one group to the next.\<close>

abbreviation group_run :: "(int, ServerInfo) omap \<Rightarrow> group \<Rightarrow> group \<Rightarrow> bool" where
  "group_run everyone \<equiv> (member_step True ''d'' flat_entry config3 everyone)\<^sup>*\<^sup>*"

lemma group_run_net:
  assumes "(net_step True everyone)\<^sup>*\<^sup>* (cluster_of s) c"
  shows "group_run everyone s (s\<lparr>cluster_of := c\<rparr>)"
  using assms
proof induction
  case (step c c')
  have "member_step True ''d'' flat_entry config3 everyone (s\<lparr>cluster_of := c\<rparr>) ((s\<lparr>cluster_of := c\<rparr>)\<lparr>cluster_of := c'\<rparr>)"
    by (rule member_step.net) (use step.hyps(2) in simp)
  then show ?case
    using rtranclp.rtrancl_into_rtrancl [OF step.IH] by simp
qed simp

lemma net_step_mono: "net_step strict cfg c c' \<Longrightarrow> members cfg \<subseteq> members everyone \<Longrightarrow> net_step strict everyone c c'"
proof (induction rule: net_step.induct)
  case (count c i p t reply rest n' now elected)
  show ?case
    by (rule net_step.count [OF count(1-4)])
next
  case (timer i tmo now c ths n')
  then show ?case
    by (intro net_step.timer) auto
qed (auto intro: net_step.intros)

lemma net_run_mono:
  assumes "(net_step strict cfg)\<^sup>*\<^sup>* c c'" and "members cfg \<subseteq> members everyone"
  shows "(net_step strict everyone)\<^sup>*\<^sup>* c c'"
  using assms(1) by induction (auto intro: rtranclp.rtrancl_into_rtrancl net_step_mono [OF _ assms(2)])

lemma group_reach:
  assumes "group_run everyone s s'" and "member_reach True ''d'' flat_entry config3 everyone s"
  shows "member_reach True ''d'' flat_entry config3 everyone s'"
  using assms by induction (auto intro: member_reach.step)

text \<open>The call passes the wait when no change is pending, and leaves the replica as it is.\<close>

lemma with_node_same [simp]: "with_node i (node_of s i) s = s"
  by (simp add: with_node_def)

lemma group_simps [simp]:
  "cluster_of (with_node i n s) = (cluster_of s)\<lparr>reps := (reps (cluster_of s))(i := n)\<rparr>" "asked (with_node i n s) = asked s"
  "cluster_of (asks k i pc s) = cluster_of s" "asked (asks k i pc s) = (asked s)(k \<mapsto> (i, pc))"
  by (simp_all add: with_node_def asks_def)

lemma asks_simps [simp]: "asks k i pc (asks k i pc' s) = asks k i pc s" "with_node i n (asks k j pc s) = asks k j pc (with_node i n s)"
  by (simp_all add: asks_def with_node_def)

lemma add_waited:
  assumes i: "i \<in> members everyone" and "asked s k = None" and n: "Role (node_of s i) = Leader" "LastConfigChangeIndex (node_of s i) = -1"
    "om_find (ClusterConfig (node_of s i)) (as_serverId a) = None" "new_server a = Inr info"
  shows "group_run everyone s (asks k i (Inl (Submit info (-1))) s)"
proof -
  let ?s = "asks k i (Inl (Wait_Prev info 0)) s"
  have "AddServer_begin a (node_of s i) = Inr (Wait_Prev info 0, node_of s i)"
    using n by (simp add: AddServer_begin_def)
  then have s1: "member_step True ''d'' flat_entry config3 everyone s ?s"
    using member_step.add [OF i assms(2), of a "Wait_Prev info 0" "node_of s i" True "''d''" flat_entry config3] by simp
  have "AddServer_step (Wait_Prev info 0) (node_of ?s i) = (Submit info (-1), node_of ?s i)"
    using n by (simp add: wait_prev_def)
  then have "member_step True ''d'' flat_entry config3 everyone ?s (asks k i (Inl (Submit info (-1))) ?s)"
    using member_step.addLook [of ?s k i "Wait_Prev info 0" "Submit info (-1)" "node_of ?s i" True "''d''" flat_entry config3 everyone] by simp
  then show ?thesis
    using rtranclp.rtrancl_into_rtrancl [OF r_into_rtranclp [of "member_step True ''d'' flat_entry config3 everyone", OF s1]] by simp
qed

definition queue_op :: "RaftOp \<Rightarrow> node \<Rightarrow> node" where
  "queue_op op n = n\<lparr>dispatchOut := dispatchOut n @ [op], moreInputsReady := tts_signal (moreInputsReady n)\<rparr>"

lemma add_submitted:
  assumes "asked s k = Some (i, Inl (Submit info p))"
  shows "group_run everyone s (asks k i (Inl (Wait_New info p 0)) (with_node i (queue_op \<lparr>kind = ADD_SERVER, args = ArgServer info, promiseHandle = None\<rparr> (node_of s i)) s))"
proof -
  have "AddServer_step (Submit info p) (node_of s i) = (Wait_New info p 0, queue_op \<lparr>kind = ADD_SERVER, args = ArgServer info, promiseHandle = None\<rparr> (node_of s i))"
    by (simp add: submit_change_def submit_def queue_op_def)
  then show ?thesis
    by (intro r_into_rtranclp member_step.addLook [OF assms])
qed

definition join_params :: "int \<Rightarrow> AddServerParams" where
  "join_params k = \<lparr>as_serverId = k, as_ip = ''10.0.0.9'', as_raftPort = 5000 + k, as_dbPort = 6000 + k, as_name = ''added''\<rparr>"

definition join_info :: "int \<Rightarrow> ServerInfo" where
  "join_info k = \<lparr>si_id = k, si_ip = ''10.0.0.9'' @ replicate 12 NUL, raft_port = 5000 + k, db_port = 6000 + k, si_name = ''added'' @ replicate 20 NUL\<rparr>"

definition join_op :: "int \<Rightarrow> RaftOp" where
  "join_op k = \<lparr>kind = ADD_SERVER, args = ArgServer (join_info k), promiseHandle = None\<rparr>"

definition config5 :: "(int, ServerInfo) omap" where
  "config5 = config3 @ [(3, server_at 3), (4, server_at 4)]"

lemma members5: "members config5 = {0, 1, 2, 3, 4}"
  by (auto simp: config5_def config3_def om_keys_def)

lemma new_server_join: "new_server (join_params k) = Inr (join_info k)"
  by (simp add: new_server_def join_params_def join_info_def strcpy_def c_str_def NUL_def Let_def numeral_eq_Suc)

text \<open>Two calls at the leader, one after the other up to the submission, then the two submissions.\<close>

lemma two_submitted:
  assumes "asked s = Map.empty" and n: "Role (node_of s 0) = Leader" "LastConfigChangeIndex (node_of s 0) = -1" "ClusterConfig (node_of s 0) = config3"
  obtains s' where "group_run config5 s s'" "cluster_of s' = (cluster_of s)\<lparr>reps := (reps (cluster_of s))(0 := queue_op (join_op 4) (queue_op (join_op 3) (node_of s 0)))\<rparr>"
proof -
  let ?s1 = "asks 0 0 (Inl (Submit (join_info 3) (-1))) s"
  let ?s2 = "asks 1 0 (Inl (Submit (join_info 4) (-1))) ?s1"
  let ?s3 = "asks 0 0 (Inl (Wait_New (join_info 3) (-1) 0)) (with_node 0 (queue_op (join_op 3) (node_of s 0)) ?s2)"
  let ?s4 = "asks 1 0 (Inl (Wait_New (join_info 4) (-1) 0)) (with_node 0 (queue_op (join_op 4) (node_of ?s3 0)) ?s3)"
  have free: "om_find config3 (as_serverId (join_params k)) = None" if "k \<in> {3, 4}" for k
    using that by (auto simp: config3_def join_params_def)
  have s1: "group_run config5 s ?s1"
    by (rule add_waited [OF _ _ n(1,2) _ new_server_join]) (use assms free in \<open>simp_all add: members5\<close>)
  have s2: "group_run config5 ?s1 ?s2"
    by (rule add_waited [OF _ _ _ _ _ new_server_join]) (use assms free in \<open>simp_all add: members5\<close>)
  have s3: "group_run config5 ?s2 ?s3"
    using add_submitted [of ?s2 0 0 "join_info 3" "-1" config5] by (simp add: join_op_def)
  have s4: "group_run config5 ?s3 ?s4"
    using add_submitted [of ?s3 1 0 "join_info 4" "-1" config5] by (simp add: join_op_def)
  show ?thesis
    by (rule that [OF rtranclp_trans [OF rtranclp_trans [OF rtranclp_trans [OF s1 s2] s3] s4]]) simp
qed

text \<open>Both changes enter the log of the leader in one round.\<close>

definition join_entry :: "int \<Rightarrow> LogEntry" where
  "join_entry k = \<lparr>log_term = 1, log_op = join_op k\<rparr>"

definition leads5 :: "node \<Rightarrow> bool" where
  "leads5 n \<longleftrightarrow> Role n = Leader \<and> CurrentTerm n = 1 \<and> my_id n = 0 \<and> CommitIndex n = -1 \<and> LastApplied n = -1 \<and> log_of n = [join_entry 3, join_entry 4]
     \<and> length (ClusterConfig n) = 5 \<and> om_find (ClusterConfig n) 0 \<noteq> None \<and> om_ok (peers n) \<and> {3, 4} \<subseteq> set (om_keys (peers n))
     \<and> om_find (NextIndex n) 3 = Some 0 \<and> om_find (NextIndex n) 4 = Some 0"

lemma apply_join:
  "apply_config (join_op k) n = Inr (ApplyAddServer (join_info k) n)"
  by (simp add: apply_config_def join_op_def)

lemma ApplyAdd_tables:
  assumes "my_id n \<noteq> si_id info"
  shows "om_find (NextIndex (ApplyAddServer info n)) j = (if j = si_id info then Some 0 else om_find (NextIndex n) j)"
    "om_ok (peers n) \<Longrightarrow> om_ok (peers (ApplyAddServer info n))" "set (om_keys (peers (ApplyAddServer info n))) = insert (si_id info) (set (om_keys (peers n)))"
  using assms members_put [of "si_id info" _ "peers n"] by (simp_all add: ApplyAddServer_def addPeer_def Let_def)

lemma both_appended:
  assumes n: "leads3 0 n" "log_of n = []" "dispatchOut n = []"
  obtains n' where "runLeaderOneIter (raft_take (queue_op (join_op 4) (queue_op (join_op 3) n))) = Inr (map (\<lambda>p. (p, 1)) (om_keys (peers n')), n')" "leads5 n'"
proof -
  define m where "m = raft_take (queue_op (join_op 4) (queue_op (join_op 3) n))"
  define n1 where "n1 = ApplyAddServer (join_info 3) (m\<lparr>Logs := pvec_push_back (join_entry 3) (Logs m)\<rparr>)"
  define n2 where "n2 = ApplyAddServer (join_info 4) (n1\<lparr>Logs := pvec_push_back (join_entry 4) (Logs n1)\<rparr>)"
  have m: "raftIn m = [join_op 3, join_op 4]" "CurrentTerm m = 1" "my_id m = 0" "Role m = Leader" "CommitIndex m = -1" "LastApplied m = -1" "log_of m = []"
      "ClusterConfig m = config3" "om_ok (peers m)"
    using n by (simp_all add: m_def raft_take_def queue_op_def leads3_def)
  have n1: "CurrentTerm n1 = 1" "my_id n1 = 0" "om_ok (peers n1)"
    using m by (simp_all add: n1_def ApplyAdd_tables join_info_def)
  have "append_ops (raftIn m) m = Inr n2"
    using m n1 by (simp add: apply_join n2_def n1_def join_entry_def)
  then have "runLeaderOneIter m = Inr (map (\<lambda>p. (p, 1)) (om_keys (peers (persist_logs n2))), persist_logs n2)"
    using m(2) n1 by (simp add: runLeaderOneIter_def leader_append_def Let_def n2_def persist_logs_def case_prod_beta)
  moreover have "leads5 (persist_logs n2)"
    using m n1 by (simp add: leads5_def persist_logs_def case_prod_beta n2_def ApplyAdd_tables)
      (simp add: n1_def ApplyAdd_tables join_info_def config3_def m)
  ultimately show ?thesis
    using that by (simp add: m_def)
qed

text \<open>The two new servers are enough to commit them.\<close>

lemma fresh_follows: "0 \<le> t \<Longrightarrow> can_follow t (replica i)"
  using replica_idle [of i] boot_node_services [of flat_entry i False "''d''" config3 no_clients "\<lambda>_. None", folded replica_def]
  by (simp add: can_follow_def no_clients_def promise_store_init_def ps_ok_def ps_live_def)

lemma leads5_can_lead: "leads5 n \<Longrightarrow> p \<in> {3, 4} \<Longrightarrow> can_lead p 0 n"
  by (auto simp: leads5_def can_lead_def join_entry_def join_op_def config_typed_def)

lemma at_least_two: "{x, y} \<subseteq> set xs \<Longrightarrow> x \<noteq> y \<Longrightarrow> 2 \<le> length xs"
  using card_mono [of "set xs" "{x, y}"] card_length [of xs] by simp

lemma both_committed:
  assumes lead: "leads5 (reps c 0)" and new: "reps c 3 = replica 3" "reps c 4 = replica 4"
    and calls: "AppendStart 0 3 1 \<in># calls c" "AppendStart 0 4 1 \<in># calls c"
  obtains c' where "(net_step True everyone)\<^sup>*\<^sup>* c c'" "CommitIndex (reps c' 0) = 1" "log_of (reps c' 0) = [join_entry 3, join_entry 4]"
    "reps c' 1 = reps c 1" "reps c' 2 = reps c 2" "led c' = led c"
proof -
  let ?n = "reps c 0"
  have t: "CurrentTerm ?n = 1"
    using lead by (simp add: leads5_def)
  have follow: "can_follow 1 (replica i)" "log_matching L (log_of (replica i))" for i L
    by (rule fresh_follows) (simp_all add: log_matching_def)
  have one: "nat 0 < count (calls c) (AppendStart 0 3 1)" "0 < count (calls c) (AppendStart 0 4 1)"
    using calls by simp_all
  obtain c1 where c1: "(net_step True everyone)\<^sup>*\<^sup>* c c1" "talks 0 3 1 c c1" "match_value (MatchIndex (reps c1 0)) 3 = int (length (log_of (reps c1 0))) - 1"
    using peer_synced [OF leads5_can_lead [OF lead, of 3] t _ _ _ one(1), of everyone] follow new(1) by (auto simp del: One_nat_def)
  have lead1: "can_lead 4 0 (reps c1 0)" "CurrentTerm (reps c1 0) = 1"
    using kept_can_lead [OF talksD(1) [OF c1(2)] _ leads5_can_lead [OF lead, of 4]] talksD(1) [OF c1(2)] t by (simp_all add: leader_kept_def)
  obtain c2 where c2: "(net_step True everyone)\<^sup>*\<^sup>* c1 c2" "talks 0 4 1 c1 c2" "scanned (reps c2 0)"
      "match_value (MatchIndex (reps c2 0)) 4 = int (length (log_of (reps c2 0))) - 1"
    using peer_synced [OF lead1, of everyone] follow new(2) talksD(2,4) [OF c1(2)] one(2) by (auto simp del: One_nat_def)
  let ?m = "reps c2 0"
  have k: "leader_kept {3, 4} ?n ?m" "match_value (MatchIndex ?m) 3 = int (length (log_of ?m)) - 1"
    using leader_kept_trans [OF talksD(1) [OF c1(2)] talksD(1) [OF c2(2)]] c1(3) talksD(1) [OF c2(2)] by (simp_all add: leader_kept_def insert_commute)
  have n: "log_of ?m = [join_entry 3, join_entry 4]" "length (ClusterConfig ?m) = 5" "om_find (ClusterConfig ?m) (my_id ?m) \<noteq> None"
      "CurrentTerm ?m = 1" "{3, 4} \<subseteq> set (om_keys (peers ?m))"
    using k(1) lead by (simp_all add: leader_kept_def leads5_def)
  have "{3, 4} \<subseteq> set (filter (\<lambda>p. 1 \<le> match_value (MatchIndex ?m) p) (om_keys (peers ?m)))"
    using n(1,5) k(2) c2(4) by auto
  then have "2 \<le> length (filter (\<lambda>p. 1 \<le> match_value (MatchIndex ?m) p) (om_keys (peers ?m)))"
    by (rule at_least_two) simp
  then have "committable ?m 1"
    using n by (simp add: committable_def holders_def join_entry_def)
  then have "CommitIndex ?m = 1"
    using c2(3) n(1) by (simp add: scanned_def)
  then show ?thesis
    using that [OF rtranclp_trans [OF c1(1) c2(1)]] talksD(2,3) [OF c1(2)] talksD(2,3) [OF c2(2)] n(1) by simp
qed

text \<open>Meanwhile replica 1, which has not heard of the changes, is elected by replica 2 in the next term.\<close>

definition voter :: node where
  "voter = snd (RequestVote (vote_prepare 1 (candidate 0)) 0 (replica 1))"

lemma voter_facts:
  "RequestVote (vote_prepare 1 (candidate 0)) 0 (replica 1) = (\<lparr>rvr_term = 1, rvr_voteGranted = True\<rparr>, voter)"
  "Role voter = Follower" "CurrentTerm voter = 1" "log_of voter = []" "CommitIndex voter = -1" "dispatchOut voter = []" "LastApplied voter = -1"
  "peers voter = peers (replica 1)" "ClusterConfig voter = config3" "my_id voter = 1"
proof -
  obtain b where b: "RequestVote (vote_prepare 1 (candidate 0)) 0 (replica 1) = (\<lparr>rvr_term = 1, rvr_voteGranted = True\<rparr>, b)" "Logs b = Logs (replica 1)"
      "CurrentTerm b = 1" "Role b = Follower" "CommitIndex b = -1" "dispatchOut b = []"
    using vote_granted [of "replica 1" 0 0] replica_peers [of 1 0] by (auto simp: replica_idle)
  then have v: "voter = b"
    by (simp add: voter_def)
  show "RequestVote (vote_prepare 1 (candidate 0)) 0 (replica 1) = (\<lparr>rvr_term = 1, rvr_voteGranted = True\<rparr>, voter)"
    "Role voter = Follower" "CurrentTerm voter = 1" "log_of voter = []" "CommitIndex voter = -1" "dispatchOut voter = []"
    using b by (simp_all add: v)
  show "LastApplied voter = -1" "peers voter = peers (replica 1)" "ClusterConfig voter = config3" "my_id voter = 1"
    by (simp_all add: voter_def RequestVote_frame replica_idle) (simp_all add: RequestVote_def Let_def)
qed

definition leads_second :: "node \<Rightarrow> bool" where
  "leads_second n \<longleftrightarrow> Role n = Leader \<and> CurrentTerm n = 2 \<and> my_id n = 1 \<and> CommitIndex n = -1 \<and> LastApplied n = -1 \<and> ClusterConfig n = config3
     \<and> 2 \<in> set (om_keys (peers n)) \<and> om_find (NextIndex n) 2 = Some 0"

lemma second_elected:
  assumes c: "reps c 1 = voter" "reps c 2 = replica 2" "2 \<notin> led c" and "1 \<in> members everyone"
  obtains c' where "(net_step True everyone)\<^sup>*\<^sup>* c c'" "\<forall>j. j \<notin> {1, 2} \<longrightarrow> reps c' j = reps c j"
    "leads_second (reps c' 1)" "log_of (reps c' 1) = []" "dispatchOut (reps c' 1) = []" "can_follow 2 (reps c' 2)" "log_of (reps c' 2) = []"
proof -
  let ?ok = "\<lparr>rvr_term = 2, rvr_voteGranted = True\<rparr>"
  obtain c1 now where c1: "net_step True everyone c c1" "reps c1 = (reps c)(1 := campaigner now voter)" "led c1 = led c"
      "calls c1 = calls c + mset (map (\<lambda>p. VoteStart 1 p 2) (om_keys (peers (replica 1))))"
    by (rule timer_fires [OF assms(4), of c]) (use c voter_facts that in \<open>auto simp: i32_ok_def\<close>)
  have two: "2 \<in> set (om_keys (peers (replica 1)))"
    using replica_peers [of 1 2] om_find_mem_keys [of "peers (replica 1)" 2] by auto
  then have "VoteStart 1 2 2 \<in># calls c1"
    by (auto simp: c1(4) image_iff)
  then obtain rest where x: "calls c1 = add_mset (VoteStart 1 2 2) rest"
    by (metis insert_DiffM)
  let ?n = "campaigner now voter"
  have v: "om_find (peers (reps c1 2)) 1 \<noteq> None" "CurrentTerm (reps c1 2) < 2" "up_to_date (log_of ?n) (log_of (reps c1 2))"
    using replica_peers [of 2 1] c(2) c1(2) voter_facts(4) by (auto simp: up_to_date_def)
  obtain c2 where c2: "(net_step True everyone)\<^sup>*\<^sup>* c1 c2" "reps c2 = (reps c1)(2 := snd (RequestVote (vote_prepare 2 ?n) 0 (reps c1 2)))" "led c2 = led c1"
      "calls c2 = add_mset (VoteDone 1 2 2 ?ok) rest"
    by (rule vote_cast [OF x, where n = ?n and v = 1 and now = 0]) (use v c1(2) voter_facts that in \<open>auto simp: campaigner_def\<close>)
  have n2: "reps c2 1 = ?n" "CurrentTerm (reps c2 1) = 2" "Role (reps c2 1) = Candidate" "2 \<notin> led c2"
    using c1(2,3) c2(2,3) c(3) voter_facts(3) by simp_all
  define l where "l = becomeLeader 0 (?n\<lparr>VotesReceived := 2\<rparr>)"
  have l: "l = vote_reply 2 ?ok 0 (reps c2 1)"
    using voter_facts by (simp add: n2(1) l_def vote_reply_def Let_def config3_def)
  obtain c3 where c3: "net_step True everyone c2 c3" "reps c3 = (reps c2)(1 := l)"
    by (rule vote_counted [OF c2(4) n2(2-4) l]) (rule that)
  have run: "(net_step True everyone)\<^sup>*\<^sup>* c c3"
    using converse_rtranclp_into_rtranclp [of "net_step True everyone", OF c1(1) rtranclp.rtrancl_into_rtrancl [OF c2(1) c3(1)]] .
  have "leads_second l" "log_of l = []" "dispatchOut l = []"
    using voter_facts two by (simp_all add: leads_second_def l_def campaigner_def becomeLeader_def becomeCandidate_def om_find_foldl_put)
  moreover have "can_follow 2 (snd (RequestVote (vote_prepare 2 ?n) 0 (replica 2)))" "log_of (snd (RequestVote (vote_prepare 2 ?n) 0 (replica 2))) = []"
    using voter_follows [OF fresh_follows, of 2 "vote_prepare 2 ?n" 0 2] RequestVote_state_aux(2) [of "vote_prepare 2 ?n" 0 "replica 2"]
    by (simp_all add: vote_prepare_params)
  ultimately show ?thesis
    using that [OF run] c1(2) c2(2) c3(2) c(2) by simp
qed

text \<open>It takes a write over and commits it with replica 2.\<close>

lemma second_writes:
  assumes i: "1 \<in> members everyone" and n: "leads_second (node_of s 1)" "log_of (node_of s 1) = []" "dispatchOut (node_of s 1) = []"
    and f: "can_follow 2 (node_of s 2)" "log_of (node_of s 2) = []" and v: "i32_ok (fst kvp)" "i32_ok (snd kvp)"
  obtains s' where "group_run everyone s s'" "CommitIndex (node_of s' 1) = 0" "stripped (log_of (node_of s' 1)) = [\<lparr>log_term = 2, log_op = put_op kvp\<rparr>]"
    "\<forall>j. j \<notin> {1, 2} \<longrightarrow> node_of s' j = node_of s j"
proof -
  let ?n = "node_of s 1"
  have lead: "Role ?n = Leader" "CurrentTerm ?n = 2"
    using n(1) by (simp_all add: leads_second_def)
  obtain n1 ths n2 q where w: "put_begin kvp 0 ?n = Inr (Await 0, n1)" "runLeaderOneIter (raft_take n1) = Inr (ths, n2)"
      "ths = map (\<lambda>p. (p, 2)) (om_keys (peers ?n))" "round_kept ?n n2" "Role (raft_take n1) = Leader" "log_of n2 = [\<lparr>log_term = 2, log_op = q\<rparr>]"
      "withoutPromise q = put_op kvp" "kind q = PUT"
    by (rule op_logged [OF lead(1) n(3) client_op_put, of kvp 0 0]) (use that lead(2) n(2) in \<open>simp add: put_begin_def put_op_def\<close>)
  define s1 where "s1 = with_node 1 n1 s"
  define s2 where "s2 = with_node 1 (raft_take n1) s1"
  define s3 where "s3 = s2\<lparr>cluster_of := (set_rep 1 n2 (cluster_of s2))\<lparr>calls := calls (cluster_of s2) + mset (map (\<lambda>(p, t). AppendStart 1 p t) ths)\<rparr>\<rparr>"
  have "member_step True ''d'' flat_entry config3 everyone s s1"
    unfolding s1_def by (rule member_step.local [OF i local_step.put [OF v w(1)]])
  moreover have "member_step True ''d'' flat_entry config3 everyone s1 s2"
    unfolding s2_def by (rule member_step.local [OF i]) (use local_step.take [of n1] in \<open>simp add: s1_def\<close>)
  moreover have "member_step True ''d'' flat_entry config3 everyone s2 s3"
    unfolding s3_def by (rule member_step.round [OF i]) (use w(2,5) in \<open>simp_all add: s2_def\<close>)
  ultimately have r3: "group_run everyone s s3"
    by (meson converse_rtranclp_into_rtranclp rtranclp.rtrancl_refl)
  have reps3: "reps (cluster_of s3) = (reps (cluster_of s))(1 := n2)"
    by (simp add: s3_def s2_def s1_def)
  have n2: "leads_second n2"
    using n(1) w(4) by (simp add: leads_second_def round_kept_def)
  then have k: "can_lead 2 0 (node_of s3 1)" "CurrentTerm (node_of s3 1) = 2"
    using w(6,8) by (simp_all add: reps3 can_lead_def leads_second_def config_typed_def)
  have x: "nat 0 < count (calls (cluster_of s3)) (AppendStart 1 2 2)"
    using n(1) by (auto simp: s3_def w(3) leads_second_def image_iff)
  obtain c where c: "(net_step True everyone)\<^sup>*\<^sup>* (cluster_of s3) c" "talks 1 2 2 (cluster_of s3) c" "scanned (reps c 1)"
      "match_value (MatchIndex (reps c 1)) 2 = int (length (log_of (reps c 1))) - 1"
    using peer_synced [OF k _ _ _ x, of everyone] f reps3 by (auto simp: log_matching_def)
  let ?m = "reps c 1"
  have nl: "log_of ?m = [\<lparr>log_term = 2, log_op = q\<rparr>]" "ClusterConfig ?m = config3" "my_id ?m = 1" "CurrentTerm ?m = 2" "2 \<in> set (om_keys (peers ?m))"
    using talksD(1) [OF c(2)] n2 w(6) by (simp_all add: leader_kept_def leads_second_def reps3)
  then have "2 \<in> set (filter (\<lambda>p. 0 \<le> match_value (MatchIndex ?m) p) (om_keys (peers ?m)))"
    using c(4) by simp
  then have "1 \<le> length (filter (\<lambda>p. 0 \<le> match_value (MatchIndex ?m) p) (om_keys (peers ?m)))"
    by (metis length_pos_if_in_set Suc_leI One_nat_def)
  then have "committable ?m 0"
    using nl by (simp add: committable_def holders_def config3_def)
  then have "CommitIndex ?m = 0"
    using c(3) nl(1) by (simp add: scanned_def)
  then show ?thesis
    using that [OF rtranclp_trans [OF r3 group_run_net [OF c(1)]]] talksD(2) [OF c(2)] reps3 nl(1) w(7) by (simp add: strip_entry_def)
qed

text \<open>The run from the first start to the commit of both changes.\<close>

lemma replica_change: "LastConfigChangeIndex (replica i) = -1"
proof -
  have "LastConfigChangeIndex (foldl (\<lambda>m (i, r). addPeer i r m) n ps) = LastConfigChangeIndex n" for n ps
    by (induction ps arbitrary: n) auto
  then show ?thesis
    by (simp add: replica_def boot_node_def setClusterConfig_def bootstrap_def RaftManager_init_def Let_def case_prod_beta raft_persist_def)
qed

definition group3 :: group where
  "group3 = \<lparr>cluster_of = cluster3, asked = Map.empty\<rparr>"

lemma changes_committed:
  obtains s where "group_run config5 group3 s" "CommitIndex (node_of s 0) = 1" "log_of (node_of s 0) = [join_entry 3, join_entry 4]"
    "node_of s 1 = voter" "node_of s 2 = replica 2" "led (cluster_of s) = {1}"
proof -
  let ?l = "becomeLeader 0 ((candidate 0)\<lparr>VotesReceived := 2\<rparr>)"
  obtain c where c: "net3 True cluster3 c" "reps c = replica(0 := ?l, 1 := voter)" "led c = {1}"
    by (rule run_election [of cluster3 0 1 True 0 voter]) (use voter_facts(1) that in \<open>simp_all add: cluster3_def\<close>)
  have all: "members config3 \<subseteq> members config5" "0 \<in> members config5"
    by (auto simp: members3 members5)
  let ?s1 = "group3\<lparr>cluster_of := c\<rparr>"
  have r1: "group_run config5 group3 ?s1"
    by (rule group_run_net) (use net_run_mono [OF c(1) all(1)] in \<open>simp add: group3_def\<close>)
  have l: "leads3 0 ?l" "log_of ?l = []" "dispatchOut ?l = []" "LastConfigChangeIndex ?l = -1"
    using elected_leads [of 0 0] elected_idle [of 0 0] replica_change [of 0] by (simp_all add: candidate_def becomeCandidate_def becomeLeader_def)
  obtain s2 where s2: "group_run config5 ?s1 s2" "cluster_of s2 = c\<lparr>reps := (reps c)(0 := queue_op (join_op 4) (queue_op (join_op 3) ?l))\<rparr>"
    by (rule two_submitted [of ?s1]) (use l c(2) that in \<open>simp_all add: leads3_def group3_def\<close>)
  obtain n where n: "runLeaderOneIter (raft_take (node_of s2 0)) = Inr (map (\<lambda>p. (p, 1)) (om_keys (peers n)), n)" "leads5 n"
    using both_appended [OF l(1-3)] s2(2) by auto
  define s3 where "s3 = with_node 0 (raft_take (node_of s2 0)) s2"
  define s4 where "s4 = s3\<lparr>cluster_of := (set_rep 0 n (cluster_of s3))\<lparr>calls := calls (cluster_of s3)
    + mset (map (\<lambda>(p, t). AppendStart 0 p t) (map (\<lambda>p. (p, 1)) (om_keys (peers n))))\<rparr>\<rparr>"
  have s3: "member_step True ''d'' flat_entry config3 config5 s2 s3"
    unfolding s3_def by (rule member_step.local [OF all(2) local_step.take])
  have s4: "member_step True ''d'' flat_entry config3 config5 s3 s4"
    unfolding s4_def by (rule member_step.round [OF all(2)]) (use n s2(2) l(1) in \<open>simp_all add: s3_def raft_take_def queue_op_def leads3_def\<close>)
  have r4: "group_run config5 group3 s4"
    using rtranclp.rtrancl_into_rtrancl [OF rtranclp.rtrancl_into_rtrancl [OF rtranclp_trans [OF r1 s2(1)] s3] s4] .
  have start: "AppendStart 0 p 1 \<in># calls (cluster_of s4)" if "p \<in> {3, 4}" for p
    using that n(2) by (auto simp: s4_def leads5_def image_iff)
  obtain c5 where c5: "(net_step True config5)\<^sup>*\<^sup>* (cluster_of s4) c5" "CommitIndex (reps c5 0) = 1" "log_of (reps c5 0) = [join_entry 3, join_entry 4]"
      "reps c5 1 = voter" "reps c5 2 = replica 2" "led c5 = {1}"
    by (rule both_committed [of "cluster_of s4" config5]) (use n(2) start s2(2) c(2,3) that in \<open>simp_all add: s4_def s3_def\<close>)
  show ?thesis
    by (rule that [OF rtranclp_trans [OF r4 group_run_net [OF c5(1)]]]) (use c5 in simp_all)
qed

section \<open>Property\<close>


end
