(* ===== verification/ReplicatedDB.thy ===== *)
theory ReplicatedDB
  imports OhMyReplica
begin

text \<open>
  \<open>ohmydb/ReplicatedDB.H\<close>: the client library that finds the leader and repeats a request until it
  gets an answer. \<open>rpc t addr\<close> is the answer to the request sent when \<open>t\<close> tries are left, by the
  server at \<open>addr\<close>; \<open>None\<close> is a failed RPC. The loops of \<open>get\<close> and \<open>put\<close> differ only in their
  \<open>switch\<close>, which is the argument \<open>decide\<close>: the value to return, or \<open>None\<close> to go round again.
\<close>

definition MAX_TRIES :: nat where
  "MAX_TRIES = 1000"

record rdb =
  rdb_channel :: string
  rdb_serverAddr :: string
  rdb_serverInfo :: "(int, ServerInfo) omap"

definition db_addr :: "ServerInfo \<Rightarrow> string" where
  "db_addr s = c_str (si_ip s) @ '':'' @ to_string (db_port s)"

definition ReplicatedDB_init :: "(int, ServerInfo) omap \<Rightarrow> rdb" where
  "ReplicatedDB_init serverInfo =
     (case om_at ServerInfo_zero serverInfo 0 of
        (s, si) \<Rightarrow> \<lparr>rdb_channel = db_addr s, rdb_serverAddr = [], rdb_serverInfo = si\<rparr>)"

definition updateChannel :: "string \<Rightarrow> rdb \<Rightarrow> rdb" where
  "updateChannel addr s = s\<lparr>rdb_serverAddr := addr, rdb_channel := addr\<rparr>"

definition next_backup :: "int \<Rightarrow> rdb \<Rightarrow> int \<times> rdb" where
  "next_backup backupID s =
     (case om_at ServerInfo_zero (rdb_serverInfo s) backupID of
        (info, si) \<Rightarrow>
          (if backupID + 1 \<ge> int (length si) then 0 else backupID + 1,
           updateChannel (db_addr info) (s\<lparr>rdb_serverInfo := si\<rparr>)))"

fun try_servers :: "(nat \<Rightarrow> string \<Rightarrow> Ret option) \<Rightarrow> (Ret \<Rightarrow> 'r option) \<Rightarrow> 'r \<Rightarrow> nat \<Rightarrow> int \<Rightarrow> rdb \<Rightarrow> 'r \<times> rdb" where
  "try_servers rpc decide giveUp 0 backupID s = (giveUp, s)"
| "try_servers rpc decide giveUp (Suc iters) backupID s =
     (case rpc iters (rdb_channel s) of
        None \<Rightarrow> (case next_backup backupID s of (b, s') \<Rightarrow> try_servers rpc decide giveUp iters b s')
      | Some ret \<Rightarrow>
          if db_errorCode ret = DB_NOT_LEADER
          then try_servers rpc decide giveUp iters backupID (updateChannel (db_leaderAddr ret) s)
          else (case decide ret of
                  Some r \<Rightarrow> (r, s)
                | None \<Rightarrow> try_servers rpc decide giveUp iters backupID s))"

definition get_decide :: "Ret \<Rightarrow> int option option" where
  "get_decide ret =
     (case db_errorCode ret of
        DB_NOT_LEADER \<Rightarrow> None
      | DB_KEY_NOT_FOUND \<Rightarrow> Some None
      | DB_OK \<Rightarrow> Some (Some (db_value ret))
      | Unknown_DB _ \<Rightarrow> None)"

definition put_decide :: "Ret \<Rightarrow> bool option" where
  "put_decide ret =
     (case db_errorCode ret of
        DB_NOT_LEADER \<Rightarrow> None
      | DB_KEY_NOT_FOUND \<Rightarrow> Some False
      | DB_OK \<Rightarrow> Some (db_value ret \<noteq> 0)
      | Unknown_DB _ \<Rightarrow> None)"

definition ReplicatedDB_get :: "(nat \<Rightarrow> string \<Rightarrow> int \<Rightarrow> GetResponse option) \<Rightarrow> int \<Rightarrow> rdb \<Rightarrow> int option \<times> rdb" where
  "ReplicatedDB_get stub key s =
     try_servers (\<lambda>t addr. OhMyDBClient_Get (stub t addr) key) get_decide None MAX_TRIES 0 s"

definition ReplicatedDB_put :: "(nat \<Rightarrow> string \<Rightarrow> int \<Rightarrow> int \<Rightarrow> PutResponse option) \<Rightarrow> int \<times> int \<Rightarrow> rdb \<Rightarrow> bool \<times> rdb" where
  "ReplicatedDB_put stub kvp s =
     try_servers (\<lambda>t addr. OhMyDBClient_Put (stub t addr) (fst kvp) (snd kvp)) put_decide False MAX_TRIES 0 s"

section \<open>Finding the leader\<close>

text \<open>
  The cluster as a client may meet it while one server leads: the server at \<open>leader\<close> gives an answer
  that decides the request, every other server is down or redirects to it.
\<close>

definition one_leader :: "(nat \<Rightarrow> string \<Rightarrow> Ret option) \<Rightarrow> (Ret \<Rightarrow> 'r option) \<Rightarrow> string \<Rightarrow> 'r \<Rightarrow> bool" where
  "one_leader rpc decide leader r \<longleftrightarrow>
     (\<forall>t. \<exists>ret. rpc t leader = Some ret \<and> db_errorCode ret \<noteq> DB_NOT_LEADER \<and> decide ret = Some r)
     \<and> (\<forall>t addr. addr \<noteq> leader \<longrightarrow> rpc t addr = None
          \<or> (\<exists>ret. rpc t addr = Some ret \<and> db_errorCode ret = DB_NOT_LEADER \<and> db_leaderAddr ret = leader))"

lemma try_at_leader:
  assumes "one_leader rpc decide leader r" and "rdb_channel s = leader"
  shows "fst (try_servers rpc decide g (Suc k) b s) = r"
  using assms by (auto simp: one_leader_def dest!: spec [of _ k])

lemma try_redirected:
  assumes "one_leader rpc decide leader r" and "rdb_channel s \<noteq> leader" and "rpc (Suc k) (rdb_channel s) = Some ret"
  shows "fst (try_servers rpc decide g (Suc (Suc k)) b s) = r"
proof -
  have "db_errorCode ret = DB_NOT_LEADER" "db_leaderAddr ret = leader"
    using assms unfolding one_leader_def by (metis option.distinct(1) option.inject)+
  then show ?thesis
    using assms(3) try_at_leader [OF assms(1), of "updateChannel leader s" g k b]
    by (simp add: updateChannel_def)
qed

text \<open>Unless a server is down, the request is answered here or by the leader it names; else the next backup is tried.\<close>

lemma try_or_backup:
  assumes "one_leader rpc decide leader r"
  obtains (found) "fst (try_servers rpc decide g (Suc (Suc k)) b s) = r"
  | (backup) "rdb_channel s \<noteq> leader" "fst (try_servers rpc decide g (Suc (Suc k)) b s)
      = fst (try_servers rpc decide g (Suc k) (fst (next_backup b s)) (snd (next_backup b s)))"
proof (cases "rdb_channel s = leader \<or> rpc (Suc k) (rdb_channel s) \<noteq> None")
  case True
  then show ?thesis
    using try_at_leader [OF assms] try_redirected [OF assms] by (intro found) blast
next
  case False
  then show ?thesis
    by (intro backup) (simp_all add: case_prod_beta)
qed

lemma try_servers_leader:
  assumes lead: "one_leader rpc decide (db_addr info) r"
    and info: "om_find (rdb_serverInfo s) j = Some info"
    and ids: "\<forall>i. 0 \<le> i \<and> i < int (length (rdb_serverInfo s)) \<longrightarrow> om_find (rdb_serverInfo s) i \<noteq> None"
    and j: "j < int (length (rdb_serverInfo s))" and b: "0 \<le> b" "b \<le> j"
  shows "fst (try_servers rpc decide g (Suc (Suc (nat (j - b) + k))) b s) = r"
  using info ids j b
proof (induction "nat (j - b)" arbitrary: b s)
  case 0
  have "snd (next_backup b s) = updateChannel (db_addr info) s"
    using 0 by (simp add: next_backup_def updateChannel_def)
  then have "rdb_channel (snd (next_backup b s)) = db_addr info"
    by (simp add: updateChannel_def)
  then show ?case
    using try_at_leader [OF lead] by (cases rule: try_or_backup [OF lead, of g "nat (j - b) + k" b s]) simp_all
next
  case (Suc d)
  have lt: "b < j"
    using Suc.hyps(2) by simp
  obtain ib where "om_find (rdb_serverInfo s) b = Some ib"
    using Suc.prems lt by fastforce
  then have nb: "next_backup b s = (b + 1, updateChannel (db_addr ib) s)"
    using Suc.prems lt by (simp add: next_backup_def updateChannel_def)
  have n: "nat (j - b) + k = Suc (nat (j - (b + 1)) + k)"
    using lt by (simp add: nat_diff_distrib)
  have "fst (try_servers rpc decide g (Suc (Suc (nat (j - (b + 1)) + k))) (b + 1) (updateChannel (db_addr ib) s)) = r"
    using Suc.prems lt Suc.hyps(2) by (intro Suc.hyps(1)) (auto simp: updateChannel_def)
  then show ?case
    by (cases rule: try_or_backup [OF lead, of g "nat (j - b) + k" b s]) (simp_all add: nb n)
qed

section \<open>Properties\<close>

text \<open>C32. The client library finds the leader: if the configured identifiers are 0, 1, 2, \<dots>, one of
  fewer than 999 servers leads and answers, and every other server is down or names the leader, then
  \<open>get\<close> returns the leader's answer.\<close>

theorem get_finds_leader:
  assumes lead: "one_leader (\<lambda>t addr. OhMyDBClient_Get (stub t addr) key) get_decide (db_addr info) r"
    and info: "om_find (rdb_serverInfo s) j = Some info"
    and ids: "\<forall>i. 0 \<le> i \<and> i < int (length (rdb_serverInfo s)) \<longrightarrow> om_find (rdb_serverInfo s) i \<noteq> None"
    and j: "0 \<le> j" "j < int (length (rdb_serverInfo s))" and num: "length (rdb_serverInfo s) < 999"
  shows "fst (ReplicatedDB_get stub key s) = r"
proof -
  have "nat (j - 0) + 2 \<le> MAX_TRIES"
    using j num by (simp add: MAX_TRIES_def)
  then obtain k where "MAX_TRIES = Suc (Suc (nat (j - 0) + k))"
    by (metis add_2_eq_Suc' le_Suc_ex add_Suc_right add_Suc)
  then show ?thesis
    using try_servers_leader [OF lead info ids j(2) _ j(1), of None k] by (simp add: ReplicatedDB_get_def)
qed

theorem get_finds_leader_witness:
  "fst (ReplicatedDB_get (\<lambda>t addr key. if addr = db_addr (server_at 2) then Some \<lparr>grsp_error_code = 0, grsp_leader_addr = [], grsp_value = 8\<rparr> else None)
     3 (ReplicatedDB_init config3)) = Some 8"
proof (rule get_finds_leader [where info = "server_at 2" and j = 2])
  show "one_leader (\<lambda>t addr. OhMyDBClient_Get (\<lambda>key. if addr = db_addr (server_at 2) then Some \<lparr>grsp_error_code = 0, grsp_leader_addr = [], grsp_value = 8\<rparr> else None) 3)
      get_decide (db_addr (server_at 2)) (Some 8)"
    by (auto simp: one_leader_def OhMyDBClient_Get_def DbError_of_int_def get_decide_def)
  show "\<forall>i. 0 \<le> i \<and> i < int (length (rdb_serverInfo (ReplicatedDB_init config3))) \<longrightarrow> om_find (rdb_serverInfo (ReplicatedDB_init config3)) i \<noteq> None"
    by (auto simp: ReplicatedDB_init_def config3_def)
qed (simp_all add: ReplicatedDB_init_def config3_def)

text \<open>C39. \<open>put\<close> reports success whenever a server answers without an error, even when the replica
  reports that the write was aborted: the result of the write is not in the response, and the value -1
  the client fills in counts as true.\<close>

theorem put_reports_aborted_write:
  assumes fin: "put_finish (ResBool b) = Inr ret"
    and stub: "stub (MAX_TRIES - 1) (rdb_channel s) (fst kvp) (snd kvp) = Some (OhMyDBService_Put ret)"
  shows "fst (ReplicatedDB_put stub kvp s) = True"
proof -
  have r: "ret = \<lparr>db_errorCode = DB_OK, db_leaderAddr = [], db_value = (if b then 1 else 0)\<rparr>"
    using fin by simp
  have m: "MAX_TRIES = Suc (MAX_TRIES - 1)"
    by (simp add: MAX_TRIES_def)
  show ?thesis
    unfolding ReplicatedDB_put_def
    by (subst m) (use stub in \<open>simp add: r OhMyDBClient_Put_def OhMyDBService_Put_def DbError_of_int_def put_decide_def\<close>)
qed

theorem put_reports_aborted_write_witness:
  "put_finish (ResBool False) = Inr \<lparr>db_errorCode = DB_OK, db_leaderAddr = [], db_value = 0\<rparr>
   \<and> fst (ReplicatedDB_put (\<lambda>t addr k v. Some (OhMyDBService_Put \<lparr>db_errorCode = DB_OK, db_leaderAddr = [], db_value = 0\<rparr>)) (1, 2) (ReplicatedDB_init config3))"
  using put_reports_aborted_write [of False "\<lparr>db_errorCode = DB_OK, db_leaderAddr = [], db_value = 0\<rparr>"] by simp

end
