(* ===== verification/Admin.thy ===== *)
theory Admin
  imports RaftServiceImpl
begin

text \<open>
  \<open>ohmyserver/admin.cpp\<close>: the administration tool that asks the cluster to add or remove a server and
  rewrites the configuration file, and \<open>ohmyserver/updatemask.cpp\<close>, which splits a cluster into two
  partitions. \<open>call t addr\<close> is the answer of the server at \<open>addr\<close> to the request sent when \<open>t\<close> tries
  are left. The two retry loops have the same shape and differ in their \<open>switch\<close>, the argument
  \<open>decide\<close>. \<open>admin_main\<close> starts from the parsed values; the command lines are in theory
  \<open>CommandLine\<close>.
\<close>

section \<open>The retry loops\<close>

datatype decision =
    Finish bool          \<comment> \<open>return the value\<close>
  | Redirect string      \<comment> \<open>ask the server at this address next\<close>
  | Again                \<comment> \<open>ask the same server again\<close>
  | Never                \<comment> \<open>\<open>__builtin_unreachable()\<close>\<close>

record admin =
  ad_servers :: "(int, ServerInfo) omap"
  ad_client :: string

definition raft_addr :: "ServerInfo \<Rightarrow> string" where
  "raft_addr s = c_str (si_ip s) @ '':'' @ to_string (raft_port s)"

definition Admin_init :: "(int, ServerInfo) omap \<Rightarrow> admin" where
  "Admin_init servers = \<lparr>ad_servers = servers, ad_client = ''10.10.1.1:1234''\<rparr>"

definition SwitchClient_id :: "int \<Rightarrow> admin \<Rightarrow> admin" where
  "SwitchClient_id server_id ad =
     (case om_at ServerInfo_zero (ad_servers ad) server_id of
        (info, servers) \<Rightarrow> ad\<lparr>ad_servers := servers, ad_client := raft_addr info\<rparr>)"

definition SwitchClient_addr :: "string \<Rightarrow> admin \<Rightarrow> admin" where
  "SwitchClient_addr addr ad = ad\<lparr>ad_client := addr\<rparr>"

fun admin_loop :: "(nat \<Rightarrow> string \<Rightarrow> MembershipRet option) \<Rightarrow> (MembershipRet \<Rightarrow> decision)
    \<Rightarrow> nat \<Rightarrow> int \<Rightarrow> admin \<Rightarrow> (bool \<times> admin) res" where
  "admin_loop call decide 0 server_id ad = Inr (False, ad)"
| "admin_loop call decide (Suc iters) server_id ad =
     (case call iters (ad_client ad) of
        None \<Rightarrow>
          if server_id + 1 \<ge> int (length (ad_servers ad)) then Inr (False, ad)
          else admin_loop call decide iters (server_id + 1) (SwitchClient_id (server_id + 1) ad)
      | Some ret \<Rightarrow>
          (case decide ret of
             Finish b \<Rightarrow> Inr (b, ad)
           | Redirect addr \<Rightarrow> admin_loop call decide iters server_id (SwitchClient_addr addr ad)
           | Again \<Rightarrow> admin_loop call decide iters server_id ad
           | Never \<Rightarrow> Inl Unreachable))"

definition add_decide :: "MembershipRet \<Rightarrow> decision" where
  "add_decide ret =
     (case errorCode ret of
        OK \<Rightarrow> Finish True
      | NOT_LEADER \<Rightarrow> Redirect (leaderAddr ret)
      | PREV_NOT_COMMITTED_TIMEOUT \<Rightarrow> Again
      | CUR_NOT_COMMITTED_TIMEOUT \<Rightarrow> Again
      | SERVER_EXISTS \<Rightarrow> Finish True
      | SERVER_NOT_FOUND \<Rightarrow> Never
      | OTHER \<Rightarrow> Again
      | Unknown_Code _ \<Rightarrow> Again)"

definition remove_decide :: "MembershipRet \<Rightarrow> decision" where
  "remove_decide ret =
     (case errorCode ret of
        OK \<Rightarrow> Finish True
      | NOT_LEADER \<Rightarrow> Redirect (leaderAddr ret)
      | PREV_NOT_COMMITTED_TIMEOUT \<Rightarrow> Again
      | CUR_NOT_COMMITTED_TIMEOUT \<Rightarrow> Again
      | SERVER_NOT_FOUND \<Rightarrow> Finish False
      | SERVER_EXISTS \<Rightarrow> Never
      | OTHER \<Rightarrow> Again
      | Unknown_Code _ \<Rightarrow> Again)"

definition admin_tries :: nat where
  "admin_tries = 1000"

definition add_params :: "int \<Rightarrow> string \<Rightarrow> int \<Rightarrow> int \<Rightarrow> string \<Rightarrow> AddServerParams res" where
  "add_params sid ip dbPort raftPort name =
     rbind (strcpy (replicate 20 NUL) ip) (\<lambda>ip'.
     rbind (strcpy (replicate 20 NUL) name) (\<lambda>name'.
     Inr \<lparr>as_serverId = sid, as_ip = ip', as_raftPort = raftPort, as_dbPort = dbPort, as_name = name'\<rparr>))"

definition Admin_AddServer :: "(string \<Rightarrow> int \<Rightarrow> int option) \<Rightarrow> (nat \<Rightarrow> string \<Rightarrow> AddServerRequest \<Rightarrow> MembershipResponse option)
    \<Rightarrow> int \<Rightarrow> string \<Rightarrow> int \<Rightarrow> int \<Rightarrow> string \<Rightarrow> admin \<Rightarrow> (bool \<times> admin) res" where
  "Admin_AddServer ping stub sid ip dbPort raftPort name ad =
     (let ad1 = SwitchClient_addr (ip @ '':'' @ to_string raftPort) ad in
      if RaftClient_Ping (ping (ad_client ad1)) 1 < 0 then Inr (False, ad1)
      else rbind (add_params sid ip dbPort raftPort name) (\<lambda>param.
        admin_loop (\<lambda>t addr. RaftClient_AddServer (stub t addr) param) add_decide admin_tries 0 (SwitchClient_id 0 ad1)))"

definition Admin_RemoveServer :: "(nat \<Rightarrow> string \<Rightarrow> RemoveServerRequest \<Rightarrow> MembershipResponse option)
    \<Rightarrow> int \<Rightarrow> admin \<Rightarrow> (bool \<times> admin) res" where
  "Admin_RemoveServer stub sid ad =
     admin_loop (\<lambda>t addr. RaftClient_RemoveServer (stub t addr) \<lparr>rs_serverId = sid\<rparr>) remove_decide admin_tries 0
       (SwitchClient_id 0 ad)"

section \<open>The configuration file\<close>

definition config_row :: "ServerInfo \<Rightarrow> string" where
  "config_row s =
     to_string (si_id s) @ '','' @ c_str (si_name s) @ '','' @ c_str (si_ip s) @ '','' @ to_string (raft_port s)
       @ '','' @ to_string (db_port s)"

definition WriteConfig :: "(int, ServerInfo) omap \<Rightarrow> string" where
  "WriteConfig servers =
     ''id,name,intf_ip,raft_port,db_port'' @ [CHR ''\<newline>'']
       @ concat (map (\<lambda>(i, s). config_row s @ [CHR ''\<newline>'']) servers)"

datatype admin_op = Op_add | Op_rm

definition admin_main :: "(nat \<Rightarrow> ServerInfo) \<Rightarrow> (string \<Rightarrow> int \<Rightarrow> int option)
    \<Rightarrow> (nat \<Rightarrow> string \<Rightarrow> AddServerRequest \<Rightarrow> MembershipResponse option)
    \<Rightarrow> (nat \<Rightarrow> string \<Rightarrow> RemoveServerRequest \<Rightarrow> MembershipResponse option)
    \<Rightarrow> admin_op \<Rightarrow> int \<Rightarrow> string \<Rightarrow> int \<Rightarrow> int \<Rightarrow> string \<Rightarrow> string \<Rightarrow> string res" where
  "admin_main junk ping addStub rmStub op sid ip raftPort dbPort name config =
     rbind (ParseConfig junk config) (\<lambda>servers.
       case op of
         Op_add \<Rightarrow>
           rbind (Admin_AddServer ping addStub sid ip dbPort raftPort name (Admin_init servers)) (\<lambda>(ret, _).
             if ret then
               rbind (strcpy (replicate 20 NUL) ip) (\<lambda>ip'.
               rbind (strcpy (replicate 25 NUL) name) (\<lambda>name'.
               Inr (WriteConfig (om_put sid \<lparr>si_id = sid, si_ip = ip', raft_port = raftPort, db_port = dbPort, si_name = name'\<rparr> servers))))
             else Inr config)
       | Op_rm \<Rightarrow>
           rbind (Admin_RemoveServer rmStub sid (Admin_init servers)) (\<lambda>(ret, _).
             if ret then Inr (WriteConfig (om_erase sid servers)) else Inr config))"

section \<open>Partitions\<close>

text \<open>
  \<open>partition_vectors opCfg num\<close>: for each of the two partitions its members and the configuration
  vector sent to them. The character 1 puts a replica into partition 1, any other into partition 0.
\<close>

definition mask_id :: "char \<Rightarrow> nat" where
  "mask_id c = (if (of_char c :: int) - 48 = 1 then 1 else 0)"

fun partition_loop :: "int \<Rightarrow> string \<Rightarrow> (nat \<Rightarrow> int list \<times> PeerNetworkConfig list) \<Rightarrow> nat \<Rightarrow> int list \<times> PeerNetworkConfig list" where
  "partition_loop i [] acc = acc"
| "partition_loop i (c # cs) acc =
     (let p = mask_id c; q = 1 - p;
          off = \<lparr>pn_peerId = i, pn_isEnabled = False, pn_isDelayed = False, pn_delayMs = 0\<rparr>;
          on = \<lparr>pn_peerId = i, pn_isEnabled = True, pn_isDelayed = False, pn_delayMs = 0\<rparr>;
          acc1 = acc(p := (fst (acc p) @ [i], snd (acc p)));
          acc2 = acc1(q := (fst (acc1 q), snd (acc1 q) @ [off]));
          acc3 = acc2(p := (fst (acc2 p), snd (acc2 p) @ [on]))
      in partition_loop (i + 1) cs acc3)"

definition partition_vectors :: "string \<Rightarrow> nat \<Rightarrow> nat \<Rightarrow> int list \<times> PeerNetworkConfig list" where
  "partition_vectors opCfg num = partition_loop 0 (take (min (length opCfg) num) opCfg) (\<lambda>_. ([], []))"

text \<open>
  The tool itself. Its first loop makes a client for \<open>servers[0]\<close>, \<open>servers[1]\<close> and so on; a missing
  identifier is inserted by \<open>operator[]\<close>, which also makes the map larger, so that the loop need not
  end: \<open>mask_clients\<close> gives nothing then. The result is the requests sent, with their addresses.
\<close>

partial_function (option) mask_clients :: "(int, ServerInfo) omap \<Rightarrow> (int, string) omap \<Rightarrow> nat
    \<Rightarrow> ((int, string) omap \<times> (int, ServerInfo) omap) option" where
  "mask_clients servers clients i =
     (if i < length servers
      then (case om_at ServerInfo_zero servers (int i) of
              (info, servers') \<Rightarrow> mask_clients servers' (om_put (int i) (raft_addr info) clients) (Suc i))
      else Some (clients, servers))"

definition mask_send :: "(int, string) omap \<Rightarrow> int \<Rightarrow> PeerNetworkConfig list \<Rightarrow> (string \<times> NetworkUpdateRequest) res" where
  "mask_send clients peerId pVec =
     (case om_find clients peerId of
        None \<Rightarrow> Inl Null_Pointer
      | Some addr \<Rightarrow> Inr (addr, RaftClient_NetworkUpdate pVec))"

definition updatemask :: "(int, ServerInfo) omap \<Rightarrow> string \<Rightarrow> (string \<times> NetworkUpdateRequest) list res option" where
  "updatemask servers opCfg =
     (case mask_clients servers [] 0 of
        None \<Rightarrow> None
      | Some (clients, servers') \<Rightarrow>
          let vecs = partition_vectors opCfg (length servers') in
          Some (res_map (\<lambda>(peerId, pVec). mask_send clients peerId pVec)
            (concat (map (\<lambda>pid. map (\<lambda>peerId. (peerId, snd (vecs pid))) (fst (vecs pid))) [0, 1]))))"

section \<open>The loops end with an answer\<close>

lemma add_decide_cases: "decision.Finish b = add_decide ret \<Longrightarrow> b \<and> (errorCode ret = OK \<or> errorCode ret = SERVER_EXISTS)"
  by (auto simp: add_decide_def split: ErrorCode.splits)

lemma admin_loop_confirmed:
  assumes "admin_loop call decide k sid ad = Inr (True, ad')"
  shows "\<exists>t addr ret. t < k \<and> call t addr = Some ret \<and> decide ret = Finish True"
  using assms
proof (induction k arbitrary: sid ad)
  case (Suc k)
  show ?case
  proof (cases "call k (ad_client ad)")
    case None
    then show ?thesis
      using Suc.prems by (auto split: if_splits dest!: Suc.IH intro: less_SucI)
  next
    case (Some ret)
    then show ?thesis
      using Suc.prems by (cases "decide ret") (auto dest!: Suc.IH intro: less_SucI)
  qed
qed simp

lemma admin_loop_fault:
  assumes "admin_loop call decide k sid ad = Inl f"
  shows "f = Unreachable \<and> (\<exists>t addr ret. t < k \<and> call t addr = Some ret \<and> decide ret = Never)"
  using assms
proof (induction k arbitrary: sid ad)
  case (Suc k)
  show ?case
  proof (cases "call k (ad_client ad)")
    case None
    then show ?thesis
      using Suc.prems by (auto split: if_splits dest!: Suc.IH intro: less_SucI)
  next
    case (Some ret)
    then show ?thesis
      using Suc.prems by (cases "decide ret") (auto dest!: Suc.IH intro: less_SucI)
  qed
qed simp

section \<open>Reading back a written configuration\<close>

lemma config_row_tokens:
  assumes "csv_server s"
  shows "getline_split CHR '','' (config_row s) =
    [to_string (si_id s), c_str (si_name s), c_str (si_ip s), to_string (raft_port s), to_string (db_port s)]"
proof -
  have "CHR '','' \<notin> set (to_string i)" for i
    using csv_field_to_string [of i] by (simp add: csv_field_def)
  moreover have "CHR '','' \<notin> set (c_str (si_name s))" "CHR '','' \<notin> set (c_str (si_ip s))"
    using assms by (simp_all add: csv_server_def csv_field_def)
  ultimately show ?thesis
    by (simp add: config_row_def getline_split_delim getline_split_last)
qed

lemma config_row_line: "csv_server s \<Longrightarrow> CHR ''\<newline>'' \<notin> set (config_row s) \<and> config_row s \<noteq> []"
  using csv_field_to_string by (auto simp: config_row_def csv_server_def csv_field_def)

text \<open>Two configurations with the same servers, up to the bytes behind string terminators.\<close>

definition same_config :: "(int, ServerInfo) omap \<Rightarrow> (int, ServerInfo) omap \<Rightarrow> bool" where
  "same_config m m' \<longleftrightarrow> list_all2 (\<lambda>(i, s) (j, t). i = j \<and> same_server s t) m m'"

lemma om_put_last: "\<forall>k' \<in> fst ` set m. k' < k \<Longrightarrow> om_put k v m = m @ [(k, v)]"
  by (induction m) auto

lemma same_config_keys: "same_config m m' \<Longrightarrow> map fst m = map fst m'"
  unfolding same_config_def by (induction rule: list_all2_induct) auto

lemma same_config_snoc: "same_config m m' \<Longrightarrow> same_server s t \<Longrightarrow> same_config (m @ [(i, s)]) (m' @ [(i, t)])"
  by (simp add: same_config_def list_all2_appendI)

definition config_ok :: "(int, ServerInfo) omap \<Rightarrow> bool" where
  "config_ok servers \<longleftrightarrow> om_ok servers \<and> list_all (\<lambda>(i, s). i = si_id s \<and> csv_server s) servers"

lemma parse_rows_written:
  assumes junk: "\<forall>i. length (si_ip (junk i)) = 20 \<and> length (si_name (junk i)) = 25"
    and "om_ok (done @ rest)" and "list_all (\<lambda>(i, s). i = si_id s \<and> csv_server s) rest" and "same_config done acc"
  shows "\<exists>m'. parse_rows (read_header (getline_split CHR '','' config_header)) cntr junk
      (map (\<lambda>(i, s). getline_split CHR '','' (config_row s)) rest) acc = Inr m' \<and> same_config (done @ rest) m'"
  using assms(2-)
proof (induction rest arbitrary: "done" acc cntr)
  case (Cons p rest)
  obtain i s where p: "p = (i, s)" by (cases p)
  have s: "csv_server s" "i = si_id s"
    using Cons.prems(2) by (simp_all add: p)
  obtain s' where s': "parse_server (read_header (getline_split CHR '','' config_header)) cntr (junk cntr)
      (getline_split CHR '','' (config_row s)) = Inr s'" "same_server s s'"
    using parse_server_row [OF s(1), of "junk cntr" cntr] junk config_row_tokens [OF s(1)] by auto
  have "\<forall>k \<in> fst ` set acc. k < i"
    unfolding set_map [symmetric] same_config_keys [OF Cons.prems(3), symmetric]
    using Cons.prems(1) unfolding om_ok_def p map_append sorted_wrt_append by simp
  then have "om_put (si_id s') s' acc = acc @ [(i, s')]"
    using s'(2) s(2) om_put_last by (simp add: same_server_def)
  then show ?case
    using Cons.IH [of "done @ [(i, s)]" "acc @ [(i, s')]" "Suc cntr"] Cons.prems same_config_snoc s'
    by (simp add: p)
qed auto

lemma WriteConfig_tokens:
  assumes "list_all (\<lambda>(i, s). i = si_id s \<and> csv_server s) servers"
  shows "TokenizeCSV (WriteConfig servers) =
    \<lparr>header = read_header (getline_split CHR '','' config_header),
     tokensByRow = map (\<lambda>(i, s). getline_split CHR '','' (config_row s)) servers\<rparr>"
proof -
  let ?rows = "map (\<lambda>(i, s). config_row s) servers"
  have rows: "list_all (\<lambda>l. CHR ''\<newline>'' \<notin> set l) ?rows" "list_all (\<lambda>l. l \<noteq> []) ?rows"
    using assms config_row_line by (induction servers) auto
  have w: "WriteConfig servers = concat (map (\<lambda>l. l @ [CHR ''\<newline>'']) (config_header # ?rows))"
    by (simp add: WriteConfig_def config_header_def) (induction servers; auto)
  have "getline_split CHR ''\<newline>'' (WriteConfig servers) = config_header # ?rows"
    unfolding w by (rule getline_split_lines) (use rows in \<open>simp add: config_header_def\<close>)
  moreover have "takeWhile (\<lambda>l. l \<noteq> []) ?rows = ?rows"
    using rows(2) by (simp add: takeWhile_eq_all_conv list_all_iff)
  ultimately have "csv_lines (WriteConfig servers) = (config_header, ?rows)"
    unfolding csv_lines_def by (simp only: list.case)
  then show ?thesis
    by (simp add: TokenizeCSV_def comp_def case_prod_beta)
qed

lemma ParseConfig_WriteConfig:
  assumes "config_ok servers" and "\<forall>i. length (si_ip (junk i)) = 20 \<and> length (si_name (junk i)) = 25"
  shows "\<exists>m'. ParseConfig junk (WriteConfig servers) = Inr m' \<and> same_config servers m'"
  using parse_rows_written [OF assms(2), of "[]" servers "[]" 0] WriteConfig_tokens [of servers] assms(1)
  by (simp add: config_ok_def ParseConfig_def same_config_def)

section \<open>The two partitions\<close>

lemma partition_loop_state:
  "\<forall>p < 2. fst (partition_loop i cs acc p) = fst (acc p) @ map (\<lambda>k. i + int k) (filter (\<lambda>k. mask_id (cs ! k) = p) [0..<length cs])
    \<and> snd (partition_loop i cs acc p) = snd (acc p)
      @ map (\<lambda>k. \<lparr>pn_peerId = i + int k, pn_isEnabled = (mask_id (cs ! k) = p), pn_isDelayed = False, pn_delayMs = 0\<rparr>) [0..<length cs]"
proof (induction cs arbitrary: i acc)
  case (Cons c cs)
  have upt: "[0..<Suc (length cs)] = 0 # map Suc [0..<length cs]"
    by (simp add: map_Suc_upt upt_conv_Cons del: upt_Suc)
  have p: "mask_id c = 0 \<or> mask_id c = 1" "q < 2 \<Longrightarrow> q = 0 \<or> q = 1" for q :: nat
    by (auto simp: mask_id_def)
  show ?case
    using p(1)
    by (auto simp: Let_def upt Cons.IH filter_map comp_def algebra_simps simp del: upt_Suc dest!: p(2))
qed simp

text \<open>The switches of a link in a request of the partition tool.\<close>

definition link :: "nat \<Rightarrow> bool \<Rightarrow> PeerNetworkConfig" where
  "link j up = \<lparr>pn_peerId = int j, pn_isEnabled = up, pn_isDelayed = False, pn_delayMs = 0\<rparr>"

lemma partition_sides:
  assumes "p < 2" and "num \<le> length opCfg"
  shows "snd (partition_vectors opCfg num p) = map (\<lambda>j. link j (mask_id (opCfg ! j) = p)) [0..<num]
    \<and> fst (partition_vectors opCfg num p) = map int (filter (\<lambda>k. mask_id (opCfg ! k) = p) [0..<num])"
proof -
  have "filter (\<lambda>k. mask_id (take num opCfg ! k) = p) [0..<num] = filter (\<lambda>k. mask_id (opCfg ! k) = p) [0..<num]"
    by (rule filter_cong) auto
  then show ?thesis
    using partition_loop_state [of 0 "take num opCfg" "\<lambda>_. ([], [])"] assms
    by (auto simp: partition_vectors_def min_def link_def)
qed

lemma mask_clients_done:
  assumes "om_keys servers = map int [0..<length servers]"
  shows "\<exists>ps. mask_clients servers clients i = Some (ps, servers)
    \<and> (\<forall>j. om_find ps j = (if int i \<le> j \<and> j < int (length servers) then Some (raft_addr (snd (servers ! nat j))) else om_find clients j))"
proof (induction "length servers - i" arbitrary: i clients)
  case 0
  then show ?case
    by (subst mask_clients.simps) auto
next
  case (Suc d)
  then have i: "i < length servers" and d: "d = length servers - Suc i"
    by simp_all
  have "om_ok servers"
    using assms by (simp add: om_ok_def om_keys_def sorted_wrt_map)
  moreover have "fst (servers ! i) = int i"
    using arg_cong [OF assms, of "\<lambda>xs. xs ! i"] i by (simp add: om_keys_def)
  then have "(int i, snd (servers ! i)) \<in> set servers"
    using i by (metis nth_mem prod.collapse)
  ultimately have at: "om_at ServerInfo_zero servers (int i) = (snd (servers ! i), servers)"
    by (simp add: om_find_mem)
  obtain ps where ps: "mask_clients servers (om_put (int i) (raft_addr (snd (servers ! i))) clients) (Suc i) = Some (ps, servers)"
    "\<forall>j. om_find ps j = (if int (Suc i) \<le> j \<and> j < int (length servers) then Some (raft_addr (snd (servers ! nat j)))
        else om_find (om_put (int i) (raft_addr (snd (servers ! i))) clients) j)"
    using Suc.hyps(1) [OF d, of "om_put (int i) (raft_addr (snd (servers ! i))) clients"] by blast
  then show ?case
    using i at by (subst mask_clients.simps) auto
qed

section \<open>Properties\<close>

text \<open>C33. A configuration survives the file: for servers whose fields hold no comma or line break, with
  addresses below 20 and names of at most 20 characters, \<open>ParseConfig\<close> reads from what \<open>WriteConfig\<close>
  writes the same servers in the same order, up to the bytes behind string terminators.\<close>

theorem config_roundtrip:
  assumes "config_ok servers" and "\<forall>i. length (si_ip (junk i)) = 20 \<and> length (si_name (junk i)) = 25"
  shows "\<exists>m'. ParseConfig junk (WriteConfig servers) = Inr m' \<and> same_config servers m'"
  using assms by (rule ParseConfig_WriteConfig)

theorem config_roundtrip_witness:
  "\<exists>m'. ParseConfig (\<lambda>_. ServerInfo_zero) (WriteConfig config3) = Inr m' \<and> same_config config3 m'"
proof (rule config_roundtrip)
  show "config_ok config3"
    by (simp add: config_ok_def config3_def server_at_def csv_server_def csv_field_def ServerInfo_zero_def c_str_def i32_ok_def)
qed (simp add: ServerInfo_zero_def)

text \<open>\<open>Admin::AddServer\<close> answers true only if the address and the name fit their arrays and one of its
  at most 1000 requests, sent with the parameters of the caller, was answered with the change committed
  or the server already a member.\<close>

lemma add_confirmed:
  assumes "Admin_AddServer ping stub sid ip dbPort raftPort name ad = Inr (True, ad')"
  shows "\<exists>t addr param ret. t < 1000 \<and> add_params sid ip dbPort raftPort name = Inr param
    \<and> RaftClient_AddServer (stub t addr) param = Some ret \<and> (errorCode ret = OK \<or> errorCode ret = SERVER_EXISTS)"
proof -
  obtain param ad1 where p: "add_params sid ip dbPort raftPort name = Inr param"
      and l: "admin_loop (\<lambda>t addr. RaftClient_AddServer (stub t addr) param) add_decide admin_tries 0 ad1 = Inr (True, ad')"
    using assms by (auto simp: Admin_AddServer_def Let_def elim!: rbind_Inr_E split: if_splits)
  then obtain t addr ret where "t < admin_tries" "RaftClient_AddServer (stub t addr) param = Some ret" "add_decide ret = Finish True"
    using admin_loop_confirmed [OF l] by blast
  then show ?thesis
    using p add_decide_cases [of True ret] by (auto simp: admin_tries_def)
qed

lemma admin_loop_at_once: "decide ret = Finish b \<Longrightarrow> admin_loop (\<lambda>t addr. Some ret) decide admin_tries i ad = Inr (b, ad)"
proof -
  have t: "admin_tries = Suc 999"
    by (simp add: admin_tries_def)
  assume "decide ret = Finish b"
  then show ?thesis
    unfolding t admin_loop.simps by simp
qed

text \<open>C34. The partition tool cuts the cluster in two: for servers numbered from 0 and a character for each
  of them, it ends and sends one request to every server, first to those of partition 0; the request
  lists all replicas in order and enables exactly those on the side of its receiver.\<close>

theorem partition_separates:
  assumes "om_keys servers = map int [0..<length servers]" and "length servers \<le> length opCfg"
  shows "updatemask servers opCfg = Some (Inr (map (\<lambda>k. (raft_addr (snd (servers ! k)),
      RaftClient_NetworkUpdate (map (\<lambda>j. link j (mask_id (opCfg ! j) = mask_id (opCfg ! k))) [0..<length servers])))
    (filter (\<lambda>k. mask_id (opCfg ! k) = 0) [0..<length servers] @ filter (\<lambda>k. mask_id (opCfg ! k) = 1) [0..<length servers])))"
proof -
  obtain ps where m: "mask_clients servers [] 0 = Some (ps, servers)"
    and ps: "\<forall>k < length servers. om_find ps (int k) = Some (raft_addr (snd (servers ! k)))"
    using mask_clients_done [OF assms(1), of "[]" 0] by auto
  have f: "res_map (\<lambda>(peerId, pVec). mask_send ps peerId pVec) (map (\<lambda>k. (int k, vec k)) ks)
      = Inr (map (\<lambda>k. (raft_addr (snd (servers ! k)), RaftClient_NetworkUpdate (vec k))) ks)"
    if "\<forall>k \<in> set ks. k < length servers" for ks vec
    using that ps by (induction ks) (simp_all add: mask_send_def)
  let ?vec = "\<lambda>k. map (\<lambda>j. link j (mask_id (opCfg ! j) = mask_id (opCfg ! k))) [0..<length servers]"
  have side: "map (\<lambda>peerId. (peerId, snd (partition_vectors opCfg (length servers) p))) (fst (partition_vectors opCfg (length servers) p))
      = map (\<lambda>k. (int k, ?vec k)) (filter (\<lambda>k. mask_id (opCfg ! k) = p) [0..<length servers])" if "p < 2" for p
    using partition_sides [OF that assms(2)] by (simp add: comp_def cong: map_cong)
  have all: "concat (map (\<lambda>pid. map (\<lambda>peerId. (peerId, snd (partition_vectors opCfg (length servers) pid)))
        (fst (partition_vectors opCfg (length servers) pid))) [0, 1])
      = map (\<lambda>k. (int k, ?vec k)) (filter (\<lambda>k. mask_id (opCfg ! k) = 0) [0..<length servers]
          @ filter (\<lambda>k. mask_id (opCfg ! k) = 1) [0..<length servers])"
    using side [of 0] side [of 1] by simp
  show ?thesis
    unfolding updatemask_def m option.case prod.case Let_def all by (subst f) auto
qed

theorem partition_separates_witness:
  "updatemask [(0, server_at 0), (1, server_at 1)] ''10'' = Some (Inr
     [(raft_addr (server_at 1), RaftClient_NetworkUpdate [link 0 False, link 1 True]),
      (raft_addr (server_at 0), RaftClient_NetworkUpdate [link 0 True, link 1 False])])"
proof -
  have "om_keys [(0 :: int, server_at 0), (1, server_at 1)] = map int [0..<length [(0 :: int, server_at 0), (1, server_at 1)]]"
    by (simp add: om_keys_def)
  note r = partition_separates [OF this, of "''10''"]
  have m: "mask_id (CHR ''1'') = 1" "mask_id (CHR ''0'') = 0"
    by (simp_all add: mask_id_def)
  show ?thesis
    using r by (simp add: m upt_rec)
qed

end
