(* ===== verification/WowLogger.thy ===== *)
theory WowLogger
  imports Layout
begin

text \<open>
  \<open>wowUtils/WowLogger.H\<close>: the line a log call writes to the log file and to the console, and the
  compile-time function that cuts the directory off a source path. The macros \<open>LogInfo\<close>, \<open>LogWarn\<close> and
  \<open>LogError\<close> pass the path and the line of the call.
\<close>

record log_output =
  log_file :: string
  log_console :: string

definition LogBasic :: "string \<Rightarrow> string \<Rightarrow> int \<Rightarrow> string \<Rightarrow> log_output \<Rightarrow> log_output" where
  "LogBasic knd filename line str out =
     (let l = knd @ '' ['' @ filename @ '':'' @ to_string line @ ''] '' @ str @ [CHR 10]
      in out\<lparr>log_file := log_file out @ l, log_console := log_console out @ l\<rparr>)"

fun filename_from :: "string \<Rightarrow> string \<Rightarrow> string" where
  "filename_from f [] = f"
| "filename_from f (c # path) = filename_from (if c = CHR ''/'' then path else f) path"

definition filename :: "string \<Rightarrow> string" where
  "filename path = filename_from path path"

definition Log_Info :: "string \<Rightarrow> int \<Rightarrow> string \<Rightarrow> log_output \<Rightarrow> log_output" where
  "Log_Info f line str out = LogBasic ''INFO'' f line str out"

definition Log_Warn :: "string \<Rightarrow> int \<Rightarrow> string \<Rightarrow> log_output \<Rightarrow> log_output" where
  "Log_Warn f line str out = LogBasic ''WARN'' f line str out"

definition Log_Error :: "string \<Rightarrow> int \<Rightarrow> string \<Rightarrow> log_output \<Rightarrow> log_output" where
  "Log_Error f line str out = LogBasic ''ERROR'' f line str out"

text \<open>The file name is what stands behind the last slash, or the whole path if there is none.\<close>

lemma filename_from_no_slash: "CHR ''/'' \<notin> set path \<Longrightarrow> filename_from f path = f"
  by (induction path arbitrary: f) auto

lemma filename_from_slash: "CHR ''/'' \<notin> set base \<Longrightarrow> filename_from f (dir @ CHR ''/'' # base) = base"
  by (induction dir arbitrary: f) (auto simp: filename_from_no_slash)

lemma filename_base:
  "CHR ''/'' \<notin> set base \<Longrightarrow> filename base = base"
  "CHR ''/'' \<notin> set base \<Longrightarrow> filename (dir @ CHR ''/'' # base) = base"
  by (simp_all add: filename_def filename_from_no_slash filename_from_slash)

lemma filename_suffix:
  "CHR ''/'' \<notin> set (filename path) \<and> (filename path = path \<or> (\<exists>dir. path = dir @ CHR ''/'' # filename path))"
proof (cases "CHR ''/'' \<in> set path")
  case True
  then obtain dir base where "path = dir @ CHR ''/'' # base" "CHR ''/'' \<notin> set base"
    by (meson split_list_last)
  then show ?thesis
    using filename_base(2) [of base dir] by auto
qed (simp add: filename_base)

end
