(* ===== verification/Programs.thy ===== *)
theory Programs
  imports NodeMachine ReplicatedDB Admin WowLogger
begin

text \<open>
  The programs of \<open>ohmyserver\<close> beside the tools: the replica (\<open>replica.cpp\<close>), the benchmark client
  (\<open>client.cpp\<close>) and the two early servers (\<open>server_naive.cpp\<close>, \<open>server.cpp\<close>). The values of
  the arguments are given; the command lines are in theory \<open>CommandLine\<close>. Clocks, \<open>rand()\<close>, sockets, LevelDB and the answers of
  pings are parameters.
\<close>

section \<open>The replica\<close>

record replica_args =
  arg_id :: string
  arg_storedir :: string
  arg_bootstrap :: bool
  arg_addedNode :: bool
  arg_ip :: string
  arg_raft_port :: string
  arg_db_port :: string
  arg_quicktest :: bool

text \<open>
  \<open>main\<close> of \<open>replica.cpp\<close> up to the start of the loops; \<open>conf\<close> is the contents of the configuration
  file. Printing the server's own details looks it up with \<open>operator[]\<close>, which adds an empty entry when
  the configuration has none; a node that joins a running cluster skips the printing. No result means
  that the replica waits for its peers forever.
\<close>

definition replica_main :: "(nat \<Rightarrow> ServerInfo) \<Rightarrow> string \<Rightarrow> replica_args \<Rightarrow> (nat \<Rightarrow> int \<Rightarrow> int) \<Rightarrow> node
    \<Rightarrow> ((builder_call list \<times> builder_call list) \<times> node) option res" where
  "replica_main junk conf a pings n =
     rbind (stoi (arg_id a)) (\<lambda>myid.
     rbind (stoi (arg_raft_port a)) (\<lambda>raftPort.
     rbind (stoi (arg_db_port a)) (\<lambda>dbPort.
     rbind (ParseConfig junk conf) (\<lambda>servers.
     let up = (if \<not> arg_addedNode a
               then initialiseServices (snd (om_at ServerInfo_zero servers myid)) myid True (arg_bootstrap a) (arg_storedir a)
                      [] (-1) (-1) pings n
               else initialiseServices servers myid False (arg_bootstrap a) (arg_storedir a)
                      (arg_ip a) raftPort dbPort pings n)
     in Inr (map_option (\<lambda>(servers, m). (servers, ReplicaManager_start m)) up)))))"

text \<open>
  The rest of \<open>main\<close>. While it sleeps and while its calls wait for their futures, the other threads run: \<open>pause n\<close> is
  the replica after the sleep, \<open>ready ft n\<close> the replica when future \<open>ft\<close> is set, nothing if that never happens. The
  two calls of the quick test wait for the futures \<open>fst fts\<close> and \<open>snd fts\<close>. The result has the lines logged
  before \<open>main\<close> sleeps for good; no result means that it waits forever before that.
\<close>

definition await :: "(nat \<Rightarrow> node \<Rightarrow> node option) \<Rightarrow> (op_res \<Rightarrow> Ret res) \<Rightarrow> request_pc \<times> node \<Rightarrow> (Ret \<times> node) option res" where
  "await ready finish w =
     (case w of
        (Answered r, n) \<Rightarrow> Inr (Some (r, n))
      | (Await ft, n) \<Rightarrow>
          (case ready ft n of
             None \<Rightarrow> Inr None
           | Some n' \<Rightarrow>
               (case map_of (futures (services n')) ft of
                  None \<Rightarrow> Inr None
                | Some val \<Rightarrow> rbind (finish val) (\<lambda>r. Inr (Some (r, n'))))))"

definition quick_test :: "(nat \<Rightarrow> node \<Rightarrow> node option) \<Rightarrow> nat \<times> nat \<Rightarrow> node \<Rightarrow> (string list \<times> node) option res" where
  "quick_test ready fts n =
     rbind (rbind (put_begin (1, 2) (fst fts) n) (await ready put_finish)) (\<lambda>done_put.
       case done_put of
         None \<Rightarrow> Inr None
       | Some (_, n1) \<Rightarrow>
           rbind (rbind (get_begin 1 (snd fts) n1) (await ready get_finish)) (\<lambda>done_get.
             Inr (map_option (\<lambda>(r, n2). ([''Received Output: '' @ to_string (db_value r)], n2)) done_get)))"

definition replica_run :: "(nat \<Rightarrow> ServerInfo) \<Rightarrow> string \<Rightarrow> replica_args \<Rightarrow> (nat \<Rightarrow> int \<Rightarrow> int) \<Rightarrow> (node \<Rightarrow> node)
    \<Rightarrow> (nat \<Rightarrow> node \<Rightarrow> node option) \<Rightarrow> nat \<times> nat \<Rightarrow> node \<Rightarrow> ((builder_call list \<times> builder_call list) \<times> string list \<times> node) option res" where
  "replica_run junk conf a pings pause ready fts n =
     rbind (replica_main junk conf a pings n) (\<lambda>up.
       case up of
         None \<Rightarrow> Inr None
       | Some (servers, n1) \<Rightarrow>
           rbind (if arg_quicktest a then quick_test ready fts (pause n1) else Inr (Some ([], pause n1)))
             (\<lambda>r. Inr (map_option (Pair servers) r)))"

section \<open>The benchmark client\<close>

text \<open>
  \<open>r k\<close> is the value of the \<open>k\<close>-th call of \<open>rand()\<close>, at least 0. The arguments of \<open>make_pair\<close> may be
  evaluated in either order: \<open>keyFirst\<close> says which. \<open>rand() % numPairs\<close> is computed in \<open>size_t\<close>, where
  a zero divisor is a fault. \<open>put i\<close> and \<open>get i\<close> are the calls of the client library in iteration \<open>i\<close>.
\<close>

definition size_of_int :: "int \<Rightarrow> int" where
  "size_of_int i = i mod 2 ^ 64"

definition rand_key :: "int \<Rightarrow> int \<Rightarrow> int res" where
  "rand_key numPairs x = (if numPairs = 0 then Inl Division_By_Zero else Inr (x mod numPairs))"

definition rand_pair :: "bool \<Rightarrow> int \<Rightarrow> (nat \<Rightarrow> int) \<Rightarrow> nat \<Rightarrow> (int \<times> int) res" where
  "rand_pair keyFirst numPairs r k =
     rbind (rand_key numPairs (r (if keyFirst then k else Suc k)))
       (\<lambda>key. Inr (key, r (if keyFirst then Suc k else k)))"

text \<open>The loops of the three tests: iterations left, the iteration, calls of \<open>rand()\<close> so far, the client.\<close>

fun write_loop :: "bool \<Rightarrow> int \<Rightarrow> (nat \<Rightarrow> int) \<Rightarrow> (nat \<Rightarrow> int \<times> int \<Rightarrow> 'c \<Rightarrow> bool \<times> 'c) \<Rightarrow> nat \<Rightarrow> nat \<Rightarrow> nat \<Rightarrow> 'c \<Rightarrow> (nat \<times> 'c) res" where
  "write_loop keyFirst numPairs r put 0 i k s = Inr (k, s)"
| "write_loop keyFirst numPairs r put (Suc m) i k s =
     rbind (rand_pair keyFirst numPairs r k) (\<lambda>kvp.
       write_loop keyFirst numPairs r put m (Suc i) (k + 2) (snd (put i kvp s)))"

fun read_loop :: "int \<Rightarrow> (nat \<Rightarrow> int) \<Rightarrow> (nat \<Rightarrow> int \<Rightarrow> 'c \<Rightarrow> int option \<times> 'c) \<Rightarrow> nat \<Rightarrow> nat \<Rightarrow> nat \<Rightarrow> 'c \<Rightarrow> (nat \<times> 'c) res" where
  "read_loop numPairs r get 0 i k s = Inr (k, s)"
| "read_loop numPairs r get (Suc m) i k s =
     rbind (rand_key numPairs (r k)) (\<lambda>key. read_loop numPairs r get m (Suc i) (Suc k) (snd (get i key s)))"

fun mixed_loop :: "bool \<Rightarrow> int \<Rightarrow> (nat \<Rightarrow> int) \<Rightarrow> (nat \<Rightarrow> int \<times> int \<Rightarrow> 'c \<Rightarrow> bool \<times> 'c) \<Rightarrow> (nat \<Rightarrow> int \<Rightarrow> 'c \<Rightarrow> int option \<times> 'c)
    \<Rightarrow> nat \<Rightarrow> nat \<Rightarrow> nat \<Rightarrow> 'c \<Rightarrow> (nat \<times> 'c) res" where
  "mixed_loop keyFirst numPairs r put get 0 i k s = Inr (k, s)"
| "mixed_loop keyFirst numPairs r put get (Suc m) i k s =
     (if r k mod 2 \<noteq> 0
      then rbind (rand_key numPairs (r (Suc k))) (\<lambda>key.
             mixed_loop keyFirst numPairs r put get m (Suc i) (k + 2) (snd (get i key s)))
      else rbind (rand_pair keyFirst numPairs r (Suc k)) (\<lambda>kvp.
             mixed_loop keyFirst numPairs r put get m (Suc i) (k + 3) (snd (put i kvp s))))"

text \<open>
  The report of a test. \<open>begun\<close> and \<open>ended\<close> are readings of the clock in nanoseconds, \<open>duration_cast\<close>
  drops the fraction of a millisecond. The average latency is divided as \<open>size_t\<close> before it becomes a \<open>double\<close>. The
  elapsed time is \<open>duration / 1000.0\<close>; how the stream prints the two \<open>double\<close>s is left open: a report holds the
  milliseconds.
\<close>

datatype out_item = Text string | Count nat | Seconds_Of_Millis int | Millis int

definition duration_ms :: "int \<Rightarrow> int \<Rightarrow> int" where
  "duration_ms begun ended = sgn (ended - begun) * (\<bar>ended - begun\<bar> div 1000000)"

definition avgLatency :: "int \<Rightarrow> nat \<Rightarrow> int" where
  "avgLatency duration iter = size_of_int duration div int iter"

definition test_report :: "string \<Rightarrow> nat \<Rightarrow> int \<Rightarrow> int \<Rightarrow> out_item list" where
  "test_report title iter begun ended =
     (let duration = duration_ms begun ended
      in [Text ''========================'', Text (title @ '' Test Results:''), Text ''Operations: '', Count iter,
          Text ''Elapsed Time: '', Seconds_Of_Millis duration, Text '' s'', Text ''Average Latency: '', Millis (avgLatency duration iter), Text '' ms''])"

text \<open>The three tests: the loop between two readings of the clock, and the report.\<close>

definition writeTest :: "bool \<Rightarrow> int \<Rightarrow> (nat \<Rightarrow> int) \<Rightarrow> (nat \<Rightarrow> int \<times> int \<Rightarrow> 'c \<Rightarrow> bool \<times> 'c) \<Rightarrow> nat \<Rightarrow> int \<times> int \<Rightarrow> nat \<Rightarrow> 'c
    \<Rightarrow> (out_item list \<times> nat \<times> 'c) res" where
  "writeTest keyFirst numPairs r put iter clk k s =
     rbind (write_loop keyFirst numPairs r put iter 0 k s) (\<lambda>r. Inr (test_report ''Write'' iter (fst clk) (snd clk), r))"

definition readTest :: "int \<Rightarrow> (nat \<Rightarrow> int) \<Rightarrow> (nat \<Rightarrow> int \<Rightarrow> 'c \<Rightarrow> int option \<times> 'c) \<Rightarrow> nat \<Rightarrow> int \<times> int \<Rightarrow> nat \<Rightarrow> 'c
    \<Rightarrow> (out_item list \<times> nat \<times> 'c) res" where
  "readTest numPairs r get iter clk k s =
     rbind (read_loop numPairs r get iter 0 k s) (\<lambda>r. Inr (test_report ''Read'' iter (fst clk) (snd clk), r))"

definition readWriteTest :: "bool \<Rightarrow> int \<Rightarrow> (nat \<Rightarrow> int) \<Rightarrow> (nat \<Rightarrow> int \<times> int \<Rightarrow> 'c \<Rightarrow> bool \<times> 'c) \<Rightarrow> (nat \<Rightarrow> int \<Rightarrow> 'c \<Rightarrow> int option \<times> 'c)
    \<Rightarrow> nat \<Rightarrow> int \<times> int \<Rightarrow> nat \<Rightarrow> 'c \<Rightarrow> (out_item list \<times> nat \<times> 'c) res" where
  "readWriteTest keyFirst numPairs r put get iter clk k s =
     rbind (mixed_loop keyFirst numPairs r put get iter 0 k s) (\<lambda>r. Inr (test_report ''Read/Write'' iter (fst clk) (snd clk), r))"

text \<open>
  \<open>main\<close>: the three tests on one client, \<open>1lu << iter\<close> operations each. The rpc functions give the
  stub of each test and iteration, \<open>clk\<close> the two readings of the clock in each test.
\<close>

definition shift_left_1 :: "int \<Rightarrow> nat res" where
  "shift_left_1 i = (if 0 \<le> i \<and> i < 64 then Inr (2 ^ nat i) else Inl Bad_Shift)"

definition client_main :: "(nat \<Rightarrow> ServerInfo) \<Rightarrow> string \<Rightarrow> string \<Rightarrow> string \<Rightarrow> bool \<Rightarrow> (nat \<Rightarrow> int) \<Rightarrow> (nat \<Rightarrow> int \<times> int)
    \<Rightarrow> (nat \<Rightarrow> nat \<Rightarrow> nat \<Rightarrow> string \<Rightarrow> int \<Rightarrow> int \<Rightarrow> PutResponse option)
    \<Rightarrow> (nat \<Rightarrow> nat \<Rightarrow> nat \<Rightarrow> string \<Rightarrow> int \<Rightarrow> GetResponse option) \<Rightarrow> (out_item list \<times> nat \<times> rdb) res" where
  "client_main junk conf arg_iter arg_numkeys keyFirst r clk puts gets =
     rbind (stoi arg_iter) (\<lambda>it.
     rbind (stoi arg_numkeys) (\<lambda>numPairs.
     rbind (ParseConfig junk conf) (\<lambda>servers.
     rbind (shift_left_1 it) (\<lambda>m.
     let np = size_of_int numPairs;
         put = (\<lambda>test i kvp s. ReplicatedDB_put (puts test i) kvp s);
         get = (\<lambda>test i key s. ReplicatedDB_get (gets test i) key s)
     in rbind (writeTest keyFirst np r (put 0) m (clk 0) 0 (ReplicatedDB_init servers)) (\<lambda>(out1, k1, s1).
        rbind (readTest np r (get 1) m (clk 1) k1 s1) (\<lambda>(out2, k2, s2).
        rbind (readWriteTest keyFirst np r (put 2) (get 2) m (clk 2) k2 s2) (\<lambda>(out3, k3, s3).
          Inr (out1 @ out2 @ out3, k3, s3))))))))"

section \<open>The socket server\<close>

text \<open>
  \<open>server_naive.cpp\<close>: what \<open>recv\<close> may give, and one connection. \<open>dbGet\<close> and \<open>dbPut\<close> are LevelDB's
  \<open>Get\<close> and \<open>Put\<close>. The result is how the connection ended, the answers sent, and the database. The list of
  received packets ends when nothing more has arrived yet: then the connection is still open.
\<close>

datatype packet = Recv_Error | Closed | Data string

datatype conn_end = Open_Still | Next_Client | Stop_Server

definition get_word :: "string \<Rightarrow> string \<times> string" where
  "get_word s = (let s' = dropWhile is_space s in (takeWhile (\<lambda>c. \<not> is_space c) s', dropWhile (\<lambda>c. \<not> is_space c) s'))"

definition naive_request :: "('d \<Rightarrow> string \<Rightarrow> string option) \<Rightarrow> ('d \<Rightarrow> string \<Rightarrow> string \<Rightarrow> bool \<times> 'd) \<Rightarrow> string \<Rightarrow> 'd
    \<Rightarrow> string option \<times> 'd" where
  "naive_request dbGet dbPut req db =
     (case get_word req of (command, iss1) \<Rightarrow>
      case get_word iss1 of (key, iss2) \<Rightarrow>
        if command = ''put'' then
          (case dbPut db key (fst (get_word iss2)) of (ok, db') \<Rightarrow> (Some (if ok then ''OK'' else ''ERROR''), db'))
        else if command = ''get'' then
          (case dbGet db key of Some v \<Rightarrow> (Some (''OK '' @ v), db) | None \<Rightarrow> (Some ''ERROR'', db))
        else if command = ''quit'' then (None, db)
        else (Some ''ERROR'', db))"

fun naive_client :: "('d \<Rightarrow> string \<Rightarrow> string option) \<Rightarrow> ('d \<Rightarrow> string \<Rightarrow> string \<Rightarrow> bool \<times> 'd) \<Rightarrow> packet list \<Rightarrow> 'd
    \<Rightarrow> conn_end \<times> string list \<times> 'd" where
  "naive_client dbGet dbPut [] db = (Open_Still, [], db)"
| "naive_client dbGet dbPut (Recv_Error # ps) db = (Stop_Server, [], db)"
| "naive_client dbGet dbPut (Closed # ps) db = (Next_Client, [], db)"
| "naive_client dbGet dbPut (Data req # ps) db =
     (case naive_request dbGet dbPut req db of
        (None, db') \<Rightarrow> (Next_Client, [], db')
      | (Some response, db') \<Rightarrow>
          (case naive_client dbGet dbPut ps db' of (e, sent, db'') \<Rightarrow> (e, (response @ [CHR 10]) # sent, db'')))"

text \<open>
  \<open>main\<close>: opening the database, setting up the socket and serving one connection after the other. The results of
  \<open>socket\<close>, \<open>setsockopt\<close>, \<open>bind\<close>, \<open>listen\<close> and \<open>accept\<close> are given, a connection with the packets that arrive on it. The
  result is the exit status, none while the server waits for the next connection, and what was sent.
\<close>

record sockets =
  so_socket :: int
  so_setsockopt :: int
  so_bind :: int
  so_listen :: int

fun naive_accept :: "('d \<Rightarrow> string \<Rightarrow> string option) \<Rightarrow> ('d \<Rightarrow> string \<Rightarrow> string \<Rightarrow> bool \<times> 'd) \<Rightarrow> (int \<times> packet list) list \<Rightarrow> 'd
    \<Rightarrow> int option \<times> string list list \<times> 'd" where
  "naive_accept dbGet dbPut [] db = (None, [], db)"
| "naive_accept dbGet dbPut ((new_socket, ps) # cs) db =
     (if new_socket < 0 then (Some 1, [], db)
      else (case naive_client dbGet dbPut ps db of
              (Next_Client, sent, db') \<Rightarrow> (case naive_accept dbGet dbPut cs db' of (st, rest, db'') \<Rightarrow> (st, sent # rest, db''))
            | (Stop_Server, sent, db') \<Rightarrow> (Some 1, [sent], db')
            | (Open_Still, sent, db') \<Rightarrow> (None, [sent], db')))"

definition naive_main :: "('d \<Rightarrow> string \<Rightarrow> string option) \<Rightarrow> ('d \<Rightarrow> string \<Rightarrow> string \<Rightarrow> bool \<times> 'd) \<Rightarrow> 'd option \<Rightarrow> sockets \<Rightarrow> (int \<times> packet list) list
    \<Rightarrow> int option \<times> string list list \<times> 'd option" where
  "naive_main dbGet dbPut opened so cs =
     (case opened of
        None \<Rightarrow> (Some 1, [], None)
      | Some db \<Rightarrow>
          if so_socket so = 0 \<or> so_setsockopt so \<noteq> 0 \<or> so_bind so < 0 \<or> so_listen so < 0 then (Some 1, [], Some db)
          else (case naive_accept dbGet dbPut cs db of (st, sent, db') \<Rightarrow> (st, sent, Some db')))"

section \<open>The ping server\<close>

text \<open>
  \<open>server.cpp\<close> pings one configured server after the other, each until it answers; \<open>ping i k\<close> is the
  answer of server \<open>i\<close> to the \<open>k\<close>-th try. The result is the number of pings sent.
\<close>

partial_function (option) ping_until :: "(nat \<Rightarrow> int) \<Rightarrow> nat \<Rightarrow> nat option" where
  "ping_until ping k = (if ping k < 0 then ping_until ping (Suc k) else Some (Suc k))"

fun ping_servers :: "(int \<Rightarrow> nat \<Rightarrow> int) \<Rightarrow> (int, ServerInfo) omap \<Rightarrow> nat option" where
  "ping_servers ping [] = Some 0"
| "ping_servers ping ((i, s) # servers) =
     (case ping_until (ping i) 0 of
        None \<Rightarrow> None
      | Some k \<Rightarrow> map_option (\<lambda>m. k + m) (ping_servers ping servers))"

text \<open>
  \<open>main\<close> from the set-up of gRPC on. \<open>launch\<close> is the server a builder gives after the calls made on it, nothing
  when it could not be started; the last line uses the database server without a check.
\<close>

definition server_main :: "(builder_call list \<Rightarrow> 'srv option) \<Rightarrow> (int \<Rightarrow> nat \<Rightarrow> int) \<Rightarrow> string \<Rightarrow> string \<Rightarrow> (int, ServerInfo) omap
    \<Rightarrow> ('srv option \<times> nat \<times> 'srv) option res" where
  "server_main launch ping dbPort raftPort servers =
     (let builder = serve_on (''0.0.0.0:'' @ raftPort) Raft_Service;
          raft_server = launch builder
      in case ping_servers ping servers of
           None \<Rightarrow> Inr None
         | Some k \<Rightarrow>
             (case launch (builder @ serve_on (''0.0.0.0:'' @ dbPort) DB_Service) of
                None \<Rightarrow> Inl Null_Pointer
              | Some db_server \<Rightarrow> Inr (Some (raft_server, k, db_server))))"

section \<open>What the programs do\<close>

text \<open>
  The quick test of a replica that does not lead is refused twice and logs the value -1 of the refusal; on a leader that
  stays one and whose executer answers as the reference map does, it logs 2.
\<close>

lemma request_leads:
  assumes "Role n = Leader"
  shows "\<exists>n'. request_begin k a v ft n = Inr (Await ft, n') \<and> Role n' = Leader"
  using assms by (auto simp: request_begin_def submit_def Let_def case_prod_beta)

lemma await_answered [simp]: "await ready finish (Answered r, n) = Inr (Some (r, n))"
  by (simp add: await_def)

lemma await_set:
  "ready ft n = Some n' \<Longrightarrow> map_of (futures (services n')) ft = Some val \<Longrightarrow> finish val = Inr r \<Longrightarrow> await ready finish (Await ft, n) = Inr (Some (r, n'))"
  by (simp add: await_def)

lemma quick_test_refused:
  assumes "Role n \<noteq> Leader" and "ps_ok (promises (services n))"
  shows "\<exists>n'. quick_test ready fts n = Inr (Some ([''Received Output: '' @ to_string (-1)], n')) \<and> dispatchOut n' = dispatchOut n"
proof -
  obtain addr n1 where n1: "put_begin (1, 2) (fst fts) n = Inr (Answered \<lparr>db_errorCode = DB_NOT_LEADER, db_leaderAddr = addr, db_value = 0\<rparr>, n1)"
      "dispatchOut n1 = dispatchOut n" "ps_ok (promises (services n1))" "Role n1 = Role n"
    using request_refused [OF _ assms, of PUT "ArgPair 1 2" 0 "fst fts"] by (auto simp: put_begin_def)
  obtain addr' n2 where "get_begin 1 (snd fts) n1 = Inr (Answered \<lparr>db_errorCode = DB_NOT_LEADER, db_leaderAddr = addr', db_value = -1\<rparr>, n2)"
      "dispatchOut n2 = dispatchOut n1"
    using request_refused [OF _ _ n1(3), of GET "ArgKey 1" "-1" "snd fts"] assms(1) n1(4) by (auto simp: get_begin_def)
  then show ?thesis
    using n1(1,2) by (simp add: quick_test_def)
qed

lemma quick_test_answered:
  assumes "Role n = Leader"
    and put: "\<And>m. Role m = Leader \<Longrightarrow> \<exists>n1. ready f1 m = Some n1 \<and> map_of (futures (services n1)) f1 = Some (ResBool True) \<and> Role n1 = Leader"
    and get: "\<And>m. Role m = Leader \<Longrightarrow> \<exists>n2. ready f2 m = Some n2 \<and> map_of (futures (services n2)) f2 = Some (ResGet (Some 2))"
  shows "\<exists>n'. quick_test ready (f1, f2) n = Inr (Some ([''Received Output: '' @ to_string 2], n'))"
proof -
  obtain m1 where m1: "put_begin (1, 2) f1 n = Inr (Await f1, m1)" "Role m1 = Leader"
    using request_leads [OF assms(1), of PUT "ArgPair 1 2" 0 f1] by (auto simp: put_begin_def)
  obtain n1 where n1: "ready f1 m1 = Some n1" "map_of (futures (services n1)) f1 = Some (ResBool True)" "Role n1 = Leader"
    using put [OF m1(2)] by blast
  obtain m2 where m2: "get_begin 1 f2 n1 = Inr (Await f2, m2)" "Role m2 = Leader"
    using request_leads [OF n1(3), of GET "ArgKey 1" "-1" f2] by (auto simp: get_begin_def)
  obtain n2 where n2: "ready f2 m2 = Some n2" "map_of (futures (services n2)) f2 = Some (ResGet (Some 2))"
    using get [OF m2(2)] by blast
  show ?thesis
    using m1(1) m2(1) await_set [of ready, OF n1(1,2), where finish = put_finish] await_set [of ready, OF n2, where finish = get_finish]
    by (simp add: quick_test_def)
qed

lemma rand_key_range: "0 < np \<Longrightarrow> rand_key np x = Inr (x mod np) \<and> 0 \<le> x mod np \<and> x mod np < np"
  by (simp add: rand_key_def)

lemma rand_pair_ok: "0 < np \<Longrightarrow> \<exists>key v. rand_pair keyFirst np r k = Inr (key, v) \<and> 0 \<le> key \<and> key < np"
  by (simp add: rand_pair_def rand_key_def)

text \<open>Every test makes exactly the announced number of requests, all for keys below \<open>numPairs\<close>.\<close>

lemma write_loop_requests:
  assumes "0 < np" and "\<And>i kvp s. trace (snd (put i kvp s)) = trace s @ [kvp]"
  shows "\<exists>kvps s'. write_loop keyFirst np r put m i k s = Inr (k + 2 * m, s') \<and> trace s' = trace s @ kvps
    \<and> length kvps = m \<and> (\<forall>(key, v) \<in> set kvps. 0 \<le> key \<and> key < np)"
proof (induction m arbitrary: i k s)
  case (Suc m)
  obtain key v where p: "rand_pair keyFirst np r k = Inr (key, v)" "0 \<le> key" "key < np"
    using rand_pair_ok [OF assms(1)] by blast
  obtain kvps s' where s': "write_loop keyFirst np r put m (Suc i) (k + 2) (snd (put i (key, v) s)) = Inr (k + 2 + 2 * m, s')"
      "trace s' = trace (snd (put i (key, v) s)) @ kvps" "length kvps = m" "\<forall>(key, v) \<in> set kvps. 0 \<le> key \<and> key < np"
    using Suc by blast
  show ?case
    using p s' assms(2) by (intro exI [of _ "(key, v) # kvps"] exI [of _ s']) simp
qed simp

lemma read_loop_requests:
  assumes "0 < np" and "\<And>i key s. trace (snd (get i key s)) = trace s @ [key]"
  shows "\<exists>keys s'. read_loop np r get m i k s = Inr (k + m, s') \<and> trace s' = trace s @ keys
    \<and> length keys = m \<and> (\<forall>key \<in> set keys. 0 \<le> key \<and> key < np)"
proof (induction m arbitrary: i k s)
  case (Suc m)
  let ?key = "r k mod np"
  obtain keys s' where s': "read_loop np r get m (Suc i) (Suc k) (snd (get i ?key s)) = Inr (Suc k + m, s')"
      "trace s' = trace (snd (get i ?key s)) @ keys" "length keys = m" "\<forall>key \<in> set keys. 0 \<le> key \<and> key < np"
    using Suc by blast
  show ?case
    using rand_key_range [OF assms(1)] s' assms(2) by (intro exI [of _ "?key # keys"] exI [of _ s']) simp
qed simp

lemma no_keys_fault: "0 < iter \<Longrightarrow> writeTest keyFirst 0 r put iter clk k s = Inl Division_By_Zero"
  by (cases iter) (simp_all add: writeTest_def rand_pair_def rand_key_def)

text \<open>The socket server: words, and a session.\<close>

lemma get_word_space: "\<forall>c \<in> set w. \<not> is_space c \<Longrightarrow> w \<noteq> [] \<Longrightarrow> is_space c \<Longrightarrow> get_word (w @ c # s) = (w, c # s)"
proof -
  assume w: "\<forall>c \<in> set w. \<not> is_space c" "w \<noteq> []" and c: "is_space c"
  have "dropWhile is_space (w @ c # s) = w @ c # s"
    using w by (cases w) auto
  then show ?thesis
    using w c by (simp add: get_word_def)
qed

lemma get_word_end: "\<forall>c \<in> set w. \<not> is_space c \<Longrightarrow> get_word w = (w, [])"
proof -
  assume w: "\<forall>c \<in> set w. \<not> is_space c"
  then have "dropWhile is_space w = w"
    by (cases w) auto
  then show ?thesis
    using w by (simp add: get_word_def takeWhile_eq_all_conv)
qed

lemma get_word_skip: "is_space c \<Longrightarrow> get_word (c # s) = get_word s"
  by (simp add: get_word_def)

lemma space_is_space [simp]: "is_space CHR '' ''"
  by (simp add: is_space_def)

lemmas naive_words = get_word_space get_word_end get_word_skip

lemma naive_put:
  assumes "\<forall>c \<in> set k. \<not> is_space c" "k \<noteq> []" and "\<forall>c \<in> set v. \<not> is_space c"
  shows "naive_request dbGet dbPut (''put '' @ k @ '' '' @ v) db
    = (case dbPut db k v of (ok, db') \<Rightarrow> (Some (if ok then ''OK'' else ''ERROR''), db'))"
proof -
  have "get_word (''put'' @ CHR '' '' # k @ CHR '' '' # v) = (''put'', CHR '' '' # k @ CHR '' '' # v)"
    by (rule get_word_space) (auto simp: is_space_def)
  then show ?thesis
    using assms by (simp add: naive_request_def naive_words)
qed

lemma naive_get:
  assumes "\<forall>c \<in> set k. \<not> is_space c"
  shows "naive_request dbGet dbPut (''get '' @ k) db
    = (case dbGet db k of Some v \<Rightarrow> (Some (''OK '' @ v), db) | None \<Rightarrow> (Some ''ERROR'', db))"
proof -
  have "get_word (''get'' @ CHR '' '' # k) = (''get'', CHR '' '' # k)"
    by (rule get_word_space) (auto simp: is_space_def)
  then show ?thesis
    using assms by (simp add: naive_request_def naive_words)
qed

text \<open>\<open>quit\<close> ends the connection before the answer \<open>GOODBYE\<close> is sent.\<close>

lemma naive_quit_unanswered: "naive_client dbGet dbPut (Data ''quit'' # ps) db = (Next_Client, [], db)"
proof -
  have "get_word ''quit'' = (''quit'', [])"
    by (rule get_word_end) (auto simp: is_space_def)
  then show ?thesis
    by (simp add: naive_request_def get_word_def case_prod_beta)
qed

lemma naive_put_get:
  assumes w: "\<forall>c \<in> set k. \<not> is_space c" "k \<noteq> []" "\<forall>c \<in> set v. \<not> is_space c"
    and put: "dbPut db k v = (True, db')" and get: "dbGet db' k = Some v"
  shows "fst (snd (naive_client dbGet dbPut [Data (''put '' @ k @ '' '' @ v), Data (''get '' @ k)] db))
    = [''OK'' @ [CHR 10], ''OK '' @ v @ [CHR 10]]"
  using naive_put [OF w, of dbGet dbPut db] naive_get [OF w(1), of dbGet dbPut db'] put get by simp

text \<open>
  The socket server serves its clients in turn: a client that stays connected keeps every later one waiting, and
  a failed \<open>recv\<close> on one connection ends the server. \<open>socket\<close> reports an error as -1, which the comparison with 0
  lets pass; only \<open>setsockopt\<close> on that descriptor then stops the server.
\<close>

lemma naive_one_at_a_time:
  assumes "naive_client dbGet dbPut ps db = (Open_Still, sent, db')" and "0 \<le> s"
  shows "naive_accept dbGet dbPut ((s, ps) # cs) db = (None, [sent], db')"
  using assms by simp

lemma naive_recv_error_stops:
  assumes "0 \<le> s"
  shows "naive_accept dbGet dbPut ((s, [Recv_Error]) # cs) db = (Some 1, [[]], db)"
  using assms by simp

lemma naive_socket_unchecked:
  assumes "so_socket so = -1" "so_setsockopt so = 0" "0 \<le> so_bind so" "0 \<le> so_listen so"
  shows "naive_main dbGet dbPut (Some db) so [] = (None, [], Some db)"
  using assms by (simp add: naive_main_def)

text \<open>Exit status 1 is the only one the server has.\<close>

lemma naive_status: "fst (naive_main dbGet dbPut opened so cs) \<in> {None, Some 1}"
proof -
  have "fst (naive_accept dbGet dbPut cs db) \<in> {None, Some 1}" for db
  proof (induction dbGet dbPut cs db rule: naive_accept.induct)
    case (2 dbGet dbPut new_socket ps cs db)
    obtain e sent db' where "naive_client dbGet dbPut ps db = (e, sent, db')"
      by (cases "naive_client dbGet dbPut ps db")
    then show ?case
      using 2 by (cases e) (auto simp: case_prod_beta)
  qed simp
  then show ?thesis
    by (simp add: naive_main_def case_prod_beta split: option.split)
qed

text \<open>The report: a test whose operations take less than a millisecond on average reports a latency of 0, and a clock that
  was set back one of centuries.\<close>

lemma latency_below_millis: "0 \<le> d \<Longrightarrow> d < int iter \<Longrightarrow> d < 2 ^ 64 \<Longrightarrow> avgLatency d iter = 0"
  by (simp add: avgLatency_def size_of_int_def)

lemma latency_set_back:
  assumes "0 < iter" "int iter \<le> 2 ^ 20" "- (2 ^ 63) \<le> d" "d < 0"
  shows "2 ^ 43 \<le> avgLatency d iter"
proof -
  have "(d + 2 ^ 64) mod 2 ^ 64 = d + 2 ^ 64"
    using assms(3,4) by (intro mod_pos_pos_trivial) simp_all
  then have "size_of_int d = d + 2 ^ 64"
    by (simp add: size_of_int_def)
  then have "2 ^ 43 * int iter \<le> size_of_int d"
    using assms by simp
  then have "(2 ^ 43 * int iter) div int iter \<le> size_of_int d div int iter"
    using assms(1) by (intro zdiv_mono1) simp_all
  then show ?thesis
    using assms(1) by (simp add: avgLatency_def)
qed

text \<open>The ping server: one server answers in the end, or the loop over its pings never ends.\<close>

lemma ping_until_answer:
  "(\<forall>q. k \<le> q \<and> q < k + d \<longrightarrow> ping q < 0) \<Longrightarrow> 0 \<le> ping (k + d) \<Longrightarrow> ping_until ping k = Some (Suc (k + d))"
proof (induction d arbitrary: k)
  case 0
  then show ?case
    by (simp add: ping_until.simps)
next
  case (Suc d)
  have "ping_until ping k = ping_until ping (Suc k)"
    using Suc.prems(1) by (subst ping_until.simps) simp
  also have "\<dots> = Some (Suc (Suc k + d))"
    using Suc.prems by (intro Suc.IH) auto
  finally show ?case by simp
qed

lemma ping_until_result:
  assumes "ping_until ping k = Some m"
  shows "\<exists>q. 0 \<le> ping q"
proof (rule ping_until.raw_induct [OF _ assms, where P = "\<lambda>ping k m. \<exists>q. 0 \<le> ping q"])
  fix f :: "(nat \<Rightarrow> int) \<Rightarrow> nat \<Rightarrow> nat option" and ping k m
  assume "\<And>ping k m. f ping k = Some m \<Longrightarrow> \<exists>q. 0 \<le> ping q"
    and "(if ping k < 0 then f ping (Suc k) else Some (Suc k)) = Some m"
  then show "\<exists>q. 0 \<le> ping q"
    by (metis not_le)
qed

lemma ping_until_iff: "(\<exists>m. ping_until ping 0 = Some m) \<longleftrightarrow> (\<exists>k. 0 \<le> ping k)"
proof
  assume "\<exists>k. 0 \<le> ping k"
  then have "0 \<le> ping (LEAST k. 0 \<le> ping k)"
    by (metis LeastI)
  moreover have "\<forall>q. 0 \<le> q \<and> q < 0 + (LEAST k. 0 \<le> ping k) \<longrightarrow> ping q < 0"
    by (metis add_0 not_le not_less_Least)
  ultimately show "\<exists>m. ping_until ping 0 = Some m"
    using ping_until_answer [of 0 "LEAST k. 0 \<le> ping k" ping] by auto
qed (use ping_until_result in blast)

lemma ping_servers_iff:
  "(\<exists>m. ping_servers ping servers = Some m) \<longleftrightarrow> (\<forall>(i, s) \<in> set servers. \<exists>k. 0 \<le> ping i k)"
proof (induction servers)
  case (Cons e servers)
  obtain i s where e: "e = (i, s)"
    by (cases e)
  show ?case
    using Cons ping_until_iff [of "ping i"] by (auto simp: e split: option.splits)
qed simp

text \<open>
  The builder of the Raft service is used again for the database service: the second server is asked to listen on the port
  of the first as well, and to serve both services. If it cannot be started, the program uses a null pointer.
\<close>

lemma server_reuses_builder:
  assumes "ping_servers ping servers = Some k"
  shows "\<exists>raft_server. server_main Some ping dbPort raftPort servers = Inr (Some (raft_server, k,
    [AddListeningPort (''0.0.0.0:'' @ raftPort), RegisterService Raft_Service, BuildAndStart,
     AddListeningPort (''0.0.0.0:'' @ dbPort), RegisterService DB_Service, BuildAndStart]))"
  using assms by (simp add: server_main_def serve_on_def Let_def)

lemma server_not_started:
  assumes "ping_servers ping servers = Some k" and "launch (serve_on (''0.0.0.0:'' @ raftPort) Raft_Service @ serve_on (''0.0.0.0:'' @ dbPort) DB_Service) = None"
  shows "server_main launch ping dbPort raftPort servers = Inl Null_Pointer"
  using assms by (simp add: server_main_def Let_def)

section \<open>Properties\<close>


definition example_args :: replica_args where
  "example_args = \<lparr>arg_id = to_string 1, arg_storedir = ''d'', arg_bootstrap = False, arg_addedNode = False, arg_ip = [],
     arg_raft_port = to_string (-1), arg_db_port = to_string (-1), arg_quicktest = False\<rparr>"


end
