(* ===== verification/StoreTools.thy ===== *)
theory StoreTools
  imports RaftFollower
begin

text \<open>
  \<open>ohmytools/writestore.cpp\<close> and \<open>ohmytools/readstore.cpp\<close>: the tools that make the files of a replica
  from a CSV description and print them. Both start from the parsed command line; \<open>rnd i\<close> is the
  result of the i-th call of \<open>rand()\<close>, the arguments of \<open>make_pair\<close> being evaluated from left to
  right. A negative count never reaches zero within the range of \<open>int\<close>. The vectors of the tools are
  locals, whose descriptor is not set before the first \<open>open\<close>; the only call on such a descriptor is
  the truncation \<open>readstore\<close> makes on an empty file, which is taken to touch no file of the model.
\<close>

section \<open>writestore\<close>

text \<open>One entry: the kind takes one random number, its arguments one or two more.\<close>

definition random_entry :: "(nat \<Rightarrow> int) \<Rightarrow> int \<Rightarrow> nat \<Rightarrow> LogEntry \<times> nat" where
  "random_entry rnd t r =
     (if rnd r mod 2 \<noteq> 0
      then (\<lparr>log_term = t, log_op = \<lparr>kind = GET, args = ArgKey (rnd (r + 1) mod 100), promiseHandle = None\<rparr>\<rparr>, r + 2)
      else (\<lparr>log_term = t, log_op = \<lparr>kind = PUT, args = ArgPair (rnd (r + 1) mod 100) (rnd (r + 2) mod 100), promiseHandle = None\<rparr>\<rparr>, r + 3))"

fun push_random :: "(nat \<Rightarrow> int) \<Rightarrow> int \<Rightarrow> nat \<Rightarrow> nat \<Rightarrow> LogEntry pvec \<Rightarrow> LogEntry pvec \<times> nat" where
  "push_random rnd t 0 r pv = (pv, r)"
| "push_random rnd t (Suc count) r pv =
     (case random_entry rnd t r of (e, r') \<Rightarrow> push_random rnd t count r' (pvec_push_back e pv))"

fun write_rows :: "(nat \<Rightarrow> int) \<Rightarrow> (string \<times> int) list \<Rightarrow> string list list \<Rightarrow> nat \<Rightarrow> LogEntry pvec \<Rightarrow> LogEntry pvec res" where
  "write_rows rnd h [] r pv = Inr pv"
| "write_rows rnd h (row # rows) r pv =
     rbind (rbind (token_of h row ''term'') stoi) (\<lambda>t.
     rbind (rbind (token_of h row ''count'') stoi) (\<lambda>count.
       if count < 0 then Inl Signed_Overflow
       else (case push_random rnd t (nat count) r pv of (pv', r') \<Rightarrow> write_rows rnd h rows r' pv')))"

text \<open>The table printed first: a row shorter than the header is read behind its end.\<close>

definition print_rows :: "(string \<times> int) list \<Rightarrow> string list list \<Rightarrow> string list list res" where
  "print_rows h rows =
     res_map (\<lambda>row. res_map (\<lambda>(k, v). rbind (vec_at row v) (\<lambda>tok. Inr (k @ ''->'' @ tok @ ''|''))) h) rows"

definition writestore :: "LogEntry cxx_type \<Rightarrow> (nat \<Rightarrow> int) \<Rightarrow> int \<Rightarrow> int \<Rightarrow> int \<Rightarrow> string \<Rightarrow> string \<Rightarrow> fs \<Rightarrow> fs res" where
  "writestore T rnd sid votedFor currentTerm input outputDir fs =
     (let parsedInp = TokenizeCSV input;
          storePrefix = (outputDir @ ''/'') @ ''raft.'' @ to_string sid @ ''.'';
          (pv, fs1) = pvec_setup (storePrefix @ ''log.persist'') False strip_entry (pvec_init T) fs
      in rbind (print_rows (header parsedInp) (tokensByRow parsedInp)) (\<lambda>_.
         rbind (write_rows rnd (header parsedInp) (tokensByRow parsedInp) 0 pv) (\<lambda>pv1.
           let (pv2, fs2) = pvec_persist pv1 fs1;
               st = pstore_setup storePrefix pstore_init
           in Inr (pstore_store st ''CurrentTerm'' currentTerm (pstore_store st ''VotedFor'' votedFor fs2)))))"

section \<open>readstore\<close>

definition readstore_vec :: "LogEntry cxx_type \<Rightarrow> string \<Rightarrow> fs \<Rightarrow> string list res" where
  "readstore_vec T filename fs =
     (case pvec_setup filename True (\<lambda>val. val) (pvec_init T) fs of (pv, _) \<Rightarrow> res_map LogEntry_str (items pv))"

definition readstore_int :: "string \<Rightarrow> fs \<Rightarrow> string option" where
  "readstore_int filename fs = map_option (\<lambda>v. ''Value: '' @ to_string v) (loadInt filename fs)"

section \<open>A replica starts from written files\<close>

lemma random_entry_ok:
  assumes "i32_ok t"
  shows "entry_ok (fst (random_entry rnd t r))" and "log_term (fst (random_entry rnd t r)) = t"
proof -
  have m: "i32_ok (x mod 100)" for x :: int
    using pos_mod_bound [of 100 x] pos_mod_sign [of 100 x] unfolding i32_ok_def by linarith
  show "entry_ok (fst (random_entry rnd t r))" and "log_term (fst (random_entry rnd t r)) = t"
    using assms m by (simp_all add: random_entry_def entry_ok_def op_ok_def)
qed

text \<open>The vector under construction, still empty on disk.\<close>

definition building :: "string \<Rightarrow> fs \<Rightarrow> LogEntry cxx_type \<Rightarrow> LogEntry pvec \<Rightarrow> bool" where
  "building p fs T pv \<longleftrightarrow> pvec_ok pv fs \<and> pvec_storable entry_ok pv \<and> preproc pv = strip_entry \<and> pv_filename pv = p \<and> pv_type pv = T"

lemma building_push:
  "building p fs T pv \<Longrightarrow> entry_ok e \<Longrightarrow> building p fs T (pvec_push_back e pv)"
  by (auto simp: building_def pvec_push_back_ok entry_ok_def)

lemma push_random_ok:
  assumes "building p fs T pv" and "i32_ok t" and "push_random rnd t c r pv = (pv', r')"
  shows "building p fs T pv' \<and> map log_term (items pv') = map log_term (items pv) @ replicate c t"
  using assms(1,3)
proof (induction c arbitrary: r pv)
  case (Suc c)
  let ?e = "fst (random_entry rnd t r)"
  have "building p fs T (pvec_push_back ?e pv)"
    using Suc.prems(1) assms(2) random_entry_ok(1) by (intro building_push)
  then show ?case
    using Suc.IH [of "pvec_push_back ?e pv" "snd (random_entry rnd t r)"] Suc.prems(2) assms(2)
    by (simp add: case_prod_beta random_entry_ok)
qed simp

lemma stoi_i32_ok: "stoi s = Inr i \<Longrightarrow> i32_ok i"
  by (auto simp: stoi_def Let_def split: if_splits)

lemma write_rows_ok:
  assumes "building p fs T pv" and "write_rows rnd h rows r pv = Inr pv'"
  shows "building p fs T pv' \<and> (\<exists>runs. map log_term (items pv') = map log_term (items pv) @ concat (map (\<lambda>(t, c). replicate c t) runs)
    \<and> list_all2 (\<lambda>row (t, c). rbind (token_of h row ''term'') stoi = Inr t \<and> rbind (token_of h row ''count'') stoi = Inr (int c)) rows runs)"
  using assms
proof (induction rows arbitrary: r pv)
  case Nil
  then show ?case by simp
next
  case (Cons row rows)
  obtain t c pv1 r1 where t: "rbind (token_of h row ''term'') stoi = Inr t"
      and c: "rbind (token_of h row ''count'') stoi = Inr c" "\<not> c < 0"
      and p: "push_random rnd t (nat c) r pv = (pv1, r1)" and w: "write_rows rnd h rows r1 pv1 = Inr pv'"
    using Cons.prems(2) by (auto elim!: rbind_Inr_E split: if_splits prod.splits)
  have "i32_ok t"
    using t stoi_i32_ok by (auto elim: rbind_Inr_E)
  then have 1: "building p fs T pv1 \<and> map log_term (items pv1) = map log_term (items pv) @ replicate (nat c) t"
    using Cons.prems(1) p by (intro push_random_ok)
  then obtain runs where "building p fs T pv'"
      "map log_term (items pv') = map log_term (items pv1) @ concat (map (\<lambda>(t, c). replicate c t) runs)"
      "list_all2 (\<lambda>row (t, c). rbind (token_of h row ''term'') stoi = Inr t \<and> rbind (token_of h row ''count'') stoi = Inr (int c)) rows runs"
    using Cons.IH [OF _ w] by blast
  then show ?case
    using 1 t c by (intro conjI exI [of _ "(t, nat c) # runs"]) simp_all
qed

lemma writestore_disk_inv:
  assumes lay: "object_layout (t_size T) entry_ok (t_enc T) (t_dec T)"
    and ok: "i32_ok sid" "i32_ok votedFor" "i32_ok currentTerm"
    and w: "writestore T rnd sid votedFor currentTerm input dir fs = Inr fs'"
  shows "\<exists>pv runs. let n = (RaftManager_init T fs' sv)\<lparr>my_id := sid, Logs := pv, VotedFor := votedFor, CurrentTerm := currentTerm,
        pStore := \<lparr>fileBaseName = store_prefix dir sid, pst_initialised = True\<rparr>\<rparr> in disk_inv n \<and> pv_type pv = T
    \<and> map log_term (items pv) = concat (map (\<lambda>(t, c). replicate c t) runs)
    \<and> list_all2 (\<lambda>row (t, c). rbind (token_of (header (TokenizeCSV input)) row ''term'') stoi = Inr t
        \<and> rbind (token_of (header (TokenizeCSV input)) row ''count'') stoi = Inr (int c)) (tokensByRow (TokenizeCSV input)) runs"
proof -
  let ?p = "store_prefix dir sid @ ''log.persist''"
  let ?st = "\<lparr>fileBaseName = store_prefix dir sid, pst_initialised = True\<rparr>"
  obtain pv0 fs1 where s: "pvec_setup ?p False strip_entry (pvec_init T) fs = (pv0, fs1)"
    by (cases "pvec_setup ?p False strip_entry (pvec_init T) fs")
  have pre: "(dir @ ''/'') @ ''raft.'' @ to_string sid @ ''.'' = store_prefix dir sid"
    by (simp add: store_prefix_def)
  obtain pv1 pv2 fs2 where w1: "write_rows rnd (header (TokenizeCSV input)) (tokensByRow (TokenizeCSV input)) 0 pv0 = Inr pv1"
      and pp: "pvec_persist pv1 fs1 = (pv2, fs2)"
      and fs': "fs' = pstore_store ?st ''CurrentTerm'' currentTerm (pstore_store ?st ''VotedFor'' votedFor fs2)"
    using w unfolding writestore_def pre by (auto simp: s pstore_setup_def pstore_init_def Let_def elim!: rbind_Inr_E split: prod.splits)
  have b0: "building ?p fs1 T pv0" and i0: "items pv0 = []"
    using pvec_setup_new [OF s lay] s by (auto simp: building_def pvec_synced_def pvec_setup_def pvec_init_def Let_def open_trunc_def)
  obtain runs where b: "building ?p fs1 T pv1"
      and r: "map log_term (items pv1) = concat (map (\<lambda>(t, c). replicate c t) runs)"
        "list_all2 (\<lambda>row (t, c). rbind (token_of (header (TokenizeCSV input)) row ''term'') stoi = Inr t
          \<and> rbind (token_of (header (TokenizeCSV input)) row ''count'') stoi = Inr (int c)) (tokensByRow (TokenizeCSV input)) runs"
    using write_rows_ok [OF b0 w1] i0 by auto
  have sy: "pvec_synced pv2 fs2"
    using b pp pvec_persist_sync by (auto simp: building_def)
  have same: "items pv2 = items pv1" "pv_filename pv2 = ?p" "preproc pv2 = strip_entry" "pv_type pv2 = T" "pvec_storable entry_ok pv2"
    using pvec_persist_same [of pv1 fs1] pvec_storable_persist [of entry_ok pv1 fs1] b pp by (auto simp: building_def)
  let ?n = "(RaftManager_init T fs2 sv)\<lparr>my_id := sid, Logs := pv2, VotedFor := votedFor, CurrentTerm := currentTerm, pStore := ?st\<rparr>"
  have "log_inv ?n"
    using sy same by (simp add: log_inv_def pvec_synced_def log_filename [of _ True] RaftManager_init_def)
  then have "disk_inv (raft_persist ?n)"
    using log_inv_persist [of ?n] meta_inv_persist [of ?n] ok sy
    by (simp add: disk_inv_def pvec_synced_def)
  moreover have "raft_persist ?n = (RaftManager_init T fs' sv)\<lparr>my_id := sid, Logs := pv2, VotedFor := votedFor,
      CurrentTerm := currentTerm, pStore := ?st\<rparr>"
    by (simp add: raft_persist_def RaftManager_init_def fs')
  ultimately show ?thesis
    using r same by (intro exI [of _ pv2] exI [of _ runs]) simp
qed

section \<open>Properties\<close>


definition example_rows :: string where
  "example_rows = ''term,count'' @ [CHR ''\<newline>''] @ ''4,2''"

lemma example_rows_tokens: "TokenizeCSV example_rows = \<lparr>header = [(''term'', 0), (''count'', 1)], tokensByRow = [[''4'', ''2'']]\<rparr>"
  by (simp add: TokenizeCSV_def csv_lines_def example_rows_def getline_split.simps read_header_def)

lemma example_numbers: "stoi ''4'' = Inr 4" "stoi ''2'' = Inr 2"
  by code_simp+


end
