(* ===== verification/CommandLine.thy ===== *)
theory CommandLine
  imports Programs StoreTools
begin

text \<open>
  The \<open>main\<close> functions from the command line on: the arguments each program declares, and how it gets
  from their values to the calls modelled in the other theories. The parser is the third-party library
  \<open>argparse\<close>, here the parameter \<open>parse\<close>: from the declared arguments and the words of the command line
  it gives the value of every argument, or nothing when \<open>parse_args\<close> throws. All programs then print
  the error and end with status 1. \<open>files\<close> gives the contents of the text files that are read.
\<close>

section \<open>Declared arguments\<close>

datatype arg_kind = Required | Default_Value string | Flag

record arg_spec =
  spec_name :: string
  spec_kind :: arg_kind

record parsed =
  str_value :: "string \<Rightarrow> string"
  flag_value :: "string \<Rightarrow> bool"

type_synonym arg_parser = "arg_spec list \<Rightarrow> string list \<Rightarrow> parsed option"

datatype 'a outcome = Exit int | Ran 'a

definition run_program :: "arg_parser \<Rightarrow> arg_spec list \<Rightarrow> string list \<Rightarrow> (parsed \<Rightarrow> 'a outcome res) \<Rightarrow> 'a outcome res" where
  "run_program parse specs argv body = (case parse specs argv of None \<Rightarrow> Inr (Exit 1) | Some p \<Rightarrow> body p)"

definition ran :: "'a res \<Rightarrow> 'a outcome res" where
  "ran r = rbind r (\<lambda>x. Inr (Ran x))"

abbreviation get_int :: "parsed \<Rightarrow> string \<Rightarrow> int res" where
  "get_int p name \<equiv> stoi (str_value p name)"

section \<open>The programs\<close>

definition replica_specs :: "arg_spec list" where
  "replica_specs =
     [\<lparr>spec_name = ''--config'', spec_kind = Required\<rparr>, \<lparr>spec_name = ''--id'', spec_kind = Required\<rparr>,
      \<lparr>spec_name = ''--db_path'', spec_kind = Required\<rparr>, \<lparr>spec_name = ''--bootstrap'', spec_kind = Flag\<rparr>,
      \<lparr>spec_name = ''--storedir'', spec_kind = Default_Value ''/tmp/''\<rparr>, \<lparr>spec_name = ''--addedNode'', spec_kind = Flag\<rparr>,
      \<lparr>spec_name = ''--ip'', spec_kind = Default_Value []\<rparr>, \<lparr>spec_name = ''--raft_port'', spec_kind = Default_Value ''-1''\<rparr>,
      \<lparr>spec_name = ''--db_port'', spec_kind = Default_Value ''-1''\<rparr>, \<lparr>spec_name = ''--quicktest'', spec_kind = Flag\<rparr>]"

definition replica_args_of :: "parsed \<Rightarrow> replica_args" where
  "replica_args_of p =
     \<lparr>arg_id = str_value p ''--id'', arg_storedir = str_value p ''--storedir'', arg_bootstrap = flag_value p ''--bootstrap'',
      arg_addedNode = flag_value p ''--addedNode'', arg_ip = str_value p ''--ip'', arg_raft_port = str_value p ''--raft_port'',
      arg_db_port = str_value p ''--db_port'', arg_quicktest = flag_value p ''--quicktest''\<rparr>"

definition replica_program :: "arg_parser \<Rightarrow> (string \<Rightarrow> string) \<Rightarrow> (nat \<Rightarrow> ServerInfo) \<Rightarrow> (nat \<Rightarrow> int \<Rightarrow> int) \<Rightarrow> (node \<Rightarrow> node)
    \<Rightarrow> (nat \<Rightarrow> node \<Rightarrow> node option) \<Rightarrow> nat \<times> nat \<Rightarrow> node \<Rightarrow> string list
    \<Rightarrow> ((builder_call list \<times> builder_call list) \<times> string list \<times> node) option outcome res" where
  "replica_program parse files junk pings pause ready fts n argv =
     run_program parse replica_specs argv (\<lambda>p.
       ran (replica_run junk (files (str_value p ''--config'')) (replica_args_of p) pings pause ready fts n))"

definition client_specs :: "arg_spec list" where
  "client_specs =
     [\<lparr>spec_name = ''--config'', spec_kind = Required\<rparr>, \<lparr>spec_name = ''--iter'', spec_kind = Default_Value ''3''\<rparr>,
      \<lparr>spec_name = ''--numkeys'', spec_kind = Default_Value ''10''\<rparr>]"

definition client_program :: "arg_parser \<Rightarrow> (string \<Rightarrow> string) \<Rightarrow> (nat \<Rightarrow> ServerInfo) \<Rightarrow> bool \<Rightarrow> (nat \<Rightarrow> int) \<Rightarrow> (nat \<Rightarrow> int \<times> int)
    \<Rightarrow> (nat \<Rightarrow> nat \<Rightarrow> nat \<Rightarrow> string \<Rightarrow> int \<Rightarrow> int \<Rightarrow> PutResponse option)
    \<Rightarrow> (nat \<Rightarrow> nat \<Rightarrow> nat \<Rightarrow> string \<Rightarrow> int \<Rightarrow> GetResponse option) \<Rightarrow> string list \<Rightarrow> (out_item list \<times> nat \<times> rdb) outcome res" where
  "client_program parse files junk keyFirst r clk puts gets argv =
     run_program parse client_specs argv (\<lambda>p.
       ran (client_main junk (files (str_value p ''--config'')) (str_value p ''--iter'') (str_value p ''--numkeys'') keyFirst r clk puts gets))"

definition admin_specs :: "arg_spec list" where
  "admin_specs =
     [\<lparr>spec_name = ''--config'', spec_kind = Required\<rparr>, \<lparr>spec_name = ''--op'', spec_kind = Required\<rparr>,
      \<lparr>spec_name = ''--id'', spec_kind = Default_Value ''-1''\<rparr>, \<lparr>spec_name = ''--ip'', spec_kind = Default_Value []\<rparr>,
      \<lparr>spec_name = ''--raft_port'', spec_kind = Default_Value ''-1''\<rparr>, \<lparr>spec_name = ''--db_port'', spec_kind = Default_Value ''-1''\<rparr>,
      \<lparr>spec_name = ''--name'', spec_kind = Default_Value []\<rparr>]"

definition admin_op_of :: "string \<Rightarrow> admin_op option" where
  "admin_op_of s = (if s = ''add'' then Some Op_add else if s = ''rm'' then Some Op_rm else None)"

definition admin_program :: "arg_parser \<Rightarrow> (string \<Rightarrow> string) \<Rightarrow> (nat \<Rightarrow> ServerInfo) \<Rightarrow> (string \<Rightarrow> int \<Rightarrow> int option)
    \<Rightarrow> (nat \<Rightarrow> string \<Rightarrow> AddServerRequest \<Rightarrow> MembershipResponse option)
    \<Rightarrow> (nat \<Rightarrow> string \<Rightarrow> RemoveServerRequest \<Rightarrow> MembershipResponse option) \<Rightarrow> string list \<Rightarrow> string outcome res" where
  "admin_program parse files junk ping addStub rmStub argv =
     run_program parse admin_specs argv (\<lambda>p.
       case admin_op_of (str_value p ''--op'') of
         None \<Rightarrow> Inr (Exit 1)
       | Some op \<Rightarrow>
           rbind (get_int p ''--id'') (\<lambda>sid.
           rbind (get_int p ''--raft_port'') (\<lambda>raftPort.
           rbind (get_int p ''--db_port'') (\<lambda>dbPort.
           ran (admin_main junk ping addStub rmStub op sid (str_value p ''--ip'') raftPort dbPort (str_value p ''--name'')
                  (files (str_value p ''--config'')))))))"

definition mask_specs :: "arg_spec list" where
  "mask_specs = [\<lparr>spec_name = ''--config'', spec_kind = Required\<rparr>, \<lparr>spec_name = ''--partition'', spec_kind = Required\<rparr>]"

definition mask_program :: "arg_parser \<Rightarrow> (string \<Rightarrow> string) \<Rightarrow> (nat \<Rightarrow> ServerInfo) \<Rightarrow> string list
    \<Rightarrow> (string \<times> NetworkUpdateRequest) list res option outcome res" where
  "mask_program parse files junk argv =
     run_program parse mask_specs argv (\<lambda>p.
       rbind (ParseConfig junk (files (str_value p ''--config''))) (\<lambda>servers.
       Inr (Ran (updatemask servers (str_value p ''--partition'')))))"

definition writestore_specs :: "arg_spec list" where
  "writestore_specs =
     [\<lparr>spec_name = ''--input'', spec_kind = Required\<rparr>, \<lparr>spec_name = ''--outputdir'', spec_kind = Required\<rparr>,
      \<lparr>spec_name = ''--votedfor'', spec_kind = Default_Value ''-1''\<rparr>, \<lparr>spec_name = ''--currentterm'', spec_kind = Default_Value ''0''\<rparr>,
      \<lparr>spec_name = ''--id'', spec_kind = Required\<rparr>]"

definition writestore_program :: "arg_parser \<Rightarrow> (string \<Rightarrow> string) \<Rightarrow> LogEntry cxx_type \<Rightarrow> (nat \<Rightarrow> int) \<Rightarrow> fs \<Rightarrow> string list \<Rightarrow> fs outcome res" where
  "writestore_program parse files T rnd fs argv =
     run_program parse writestore_specs argv (\<lambda>p.
       rbind (get_int p ''--id'') (\<lambda>sid.
       rbind (get_int p ''--votedfor'') (\<lambda>votedFor.
       rbind (get_int p ''--currentterm'') (\<lambda>currentTerm.
       ran (writestore T rnd sid votedFor currentTerm (files (str_value p ''--input'')) (str_value p ''--outputdir'') fs)))))"

definition readstore_specs :: "arg_spec list" where
  "readstore_specs = [\<lparr>spec_name = ''--file'', spec_kind = Required\<rparr>, \<lparr>spec_name = ''--vec'', spec_kind = Flag\<rparr>]"

text \<open>The lines printed: one per element, or the value; nothing when the value cannot be read, which is only logged.\<close>

fun number_lines :: "nat \<Rightarrow> string list \<Rightarrow> string list" where
  "number_lines cntr [] = []"
| "number_lines cntr (l # ls) = (''['' @ to_string (int cntr) @ '']'' @ [CHR 9] @ l) # number_lines (Suc cntr) ls"

definition readstore_program :: "arg_parser \<Rightarrow> LogEntry cxx_type \<Rightarrow> fs \<Rightarrow> string list \<Rightarrow> string list outcome res" where
  "readstore_program parse T fs argv =
     run_program parse readstore_specs argv (\<lambda>p.
       let filename = str_value p ''--file'' in
       if flag_value p ''--vec'' then rbind (readstore_vec T filename fs) (\<lambda>ls. Inr (Ran (number_lines 0 ls)))
       else Inr (Ran (case readstore_int filename fs of None \<Rightarrow> [] | Some l \<Rightarrow> [l])))"

definition server_specs :: "arg_spec list" where
  "server_specs =
     [\<lparr>spec_name = ''--config'', spec_kind = Required\<rparr>, \<lparr>spec_name = ''--db_port'', spec_kind = Required\<rparr>,
      \<lparr>spec_name = ''--raft_port'', spec_kind = Required\<rparr>]"

definition server_program :: "arg_parser \<Rightarrow> (string \<Rightarrow> string) \<Rightarrow> (nat \<Rightarrow> ServerInfo) \<Rightarrow> (builder_call list \<Rightarrow> 'srv option)
    \<Rightarrow> (int \<Rightarrow> nat \<Rightarrow> int) \<Rightarrow> string list \<Rightarrow> ('srv option \<times> nat \<times> 'srv) option outcome res" where
  "server_program parse files junk launch ping argv =
     run_program parse server_specs argv (\<lambda>p.
       rbind (ParseConfig junk (files (str_value p ''--config''))) (\<lambda>servers.
       ran (server_main launch ping (str_value p ''--db_port'') (str_value p ''--raft_port'') servers)))"

section \<open>What argparse documents\<close>

text \<open>
  A command line that gives declared arguments, each once: those with a value as name and value, where
  values do not look like options, and the flags as their name.
\<close>

datatype given = Value string string | Switch string

fun given_name :: "given \<Rightarrow> string" where
  "given_name (Value n v) = n"
| "given_name (Switch n) = n"

fun given_words :: "given \<Rightarrow> string list" where
  "given_words (Value n v) = [n, v]"
| "given_words (Switch n) = [n]"

definition kind_of :: "arg_spec list \<Rightarrow> string \<Rightarrow> arg_kind option" where
  "kind_of specs n = map_of (map (\<lambda>s. (spec_name s, spec_kind s)) specs) n"

fun given_ok :: "arg_spec list \<Rightarrow> given \<Rightarrow> bool" where
  "given_ok specs (Value n v) \<longleftrightarrow> kind_of specs n \<notin> {None, Some Flag} \<and> (v = [] \<or> hd v \<noteq> CHR ''-'')"
| "given_ok specs (Switch n) \<longleftrightarrow> kind_of specs n = Some Flag"

fun given_value :: "given list \<Rightarrow> string \<Rightarrow> string option" where
  "given_value [] n = None"
| "given_value (Value m v # gs) n = (if m = n then Some v else given_value gs n)"
| "given_value (Switch m # gs) n = given_value gs n"

definition complete :: "arg_spec list \<Rightarrow> given list \<Rightarrow> bool" where
  "complete specs gs \<longleftrightarrow> list_all (\<lambda>s. spec_kind s = Required \<longrightarrow> given_value gs (spec_name s) \<noteq> None) specs"

text \<open>
  The documented behaviour the programs rely on: an argument that is given has its value, one that is
  not has its default, a flag is whether it is given, and a missing required argument is an error.
\<close>

definition documented :: "arg_parser \<Rightarrow> bool" where
  "documented parse \<longleftrightarrow> (\<forall>specs gs. list_all (given_ok specs) gs \<and> distinct (map given_name gs) \<longrightarrow>
     (if complete specs gs
      then (\<exists>p. parse specs (concat (map given_words gs)) = Some p
              \<and> (\<forall>n. case kind_of specs n of
                   Some Required \<Rightarrow> Some (str_value p n) = given_value gs n
                 | Some (Default_Value d) \<Rightarrow> str_value p n = (case given_value gs n of Some v \<Rightarrow> v | None \<Rightarrow> d)
                 | Some Flag \<Rightarrow> flag_value p n = (Switch n \<in> set gs)
                 | None \<Rightarrow> True))
      else parse specs (concat (map given_words gs)) = None))"

text \<open>A parser that does this.\<close>

fun collect :: "arg_spec list \<Rightarrow> string list \<Rightarrow> given list option" where
  "collect specs [] = Some []"
| "collect specs (w # ws) =
     (case kind_of specs w of
        None \<Rightarrow> None
      | Some Flag \<Rightarrow> map_option (Cons (Switch w)) (collect specs ws)
      | Some _ \<Rightarrow> (case ws of [] \<Rightarrow> None | v # ws' \<Rightarrow> map_option (Cons (Value w v)) (collect specs ws')))"

definition plain_parse :: arg_parser where
  "plain_parse specs argv =
     (case collect specs argv of
        None \<Rightarrow> None
      | Some gs \<Rightarrow>
          if complete specs gs
          then Some \<lparr>str_value = (\<lambda>n. case given_value gs n of Some v \<Rightarrow> v
                       | None \<Rightarrow> (case kind_of specs n of Some (Default_Value d) \<Rightarrow> d | _ \<Rightarrow> [])),
                     flag_value = (\<lambda>n. Switch n \<in> set gs)\<rparr>
          else None)"

lemma collect_given: "list_all (given_ok specs) gs \<Longrightarrow> collect specs (concat (map given_words gs)) = Some gs"
proof (induction gs)
  case (Cons g gs)
  then show ?case
    by (cases g) (auto split: option.splits arg_kind.splits)
qed simp

lemma complete_required:
  assumes "complete specs gs" and "kind_of specs n = Some Required"
  shows "given_value gs n \<noteq> None"
proof -
  obtain s where "s \<in> set specs" "spec_name s = n" "spec_kind s = Required"
    using map_of_SomeD [OF assms(2) [unfolded kind_of_def]] by auto
  then show ?thesis
    using assms(1) by (auto simp: complete_def list_all_iff)
qed

lemma documented_plain_parse: "documented plain_parse"
  unfolding documented_def plain_parse_def
  by (auto simp: collect_given complete_required split: option.splits arg_kind.splits dest!: complete_required)

section \<open>What the programs do with their arguments\<close>

lemma parse_given:
  assumes "documented parse" and "list_all (given_ok specs) gs" "distinct (map given_name gs)" "complete specs gs"
  obtains p where "parse specs (concat (map given_words gs)) = Some p"
    "\<And>n. kind_of specs n = Some Required \<Longrightarrow> Some (str_value p n) = given_value gs n"
    "\<And>n d. kind_of specs n = Some (Default_Value d) \<Longrightarrow> str_value p n = (case given_value gs n of Some v \<Rightarrow> v | None \<Rightarrow> d)"
    "\<And>n. kind_of specs n = Some Flag \<Longrightarrow> flag_value p n = (Switch n \<in> set gs)"
proof -
  obtain p where p: "parse specs (concat (map given_words gs)) = Some p"
      "\<And>n. case kind_of specs n of
                   Some Required \<Rightarrow> Some (str_value p n) = given_value gs n
                 | Some (Default_Value d) \<Rightarrow> str_value p n = (case given_value gs n of Some v \<Rightarrow> v | None \<Rightarrow> d)
                 | Some Flag \<Rightarrow> flag_value p n = (Switch n \<in> set gs)
                 | None \<Rightarrow> True"
    using assms unfolding documented_def by metis
  show ?thesis
    by (rule that [OF p(1)]) (use p(2) in \<open>force split: option.splits arg_kind.splits\<close>)+
qed

text \<open>A missing required argument ends every program with status 1.\<close>

lemma incomplete_exits:
  assumes "documented parse" and "list_all (given_ok specs) gs" "distinct (map given_name gs)" "\<not> complete specs gs"
  shows "run_program parse specs (concat (map given_words gs)) body = Inr (Exit 1)"
  using assms unfolding documented_def run_program_def by auto

text \<open>
  A replica started with the required arguments only stores its state under \<open>/tmp/\<close>, starts afresh,
  takes its addresses from the configuration and makes no quick test.
\<close>

lemma replica_defaults:
  assumes "documented parse" and "\<forall>w \<in> {c, i, d}. w = [] \<or> hd w \<noteq> CHR ''-''"
  shows "replica_program parse files junk pings pause ready fts n [''--config'', c, ''--id'', i, ''--db_path'', d]
    = ran (replica_run junk (files c)
        \<lparr>arg_id = i, arg_storedir = ''/tmp/'', arg_bootstrap = False, arg_addedNode = False, arg_ip = [], arg_raft_port = ''-1'', arg_db_port = ''-1'', arg_quicktest = False\<rparr>
        pings pause ready fts n)"
proof -
  let ?gs = "[Value ''--config'' c, Value ''--id'' i, Value ''--db_path'' d]"
  have g: "list_all (given_ok replica_specs) ?gs" "distinct (map given_name ?gs)" "complete replica_specs ?gs"
    using assms(2) by (simp_all add: replica_specs_def kind_of_def complete_def)
  obtain p where p: "parse replica_specs (concat (map given_words ?gs)) = Some p"
      "\<And>n. kind_of replica_specs n = Some Required \<Longrightarrow> Some (str_value p n) = given_value ?gs n"
      "\<And>n d. kind_of replica_specs n = Some (Default_Value d) \<Longrightarrow> str_value p n = (case given_value ?gs n of Some v \<Rightarrow> v | None \<Rightarrow> d)"
      "\<And>n. kind_of replica_specs n = Some Flag \<Longrightarrow> flag_value p n = (Switch n \<in> set ?gs)"
    using parse_given [OF assms(1) g] by blast
  have "str_value p ''--config'' = c" "str_value p ''--id'' = i"
    using p(2) [of "''--config''"] p(2) [of "''--id''"] by (simp_all add: kind_of_def replica_specs_def)
  moreover have "str_value p ''--storedir'' = ''/tmp/''" "str_value p ''--ip'' = []" "str_value p ''--raft_port'' = ''-1''" "str_value p ''--db_port'' = ''-1''"
    using p(3) [of "''--storedir''"] p(3) [of "''--ip''"] p(3) [of "''--raft_port''"] p(3) [of "''--db_port''"]
    by (simp_all add: kind_of_def replica_specs_def)
  moreover have "\<not> flag_value p ''--bootstrap''" "\<not> flag_value p ''--addedNode''" "\<not> flag_value p ''--quicktest''"
    using p(4) [of "''--bootstrap''"] p(4) [of "''--addedNode''"] p(4) [of "''--quicktest''"] by (simp_all add: kind_of_def replica_specs_def)
  ultimately show ?thesis
    using p(1) by (simp add: replica_program_def run_program_def replica_args_of_def)
qed

text \<open>An operation other than \<open>add\<close> and \<open>rm\<close> ends the administration tool before it reads its other arguments.\<close>

lemma admin_bad_op:
  assumes "parse admin_specs argv = Some p" and "str_value p ''--op'' \<notin> {''add'', ''rm''}"
  shows "admin_program parse files junk ping addStub rmStub argv = Inr (Exit 1)"
  using assms by (simp add: admin_program_def run_program_def admin_op_of_def)

end
