(* ===== verification/TestUtils.thy ===== *)
theory TestUtils
  imports ConsensusUtils TimeTravelSignal
begin

text \<open>
  The test code of \<open>ohmyraft\<close>: the stubs of \<open>TestUtils.H\<close> and the manual test \<open>tester.cpp\<close>, which drives a
  \<open>TimeTravelSignal\<close> from three threads. The sleeps of the test do not order its threads: the wait of the
  first one may come before or after the first signal.
\<close>

section \<open>The stubs\<close>

definition FollowerProxy_copyOp :: "int \<Rightarrow> RaftOp \<Rightarrow> string res" where
  "FollowerProxy_copyOp me op = rbind (op_str op) (\<lambda>s. Inr (''['' @ to_string me @ '']: '' @ s))"

definition RaftClientProxy_AppendEntries :: "AppendEntriesParams \<Rightarrow> AppendEntriesRet option" where
  "RaftClientProxy_AppendEntries a = None"

definition RaftClientProxy_RequestVote :: "RequestVoteParams \<Rightarrow> RequestVoteRet option" where
  "RaftClientProxy_RequestVote a = None"

lemma copyOp_prints: "op_typed op \<Longrightarrow> \<exists>s. FollowerProxy_copyOp me op = Inr s"
  using op_typed_str by (fastforce simp: FollowerProxy_copyOp_def)

section \<open>The test\<close>

text \<open>
  \<open>waitFirst\<close> says whether the wait of the first thread comes before the first signal. The result says for
  each of the two threads whether it ends, so that \<open>join\<close> returns, and the state of the signal.
\<close>

definition tester_first :: "bool \<Rightarrow> bool \<times> tts" where
  "tester_first waitFirst =
     (if waitFirst
      then (case tts_wait 1 tts_init of (r, s) \<Rightarrow> let s' = tts_signal s in (r = Returned \<or> 1 \<notin> blocked s', s'))
      else (case tts_wait 1 (tts_signal tts_init) of (r, s) \<Rightarrow> (r = Returned, s)))"

definition tester_main :: "bool \<Rightarrow> bool \<times> bool \<times> tts" where
  "tester_main waitFirst =
     (case tester_first waitFirst of (joined1, s) \<Rightarrow>
      case tts_wait 2 (tts_signal s) of (r, s') \<Rightarrow> (joined1, r = Returned, s'))"

text \<open>In either order both threads get their signal and the test ends, with the signal as it was at the start.\<close>

lemma tester_ends: "tester_main waitFirst = (True, True, tts_init)"
  by (simp add: tester_main_def tester_first_def tts_wait_def tts_signal_def tts_init_def notify_all_def)

end
